(* ===== verification/Prelude.thy ===== *)
theory Prelude
  imports Main "HOL-Library.Word"
begin

text \<open>
  The shared prelude of the development.  It names the machine integer types of the Rust sources,
  gives the standard-library integer operations the sources call (checked, saturating and
  bit-counting ones), and collects the generic facts on words, lists and options that the component
  theories use.  Facts about the bits of a word go into \<open>bit_facts\<close>, facts that move
  an arithmetic goal from words to natural numbers into \<open>unat_facts\<close>.
\<close>

unbundle bit_operations_syntax

named_theorems bit_facts
named_theorems unat_facts

type_synonym u8 = "8 word"
type_synonym u16 = "16 word"
type_synonym u32 = "32 word"
type_synonym u64 = "64 word"


section \<open>Integer operations of the Rust standard library\<close>

definition checked_add :: "'a::len word \<Rightarrow> 'a word \<Rightarrow> 'a word option" where
  "checked_add a b = (if unat a + unat b < 2 ^ LENGTH('a) then Some (a + b) else None)"

definition saturating_add :: "'a::len word \<Rightarrow> 'a word \<Rightarrow> 'a word" where
  "saturating_add a b = (if unat a + unat b < 2 ^ LENGTH('a) then a + b else - 1)"

definition saturating_mul :: "'a::len word \<Rightarrow> 'a word \<Rightarrow> 'a word" where
  "saturating_mul a b = (if unat a * unat b < 2 ^ LENGTH('a) then a * b else - 1)"

definition saturating_sub :: "'a::len word \<Rightarrow> 'a word \<Rightarrow> 'a word" where
  "saturating_sub a b = (if b \<le> a then a - b else 0)"

definition trailing_zeros :: "'a::len word \<Rightarrow> nat" where
  "trailing_zeros w = length (takeWhile (\<lambda>i. \<not> bit w i) [0..<LENGTH('a)])"

definition trailing_ones :: "'a::len word \<Rightarrow> nat" where
  "trailing_ones w = trailing_zeros (NOT w)"

definition bit_mask :: "nat \<Rightarrow> 'a::len word" where
  "bit_mask i = push_bit i 1"


section \<open>Unsigned arithmetic through \<open>unat\<close>\<close>

lemma unat_add_no_wrap [unat_facts]:
  "unat a + unat b < 2 ^ LENGTH('a) \<Longrightarrow> unat (a + b :: 'a::len word) = unat a + unat b"
  by (simp add: unat_add_lem [symmetric])

lemma unat_sub_le [unat_facts]:
  "b \<le> a \<Longrightarrow> unat (a - b :: 'a::len word) = unat a - unat b"
  by (rule unat_sub)

lemma unat_less_len: "unat (w :: 'a::len word) < 2 ^ LENGTH('a)"
  by (rule unsigned_less)

lemma unat_ucast_up:
  "LENGTH('a::len) \<le> LENGTH('b::len) \<Longrightarrow> unat (ucast (w :: 'a word) :: 'b word) = unat w"
  by (simp add: is_up nat_int_comparison(1) uint_up_ucast)

lemma checked_add_SomeD:
  assumes "checked_add a b = Some (c :: 'a::len word)"
  shows "unat c = unat a + unat b" and "c = a + b" and "unat a + unat b < 2 ^ LENGTH('a)"
  using assms by (auto simp: checked_add_def unat_facts split: if_splits)

lemma checked_add_eq_Some [simp]:
  "checked_add a b = Some c \<longleftrightarrow> unat a + unat b < 2 ^ LENGTH('a) \<and> c = a + (b :: 'a::len word)"
  by (auto simp: checked_add_def)

lemma checked_add_eq_None [simp]:
  "checked_add a (b :: 'a::len word) = None \<longleftrightarrow> 2 ^ LENGTH('a) \<le> unat a + unat b"
  by (auto simp: checked_add_def)

lemma unat_saturating_add:
  "unat (saturating_add a b :: 'a::len word) = min (unat a + unat b) (2 ^ LENGTH('a) - 1)"
  by (auto simp: saturating_add_def unat_facts min_def unsigned_minus_1_eq_mask mask_eq_exp_minus_1)

lemma unat_saturating_mul:
  "unat (saturating_mul a b :: 'a::len word) = min (unat a * unat b) (2 ^ LENGTH('a) - 1)"
proof (cases "unat a * unat b < 2 ^ LENGTH('a)")
  case True
  then have "unat (a * b) = unat a * unat b" using unat_mult_lem by blast
  with True show ?thesis by (simp add: saturating_mul_def)
qed (simp add: saturating_mul_def unsigned_minus_1_eq_mask mask_eq_exp_minus_1)

text \<open>The same on integers, which evaluate in binary.\<close>

lemma saturating_add_code [code]:
  "saturating_add a b = (if uint a + uint b < 2 ^ LENGTH('a) then a + b else - 1 :: 'a::len word)"
proof -
  have "uint a + uint b < 2 ^ LENGTH('a) \<longleftrightarrow> unat a + unat b < 2 ^ LENGTH('a)"
    using of_nat_less_iff [of "unat a + unat b" "2 ^ LENGTH('a)", where ?'a = int] by (simp only: of_nat_add of_nat_power of_nat_numeral uint_nat [symmetric])
  then show ?thesis by (simp add: saturating_add_def)
qed

lemma saturating_mul_code [code]:
  "saturating_mul a b = (if uint a * uint b < 2 ^ LENGTH('a) then a * b else - 1 :: 'a::len word)"
proof -
  have "uint a * uint b < 2 ^ LENGTH('a) \<longleftrightarrow> unat a * unat b < 2 ^ LENGTH('a)"
    using of_nat_less_iff [of "unat a * unat b" "2 ^ LENGTH('a)", where ?'a = int] by (simp only: of_nat_mult of_nat_power of_nat_numeral uint_nat [symmetric])
  then show ?thesis by (simp add: saturating_mul_def)
qed

lemma unat_saturating_sub:
  "unat (saturating_sub a b :: 'a::len word) = unat a - unat b"
  by (auto simp: saturating_sub_def unat_facts word_le_nat_alt)


section \<open>Single bits\<close>

lemma bit_bit_mask [bit_facts]:
  "bit (bit_mask i :: 'a::len word) j \<longleftrightarrow> j = i \<and> j < LENGTH('a)"
  by (auto simp: bit_mask_def bit_simps)

lemma bit_set_bit [bit_facts]:
  "bit (w OR bit_mask i :: 'a::len word) j \<longleftrightarrow> bit w j \<or> (j = i \<and> i < LENGTH('a))"
  by (auto simp: bit_simps bit_bit_mask)

lemma bit_clear_bit [bit_facts]:
  "bit (w AND NOT (bit_mask i) :: 'a::len word) j \<longleftrightarrow> bit w j \<and> j \<noteq> i"
  by (auto simp: bit_simps bit_bit_mask dest: bit_imp_le_length)

lemma bit_u8_less: "bit (w :: u8) i \<Longrightarrow> i < 8"
  and bit_u16_less: "bit (v :: u16) i \<Longrightarrow> i < 16"
  and bit_u32_less: "bit (x :: u32) i \<Longrightarrow> i < 32"
  and bit_u64_less: "bit (y :: u64) i \<Longrightarrow> i < 64"
  by (simp_all add: bit_imp_le_length [THEN order_less_le_trans])

lemma bit_imp_exp_le_unat:
  assumes "bit (w :: 'a::len word) i"
  shows "2 ^ i \<le> unat w"
proof -
  have "bit (unat w) i"
    using assms by (simp add: bit_unsigned_iff)
  then have "unat w div 2 ^ i \<noteq> 0"
    by (metis bit_iff_odd dvd_0_right)
  then show ?thesis by (meson div_less not_le)
qed

lemma not_bit_above: "unat (w :: 'a::len word) < 2 ^ k \<Longrightarrow> k \<le> i \<Longrightarrow> \<not> bit w i"
  by (meson bit_imp_exp_le_unat leD le_trans one_le_numeral power_increasing)

lemma word_eq_0_iff_bits: "(w :: 'a::len word) = 0 \<longleftrightarrow> (\<forall>i < LENGTH('a). \<not> bit w i)"
  by (auto intro: bit_word_eqI)

lemma trailing_zeros_nonzero:
  fixes w :: "'a::len word"
  assumes "w \<noteq> 0"
  shows "trailing_zeros w < LENGTH('a)" and "bit w (trailing_zeros w)"
    and "j < trailing_zeros w \<Longrightarrow> \<not> bit w j"
proof -
  let ?p = "\<lambda>i. \<not> bit w i" and ?xs = "[0..<LENGTH('a)]"
  from assms obtain i where i: "i < LENGTH('a)" "bit w i"
    by (auto simp: word_eq_0_iff_bits)
  have "length (takeWhile ?p ?xs) < length ?xs"
  proof (rule ccontr)
    assume "\<not> ?thesis"
    then have "takeWhile ?p ?xs = ?xs"
      using length_takeWhile_le [of ?p ?xs] takeWhile_eq_take [of ?p ?xs] by simp
    then have "\<forall>x \<in> set ?xs. ?p x"
      by (simp only: takeWhile_eq_all_conv)
    with i show False by auto
  qed
  then show lt: "trailing_zeros w < LENGTH('a)"
    by (simp add: trailing_zeros_def)
  from nth_length_takeWhile [of ?p ?xs] lt show "bit w (trailing_zeros w)"
    by (simp add: trailing_zeros_def)
  show "\<not> bit w j" if "j < trailing_zeros w"
    using that nth_mem [of j "takeWhile ?p ?xs"] takeWhile_nth [of j ?p ?xs] lt
    by (auto simp: trailing_zeros_def dest: set_takeWhileD)
qed

lemma trailing_zeros_eqI:
  fixes w :: "'a::len word"
  assumes "bit w i" and "\<And>j. j < i \<Longrightarrow> \<not> bit w j"
  shows "trailing_zeros w = i"
proof -
  have "w \<noteq> 0" using assms(1) by auto
  then show ?thesis
    using trailing_zeros_nonzero [of w] assms by (meson nat_neq_iff)
qed

text \<open>Subtracting one borrows through the trailing zeros, so \<open>w AND (w - 1)\<close> clears exactly
  the lowest set bit.\<close>

lemma bit_clear_lowest [bit_facts]:
  fixes w :: "'a::len word"
  assumes "w \<noteq> 0"
  shows "bit (w AND (w - 1)) j \<longleftrightarrow> bit w j \<and> j \<noteq> trailing_zeros w"
proof -
  let ?t = "trailing_zeros w"
  let ?h = "w AND NOT (bit_mask ?t)"
  note tz = trailing_zeros_nonzero [OF assms]
  have "?h AND bit_mask ?t = 0"
    by (rule bit_word_eqI) (simp add: bit_simps bit_bit_mask)
  then have "?h + bit_mask ?t = ?h OR bit_mask ?t"
    by (simp add: disjunctive_add_eq_or)
  also have "\<dots> = w"
    using tz by (intro bit_word_eqI) (auto simp: bit_facts)
  finally have w: "w = ?h + bit_mask ?t" by simp
  have "?h AND mask ?t = 0"
    using tz(3) by (intro bit_word_eqI) (auto simp: bit_simps bit_bit_mask)
  then have "?h + mask ?t = ?h OR mask ?t"
    by (simp add: disjunctive_add_eq_or)
  moreover have "w - 1 = ?h + mask ?t"
    by (subst w) (simp add: mask_eq_decr_exp bit_mask_def push_bit_eq_mult)
  ultimately have "bit (w - 1) j \<longleftrightarrow> bit ?h j \<or> bit (mask ?t :: 'a word) j"
    by (simp add: bit_or_iff)
  then have "bit (w - 1) j \<longleftrightarrow> (bit w j \<and> j \<noteq> ?t) \<or> (j < LENGTH('a) \<and> j < ?t)"
    by (simp only: bit_clear_bit) (auto simp: bit_mask_iff)
  then show ?thesis
    using tz(3) by (auto simp: bit_and_iff)
qed

lemma clear_lowest_less: "(w :: 'a::len word) \<noteq> 0 \<Longrightarrow> w AND (w - 1) < w"
  using less_eq_dec_iff word_and_le1 by blast


text \<open>The positions of the set bits, lowest first: what a \<open>trailing_zeros\<close> scan visits.\<close>

definition set_bits_of :: "'a::len word \<Rightarrow> nat list" where
  "set_bits_of w = filter (bit w) [0..<LENGTH('a)]"

lemma set_set_bits_of [simp]: "set (set_bits_of (w :: 'a::len word)) = {i. bit w i}"
  by (auto simp: set_bits_of_def dest: bit_imp_le_length)

lemma distinct_set_bits_of [simp]: "distinct (set_bits_of w)"
  by (simp add: set_bits_of_def)

lemma set_bits_of_0 [simp]: "set_bits_of (0 :: 'a::len word) = []"
  by (simp add: set_bits_of_def)

lemma set_bits_of_step:
  fixes w :: "'a::len word"
  assumes "w \<noteq> 0"
  shows "set_bits_of w = trailing_zeros w # set_bits_of (w AND (w - 1))"
proof -
  let ?t = "trailing_zeros w" and ?v = "w AND (w - 1)"
  note tz = trailing_zeros_nonzero [OF assms]
  have upt: "[0..<LENGTH('a)] = [0..<?t] @ ?t # [Suc ?t..<LENGTH('a)]"
    using tz(1) by (metis less_imp_le_nat upt_add_eq_append upt_conv_Cons le0 le_add_diff_inverse add.left_neutral)
  have "filter (bit w) [0..<?t] = []" "filter (bit ?v) [0..<?t] = []"
    using tz(3) by (auto simp: filter_empty_conv bit_and_iff)
  moreover have "filter (bit ?v) [Suc ?t..<LENGTH('a)] = filter (bit w) [Suc ?t..<LENGTH('a)]"
    by (rule filter_cong) (auto simp: bit_clear_lowest [OF assms])
  moreover have "\<not> bit ?v ?t" by (simp add: bit_clear_lowest [OF assms])
  ultimately show ?thesis
    using tz(2) by (simp add: set_bits_of_def upt)
qed


section \<open>Lists of options\<close>

text \<open>Fixed arrays of optional entries back both the capability table and the generational
  table; \<open>occupancy\<close> counts the entries that are present.\<close>

definition occupancy :: "'a option list \<Rightarrow> nat" where
  "occupancy xs = length (filter (\<lambda>s. s \<noteq> None) xs)"

lemma occupancy_replicate_None [simp]: "occupancy (replicate n None) = 0"
  by (simp add: occupancy_def)

lemma occupancy_le [simp]: "occupancy xs \<le> length xs"
  by (simp add: occupancy_def)

lemma occupancy_Cons [simp]: "occupancy (x # xs) = (if x = None then 0 else 1) + occupancy xs"
  by (simp add: occupancy_def)

lemma occupancy_Nil [simp]: "occupancy [] = 0"
  by (simp add: occupancy_def)

lemma occupancy_update:
  "i < length xs \<Longrightarrow>
    occupancy (xs[i := v]) + (if xs ! i = None then 0 else 1)
      = occupancy xs + (if v = None then 0 else 1)"
proof (induction xs arbitrary: i)
  case (Cons x xs)
  then show ?case by (cases i) auto
qed simp

lemma occupancy_fill:
  "i < length xs \<Longrightarrow> xs ! i = None \<Longrightarrow> occupancy (xs[i := Some c]) = Suc (occupancy xs)"
  using occupancy_update [of i xs "Some c"] by simp

lemma occupancy_refill:
  "i < length xs \<Longrightarrow> xs ! i \<noteq> None \<Longrightarrow> occupancy (xs[i := Some c]) = occupancy xs"
  using occupancy_update [of i xs "Some c"] by auto

lemma occupancy_empty:
  "i < length xs \<Longrightarrow> xs ! i \<noteq> None \<Longrightarrow> Suc (occupancy (xs[i := None])) = occupancy xs"
  using occupancy_update [of i xs None] by auto

lemma occupancy_less:
  "i < length xs \<Longrightarrow> xs ! i = None \<Longrightarrow> occupancy xs < length xs"
  using occupancy_fill [of i xs undefined] occupancy_le [of "xs[i := Some undefined]"] by simp

lemma occupancy_pos:
  "i < length xs \<Longrightarrow> xs ! i \<noteq> None \<Longrightarrow> 0 < occupancy xs"
  using occupancy_empty [of i xs] by simp

lemma replicate_2: "replicate 2 x = [x, x]"
  by (simp add: numeral_2_eq_2)

end
