(* ===== verification/Capability.thy ===== *)
theory Capability
  imports Prelude
begin

text \<open>
  The capability model of \<open>src/crates/capability/src/lib.rs\<close>: rights, capabilities, the
  supervision decisions, and the fixed-size capability table with its free-slot word, its
  occupancy count and its high-water mark.

  A table operation runs on a pair: the table itself and the crate's one static, \<open>PEAK\<close>,
  which \<open>fill\<close> raises.  \<open>slot as usize\<close> is the identity on the three 64-bit targets and is
  written \<open>unat\<close>.  A \<open>Result\<close> is a sum with the error on the left.
\<close>


section \<open>Rights\<close>

datatype Rights = Rights (rights_word: u32)

definition RIGHTS_NONE :: Rights where "RIGHTS_NONE = Rights 0"
definition RIGHTS_READ :: Rights where "RIGHTS_READ = Rights (push_bit 0 1)"
definition RIGHTS_WRITE :: Rights where "RIGHTS_WRITE = Rights (push_bit 1 1)"
definition RIGHTS_GRANT :: Rights where "RIGHTS_GRANT = Rights (push_bit 2 1)"
definition RIGHTS_ENUMERATE :: Rights where "RIGHTS_ENUMERATE = Rights (push_bit 3 1)"
definition RIGHTS_ALL :: Rights where "RIGHTS_ALL = Rights 0b1111"

fun bits :: "Rights \<Rightarrow> u32" where
  "bits (Rights w) = w"

definition from_bits :: "u32 \<Rightarrow> Rights" where
  "from_bits w = Rights (w AND bits RIGHTS_ALL)"

definition rights_union :: "Rights \<Rightarrow> Rights \<Rightarrow> Rights" where
  "rights_union a b = Rights (bits a OR bits b)"

definition rights_intersect :: "Rights \<Rightarrow> Rights \<Rightarrow> Rights" where
  "rights_intersect a b = Rights (bits a AND bits b)"

definition allows :: "Rights \<Rightarrow> Rights \<Rightarrow> bool" where
  "allows a needed \<longleftrightarrow> bits a AND bits needed = bits needed"

definition is_subset_of :: "Rights \<Rightarrow> Rights \<Rightarrow> bool" where
  "is_subset_of a b \<longleftrightarrow> bits a AND NOT (bits b) = 0"


section \<open>Capabilities and the supervision decisions\<close>

record 'o Cap =
  object :: 'o
  rights :: Rights

definition mint_child :: "'o Cap \<Rightarrow> 'o \<Rightarrow> 'o Cap" where
  "mint_child self obj = \<lparr>object = obj, rights = rights self\<rparr>"

datatype Reap = Permitted | StillAlive | NotSupervised

definition reap_decision :: "u64 option \<Rightarrow> u64 \<Rightarrow> bool \<Rightarrow> Reap" where
  "reap_decision fault_ep invoked_ep dead =
     (case fault_ep of
        Some ep \<Rightarrow> if ep = invoked_ep then (if dead then Permitted else StillAlive) else NotSupervised
      | None \<Rightarrow> NotSupervised)"

definition survey_includes :: "u64 option \<Rightarrow> u64 \<Rightarrow> bool" where
  "survey_includes fault_ep invoked_ep =
     (case fault_ep of Some ep \<Rightarrow> ep = invoked_ep | None \<Rightarrow> False)"


section \<open>The table: storage and its two doors\<close>

datatype Error = NoSuchSlot | CannotWiden | NoFreeSlot

record 'o CapabilityTable =
  cap_slots :: "'o Cap option list"
  cap_free :: u32
  cap_used :: u16
  cap_peak :: u16

definition MAX_SLOTS :: nat where "MAX_SLOTS = 32"

text \<open>The const generic \<open>N\<close> is the length of the slot array.\<close>

definition capacity :: "'o CapabilityTable \<Rightarrow> nat" where
  "capacity cs = length (cap_slots cs)"

definition ALL_FREE :: "nat \<Rightarrow> u32" where
  "ALL_FREE N = (if N = MAX_SLOTS then - 1 else push_bit N 1 - 1)"

definition new_table :: "nat \<Rightarrow> 'o CapabilityTable" where
  "new_table N = \<lparr>cap_slots = replicate N None, cap_free = ALL_FREE N, cap_used = 0, cap_peak = 0\<rparr>"

definition slot :: "'o CapabilityTable \<Rightarrow> nat \<Rightarrow> 'o Cap option" where
  "slot cs i = (if i < capacity cs then cap_slots cs ! i else None)"

definition first_free :: "'o CapabilityTable \<Rightarrow> nat option" where
  "first_free cs = (if cap_free cs = 0 then None else Some (trailing_zeros (cap_free cs)))"

definition occupied_mask :: "'o CapabilityTable \<Rightarrow> u32" where
  "occupied_mask cs = NOT (cap_free cs) AND ALL_FREE (capacity cs)"

definition all_free :: "'o CapabilityTable \<Rightarrow> bool" where
  "all_free cs \<longleftrightarrow> cap_free cs = ALL_FREE (capacity cs)"

text \<open>\<open>PEAK\<close> packs the highest occupancy any table reached with that table's capacity.\<close>

definition note_peak :: "u32 \<Rightarrow> u16 \<Rightarrow> nat \<Rightarrow> u32" where
  "note_peak PEAK peak ceiling =
     (let ceiling = of_nat (min ceiling 65535) :: u32;
          packed = push_bit 16 (ucast peak :: u32) OR ceiling
      in max PEAK packed)"

lemma note_peak_code [code]:
  "note_peak PEAK peak ceiling = max PEAK (push_bit 16 (ucast peak) OR word_of_int (min (int ceiling) 65535))"
  by (simp add: note_peak_def Let_def min_def)

definition highest_seen :: "u32 \<Rightarrow> nat \<times> nat" where
  "highest_seen PEAK = (unat (drop_bit 16 PEAK), unat (PEAK AND 0xffff))"

type_synonym 'o cap_state = "'o CapabilityTable \<times> u32"

definition fill :: "'o cap_state \<Rightarrow> nat \<Rightarrow> 'o Cap \<Rightarrow> bool option \<times> 'o cap_state" where
  "fill st i cap =
     (let (cs, PEAK) = st in
      if i < capacity cs then
        let was_empty = (cap_slots cs ! i = None);
            cs = cs\<lparr>cap_slots := (cap_slots cs)[i := Some cap],
                    cap_free := cap_free cs AND NOT (bit_mask i)\<rparr>
        in if was_empty then
             let cs = cs\<lparr>cap_used := cap_used cs + 1\<rparr>
             in if cap_used cs > cap_peak cs then
                  let cs = cs\<lparr>cap_peak := cap_used cs\<rparr>
                  in (Some True, (cs, note_peak PEAK (cap_peak cs) (capacity cs)))
                else (Some True, (cs, PEAK))
           else (Some False, (cs, PEAK))
      else (None, st))"

definition empty_slot :: "'o cap_state \<Rightarrow> nat \<Rightarrow> 'o Cap option \<times> 'o cap_state" where
  "empty_slot st i =
     (let (cs, PEAK) = st in
      case slot cs i of
        None \<Rightarrow> (None, st)
      | Some cap \<Rightarrow>
          (Some cap,
           (cs\<lparr>cap_slots := (cap_slots cs)[i := None],
               cap_free := cap_free cs OR bit_mask i,
               cap_used := cap_used cs - 1\<rparr>, PEAK)))"


section \<open>The table: the operations built on the doors\<close>

definition cap_is_empty :: "'o CapabilityTable \<Rightarrow> bool" where
  "cap_is_empty cs = all_free cs"

definition get :: "'o CapabilityTable \<Rightarrow> u64 \<Rightarrow> Error + 'o Cap" where
  "get cs s = (case slot cs (unat s) of None \<Rightarrow> Inl NoSuchSlot | Some c \<Rightarrow> Inr c)"

definition get_with :: "'o CapabilityTable \<Rightarrow> u64 \<Rightarrow> Rights \<Rightarrow> Error + 'o Cap" where
  "get_with cs s needed =
     (case get cs s of
        Inl e \<Rightarrow> Inl e
      | Inr cap \<Rightarrow> if \<not> allows (rights cap) needed then Inl CannotWiden else Inr cap)"

definition insert_cap :: "'o cap_state \<Rightarrow> 'o Cap \<Rightarrow> (Error + u64) \<times> 'o cap_state" where
  "insert_cap st cap =
     (case first_free (fst st) of
        None \<Rightarrow> (Inl NoFreeSlot, st)
      | Some i \<Rightarrow> (Inr (of_nat i), snd (fill st i cap)))"

definition insert_at :: "'o cap_state \<Rightarrow> u64 \<Rightarrow> 'o Cap \<Rightarrow> (Error + u64) \<times> 'o cap_state" where
  "insert_at st s cap =
     (if s \<ge> of_nat (capacity (fst st)) then (Inl NoSuchSlot, st)
      else if slot (fst st) (unat s) \<noteq> None then (Inl NoFreeSlot, st)
      else (Inr s, snd (fill st (unat s) cap)))"

definition put :: "'o cap_state \<Rightarrow> u64 \<Rightarrow> 'o Cap \<Rightarrow> (Error + unit) \<times> 'o cap_state" where
  "put st s cap =
     (case fill st (unat s) cap of
        (None, st') \<Rightarrow> (Inl NoSuchSlot, st')
      | (Some _, st') \<Rightarrow> (Inr (), st'))"

definition derive :: "'o cap_state \<Rightarrow> u64 \<Rightarrow> u64 \<Rightarrow> Rights \<Rightarrow> (Error + unit) \<times> 'o cap_state" where
  "derive st from_slot to_slot r =
     (case get (fst st) from_slot of
        Inl e \<Rightarrow> (Inl e, st)
      | Inr src \<Rightarrow>
          if \<not> is_subset_of r (rights src) then (Inl CannotWiden, st)
          else put st to_slot \<lparr>object = object src, rights = r\<rparr>)"

definition delete :: "'o cap_state \<Rightarrow> u64 \<Rightarrow> (Error + unit) \<times> 'o cap_state" where
  "delete st s =
     (case empty_slot st (unat s) of
        (None, st') \<Rightarrow> (Inl NoSuchSlot, st')
      | (Some _, st') \<Rightarrow> (Inr (), st'))"

text \<open>The body of \<open>delete_matching\<close>: one round per set bit of the mask sampled at entry.\<close>

function delete_matching_loop ::
    "('o \<Rightarrow> bool) \<Rightarrow> u32 \<Rightarrow> 'o cap_state \<Rightarrow> 'o cap_state" where
  "delete_matching_loop matches occupied st =
     (if occupied = 0 then st
      else
        let i = trailing_zeros occupied;
            st' = (case slot (fst st) i of
                     Some c \<Rightarrow> if matches (object c) then snd (empty_slot st i) else st
                   | None \<Rightarrow> st)
        in delete_matching_loop matches (occupied AND (occupied - 1)) st')"
  by pat_completeness auto
termination
  by (relation "measure (\<lambda>(_, occupied, _). unat occupied)")
     (auto simp: word_less_nat_alt [symmetric] clear_lowest_less)

declare delete_matching_loop.simps [simp del]

definition delete_matching :: "'o cap_state \<Rightarrow> ('o \<Rightarrow> bool) \<Rightarrow> 'o cap_state" where
  "delete_matching st matches = delete_matching_loop matches (occupied_mask (fst st)) st"


section \<open>The rights lattice\<close>

lemma Rights_eq_iff: "a = b \<longleftrightarrow> (\<forall>i. bit (bits a) i \<longleftrightarrow> bit (bits b) i)"
  by (cases a; cases b) (auto intro: bit_eqI)

lemma is_subset_of_bits [bit_facts]:
  "is_subset_of a b \<longleftrightarrow> (\<forall>i. bit (bits a) i \<longrightarrow> bit (bits b) i)"
proof -
  have "is_subset_of a b \<longleftrightarrow> (\<forall>i < 32. bit (bits a) i \<longrightarrow> bit (bits b) i)"
    by (auto simp: is_subset_of_def word_eq_0_iff_bits bit_simps)
  then show ?thesis by (auto dest: bit_u32_less)
qed

lemma allows_bits: "allows a b \<longleftrightarrow> (\<forall>i. bit (bits b) i \<longrightarrow> bit (bits a) i)"
  by (simp only: allows_def bit_eq_iff bit_and_iff) (auto dest: bit_u32_less)

lemma bits_rights_ops [simp]:
  "bits (rights_union a b) = bits a OR bits b"
  "bits (rights_intersect a b) = bits a AND bits b"
  "bits (from_bits w) = w AND bits RIGHTS_ALL"
  by (simp_all add: rights_union_def rights_intersect_def from_bits_def)

text \<open>Rights under \<open>is_subset_of\<close> are a distributive lattice with \<open>intersect\<close> and
  \<open>union\<close> as its operations, so the library's order reasoning applies to them.\<close>

instantiation Rights :: distrib_lattice
begin
definition "a \<le> b \<longleftrightarrow> is_subset_of a b"
definition "a < b \<longleftrightarrow> is_subset_of a b \<and> \<not> is_subset_of b (a :: Rights)"
definition "inf a b = rights_intersect a b"
definition "sup a b = rights_union a b"
instance
  by standard
     (auto simp: less_eq_Rights_def less_Rights_def inf_Rights_def sup_Rights_def is_subset_of_bits
       Rights_eq_iff bit_simps)
end

lemma from_bits_le_ALL: "from_bits w \<le> RIGHTS_ALL"
  by (simp add: less_eq_Rights_def is_subset_of_bits bit_simps)

lemma from_bits_bits: "r \<le> RIGHTS_ALL \<Longrightarrow> from_bits (bits r) = r"
  by (auto simp: less_eq_Rights_def is_subset_of_bits Rights_eq_iff bit_simps)


section \<open>The two doors against the slot array\<close>

lemma bit_ALL_FREE:
  assumes "N \<le> MAX_SLOTS"
  shows "bit (ALL_FREE N) i \<longleftrightarrow> i < N"
proof -
  have "ALL_FREE N = mask N"
    using assms by (auto simp: ALL_FREE_def MAX_SLOTS_def mask_eq_decr_exp push_bit_eq_mult)
  with assms show ?thesis by (auto simp: bit_mask_iff MAX_SLOTS_def)
qed

lemma capacity_doors [simp]:
  "capacity (fst (snd (fill st i c))) = capacity (fst st)"
  "capacity (fst (snd (empty_slot st i))) = capacity (fst st)"
  by (auto simp: capacity_def fill_def empty_slot_def Let_def split: prod.splits option.splits)

lemma fst_fill:
  "fst (fill st i c) = (if i < capacity (fst st) then Some (slot (fst st) i = None) else None)"
  by (auto simp: fill_def slot_def Let_def split: prod.splits)

lemma slot_fill [simp]:
  "slot (fst (snd (fill st i c))) j =
     (if j = i \<and> i < capacity (fst st) then Some c else slot (fst st) j)"
  by (auto simp: fill_def slot_def capacity_def Let_def nth_list_update split: prod.splits)

lemma fst_empty_slot: "fst (empty_slot st i) = slot (fst st) i"
  by (auto simp: empty_slot_def Let_def split: prod.splits option.splits)

lemma slot_empty_slot [simp]:
  "slot (fst (snd (empty_slot st i))) j = (if j = i then None else slot (fst st) j)"
  by (auto simp: empty_slot_def slot_def capacity_def Let_def nth_list_update
           split: prod.splits option.splits if_splits)


section \<open>The table invariant\<close>

text \<open>The free word is the set of empty slots, the count is the number of occupied ones, and the
  high-water mark lies between the count and the capacity and is covered by \<open>PEAK\<close>.\<close>

definition table_wf :: "'o CapabilityTable \<Rightarrow> bool" where
  "table_wf cs \<longleftrightarrow>
     capacity cs \<le> MAX_SLOTS \<and>
     (\<forall>i < 32. bit (cap_free cs) i \<longleftrightarrow> i < capacity cs \<and> slot cs i = None) \<and>
     unat (cap_used cs) = occupancy (cap_slots cs) \<and>
     cap_used cs \<le> cap_peak cs \<and>
     unat (cap_peak cs) \<le> capacity cs"

definition state_wf :: "'o cap_state \<Rightarrow> bool" where
  "state_wf st \<longleftrightarrow> table_wf (fst st) \<and> unat (cap_peak (fst st)) \<le> fst (highest_seen (snd st))"

lemma unat_drop_16: "unat (drop_bit 16 (w :: u32)) = unat w div 65536"
  by (simp add: drop_bit_eq_div unat_div)

lemma highest_seen_note_peak:
  "fst (highest_seen (note_peak P pk n)) = max (fst (highest_seen P)) (unat pk)"
proof -
  define c where "c = (of_nat (min n 65535) :: u32)"
  have c: "unat c < 65536"
    by (simp add: c_def unat_of_nat min_def)
  have "push_bit 16 (ucast pk :: u32) AND c = 0"
  proof (rule bit_word_eqI)
    fix i assume "i < LENGTH(32)"
    have "\<not> bit c i" if "16 \<le> i"
      using not_bit_above [of c 16 i] c that by simp
    then show "bit (push_bit 16 (ucast pk :: u32) AND c) i = bit 0 i"
      by (auto simp: bit_simps)
  qed
  then have "push_bit 16 (ucast pk :: u32) OR c = push_bit 16 (ucast pk) + c"
    by (simp add: disjunctive_add_eq_or)
  moreover have "unat (push_bit 16 (ucast pk :: u32)) = unat pk * 65536"
    using unat_less_len [of pk]
    by (simp add: push_bit_eq_mult unat_word_ariths unat_ucast_up)
  ultimately have "unat (push_bit 16 (ucast pk :: u32) OR c) = unat pk * 65536 + unat c"
    using c unat_less_len [of pk] by (simp add: unat_facts)
  with c have "unat (drop_bit 16 (push_bit 16 (ucast pk :: u32) OR c)) = unat pk"
    unfolding unat_drop_16 by simp
  moreover have "unat (drop_bit 16 (max P Q)) = max (unat (drop_bit 16 P)) (unat (drop_bit 16 Q))"
    for Q :: u32
    by (auto simp: unat_drop_16 max_def word_le_nat_alt div_le_mono)
  ultimately show ?thesis
    by (simp add: note_peak_def highest_seen_def Let_def c_def)
qed


lemma table_wfD:
  assumes "table_wf cs"
  shows "capacity cs \<le> 32"
    and "bit (cap_free cs) i \<longleftrightarrow> i < capacity cs \<and> slot cs i = None"
    and "unat (cap_used cs) = occupancy (cap_slots cs)"
    and "unat (cap_used cs) \<le> unat (cap_peak cs)"
    and "unat (cap_peak cs) \<le> capacity cs"
  using assms bit_u32_less [of "cap_free cs" i]
  by (auto simp: table_wf_def MAX_SLOTS_def word_le_nat_alt)

lemma table_wf_new: "N \<le> MAX_SLOTS \<Longrightarrow> table_wf (new_table N)"
  by (auto simp: table_wf_def new_table_def capacity_def slot_def bit_ALL_FREE)

lemma state_wf_new: "N \<le> MAX_SLOTS \<Longrightarrow> state_wf (new_table N, P)"
  by (simp add: state_wf_def table_wf_new) (simp add: new_table_def)

lemma unat_used_Suc:
  assumes "table_wf cs" "i < capacity cs" "slot cs i = None"
  shows "unat (cap_used cs + 1) = Suc (unat (cap_used cs))"
    and "Suc (unat (cap_used cs)) \<le> capacity cs"
proof -
  have "occupancy (cap_slots cs) < capacity cs"
    using assms occupancy_less [of i "cap_slots cs"] by (simp add: slot_def capacity_def)
  then show "Suc (unat (cap_used cs)) \<le> capacity cs"
    using table_wfD(3) [OF assms(1)] by simp
  then show "unat (cap_used cs + 1) = Suc (unat (cap_used cs))"
    using table_wfD(1) [OF assms(1)] by (simp add: unat_facts)
qed

lemma table_wfI:
  assumes "capacity cs \<le> 32" and "\<And>j. bit (cap_free cs) j \<longleftrightarrow> j < capacity cs \<and> slot cs j = None"
    and "unat (cap_used cs) = occupancy (cap_slots cs)" and "unat (cap_used cs) \<le> unat (cap_peak cs)"
    and "unat (cap_peak cs) \<le> capacity cs"
  shows "table_wf cs"
  using assms by (simp add: table_wf_def MAX_SLOTS_def word_le_nat_alt)

lemma fill_fields:
  fixes cs :: "'o CapabilityTable" and c :: "'o Cap" and P :: u32
  assumes "i < capacity cs"
  defines "st \<equiv> snd (fill (cs, P) i c)"
  shows "cap_slots (fst st) = (cap_slots cs)[i := Some c]"
    and "cap_free (fst st) = cap_free cs AND NOT (bit_mask i)"
    and "cap_used (fst st) = (if slot cs i = None then cap_used cs + 1 else cap_used cs)"
    and "cap_peak (fst st) = (if slot cs i = None then max (cap_peak cs) (cap_used cs + 1) else cap_peak cs)"
    and "snd st = (if slot cs i = None \<and> cap_peak cs < cap_used cs + 1
                   then note_peak P (cap_used cs + 1) (capacity cs) else P)"
  unfolding st_def using assms(1)
  by (auto simp: fill_def slot_def Let_def capacity_def max_def not_less)

lemma empty_slot_fields:
  fixes cs :: "'o CapabilityTable" and P :: u32
  assumes "slot cs i \<noteq> None"
  defines "st \<equiv> snd (empty_slot (cs, P) i)"
  shows "cap_slots (fst st) = (cap_slots cs)[i := None]"
    and "cap_free (fst st) = cap_free cs OR bit_mask i"
    and "cap_used (fst st) = cap_used cs - 1"
    and "cap_peak (fst st) = cap_peak cs" and "snd st = P"
  using assms by (auto simp: empty_slot_def)

lemma table_wf_fill:
  assumes "table_wf (fst st)"
  shows "table_wf (fst (snd (fill st i c)))"
proof (cases "i < capacity (fst st)")
  case False
  with assms show ?thesis by (auto simp: fill_def split: prod.splits)
next
  case True
  obtain cs P where st: "st = (cs, P)" by (cases st)
  have cs: "table_wf cs" "i < capacity cs" using assms True by (simp_all add: st)
  have i: "i < length (cap_slots cs)" "cap_slots cs ! i = slot cs i"
    using cs(2) by (simp_all add: capacity_def slot_def)
  note wf = table_wfD [OF cs(1)] and fields = fill_fields [OF cs(2), of P c]
  note suc = unat_used_Suc [OF cs]
  show ?thesis
    unfolding st
  proof (rule table_wfI, goal_cases)
    case (2 j)
    then show ?case using wf(2) cs(2) by (auto simp: fields bit_clear_bit)
  next
    case 3
    then show ?case
      using wf(3) i suc(1) by (simp add: fields occupancy_fill occupancy_refill)
  next
    case 4
    then show ?case using wf(4) suc(1) by (simp add: fields max_def word_le_nat_alt)
  next
    case 5
    then show ?case using wf(5) suc by (simp add: fields max_def)
  qed (use wf(1) in simp)
qed

lemma state_wf_fill:
  assumes "state_wf st"
  shows "state_wf (snd (fill st i c))"
proof (cases "i < capacity (fst st)")
  case False
  with assms show ?thesis by (auto simp: fill_def split: prod.splits)
next
  case True
  obtain cs P where st: "st = (cs, P)" by (cases st)
  have "i < capacity cs" "unat (cap_peak cs) \<le> fst (highest_seen P)"
    using assms True by (simp_all add: st state_wf_def)
  then have "unat (cap_peak (fst (snd (fill (cs, P) i c)))) \<le> fst (highest_seen (snd (snd (fill (cs, P) i c))))"
    by (auto simp: fill_fields highest_seen_note_peak max_def)
  with table_wf_fill [of st i c] assms show ?thesis by (simp add: st state_wf_def)
qed

lemma table_wf_empty_slot:
  assumes "table_wf (fst st)"
  shows "table_wf (fst (snd (empty_slot st i)))"
proof (cases "slot (fst st) i = None")
  case True
  with assms show ?thesis by (auto simp: empty_slot_def Let_def split: prod.splits)
next
  case False
  obtain cs P where st: "st = (cs, P)" by (cases st)
  have cs: "table_wf cs" "slot cs i \<noteq> None" using assms False by (simp_all add: st)
  have i: "i < length (cap_slots cs)" "cap_slots cs ! i \<noteq> None"
    using cs(2) by (simp_all add: slot_def capacity_def split: if_splits)
  note wf = table_wfD [OF cs(1)] and fields = empty_slot_fields [OF cs(2), of P]
  have used: "unat (cap_used cs - 1) = occupancy ((cap_slots cs)[i := None])"
    using occupancy_empty [OF i] wf(3) by (subst unat_sub_le) (auto simp: word_le_nat_alt)
  show ?thesis
    unfolding st
  proof (rule table_wfI, goal_cases)
    case (2 j)
    then show ?case using wf(1,2) i(1) by (auto simp: fields bit_set_bit capacity_def)
  next
    case 4
    then show ?case
      using wf(3,4) used occupancy_empty [OF i] by (simp add: fields)
  qed (use wf used in \<open>simp_all add: fields\<close>)
qed

lemma state_wf_empty_slot: "state_wf st \<Longrightarrow> state_wf (snd (empty_slot st i))"
  using table_wf_empty_slot [of st i]
  by (cases st) (auto simp: state_wf_def empty_slot_def split: option.splits)


section \<open>The sweep\<close>

text \<open>One round of the sweep, and the \<open>get\<close>-then-\<open>delete\<close> pair over every slot that the source
  names as its reference.\<close>

definition sweep_slot :: "('o \<Rightarrow> bool) \<Rightarrow> nat \<Rightarrow> 'o cap_state \<Rightarrow> 'o cap_state" where
  "sweep_slot matches i st =
     (case slot (fst st) i of
        Some c \<Rightarrow> if matches (object c) then snd (empty_slot st i) else st
      | None \<Rightarrow> st)"

definition get_then_delete :: "('o \<Rightarrow> bool) \<Rightarrow> nat \<Rightarrow> 'o cap_state \<Rightarrow> 'o cap_state" where
  "get_then_delete matches i st =
     (case get (fst st) (of_nat i) of
        Inr c \<Rightarrow> if matches (object c) then snd (delete st (of_nat i)) else st
      | Inl _ \<Rightarrow> st)"

lemma capacity_sweep_slot [simp]: "capacity (fst (sweep_slot m i st)) = capacity (fst st)"
  by (simp add: sweep_slot_def split: option.split)

lemma slot_sweep_slot:
  "slot (fst (sweep_slot m i st)) j =
     (if j = i then (case slot (fst st) i of Some c \<Rightarrow> if m (object c) then None else Some c | None \<Rightarrow> None)
      else slot (fst st) j)"
  by (simp add: sweep_slot_def split: option.split)

lemma state_wf_sweep_slot: "state_wf st \<Longrightarrow> state_wf (sweep_slot m i st)"
  by (simp add: sweep_slot_def state_wf_empty_slot split: option.split)

lemma capacity_fold_sweep [simp]:
  "capacity (fst (fold (sweep_slot m) is st)) = capacity (fst st)"
  by (induction "is" arbitrary: st) simp_all

lemma slot_fold_sweep:
  "slot (fst (fold (sweep_slot m) is st)) j =
     (if j \<in> set is
      then (case slot (fst st) j of Some c \<Rightarrow> if m (object c) then None else Some c | None \<Rightarrow> None)
      else slot (fst st) j)"
  by (induction "is" arbitrary: st) (auto simp: slot_sweep_slot split: option.splits)

lemma delete_matching_loop_fold:
  "delete_matching_loop m w st = fold (sweep_slot m) (set_bits_of w) st"
proof (induction m w st rule: delete_matching_loop.induct)
  case (1 m w st)
  then show ?case
    by (cases "w = 0")
       (simp_all add: delete_matching_loop.simps [of m w st] delete_matching_loop.simps [of m 0 st]
         set_bits_of_step sweep_slot_def Let_def)
qed

lemma fold_sweep_skip_empty:
  assumes "\<And>i. i \<in> set is \<Longrightarrow> \<not> P i \<Longrightarrow> slot (fst st) i = None"
  shows "fold (sweep_slot m) (filter P is) st = fold (sweep_slot m) is st"
  using assms
proof (induction "is" arbitrary: st)
  case (Cons i "is")
  show ?case
  proof (cases "P i")
    case True
    then have "slot (fst (sweep_slot m i st)) k = None" if "k \<in> set is" "\<not> P k" for k
      using that Cons.prems [of k] by (auto simp: slot_sweep_slot)
    with True Cons.IH show ?thesis by simp
  next
    case False
    with Cons.prems have "sweep_slot m i st = st" by (simp add: sweep_slot_def)
    with False Cons show ?thesis by simp
  qed
qed simp

lemma occupied_mask_bits:
  assumes "table_wf cs"
  shows "bit (occupied_mask cs) i \<longleftrightarrow> slot cs i \<noteq> None"
  using table_wfD(1,2) [OF assms] bit_ALL_FREE [of "capacity cs" i]
  by (auto simp: occupied_mask_def bit_simps MAX_SLOTS_def slot_def)

lemma delete_matching_fold:
  assumes "table_wf (fst st)"
  shows "delete_matching st m = fold (sweep_slot m) [0..<capacity (fst st)] st"
proof -
  let ?w = "occupied_mask (fst st)" and ?N = "capacity (fst st)"
  obtain k where "32 = ?N + k"
    using table_wfD(1) [OF assms] by (auto simp: le_iff_add)
  then have "[0..<32] = [0..<?N] @ [?N..<32]"
    by (metis upt_add_eq_append le0)
  then have "set_bits_of ?w = filter (bit ?w) ([0..<?N] @ [?N..<32])"
    by (simp add: set_bits_of_def)
  moreover have "filter (bit ?w) [?N..<32] = []"
    by (auto simp: filter_empty_conv occupied_mask_bits [OF assms] slot_def)
  ultimately have "set_bits_of ?w = filter (bit ?w) [0..<?N]" by simp
  moreover have "fold (sweep_slot m) (filter (bit ?w) [0..<?N]) st = fold (sweep_slot m) [0..<?N] st"
    by (rule fold_sweep_skip_empty) (simp add: occupied_mask_bits [OF assms])
  ultimately show ?thesis
    by (simp add: delete_matching_def delete_matching_loop_fold)
qed

lemma get_then_delete_sweep:
  assumes "capacity (fst st) \<le> 32"
  shows "i < 32 \<Longrightarrow> get_then_delete m i st = sweep_slot m i st"
  by (auto simp: get_then_delete_def sweep_slot_def get_def delete_def unat_of_nat
      split: option.splits prod.splits)

lemma fold_get_then_delete_sweep:
  assumes "capacity (fst st) \<le> 32" and "set is \<subseteq> {..<32}"
  shows "fold (get_then_delete m) is st = fold (sweep_slot m) is st"
  using assms by (induction "is" arbitrary: st) (simp_all add: get_then_delete_sweep)


section \<open>Histories of table operations\<close>

datatype 'o cap_op =
    Insert "'o Cap"
  | InsertAt u64 "'o Cap"
  | Put u64 "'o Cap"
  | Derive u64 u64 Rights
  | Delete u64
  | DeleteMatching "'o \<Rightarrow> bool"

fun cap_step :: "'o cap_op \<Rightarrow> 'o cap_state \<Rightarrow> 'o cap_state" where
  "cap_step (Insert c) st = snd (insert_cap st c)"
| "cap_step (InsertAt s c) st = snd (insert_at st s c)"
| "cap_step (Put s c) st = snd (put st s c)"
| "cap_step (Derive s t r) st = snd (derive st s t r)"
| "cap_step (Delete s) st = snd (delete st s)"
| "cap_step (DeleteMatching m) st = delete_matching st m"

fun handed_in :: "'o cap_op \<Rightarrow> 'o Cap set" where
  "handed_in (Insert c) = {c}"
| "handed_in (InsertAt s c) = {c}"
| "handed_in (Put s c) = {c}"
| "handed_in _ = {}"

definition held :: "'o CapabilityTable \<Rightarrow> 'o Cap set" where
  "held cs = {c. \<exists>i. slot cs i = Some c}"

lemma put_eq: "put st s c =
    (if unat s < capacity (fst st) then (Inr (), snd (fill st (unat s) c)) else (Inl NoSuchSlot, st))"
  by (auto simp: put_def fill_def Let_def split: prod.splits)

lemma delete_eq: "delete st s =
    (if slot (fst st) (unat s) = None then (Inl NoSuchSlot, st)
     else (Inr (), snd (empty_slot st (unat s))))"
  by (auto simp: delete_def empty_slot_def Let_def split: prod.splits option.splits)

lemma table_wf_delete_matching:
  assumes "table_wf (fst st)"
  shows "table_wf (fst (delete_matching st m))"
proof -
  have "table_wf (fst (fold (sweep_slot m) is st))" for "is"
    using assms by (induction "is" arbitrary: st) (auto simp: sweep_slot_def table_wf_empty_slot split: option.split)
  then show ?thesis by (simp add: delete_matching_def delete_matching_loop_fold)
qed

lemma slot_delete_matching:
  assumes "table_wf (fst st)"
  shows "slot (fst (delete_matching st m)) i =
    (case slot (fst st) i of Some c \<Rightarrow> if m (object c) then None else Some c | None \<Rightarrow> None)"
proof -
  have "slot (fst st) i = None" if "\<not> i < capacity (fst st)" using that by (simp add: slot_def)
  then show ?thesis by (auto simp: delete_matching_fold [OF assms] slot_fold_sweep)
qed

lemma state_wf_delete_matching: "state_wf st \<Longrightarrow> state_wf (delete_matching st m)"
proof -
  have "state_wf (fold (sweep_slot m) is st)" if "state_wf st" for "is" and st :: "'a cap_state"
    using that by (induction "is" arbitrary: st) (simp_all add: state_wf_sweep_slot)
  then show "state_wf st \<Longrightarrow> state_wf (delete_matching st m)"
    by (simp add: delete_matching_def delete_matching_loop_fold)
qed

lemma cap_step_wf: "state_wf st \<Longrightarrow> state_wf (cap_step op st)"
  by (cases op)
     (auto simp: insert_cap_def insert_at_def put_eq derive_def delete_eq state_wf_fill
       state_wf_empty_slot state_wf_delete_matching split: option.splits sum.splits)

lemma cap_run_wf: "state_wf st \<Longrightarrow> state_wf (fold cap_step ops st)"
  by (induction ops arbitrary: st) (simp_all add: cap_step_wf)

definition backed_by :: "'o Cap \<Rightarrow> 'o Cap set \<Rightarrow> bool" where
  "backed_by c S \<longleftrightarrow> (\<exists>c0 \<in> S. object c = object c0 \<and> is_subset_of (rights c) (rights c0))"

lemma backed_by_self: "c \<in> S \<Longrightarrow> backed_by c S"
  by (auto simp: backed_by_def is_subset_of_bits)

lemma backed_by_trans: "backed_by c S \<Longrightarrow> (\<And>d. d \<in> S \<Longrightarrow> backed_by d T) \<Longrightarrow> backed_by c T"
  by (force simp: backed_by_def is_subset_of_bits)

lemma held_fill: "held (fst (snd (fill st i c))) \<subseteq> insert c (held (fst st))"
  by (auto simp: held_def split: if_splits)

lemma held_empty_slot: "held (fst (snd (empty_slot st i))) \<subseteq> held (fst st)"
  by (auto simp: held_def split: if_splits)

lemma held_delete_matching: "held (fst (delete_matching st m)) \<subseteq> held (fst st)"
  by (auto simp: held_def delete_matching_def delete_matching_loop_fold slot_fold_sweep
      split: if_splits option.splits)

lemma cap_step_backed:
  assumes "c \<in> held (fst (cap_step op st))"
  shows "backed_by c (held (fst st) \<union> handed_in op)"
proof (cases op)
  case (Derive s t r)
  show ?thesis
  proof (cases "get (fst st) s")
    case (Inl e)
    with assms Derive show ?thesis by (simp add: derive_def backed_by_self)
  next
    case (Inr src)
    then have src: "src \<in> held (fst st)"
      by (auto simp: get_def held_def split: option.splits)
    consider "c \<in> held (fst st)"
      | "c = \<lparr>object = object src, rights = r\<rparr>" "is_subset_of r (rights src)"
      using assms Derive Inr held_fill [of st "unat t" "\<lparr>object = object src, rights = r\<rparr>"]
      by (auto simp: derive_def put_eq split: if_splits)
    then show ?thesis
      using src by cases (auto simp: backed_by_self, auto simp: backed_by_def)
  qed
next
  case (Insert d)
  with assms have "c \<in> insert d (held (fst st))"
    using held_fill [of st _ d] by (auto simp: insert_cap_def split: option.splits)
  with Insert show ?thesis by (auto intro: backed_by_self)
next
  case (InsertAt s d)
  with assms have "c \<in> insert d (held (fst st))"
    using held_fill [of st _ d] by (auto simp: insert_at_def split: if_splits)
  with InsertAt show ?thesis by (auto intro: backed_by_self)
next
  case (Put s d)
  with assms have "c \<in> insert d (held (fst st))"
    using held_fill [of st _ d] by (auto simp: put_eq split: if_splits)
  with Put show ?thesis by (auto intro: backed_by_self)
next
  case (Delete s)
  with assms have "c \<in> held (fst st)"
    using held_empty_slot [of st] by (auto simp: delete_eq split: if_splits)
  then show ?thesis by (auto intro: backed_by_self)
next
  case (DeleteMatching m)
  with assms have "c \<in> held (fst st)"
    using held_delete_matching [of st m] by auto
  then show ?thesis by (auto intro: backed_by_self)
qed


section \<open>Properties\<close>

text \<open>C6. Authority never widens.  After any sequence of table operations (inserts, puts,
  derivations, deletions and revocation sweeps), every capability in the table names the same
  object as, and carries no right beyond, either a capability the table held at the start or one
  that an insert or put of the sequence handed in.\<close>

theorem authority_never_widens:
  assumes "c \<in> held (fst (fold cap_step ops st))"
  shows "\<exists>c0 \<in> held (fst st) \<union> (\<Union>op \<in> set ops. handed_in op).
           object c = object c0 \<and> is_subset_of (rights c) (rights c0)"
proof -
  have "backed_by c (held (fst st) \<union> (\<Union>op \<in> set ops. handed_in op))"
    using assms
  proof (induction ops arbitrary: st)
    case (Cons op ops)
    let ?S = "held (fst st) \<union> (\<Union>op \<in> set (op # ops). handed_in op)"
    from Cons have "backed_by c (held (fst (cap_step op st)) \<union> (\<Union>op \<in> set ops. handed_in op))"
      by simp
    then show ?case
    proof (rule backed_by_trans)
      fix d assume "d \<in> held (fst (cap_step op st)) \<union> (\<Union>op \<in> set ops. handed_in op)"
      then consider "backed_by d (held (fst st) \<union> handed_in op)" | "d \<in> ?S"
        using cap_step_backed [of d op st] by auto
      then show "backed_by d ?S"
        by cases (auto intro: backed_by_self elim!: backed_by_trans)
    qed
  qed (simp add: backed_by_self)
  then show ?thesis by (simp add: backed_by_def)
qed

text \<open>A two-slot table that holds one read-write capability, used by the witnesses below.\<close>

definition sample_cap :: "nat Cap" where
  "sample_cap = \<lparr>object = 7, rights = rights_union RIGHTS_READ RIGHTS_WRITE\<rparr>"

definition sample_table :: "nat cap_state" where
  "sample_table = snd (insert_cap (new_table 2, 0) sample_cap)"

lemma sample_table_eq:
  "sample_table =
     (\<lparr>cap_slots = [Some sample_cap, None], cap_free = 2, cap_used = 1, cap_peak = 1\<rparr>, 65538)"
proof -
  have "trailing_zeros (3 :: u32) = 0"
    by (rule trailing_zeros_eqI) auto
  then show ?thesis
    by (simp add: sample_table_def insert_cap_def first_free_def new_table_def ALL_FREE_def MAX_SLOTS_def
        fill_def capacity_def bit_mask_def note_peak_def replicate_2 Let_def max_def)
qed

lemma state_wf_sample_table: "state_wf sample_table"
  using cap_step_wf [OF state_wf_new [of 2 0], of "Insert sample_cap"]
  by (simp add: sample_table_def MAX_SLOTS_def)

lemmas sample_eval = sample_table_eq sample_cap_def slot_def capacity_def is_subset_of_def
  rights_union_def RIGHTS_READ_def RIGHTS_WRITE_def

theorem authority_never_widens_witness:
  "\<lparr>object = 7, rights = RIGHTS_READ\<rparr> \<in> held (fst (fold cap_step [Derive 0 1 RIGHTS_READ] sample_table)) \<and>
   (\<exists>c0 \<in> held (fst sample_table). object c0 = (7 :: nat) \<and> is_subset_of RIGHTS_READ (rights c0))"
proof -
  have "slot (fst (fold cap_step [Derive 0 1 RIGHTS_READ] sample_table)) 1
      = Some \<lparr>object = 7, rights = RIGHTS_READ\<rparr>"
    by (simp add: derive_def get_def put_eq sample_eval fill_def Let_def)
  then have h: "\<lparr>object = 7, rights = RIGHTS_READ\<rparr>
      \<in> held (fst (fold cap_step [Derive 0 1 RIGHTS_READ] sample_table))"
    unfolding held_def by blast
  show ?thesis using h authority_never_widens [OF h] by auto
qed

text \<open>C35. The table's three records of its own slots never drift.  From an empty table of at most
  32 slots, after any sequence of operations, the free-slot word is exactly the set of empty slots,
  the occupancy count is the number of occupied ones, the count is at most the table's high-water
  mark, the mark is at most the capacity, and the crate-wide \<open>PEAK\<close> covers the mark.\<close>

theorem table_invariant:
  assumes "N \<le> MAX_SLOTS"
  shows "state_wf (fold cap_step ops (new_table N, P))"
  by (simp add: cap_run_wf state_wf_new assms)

theorem table_invariant_witness:
  "(2::nat) \<le> MAX_SLOTS \<and> state_wf (fold cap_step [Insert sample_cap, Derive 0 1 RIGHTS_READ, Delete 0] (new_table 2, 0))"
  using table_invariant [of 2 "[Insert sample_cap, Derive 0 1 RIGHTS_READ, Delete 0]" 0]
  by (simp add: MAX_SLOTS_def)

text \<open>\<open>insert\<close> behaves as a first-fit search of the array although it only reads the free-slot
  word: it is refused exactly when no slot is empty, and then changes nothing; otherwise it answers
  the lowest empty slot, fills that slot and leaves every other slot alone.\<close>

theorem insert_first_fit:
  assumes "state_wf st"
  shows "case insert_cap st c of
      (Inl e, st') \<Rightarrow> e = NoFreeSlot \<and> st' = st \<and> (\<forall>i < capacity (fst st). slot (fst st) i \<noteq> None)
    | (Inr s, st') \<Rightarrow> unat s < capacity (fst st) \<and> slot (fst st) (unat s) = None
        \<and> (\<forall>i < unat s. slot (fst st) i \<noteq> None)
        \<and> slot (fst st') = (slot (fst st))(unat s := Some c)"
proof (cases "cap_free (fst st) = 0")
  case True
  then have "\<not> bit (cap_free (fst st)) i" for i by simp
  with True assms table_wfD(2) [of "fst st"] show ?thesis
    by (auto simp: insert_cap_def first_free_def state_wf_def)
next
  case False
  have wf: "table_wf (fst st)" using assms by (simp add: state_wf_def)
  let ?t = "trailing_zeros (cap_free (fst st))"
  note tz = trailing_zeros_nonzero [OF False]
  have t: "?t < 32" using tz(1) by simp
  have "?t < capacity (fst st)" "slot (fst st) ?t = None"
    using tz(2) table_wfD(2) [OF wf] by auto
  moreover have "slot (fst st) i \<noteq> None" if "i < ?t" for i
    using tz(3) [OF that] that \<open>?t < capacity (fst st)\<close> table_wfD(2) [OF wf, of i] by auto
  moreover have "unat (of_nat ?t :: u64) = ?t"
    using t by (simp add: unat_of_nat)
  ultimately show ?thesis
    using False by (auto simp: insert_cap_def first_free_def fun_eq_iff)
qed

theorem insert_first_fit_witness:
  "state_wf sample_table \<and> fst (insert_cap sample_table sample_cap) = Inr 1"
proof -
  have "slot (fst sample_table) 0 \<noteq> None" "slot (fst sample_table) 1 = None" "capacity (fst sample_table) = 2"
    by (simp_all add: sample_eval)
  with insert_first_fit [OF state_wf_sample_table, of sample_cap] show ?thesis
    by (auto simp: state_wf_sample_table less_2_cases_iff split: prod.splits sum.splits)
       (metis less_2_cases One_nat_def unat_1 word_unat_eq_iff)
qed

text \<open>\<open>derive\<close> on every branch: an empty or out-of-range source is \<open>NoSuchSlot\<close>; rights that are
  not a subset of the source's are \<open>CannotWiden\<close>; an out-of-range target is \<open>NoSuchSlot\<close>; each
  refusal leaves the table as it was.  Otherwise the target holds the source's object with exactly
  the requested rights and every other slot is unchanged.\<close>

theorem derive_outcomes:
  "derive st s t r =
     (case slot (fst st) (unat s) of
        None \<Rightarrow> (Inl NoSuchSlot, st)
      | Some src \<Rightarrow>
          if \<not> is_subset_of r (rights src) then (Inl CannotWiden, st)
          else if capacity (fst st) \<le> unat t then (Inl NoSuchSlot, st)
          else (Inr (), snd (derive st s t r)))
   \<and> (fst (derive st s t r) = Inr () \<longrightarrow>
        (\<exists>src. slot (fst st) (unat s) = Some src \<and>
          slot (fst (snd (derive st s t r))) =
            (slot (fst st))(unat t := Some \<lparr>object = object src, rights = r\<rparr>)))"
  by (auto simp: derive_def get_def put_eq fun_eq_iff split: option.splits)

theorem derive_outcomes_witness:
  "fst (derive sample_table 0 1 RIGHTS_READ) = Inr () \<and>
   slot (fst (snd (derive sample_table 0 1 RIGHTS_READ))) 1 = Some \<lparr>object = 7, rights = RIGHTS_READ\<rparr>"
proof -
  have "fst (derive sample_table 0 1 RIGHTS_READ) = Inr ()"
    by (simp add: derive_def get_def put_eq sample_eval)
  moreover have "slot (fst sample_table) 0 = Some sample_cap"
    by (simp add: sample_eval)
  ultimately show ?thesis
    using derive_outcomes [of sample_table 0 1 RIGHTS_READ] by (auto simp: sample_cap_def)
qed

text \<open>Consume-on-use is final and local.  A successful \<open>delete\<close> leaves its slot answering
  \<open>NoSuchSlot\<close> to a lookup and to a second \<open>delete\<close>, which then changes nothing, and no other slot
  answers differently than before.\<close>

theorem delete_final:
  assumes "fst (delete st s) = Inr ()"
  shows "let st' = snd (delete st s)
    in get (fst st') s = Inl NoSuchSlot \<and> delete st' s = (Inl NoSuchSlot, st')
      \<and> (\<forall>t. t \<noteq> s \<longrightarrow> get (fst st') t = get (fst st) t)"
  using assms by (auto simp: delete_eq get_def Let_def word_unat_eq_iff split: if_splits)

theorem delete_final_witness:
  "fst (delete sample_table 0) = Inr () \<and>
   get (fst (snd (delete sample_table 0))) 0 = Inl NoSuchSlot"
proof -
  have h: "fst (delete sample_table 0) = Inr ()"
    by (simp add: delete_eq sample_eval)
  show ?thesis using h delete_final [OF h] by (simp add: Let_def)
qed

text \<open>The mask-walking revocation sweep is the \<open>get\<close>-then-\<open>delete\<close> pair run over every slot: on
  a well-formed table both produce the same table, with the same free word, count and mark.\<close>

theorem delete_matching_is_get_then_delete:
  assumes "table_wf (fst st)"
  shows "delete_matching st m = fold (get_then_delete m) [0..<capacity (fst st)] st"
proof -
  have "fold (get_then_delete m) [0..<capacity (fst st)] st = fold (sweep_slot m) [0..<capacity (fst st)] st"
    using table_wfD(1) [OF assms] by (intro fold_get_then_delete_sweep) auto
  then show ?thesis by (simp add: delete_matching_fold [OF assms])
qed

theorem delete_matching_witness:
  "table_wf (fst sample_table) \<and>
   delete_matching sample_table ((=) 7) = fold (get_then_delete ((=) 7)) [0, 1] sample_table"
proof -
  have h: "table_wf (fst sample_table)"
    using state_wf_sample_table by (simp add: state_wf_def)
  have "[0..<capacity (fst sample_table)] = [0, 1]"
    by (simp add: sample_eval upt_rec)
  then show ?thesis using h delete_matching_is_get_then_delete [OF h, of "(=) 7"] by simp
qed

text \<open>The supervision decisions agree: \<open>REAP\<close> answers anything but \<open>NotSupervised\<close> exactly for
  the threads \<open>SURVEY\<close> reports, it permits exactly the dead ones, and for a thread outside the
  domain the answer does not depend on whether the thread is alive.\<close>

theorem reap_agrees_with_survey:
  "(reap_decision f e dead \<noteq> NotSupervised \<longleftrightarrow> survey_includes f e)
   \<and> (reap_decision f e dead = Permitted \<longleftrightarrow> survey_includes f e \<and> dead)
   \<and> (reap_decision f e True = reap_decision f e False \<longleftrightarrow> \<not> survey_includes f e)"
  by (auto simp: reap_decision_def survey_includes_def split: option.splits)

end
