(* ===== verification/Intrusive_Fifo.thy ===== *)
theory Intrusive_Fifo
  imports Prelude
begin

text \<open>
  The intrusive FIFO of \<open>src/crates/intrusive_fifo/src/lib.rs\<close>.  A node's link lives inside the
  node, so the queue's operations read and write the nodes' memory: the model keeps every node's
  \<open>next\<close> field in one function from node addresses to links, which all queues share.  The queue
  itself is two pointers and a count.

  The locale \<open>intrusive_queue\<close> states what the queue promises its clients (the wait queues of the
  IPC objects): each operation in terms of the list of queued nodes, and that it leaves every other
  queue over the same memory alone.  The interpretation \<open>fifo\<close> discharges it for \<open>Fifo\<close>.
\<close>


section \<open>The queue\<close>

type_synonym 'p links = "'p \<Rightarrow> 'p option"

record 'p Fifo =
  head :: "'p option"
  tail :: "'p option"
  fifo_len :: nat

definition next_link :: "'p links \<Rightarrow> 'p \<Rightarrow> 'p option" where
  "next_link h p = h p"

definition set_next :: "'p links \<Rightarrow> 'p \<Rightarrow> 'p option \<Rightarrow> 'p links" where
  "set_next h p n = h(p := n)"

definition new_fifo :: "'p Fifo" where
  "new_fifo = \<lparr>head = None, tail = None, fifo_len = 0\<rparr>"

definition fifo_is_empty :: "'p Fifo \<Rightarrow> bool" where
  "fifo_is_empty q \<longleftrightarrow> head q = None"

definition push_back :: "'p links \<Rightarrow> 'p Fifo \<Rightarrow> 'p \<Rightarrow> 'p links \<times> 'p Fifo" where
  "push_back h q node =
     (let h = set_next h node None;
          (h, q) = (case tail q of
                      Some t \<Rightarrow> (set_next h t (Some node), q)
                    | None \<Rightarrow> (h, q\<lparr>head := Some node\<rparr>))
      in (h, q\<lparr>tail := Some node, fifo_len := fifo_len q + 1\<rparr>))"

definition pop_front :: "'p links \<Rightarrow> 'p Fifo \<Rightarrow> 'p option \<times> 'p links \<times> 'p Fifo" where
  "pop_front h q =
     (case head q of
        None \<Rightarrow> (None, h, q)
      | Some node \<Rightarrow>
          let q = q\<lparr>head := next_link h node\<rparr>;
              q = (if head q = None then q\<lparr>tail := None\<rparr> else q);
              h = set_next h node None
          in (Some node, h, q\<lparr>fifo_len := fifo_len q - 1\<rparr>))"


section \<open>The list a queue represents\<close>

fun chain :: "'p links \<Rightarrow> 'p option \<Rightarrow> 'p list \<Rightarrow> bool" where
  "chain h p [] \<longleftrightarrow> p = None"
| "chain h p (x # xs) \<longleftrightarrow> p = Some x \<and> chain h (h x) xs"

definition fifo_rep :: "'p links \<Rightarrow> 'p Fifo \<Rightarrow> 'p list \<Rightarrow> bool" where
  "fifo_rep h q xs \<longleftrightarrow>
     chain h (head q) xs \<and> distinct xs \<and>
     tail q = (if xs = [] then None else Some (List.last xs)) \<and> fifo_len q = length xs"

lemma chain_cong: "(\<And>x. x \<in> set xs \<Longrightarrow> h x = h' x) \<Longrightarrow> chain h p xs = chain h' p xs"
  by (induction xs arbitrary: p) auto

lemma chain_update_other [simp]: "a \<notin> set xs \<Longrightarrow> chain (h(a := n)) p xs = chain h p xs"
  by (rule chain_cong) auto

lemma chain_unique: "chain h p xs \<Longrightarrow> chain h p ys \<Longrightarrow> xs = ys"
proof (induction xs arbitrary: p ys)
  case Nil
  then show ?case by (cases ys) auto
next
  case (Cons x xs)
  then show ?case by (cases ys) auto
qed

lemma chain_link_last:
  assumes "chain h p (xs @ [t])" and "distinct (xs @ [t])" and "n \<notin> set (xs @ [t])"
  shows "chain (h(n := None, t := Some n)) p (xs @ [t, n])"
  using assms
proof (induction xs arbitrary: p)
  case Nil
  then show ?case by auto
next
  case (Cons x xs)
  then show ?case by (auto simp: fun_upd_def)
qed

lemma fifo_rep_cong:
  "(\<And>x. x \<in> set xs \<Longrightarrow> h x = h' x) \<Longrightarrow> fifo_rep h q xs = fifo_rep h' q xs"
  by (simp add: fifo_rep_def chain_cong [of xs h h'])

lemma fifo_rep_unique: "fifo_rep h q xs \<Longrightarrow> fifo_rep h q ys \<Longrightarrow> xs = ys"
  by (auto simp: fifo_rep_def dest: chain_unique)

lemma fifo_rep_new: "fifo_rep h new_fifo []"
  by (simp add: fifo_rep_def new_fifo_def)

lemma fifo_rep_push:
  assumes "fifo_rep h q xs" and "n \<notin> set xs" and "push_back h q n = (h', q')"
  shows "fifo_rep h' q' (xs @ [n])"
proof (cases xs rule: rev_cases)
  case Nil
  with assms show ?thesis
    by (auto simp: fifo_rep_def push_back_def set_next_def)
next
  case (snoc ys t)
  with assms have q: "tail q = Some t" "chain h (head q) (ys @ [t])" "distinct (ys @ [t])"
    by (simp_all add: fifo_rep_def)
  have "chain (h(n := None, t := Some n)) (head q) (ys @ [t, n])"
    using chain_link_last [OF q(2,3)] assms(2) snoc by simp
  with assms snoc q(1) show ?thesis
    by (auto simp: fifo_rep_def push_back_def set_next_def)
qed

lemma push_back_links:
  assumes "fifo_rep h q xs" and "push_back h q n = (h', q')" and "x \<notin> insert n (set xs)"
  shows "h' x = h x"
proof (cases "tail q")
  case None
  with assms(2,3) show ?thesis
    by (auto simp: push_back_def set_next_def)
next
  case (Some t)
  with assms(1) have "t \<in> set xs"
    by (auto simp: fifo_rep_def split: if_splits)
  with Some assms(2,3) show ?thesis
    by (auto simp: push_back_def set_next_def)
qed

lemma fifo_rep_pop_Nil: "fifo_rep h q [] \<Longrightarrow> pop_front h q = (None, h, q)"
  by (simp add: fifo_rep_def pop_front_def)

lemma fifo_rep_pop_Cons:
  assumes "fifo_rep h q (x # xs)"
  obtains q' where "pop_front h q = (Some x, h(x := None), q')"
    and "fifo_rep (h(x := None)) q' xs"
proof -
  let ?q = "snd (snd (pop_front h q))"
  have "chain (h(x := None)) (h x) xs" "head q = Some x" "distinct xs" "x \<notin> set xs"
    using assms by (auto simp: fifo_rep_def)
  moreover have "h x = None \<longleftrightarrow> xs = []"
    using assms by (cases xs) (auto simp: fifo_rep_def)
  ultimately have "pop_front h q = (Some x, h(x := None), ?q)" "fifo_rep (h(x := None)) ?q xs"
    using assms
    by (auto simp: pop_front_def fifo_rep_def next_link_def set_next_def Let_def)
  then show ?thesis by (rule that)
qed

lemma fifo_rep_is_empty: "fifo_rep h q xs \<Longrightarrow> fifo_is_empty q \<longleftrightarrow> xs = []"
  by (cases xs) (auto simp: fifo_rep_def fifo_is_empty_def)

lemma fifo_rep_len: "fifo_rep h q xs \<Longrightarrow> fifo_len q = length xs"
  by (simp add: fifo_rep_def)

lemma fifo_rep_distinct: "fifo_rep h q xs \<Longrightarrow> distinct xs"
  by (simp add: fifo_rep_def)


section \<open>The interface the wait queues rely on\<close>

text \<open>\<open>while let Some(w) = q.pop_front() { f(w) }\<close>, the loop every draining operation of the IPC
  objects is written with.  The body \<open>f\<close> may write the nodes' memory and a state of its own.  A
  loop that does not end is \<open>None\<close>.\<close>

partial_function (option) drain_with ::
    "('h \<Rightarrow> 'q \<Rightarrow> 'p option \<times> 'h \<times> 'q) \<Rightarrow> ('p \<Rightarrow> 'h \<Rightarrow> 's \<Rightarrow> 'h \<times> 's)
      \<Rightarrow> 'h \<Rightarrow> 'q \<Rightarrow> 's \<Rightarrow> ('h \<times> 'q \<times> 's) option" where
  "drain_with pop f h q s =
     (case pop h q of
        (None, h', q') \<Rightarrow> Some (h', q', s)
      | (Some w, h', q') \<Rightarrow> (case f w h' s of (h'', s') \<Rightarrow> drain_with pop f h'' q' s'))"

declare drain_with.simps [code]

text \<open>What such a loop should do: take the nodes in order, each with its link cleared.\<close>

fun visit :: "('p \<Rightarrow> 'p links \<Rightarrow> 's \<Rightarrow> 'p links \<times> 's) \<Rightarrow> 'p list \<Rightarrow> 'p links \<Rightarrow> 's \<Rightarrow> 'p links \<times> 's" where
  "visit f [] h s = (h, s)"
| "visit f (w # ws) h s = (case f w (h(w := None)) s of (h, s) \<Rightarrow> visit f ws h s)"

lemma visit_append: "visit f (xs @ ys) h s = (case visit f xs h s of (h, s) \<Rightarrow> visit f ys h s)"
  by (induction xs arbitrary: h s) (simp_all split: prod.splits)

lemma visit_snoc: "visit f (xs @ [w]) h s = (case visit f xs h s of (h, s) \<Rightarrow> f w (h(w := None)) s)"
  by (simp add: visit_append split: prod.splits)

text \<open>The body of the drain-and-repush removals: keep every node but the victim, in order.\<close>

definition repush_unless ::
    "('p links \<Rightarrow> 'q \<Rightarrow> 'p \<Rightarrow> 'p links \<times> 'q) \<Rightarrow> 'p \<Rightarrow> 'p \<Rightarrow> 'p links \<Rightarrow> 'q \<times> bool \<Rightarrow> 'p links \<times> 'q \<times> bool"
    where
  "repush_unless push victim node h s =
     (let (kept, found) = s in
      if node = victim then (h, (kept, True))
      else let (h, kept) = push h kept node in (h, (kept, found)))"

text \<open>The body of a teardown: note something of each node and put it on another queue.\<close>

definition move_to ::
    "('p links \<Rightarrow> 'q \<Rightarrow> 'p \<Rightarrow> 'p links \<times> 'q) \<Rightarrow> ('p \<Rightarrow> 't \<Rightarrow> 't) \<Rightarrow> 'p \<Rightarrow> 'p links \<Rightarrow> 'q \<times> 't \<Rightarrow> 'p links \<times> 'q \<times> 't"
    where
  "move_to push mark node h s =
     (let (other, t) = s; (h, other) = push h other node in (h, (other, mark node t)))"

locale intrusive_queue =
  fixes new :: 'q
    and push :: "'p links \<Rightarrow> 'q \<Rightarrow> 'p \<Rightarrow> 'p links \<times> 'q"
    and pop :: "'p links \<Rightarrow> 'q \<Rightarrow> 'p option \<times> 'p links \<times> 'q"
    and rep :: "'p links \<Rightarrow> 'q \<Rightarrow> 'p list \<Rightarrow> bool"
  assumes rep_new: "rep h new []"
    and rep_distinct: "rep h q xs \<Longrightarrow> distinct xs"
    and rep_local: "rep h q xs \<Longrightarrow> (\<And>x. x \<in> set xs \<Longrightarrow> h' x = h x) \<Longrightarrow> rep h' q xs"
    and rep_push: "rep h q xs \<Longrightarrow> n \<notin> set xs \<Longrightarrow> push h q n = (h', q') \<Longrightarrow> rep h' q' (xs @ [n])"
    and push_local: "rep h q xs \<Longrightarrow> push h q n = (h', q') \<Longrightarrow> x \<notin> insert n (set xs) \<Longrightarrow> h' x = h x"
    and pop_Nil: "rep h q [] \<Longrightarrow> pop h q = (None, h, q)"
    and pop_Cons: "rep h q (x # xs) \<Longrightarrow>
      \<exists>q'. pop h q = (Some x, h(x := None), q') \<and> rep (h(x := None)) q' xs"
begin

text \<open>Operating on one queue leaves a queue of other nodes over the same memory alone.\<close>

lemma rep_push_other:
  assumes "rep h q xs" and "push h q n = (h', q')" and "rep h q2 ys"
    and "set ys \<inter> insert n (set xs) = {}"
  shows "rep h' q2 ys"
  using assms(3)
  by (rule rep_local) (use assms(4) push_local [OF assms(1,2)] in blast)

lemma rep_pop_other:
  assumes "rep h q2 ys" and "x \<notin> set ys"
  shows "rep (h(x := None)) q2 ys"
  using assms by (auto intro: rep_local)

text \<open>The rule for a draining loop: an invariant over the nodes handled so far that the body
  carries from each node to the next, while it leaves the rest of the queue alone.  The loop ends,
  the queue is empty, and the invariant holds of all nodes.\<close>

lemma drain_rule:
  assumes "rep h q xs" and "I [] h s"
    and step: "\<And>ys w zs h q s h' s'. xs = ys @ w # zs \<Longrightarrow> rep (h(w := None)) q zs \<Longrightarrow> I ys h s \<Longrightarrow>
      f w (h(w := None)) s = (h', s') \<Longrightarrow> rep h' q zs \<and> I (ys @ [w]) h' s'"
  shows "\<exists>h' q' s'. drain_with pop f h q s = Some (h', q', s') \<and> rep h' q' [] \<and> I xs h' s'"
proof -
  have "\<exists>h' q' s'. drain_with pop f h q s = Some (h', q', s') \<and> rep h' q' [] \<and> I xs h' s'"
    if "xs = ys @ zs" "rep h q zs" "I ys h s" for ys zs h q s
    using that
  proof (induction zs arbitrary: ys h q s)
    case Nil
    then show ?case by (subst drain_with.simps) (simp add: pop_Nil)
  next
    case (Cons w zs)
    obtain q' where pop: "pop h q = (Some w, h(w := None), q')" "rep (h(w := None)) q' zs"
      using pop_Cons [OF Cons.prems(2)] by blast
    obtain h2 s2 where f: "f w (h(w := None)) s = (h2, s2)" by (cases "f w (h(w := None)) s")
    have "rep h2 q' zs \<and> I (ys @ [w]) h2 s2"
      using step [OF Cons.prems(1) pop(2) Cons.prems(3) f] .
    with Cons.IH [of "ys @ [w]" h2 q' s2] Cons.prems(1) show ?case
      by (subst drain_with.simps) (simp add: pop f)
  qed
  from this [of "[]" xs h q s] assms(1,2) show ?thesis by simp
qed

text \<open>A body that touches no node still queued sees every node once, in order, each already off
  the queue.\<close>

lemma drain_visits:
  assumes "rep h q xs"
    and "\<And>ys w zs h s x. xs = ys @ w # zs \<Longrightarrow> x \<in> set zs \<Longrightarrow> fst (f w h s) x = h x"
  shows "\<exists>q'. drain_with pop f h q s = Some (fst (visit f xs h s), q', snd (visit f xs h s))
    \<and> rep (fst (visit f xs h s)) q' []"
proof -
  have "\<exists>h' q' s'. drain_with pop f h q s = Some (h', q', s') \<and> rep h' q' [] \<and> (h', s') = visit f xs h s"
  proof (rule drain_rule [where I = "\<lambda>ys h' s'. (h', s') = visit f ys h s", OF assms(1)])
    fix ys w zs h1 q1 s1 h2 s2
    assume "xs = ys @ w # zs" "rep (h1(w := None)) q1 zs" "(h1, s1) = visit f ys h s"
      and f: "f w (h1(w := None)) s1 = (h2, s2)"
    moreover have "rep h2 q1 zs"
      by (rule rep_local [OF calculation(2)])
        (use assms(2) [OF calculation(1), of _ "h1(w := None)" s1] f in simp)
    ultimately show "rep h2 q1 zs \<and> (h2, s2) = visit f (ys @ [w]) h s"
      by (metis visit_snoc prod.case)
  qed simp
  then show ?thesis by (metis fst_conv snd_conv)
qed

text \<open>Drain-and-repush removes exactly the victim, keeps the survivors in order, reports whether
  the victim was there, and writes no link outside the queue.\<close>

lemma repush_removes:
  assumes "rep h q xs"
  shows "\<exists>h' q' kept. drain_with pop (repush_unless push v) h q (new, False)
      = Some (h', q', (kept, v \<in> set xs)) \<and> rep h' kept (filter (\<lambda>n. n \<noteq> v) xs)
      \<and> (\<forall>x. x \<notin> set xs \<longrightarrow> h' x = h x)"
proof -
  define I where "I = (\<lambda>ys h' (s :: 'q \<times> bool).
    rep h' (fst s) (filter (\<lambda>n. n \<noteq> v) ys) \<and> snd s = (v \<in> set ys) \<and> (\<forall>x. x \<notin> set xs \<longrightarrow> h' x = h x))"
  have dist: "distinct xs" by (rule rep_distinct [OF assms])
  have "\<exists>h' q' s'. drain_with pop (repush_unless push v) h q (new, False) = Some (h', q', s')
      \<and> rep h' q' [] \<and> I xs h' s'"
  proof (rule drain_rule [OF assms])
    show "I [] h (new, False)" by (simp add: I_def rep_new)
  next
    fix ys w zs h1 q1 s h2 s2
    assume xs: "xs = ys @ w # zs" and q1: "rep (h1(w := None)) q1 zs" and I: "I ys h1 s"
      and f: "repush_unless push v w (h1(w := None)) s = (h2, s2)"
    obtain kept found where s: "s = (kept, found)" by (cases s)
    have "w \<notin> set (filter (\<lambda>n. n \<noteq> v) ys)" using dist xs by auto
    then have kept: "rep (h1(w := None)) kept (filter (\<lambda>n. n \<noteq> v) ys)" "found = (v \<in> set ys)"
      "\<forall>x. x \<notin> set xs \<longrightarrow> (h1(w := None)) x = h x"
      using I xs by (auto simp: I_def s intro: rep_pop_other)
    show "rep h2 q1 zs \<and> I (ys @ [w]) h2 s2"
    proof (cases "w = v")
      case True
      with f kept q1 show ?thesis by (auto simp: repush_unless_def I_def s)
    next
      case False
      obtain kept' where push: "push (h1(w := None)) kept w = (h2, kept')" "s2 = (kept', found)"
        using f False by (auto simp: repush_unless_def s split: prod.splits)
      have "w \<notin> set (filter (\<lambda>n. n \<noteq> v) ys)" "set zs \<inter> insert w (set (filter (\<lambda>n. n \<noteq> v) ys)) = {}"
        using dist xs by auto
      then have "rep h2 kept' (filter (\<lambda>n. n \<noteq> v) ys @ [w])" "rep h2 q1 zs"
        using rep_push [OF kept(1) _ push(1)] rep_push_other [OF kept(1) push(1) q1] by auto
      moreover have "h2 x = h x" if "x \<notin> set xs" for x
        using push_local [OF kept(1) push(1), of x] kept(3) that xs by auto
      ultimately show ?thesis using kept(2) False push(2) by (auto simp: I_def)
    qed
  qed
  then show ?thesis by (force simp: I_def)
qed

text \<open>Draining one queue onto another, over the same links: the nodes follow those already there, in order.\<close>

lemma drain_moves:
  assumes q: "rep h q xs" and other: "rep h other ys" and dis: "set xs \<inter> set ys = {}"
  shows "\<exists>h' q' other'. drain_with pop (move_to push mark) h q (other, t) = Some (h', q', (other', fold mark xs t))
    \<and> rep h' q' [] \<and> rep h' other' (ys @ xs) \<and> (\<forall>x. x \<notin> set (ys @ xs) \<longrightarrow> h' x = h x)"
proof -
  define I where "I = (\<lambda>us h' s. rep h' (fst s) (ys @ us) \<and> snd s = fold mark us t
    \<and> (\<forall>x. x \<notin> set (ys @ xs) \<longrightarrow> h' x = h x))"
  have dist: "distinct xs" by (rule rep_distinct [OF q])
  have "\<exists>h' q' s'. drain_with pop (move_to push mark) h q (other, t) = Some (h', q', s') \<and> rep h' q' [] \<and> I xs h' s'"
  proof (rule drain_rule [OF q])
    show "I [] h (other, t)" using other by (simp add: I_def)
  next
    fix us w zs h1 q1 s h2 s2
    assume xs: "xs = us @ w # zs" and q1: "rep (h1(w := None)) q1 zs" and I: "I us h1 s"
      and f: "move_to push mark w (h1(w := None)) s = (h2, s2)"
    have fresh: "w \<notin> set (ys @ us)" "set zs \<inter> insert w (set (ys @ us)) = {}" using dist dis xs by auto
    have o: "rep (h1(w := None)) (fst s) (ys @ us)" using I fresh(1) by (auto simp: I_def intro: rep_pop_other)
    obtain other' where push: "push (h1(w := None)) (fst s) w = (h2, other')" "s2 = (other', mark w (snd s))"
      using f by (auto simp: move_to_def split: prod.splits)
    have "rep h2 q1 zs" "rep h2 other' (ys @ us @ [w])"
      using rep_push [OF o fresh(1) push(1)] rep_push_other [OF o push(1) q1 fresh(2)] by auto
    moreover have "h2 x = h x" if "x \<notin> set (ys @ xs)" for x
      using push_local [OF o push(1), of x] I that xs by (auto simp: I_def)
    ultimately show "rep h2 q1 zs \<and> I (us @ [w]) h2 s2" using I push(2) by (simp add: I_def)
  qed
  then show ?thesis by (force simp: I_def)
qed

end

interpretation fifo: intrusive_queue new_fifo push_back pop_front fifo_rep
proof unfold_locales
  fix h h' :: "'a links" and q :: "'a Fifo" and xs
  assume "fifo_rep h q xs" and "\<And>x. x \<in> set xs \<Longrightarrow> h' x = h x"
  then show "fifo_rep h' q xs" by (metis fifo_rep_cong)
next
  fix h :: "'a links" and q :: "'a Fifo" and x xs
  assume "fifo_rep h q (x # xs)"
  then show "\<exists>q'. pop_front h q = (Some x, h(x := None), q') \<and> fifo_rep (h(x := None)) q' xs"
    by (metis fifo_rep_pop_Cons)
qed (blast intro: fifo_rep_new fifo_rep_distinct fifo_rep_push push_back_links fifo_rep_pop_Nil)+


section \<open>Properties\<close>

text \<open>A caller that drives one queue with pushes and pops, and the list it should see.\<close>

datatype 'p fifo_op = Push 'p | Pop

fun fifo_run :: "'p links \<Rightarrow> 'p Fifo \<Rightarrow> 'p fifo_op list \<Rightarrow> 'p option list \<times> 'p links \<times> 'p Fifo" where
  "fifo_run h q [] = ([], h, q)"
| "fifo_run h q (Push n # ops) = (let (h, q) = push_back h q n in fifo_run h q ops)"
| "fifo_run h q (Pop # ops) =
     (let (r, h, q) = pop_front h q; (rs, h, q) = fifo_run h q ops in (r # rs, h, q))"

fun list_run :: "'p list \<Rightarrow> 'p fifo_op list \<Rightarrow> 'p option list \<times> 'p list" where
  "list_run xs [] = ([], xs)"
| "list_run xs (Push n # ops) = list_run (xs @ [n]) ops"
| "list_run [] (Pop # ops) = (let (rs, ys) = list_run [] ops in (None # rs, ys))"
| "list_run (x # xs) (Pop # ops) = (let (rs, ys) = list_run xs ops in (Some x # rs, ys))"

text \<open>Rule 1 of the caller's contract: a node is pushed only while it is on no queue.\<close>

fun pushes_fresh :: "'p list \<Rightarrow> 'p fifo_op list \<Rightarrow> bool" where
  "pushes_fresh xs [] = True"
| "pushes_fresh xs (Push n # ops) = (n \<notin> set xs \<and> pushes_fresh (xs @ [n]) ops)"
| "pushes_fresh xs (Pop # ops) = pushes_fresh (tl xs) ops"

text \<open>C32. First in, first out, with nothing lost and nothing invented.  Under the caller's contract,
  any interleaving of pushes and pops on a queue that represents a list gives the answers of the
  list itself, ends in a queue that represents the resulting list (so its length and emptiness
  answers are right too), and touches the link of no node that was neither queued nor pushed.\<close>

theorem fifo_refines_list:
  assumes "fifo_rep h q xs" and "pushes_fresh xs ops"
  shows "case fifo_run h q ops of (rs, h', q') \<Rightarrow>
      rs = fst (list_run xs ops) \<and> fifo_rep h' q' (snd (list_run xs ops))
      \<and> (\<forall>p. p \<notin> set xs \<and> Push p \<notin> set ops \<longrightarrow> h' p = h p)"
  using assms
proof (induction xs ops arbitrary: h q rule: list_run.induct)
  case (2 xs n ops)
  obtain h1 q1 where p: "push_back h q n = (h1, q1)" by (cases "push_back h q n")
  have "fifo_rep h1 q1 (xs @ [n])" using 2 p by (auto intro: fifo_rep_push)
  moreover have "h1 x = h x" if "x \<notin> insert n (set xs)" for x
    using push_back_links [OF "2.prems"(1) p that] .
  ultimately show ?case using "2.IH" [of h1 q1] "2.prems"(2) p by (auto split: prod.splits)
next
  case (3 ops)
  show ?case
    using "3.IH" [of h q] "3.prems" by (auto simp: fifo_rep_pop_Nil split: prod.splits)
next
  case (4 x xs ops)
  obtain q1 where "pop_front h q = (Some x, h(x := None), q1)" "fifo_rep (h(x := None)) q1 xs"
    using fifo_rep_pop_Cons [OF "4.prems"(1)] .
  with "4.IH" [of "h(x := None)" q1] "4.prems"(2) show ?case
    by (auto simp del: fun_upd_apply split: prod.splits) (auto split: if_splits)
qed simp

theorem fifo_refines_list_witness:
  "pushes_fresh [] [Push (1 :: nat), Push 2, Pop, Push 1, Pop]
   \<and> (case fifo_run (\<lambda>_. None) new_fifo [Push 1, Push 2, Pop, Push 1, Pop] of (rs, h', q') \<Rightarrow>
        rs = [Some (1 :: nat), Some 2] \<and> fifo_rep h' q' [1] \<and> h' 7 = None)"
  using fifo_refines_list [OF fifo_rep_new [of "\<lambda>_. None"],
      of "[Push (1 :: nat), Push 2, Pop, Push 1, Pop]"]
  by (simp split: prod.splits)

end
