(* ===== verification/Ipc_Rendezvous.thy ===== *)
theory Ipc_Rendezvous
  imports Intrusive_Fifo "HOL-Library.Multiset"
begin

text \<open>The synchronous rendezvous of \<open>src/crates/inter_process_communication/src/lib.rs\<close>: two wait
  queues over the blocked threads' own link fields, a saturating count of pending signals, and the
  interrupt binding.  Every operation takes and returns the link memory.  The list-level contract
  (\<open>spec_step\<close>) is what the object promises; \<open>rv_rep\<close> relates the two, and the properties are proved
  over arbitrary sequences of operations by the threads of a kernel that hands in only threads that
  are on no queue.\<close>

unbundle bit_operations_syntax


section \<open>The object and its operations\<close>

record 'p Rendezvous =
  senders :: "'p Fifo"
  receivers :: "'p Fifo"
  pending :: u32
  bound_to_interrupt :: bool

datatype 'p Send = Send_Rendezvous 'p | Send_Blocked | Send_Refused

datatype 'p Receive = Receive_Signal | Receive_FromSender 'p | Receive_Blocked

definition new_rendezvous :: "'p Rendezvous" where
  "new_rendezvous = \<lparr>senders = new_fifo, receivers = new_fifo, pending = 0, bound_to_interrupt = False\<rparr>"

definition bind_to_interrupt :: "'p Rendezvous \<Rightarrow> 'p Rendezvous" where
  "bind_to_interrupt r = r\<lparr>bound_to_interrupt := True\<rparr>"

definition is_bound_to_interrupt :: "'p Rendezvous \<Rightarrow> bool" where
  "is_bound_to_interrupt r = bound_to_interrupt r"

definition one_queue_invariant :: "'p Rendezvous \<Rightarrow> bool" where
  "one_queue_invariant r \<longleftrightarrow> fifo_is_empty (senders r) \<or> fifo_is_empty (receivers r)"

definition rv_is_idle :: "'p Rendezvous \<Rightarrow> bool" where
  "rv_is_idle r \<longleftrightarrow> fifo_is_empty (senders r) \<and> fifo_is_empty (receivers r)"

definition rv_debug_counts :: "'p Rendezvous \<Rightarrow> nat \<times> nat \<times> u32" where
  "rv_debug_counts r = (fifo_len (senders r), fifo_len (receivers r), pending r)"


definition remove_sender ::
    "'p links \<Rightarrow> 'p Rendezvous \<Rightarrow> 'p \<Rightarrow> (bool \<times> 'p links \<times> 'p Rendezvous) option" where
  "remove_sender h r victim =
     (case drain_with pop_front (repush_unless push_back victim) h (senders r) (new_fifo, False) of
        None \<Rightarrow> None
      | Some (h, _, kept, found) \<Rightarrow> Some (found, h, r\<lparr>senders := kept\<rparr>))"

definition remove_receiver ::
    "'p links \<Rightarrow> 'p Rendezvous \<Rightarrow> 'p \<Rightarrow> (bool \<times> 'p links \<times> 'p Rendezvous) option" where
  "remove_receiver h r victim =
     (case drain_with pop_front (repush_unless push_back victim) h (receivers r) (new_fifo, False) of
        None \<Rightarrow> None
      | Some (h, _, kept, found) \<Rightarrow> Some (found, h, r\<lparr>receivers := kept\<rparr>))"

definition send :: "'p links \<Rightarrow> 'p Rendezvous \<Rightarrow> 'p \<Rightarrow> 'p Send \<times> 'p links \<times> 'p Rendezvous" where
  "send h r me =
     (if bound_to_interrupt r then (Send_Refused, h, r)
      else case pop_front h (receivers r) of
        (Some receiver, h, q) \<Rightarrow> (Send_Rendezvous receiver, h, r\<lparr>receivers := q\<rparr>)
      | (None, h, q) \<Rightarrow>
          let r = r\<lparr>receivers := q\<rparr>; (h, q) = push_back h (senders r) me
          in (Send_Blocked, h, r\<lparr>senders := q\<rparr>))"

definition receive :: "'p links \<Rightarrow> 'p Rendezvous \<Rightarrow> 'p \<Rightarrow> 'p Receive \<times> 'p links \<times> 'p Rendezvous" where
  "receive h r me =
     (if pending r > 0 then (Receive_Signal, h, r\<lparr>pending := pending r - 1\<rparr>)
      else case pop_front h (senders r) of
        (Some sender, h, q) \<Rightarrow> (Receive_FromSender sender, h, r\<lparr>senders := q\<rparr>)
      | (None, h, q) \<Rightarrow>
          let r = r\<lparr>senders := q\<rparr>; (h, q) = push_back h (receivers r) me
          in (Receive_Blocked, h, r\<lparr>receivers := q\<rparr>))"

definition rv_signal :: "'p links \<Rightarrow> 'p Rendezvous \<Rightarrow> 'p option \<times> 'p links \<times> 'p Rendezvous" where
  "rv_signal h r =
     (case pop_front h (receivers r) of
        (Some receiver, h, q) \<Rightarrow> (Some receiver, h, r\<lparr>receivers := q\<rparr>)
      | (None, h, q) \<Rightarrow> (None, h, r\<lparr>receivers := q, pending := saturating_add (pending r) 1\<rparr>))"


section \<open>The contract\<close>

record 'p ipc_spec =
  sp_senders :: "'p list"
  sp_receivers :: "'p list"
  sp_pending :: nat
  sp_bound :: bool

definition spec_new :: "'p ipc_spec" where
  "spec_new = \<lparr>sp_senders = [], sp_receivers = [], sp_pending = 0, sp_bound = False\<rparr>"

definition max_pending :: nat where "max_pending = 2 ^ 32 - 1"

datatype 'p ipc_op =
  OpSend 'p | OpReceive 'p | OpSignal | OpBind | OpRemoveSender 'p | OpRemoveReceiver 'p

datatype 'p ipc_answer =
  Sent "'p Send" | Received "'p Receive" | Signalled "'p option" | Bound | Removed bool

fun spec_step :: "'p ipc_op \<Rightarrow> 'p ipc_spec \<Rightarrow> 'p ipc_answer \<times> 'p ipc_spec" where
  "spec_step (OpSend me) s =
     (if sp_bound s then (Sent Send_Refused, s)
      else case sp_receivers s of
        p # ps \<Rightarrow> (Sent (Send_Rendezvous p), s\<lparr>sp_receivers := ps\<rparr>)
      | [] \<Rightarrow> (Sent Send_Blocked, s\<lparr>sp_senders := sp_senders s @ [me]\<rparr>))"
| "spec_step (OpReceive me) s =
     (if 0 < sp_pending s then (Received Receive_Signal, s\<lparr>sp_pending := sp_pending s - 1\<rparr>)
      else case sp_senders s of
        p # ps \<Rightarrow> (Received (Receive_FromSender p), s\<lparr>sp_senders := ps\<rparr>)
      | [] \<Rightarrow> (Received Receive_Blocked, s\<lparr>sp_receivers := sp_receivers s @ [me]\<rparr>))"
| "spec_step OpSignal s =
     (case sp_receivers s of
        p # ps \<Rightarrow> (Signalled (Some p), s\<lparr>sp_receivers := ps\<rparr>)
      | [] \<Rightarrow> (Signalled None, s\<lparr>sp_pending := min max_pending (sp_pending s + 1)\<rparr>))"
| "spec_step OpBind s = (Bound, s\<lparr>sp_bound := True\<rparr>)"
| "spec_step (OpRemoveSender p) s =
     (Removed (p \<in> set (sp_senders s)), s\<lparr>sp_senders := filter (\<lambda>n. n \<noteq> p) (sp_senders s)\<rparr>)"
| "spec_step (OpRemoveReceiver p) s =
     (Removed (p \<in> set (sp_receivers s)), s\<lparr>sp_receivers := filter (\<lambda>n. n \<noteq> p) (sp_receivers s)\<rparr>)"

text \<open>The same operations on the object itself.  \<open>None\<close> would be a loop that does not end.\<close>

fun ipc_step ::
    "'p ipc_op \<Rightarrow> 'p links \<Rightarrow> 'p Rendezvous \<Rightarrow> ('p ipc_answer \<times> 'p links \<times> 'p Rendezvous) option" where
  "ipc_step (OpSend me) h r = (case send h r me of (a, h, r) \<Rightarrow> Some (Sent a, h, r))"
| "ipc_step (OpReceive me) h r = (case receive h r me of (a, h, r) \<Rightarrow> Some (Received a, h, r))"
| "ipc_step OpSignal h r = (case rv_signal h r of (a, h, r) \<Rightarrow> Some (Signalled a, h, r))"
| "ipc_step OpBind h r = Some (Bound, h, bind_to_interrupt r)"
| "ipc_step (OpRemoveSender p) h r =
     (case remove_sender h r p of None \<Rightarrow> None | Some (b, h, r) \<Rightarrow> Some (Removed b, h, r))"
| "ipc_step (OpRemoveReceiver p) h r =
     (case remove_receiver h r p of None \<Rightarrow> None | Some (b, h, r) \<Rightarrow> Some (Removed b, h, r))"

fun ipc_run ::
    "'p ipc_op list \<Rightarrow> 'p links \<Rightarrow> 'p Rendezvous \<Rightarrow> ('p ipc_answer list \<times> 'p links \<times> 'p Rendezvous) option" where
  "ipc_run [] h r = Some ([], h, r)"
| "ipc_run (x # xs) h r =
     (case ipc_step x h r of
        None \<Rightarrow> None
      | Some (a, h, r) \<Rightarrow>
          (case ipc_run xs h r of None \<Rightarrow> None | Some (as, h, r) \<Rightarrow> Some (a # as, h, r)))"

fun spec_run :: "'p ipc_op list \<Rightarrow> 'p ipc_spec \<Rightarrow> 'p ipc_answer list \<times> 'p ipc_spec" where
  "spec_run [] s = ([], s)"
| "spec_run (x # xs) s =
     (let (a, s) = spec_step x s; (as, s) = spec_run xs s in (a # as, s))"

text \<open>The safety clause of \<open>send\<close> and \<open>receive\<close>: the arriving thread is on no queue.\<close>

fun arrives_unqueued :: "'p ipc_op \<Rightarrow> 'p ipc_spec \<Rightarrow> bool" where
  "arrives_unqueued (OpSend p) s = (p \<notin> set (sp_senders s) \<union> set (sp_receivers s))"
| "arrives_unqueued (OpReceive p) s = (p \<notin> set (sp_senders s) \<union> set (sp_receivers s))"
| "arrives_unqueued _ s = True"

fun contract_kept :: "'p ipc_op list \<Rightarrow> 'p ipc_spec \<Rightarrow> bool" where
  "contract_kept [] s = True"
| "contract_kept (x # xs) s = (arrives_unqueued x s \<and> contract_kept xs (snd (spec_step x s)))"

definition rv_rep :: "'p links \<Rightarrow> 'p Rendezvous \<Rightarrow> 'p ipc_spec \<Rightarrow> bool" where
  "rv_rep h r s \<longleftrightarrow>
     fifo_rep h (senders r) (sp_senders s) \<and> fifo_rep h (receivers r) (sp_receivers s)
     \<and> set (sp_senders s) \<inter> set (sp_receivers s) = {}
     \<and> unat (pending r) = sp_pending s \<and> bound_to_interrupt r = sp_bound s"


section \<open>The operations implement the contract\<close>

lemma rv_rep_new: "rv_rep h new_rendezvous spec_new"
  by (simp add: rv_rep_def new_rendezvous_def spec_new_def fifo_rep_new)

fun party :: "'p ipc_op \<Rightarrow> 'p set" where
  "party (OpSend p) = {p}"
| "party (OpReceive p) = {p}"
| "party _ = {}"

definition waiting :: "'p ipc_spec \<Rightarrow> 'p set" where
  "waiting s = set (sp_senders s) \<union> set (sp_receivers s)"

text \<open>What a step on the object must give for it to implement one step of the contract.\<close>

definition implements ::
    "'p ipc_op \<Rightarrow> 'p links \<Rightarrow> 'p Rendezvous \<Rightarrow> 'p ipc_spec \<Rightarrow> bool" where
  "implements x h r s \<longleftrightarrow>
     (\<exists>h' r'. ipc_step x h r = Some (fst (spec_step x s), h', r') \<and> rv_rep h' r' (snd (spec_step x s))
       \<and> (\<forall>p. p \<notin> waiting s \<union> party x \<longrightarrow> h' p = h p))"

lemma pop_pair:
  assumes "fifo_rep h q (x # xs)" and "fifo_rep h q2 ys" and "x \<notin> set ys"
  obtains q' where "pop_front h q = (Some x, h(x := None), q')"
    and "fifo_rep (h(x := None)) q' xs" and "fifo_rep (h(x := None)) q2 ys"
  using fifo_rep_pop_Cons [OF assms(1)] fifo.rep_pop_other [OF assms(2,3)] by metis

lemma push_pair:
  assumes "fifo_rep h q xs" and "fifo_rep h q2 ys" and "n \<notin> set xs" and "n \<notin> set ys"
    and "set xs \<inter> set ys = {}"
  obtains h' q' where "push_back h q n = (h', q')" and "fifo_rep h' q' (xs @ [n])"
    and "fifo_rep h' q2 ys" and "\<forall>p. p \<notin> insert n (set xs) \<longrightarrow> h' p = h p"
proof -
  obtain h' q' where push: "push_back h q n = (h', q')" by (cases "push_back h q n")
  have "set ys \<inter> insert n (set xs) = {}" using assms(4,5) by auto
  then have "fifo_rep h' q2 ys" by (rule fifo.rep_push_other [OF assms(1) push assms(2)])
  with push fifo_rep_push [OF assms(1,3) push] push_back_links [OF assms(1) push] show ?thesis
    using that by blast
qed

lemma send_implements:
  assumes rep: "rv_rep h r s" and fresh: "me \<notin> set (sp_senders s)" "me \<notin> set (sp_receivers s)"
  shows "implements (OpSend me) h r s"
proof (cases "sp_bound s")
  case True
  then show ?thesis using rep by (auto simp: implements_def send_def rv_rep_def)
next
  case False
  note R = rep [unfolded rv_rep_def]
  show ?thesis
  proof (cases "sp_receivers s")
    case Nil
    obtain h' q' where "push_back h (senders r) me = (h', q')" "fifo_rep h' q' (sp_senders s @ [me])"
      "fifo_rep h' (receivers r) []" "\<forall>p. p \<notin> insert me (set (sp_senders s)) \<longrightarrow> h' p = h p"
      using push_pair [of h "senders r" "sp_senders s" "receivers r" "[]" me] R Nil fresh by auto
    with False Nil R show ?thesis
      by (auto simp: implements_def send_def fifo_rep_pop_Nil rv_rep_def waiting_def)
  next
    case (Cons p ps)
    obtain q' where "pop_front h (receivers r) = (Some p, h(p := None), q')"
      "fifo_rep (h(p := None)) q' ps" "fifo_rep (h(p := None)) (senders r) (sp_senders s)"
      using pop_pair [of h "receivers r" p ps "senders r" "sp_senders s"] R Cons by auto
    with False Cons R show ?thesis
      by (auto simp: implements_def send_def rv_rep_def waiting_def)
  qed
qed

lemma receive_implements:
  assumes rep: "rv_rep h r s" and fresh: "me \<notin> set (sp_senders s)" "me \<notin> set (sp_receivers s)"
  shows "implements (OpReceive me) h r s"
proof (cases "0 < sp_pending s")
  case True
  then have "pending r > 0" using rep by (auto simp: rv_rep_def word_less_nat_alt)
  moreover from this have "unat (pending r - 1) = unat (pending r) - 1"
    by (simp add: unat_sub_le word_le_nat_alt word_less_nat_alt)
  ultimately show ?thesis using rep True by (auto simp: implements_def receive_def rv_rep_def)
next
  case False
  note R = rep [unfolded rv_rep_def]
  have zero: "pending r = 0" using False R by (simp add: unat_eq_0)
  show ?thesis
  proof (cases "sp_senders s")
    case Nil
    obtain h' q' where "push_back h (receivers r) me = (h', q')" "fifo_rep h' q' (sp_receivers s @ [me])"
      "fifo_rep h' (senders r) []" "\<forall>p. p \<notin> insert me (set (sp_receivers s)) \<longrightarrow> h' p = h p"
      using push_pair [of h "receivers r" "sp_receivers s" "senders r" "[]" me] R Nil fresh by auto
    with False zero Nil R show ?thesis
      by (auto simp: implements_def receive_def fifo_rep_pop_Nil rv_rep_def waiting_def)
  next
    case (Cons p ps)
    obtain q' where "pop_front h (senders r) = (Some p, h(p := None), q')"
      "fifo_rep (h(p := None)) q' ps" "fifo_rep (h(p := None)) (receivers r) (sp_receivers s)"
      using pop_pair [of h "senders r" p ps "receivers r" "sp_receivers s"] R Cons by auto
    with False zero Cons R show ?thesis
      by (auto simp: implements_def receive_def rv_rep_def waiting_def)
  qed
qed

lemma signal_implements:
  assumes rep: "rv_rep h r s"
  shows "implements OpSignal h r s"
proof (cases "sp_receivers s")
  case Nil
  with rep have "unat (saturating_add (pending r) 1) = min max_pending (sp_pending s + 1)"
    by (simp add: unat_saturating_add rv_rep_def max_pending_def)
  with rep Nil show ?thesis
    by (auto simp: implements_def rv_signal_def fifo_rep_pop_Nil rv_rep_def)
next
  case (Cons p ps)
  obtain q' where "pop_front h (receivers r) = (Some p, h(p := None), q')"
    "fifo_rep (h(p := None)) q' ps" "fifo_rep (h(p := None)) (senders r) (sp_senders s)"
    using pop_pair [of h "receivers r" p ps "senders r" "sp_senders s"] rep Cons
    by (auto simp: rv_rep_def)
  with Cons rep show ?thesis
    by (auto simp: implements_def rv_signal_def rv_rep_def waiting_def)
qed

lemma remove_implements:
  assumes rep: "rv_rep h r s"
  shows "implements (OpRemoveSender p) h r s" and "implements (OpRemoveReceiver p) h r s"
proof -
  note R = rep [unfolded rv_rep_def]
  obtain h' q' kept where D: "drain_with pop_front (repush_unless push_back p) h (senders r) (new_fifo, False)
      = Some (h', q', kept, p \<in> set (sp_senders s))"
    "fifo_rep h' kept (filter (\<lambda>n. n \<noteq> p) (sp_senders s))" "\<forall>x. x \<notin> set (sp_senders s) \<longrightarrow> h' x = h x"
    using fifo.repush_removes [of h "senders r" "sp_senders s" p] R by blast
  moreover have "fifo_rep h' (receivers r) (sp_receivers s)"
    by (rule fifo.rep_local [of h]) (use R D(3) in auto)
  ultimately show "implements (OpRemoveSender p) h r s"
    using R by (auto simp: implements_def remove_sender_def rv_rep_def waiting_def)
  obtain h' q' kept where D: "drain_with pop_front (repush_unless push_back p) h (receivers r) (new_fifo, False)
      = Some (h', q', kept, p \<in> set (sp_receivers s))"
    "fifo_rep h' kept (filter (\<lambda>n. n \<noteq> p) (sp_receivers s))" "\<forall>x. x \<notin> set (sp_receivers s) \<longrightarrow> h' x = h x"
    using fifo.repush_removes [of h "receivers r" "sp_receivers s" p] R by blast
  moreover have "fifo_rep h' (senders r) (sp_senders s)"
    by (rule fifo.rep_local [of h]) (use R D(3) in auto)
  ultimately show "implements (OpRemoveReceiver p) h r s"
    using R by (auto simp: implements_def remove_receiver_def rv_rep_def waiting_def)
qed

lemma step_implements:
  assumes "rv_rep h r s" and "arrives_unqueued x s"
  shows "implements x h r s"
proof (cases x)
  case OpBind
  then show ?thesis using assms(1) by (auto simp: implements_def bind_to_interrupt_def rv_rep_def)
qed (use assms send_implements receive_implements signal_implements remove_implements in auto)

text \<open>What the object's own observers then report.\<close>

lemma rv_rep_observers:
  assumes "rv_rep h r s"
  shows "rv_debug_counts r = (length (sp_senders s), length (sp_receivers s), of_nat (sp_pending s))"
    and "rv_is_idle r \<longleftrightarrow> sp_senders s = [] \<and> sp_receivers s = []"
    and "one_queue_invariant r \<longleftrightarrow> sp_senders s = [] \<or> sp_receivers s = []"
    and "unat (pending r) = sp_pending s"
proof -
  have "sp_pending s = unat (pending r)" using assms by (simp add: rv_rep_def)
  with assms show "rv_debug_counts r = (length (sp_senders s), length (sp_receivers s), of_nat (sp_pending s))"
    by (auto simp: rv_rep_def rv_debug_counts_def fifo_rep_len)
qed (use assms in \<open>auto simp: rv_rep_def rv_is_idle_def one_queue_invariant_def fifo_rep_is_empty\<close>)

lemma spec_new_fields [simp]:
  "sp_senders spec_new = []" "sp_receivers spec_new = []" "sp_pending spec_new = 0" "sp_bound spec_new = False"
  by (simp_all add: spec_new_def)

lemma waiting_new [simp]: "waiting spec_new = {}"
  by (simp add: waiting_def spec_new_def)

lemma run_implements:
  assumes "rv_rep h r s" and "contract_kept xs s"
  shows "\<exists>h' r'. ipc_run xs h r = Some (fst (spec_run xs s), h', r') \<and> rv_rep h' r' (snd (spec_run xs s))
    \<and> (\<forall>p. p \<notin> waiting s \<union> \<Union> (party ` set xs) \<longrightarrow> h' p = h p)"
  using assms
proof (induction xs arbitrary: h r s)
  case (Cons x xs)
  obtain h1 r1 where step: "ipc_step x h r = Some (fst (spec_step x s), h1, r1)"
    "rv_rep h1 r1 (snd (spec_step x s))" "\<forall>p. p \<notin> waiting s \<union> party x \<longrightarrow> h1 p = h p"
    using step_implements [of h r s x] Cons.prems by (auto simp: implements_def)
  have waits: "waiting (snd (spec_step x s)) \<subseteq> waiting s \<union> party x"
    by (cases x) (auto simp: waiting_def split: list.splits)
  obtain h2 r2 where "ipc_run xs h1 r1 = Some (fst (spec_run xs (snd (spec_step x s))), h2, r2)"
    "rv_rep h2 r2 (snd (spec_run xs (snd (spec_step x s))))"
    "\<forall>p. p \<notin> waiting (snd (spec_step x s)) \<union> \<Union> (party ` set xs) \<longrightarrow> h2 p = h1 p"
    using Cons.IH [OF step(2)] Cons.prems(2) by auto
  with step waits show ?case by (auto simp: split_beta Let_def)
qed auto


section \<open>What the contract guarantees\<close>

text \<open>At most one queue is non-empty, signals are counted only while no receiver waits, and no
  thread waits twice.\<close>

definition spec_ok :: "'p ipc_spec \<Rightarrow> bool" where
  "spec_ok s \<longleftrightarrow> (sp_senders s = [] \<or> sp_receivers s = []) \<and> (sp_pending s = 0 \<or> sp_receivers s = [])
     \<and> distinct (sp_senders s) \<and> distinct (sp_receivers s)"

lemma spec_ok_new: "spec_ok spec_new"
  by (simp add: spec_ok_def spec_new_def)

lemma spec_ok_step: "spec_ok s \<Longrightarrow> arrives_unqueued x s \<Longrightarrow> spec_ok (snd (spec_step x s))"
  by (cases x) (auto simp: spec_ok_def split: list.splits)

lemma spec_ok_run: "spec_ok s \<Longrightarrow> contract_kept xs s \<Longrightarrow> spec_ok (snd (spec_run xs s))"
  by (induction xs arbitrary: s) (auto simp: spec_ok_step split_beta Let_def)

text \<open>Signals: how many an answer accounts for.\<close>

fun signals_taken :: "'p ipc_answer \<Rightarrow> nat" where
  "signals_taken (Signalled (Some p)) = 1"
| "signals_taken (Received Receive_Signal) = 1"
| "signals_taken _ = 0"

definition signals_sent :: "'p ipc_op list \<Rightarrow> nat" where
  "signals_sent xs = length (filter (\<lambda>x. x = OpSignal) xs)"

lemma signals_step:
  assumes "sp_pending s + (if x = OpSignal then 1 else 0) \<le> max_pending"
  shows "sp_pending s + (if x = OpSignal then 1 else 0)
    = signals_taken (fst (spec_step x s)) + sp_pending (snd (spec_step x s))"
  using assms by (cases x) (auto split: list.splits)

lemma signals_run:
  assumes "sp_pending s + signals_sent xs \<le> max_pending"
  shows "sp_pending s + signals_sent xs
    = sum_list (map signals_taken (fst (spec_run xs s))) + sp_pending (snd (spec_run xs s))"
  using assms
proof (induction xs arbitrary: s)
  case (Cons x xs)
  have "sp_pending s + (if x = OpSignal then 1 else 0) \<le> max_pending"
    using Cons.prems by (auto simp: signals_sent_def split: if_splits)
  note step = signals_step [OF this]
  with Cons.prems have "sp_pending (snd (spec_step x s)) + signals_sent xs \<le> max_pending"
    by (auto simp: signals_sent_def split: if_splits)
  note run = Cons.IH [OF this]
  from step run show ?case by (auto simp: signals_sent_def split_beta Let_def split: if_splits)
qed (simp add: signals_sent_def)

text \<open>Threads: those an operation parks here, and those it gives back to the caller.\<close>

fun parked :: "'p ipc_op \<Rightarrow> 'p ipc_answer \<Rightarrow> 'p multiset" where
  "parked (OpSend p) (Sent Send_Blocked) = {#p#}"
| "parked (OpReceive p) (Received Receive_Blocked) = {#p#}"
| "parked _ _ = {#}"

fun released :: "'p ipc_op \<Rightarrow> 'p ipc_answer \<Rightarrow> 'p multiset" where
  "released (OpSend _) (Sent (Send_Rendezvous p)) = {#p#}"
| "released (OpReceive _) (Received (Receive_FromSender p)) = {#p#}"
| "released OpSignal (Signalled (Some p)) = {#p#}"
| "released (OpRemoveSender p) (Removed True) = {#p#}"
| "released (OpRemoveReceiver p) (Removed True) = {#p#}"
| "released _ _ = {#}"

definition all_waiting :: "'p ipc_spec \<Rightarrow> 'p multiset" where
  "all_waiting s = mset (sp_senders s) + mset (sp_receivers s)"

lemma mset_remove_distinct:
  "distinct xs \<Longrightarrow> mset xs = mset (filter (\<lambda>n. n \<noteq> p) xs) + (if p \<in> set xs then {#p#} else {#})"
  by (induction xs) (auto intro: arg_cong [where f = mset] simp: filter_id_conv)

lemma threads_step:
  assumes "spec_ok s"
  shows "all_waiting s + parked x (fst (spec_step x s))
    = all_waiting (snd (spec_step x s)) + released x (fst (spec_step x s))"
proof (cases x)
  case (OpRemoveSender p)
  with mset_remove_distinct [of "sp_senders s" p] assms show ?thesis
    by (cases "p \<in> set (sp_senders s)") (simp_all add: all_waiting_def spec_ok_def)
next
  case (OpRemoveReceiver p)
  with mset_remove_distinct [of "sp_receivers s" p] assms show ?thesis
    by (cases "p \<in> set (sp_receivers s)") (simp_all add: all_waiting_def spec_ok_def)
qed (auto simp: all_waiting_def split: list.splits)

lemma threads_run:
  assumes "spec_ok s" and "contract_kept xs s"
  shows "all_waiting s + (\<Sum>(x, a) \<leftarrow> zip xs (fst (spec_run xs s)). parked x a)
    = all_waiting (snd (spec_run xs s)) + (\<Sum>(x, a) \<leftarrow> zip xs (fst (spec_run xs s)). released x a)"
  using assms
proof (induction xs arbitrary: s)
  case (Cons x xs)
  have "spec_ok (snd (spec_step x s))" "contract_kept xs (snd (spec_step x s))"
    using Cons.prems spec_ok_step by auto
  note IH = Cons.IH [OF this]
  have swap: "a + (p + P) = w + (q + Q)" if "a + p = v + q" "v + P = w + Q" for a p P v w q Q :: "'a multiset"
    using that by (metis add.assoc add.commute)
  from swap [OF threads_step [OF Cons.prems(1), of x] IH] show ?case
    by (simp add: split_beta Let_def)
qed simp

text \<open>The binding: what can be handed out once it is set.\<close>

fun no_message :: "'p set \<Rightarrow> 'p ipc_answer \<Rightarrow> bool" where
  "no_message old (Sent x) = (x = Send_Refused)"
| "no_message old (Received (Receive_FromSender p)) = (p \<in> old)"
| "no_message old _ = True"

lemma bound_step:
  assumes "sp_bound s"
  shows "no_message (set (sp_senders s)) (fst (spec_step x s))" and "sp_bound (snd (spec_step x s))"
    and "set (sp_senders (snd (spec_step x s))) \<subseteq> set (sp_senders s)"
  using assms by (cases x; auto split: list.splits)+

lemma no_message_mono: "no_message A a \<Longrightarrow> A \<subseteq> B \<Longrightarrow> no_message B a"
  by (induction A a rule: no_message.induct) auto

lemma bound_stays: "sp_bound s \<Longrightarrow> sp_bound (snd (spec_run xs s))"
  by (induction xs arbitrary: s) (auto simp: bound_step split_beta Let_def)

lemma bound_run:
  assumes "sp_bound s" and "set (sp_senders s) \<subseteq> B"
  shows "list_all (no_message B) (fst (spec_run xs s))"
  using assms
proof (induction xs arbitrary: s)
  case (Cons x xs)
  with bound_step [OF Cons.prems(1), of x] no_message_mono show ?case
    by (fastforce simp: split_beta Let_def)
qed simp


section \<open>Properties\<close>

text \<open>C14. The rendezvous implements its contract.  For any sequence of sends, receives, signals,
  bindings and removals in which every arriving thread is on no queue, every operation returns (the
  two removal loops included), the answers are those of the list-level contract, the queues represent
  its lists, the diagnostic counts are its lengths and its pending count, and no link outside the
  arriving threads is written.\<close>

theorem rendezvous_refines_contract:
  assumes "contract_kept ops spec_new"
  shows "\<exists>h' r'. ipc_run ops h new_rendezvous = Some (fst (spec_run ops spec_new), h', r')
    \<and> rv_rep h' r' (snd (spec_run ops spec_new))
    \<and> (let s = snd (spec_run ops spec_new) in
        rv_debug_counts r' = (length (sp_senders s), length (sp_receivers s), of_nat (sp_pending s))
        \<and> (rv_is_idle r' \<longleftrightarrow> sp_senders s = [] \<and> sp_receivers s = []))
    \<and> (\<forall>p. p \<notin> \<Union> (party ` set ops) \<longrightarrow> h' p = h p)"
proof -
  obtain h' r' where "ipc_run ops h new_rendezvous = Some (fst (spec_run ops spec_new), h', r')"
    "rv_rep h' r' (snd (spec_run ops spec_new))" "\<forall>p. p \<notin> \<Union> (party ` set ops) \<longrightarrow> h' p = h p"
    using run_implements [OF rv_rep_new assms, of h] by auto
  with rv_rep_observers [OF this(2)] show ?thesis by (auto simp: Let_def)
qed

text \<open>A run in which two senders park, one is collected, the rendezvous is bound to an interrupt,
  the other is collected all the same, and a receiver then waits for a signal.\<close>

definition sample_ops :: "nat ipc_op list" where
  "sample_ops = [OpSend 1, OpSend 2, OpReceive 3, OpBind, OpReceive 4, OpSend 5, OpReceive 6,
     OpSignal, OpSignal, OpReceive 7, OpReceive 8, OpRemoveReceiver 8]"

lemma sample_kept: "contract_kept sample_ops spec_new"
  by (simp add: sample_ops_def spec_new_def max_pending_def)

lemma sample_spec:
  "spec_run sample_ops spec_new =
     ([Sent Send_Blocked, Sent Send_Blocked, Received (Receive_FromSender 1), Bound,
       Received (Receive_FromSender 2), Sent Send_Refused, Received Receive_Blocked,
       Signalled (Some 6), Signalled None, Received Receive_Signal, Received Receive_Blocked,
       Removed True], spec_new\<lparr>sp_bound := True\<rparr>)"
  by (simp add: sample_ops_def spec_new_def max_pending_def)

theorem rendezvous_refines_contract_witness:
  "contract_kept sample_ops spec_new \<and>
   (\<exists>h' r'. ipc_run sample_ops (\<lambda>_. None) new_rendezvous = Some (fst (spec_run sample_ops spec_new), h', r')
     \<and> rv_debug_counts r' = (0, 0, 0) \<and> h' 9 = None)"
proof -
  have "9 \<notin> \<Union> (party ` set sample_ops)" by (simp add: sample_ops_def)
  with rendezvous_refines_contract [OF sample_kept, of "\<lambda>_. None"] sample_kept show ?thesis
    by (auto simp: sample_spec Let_def)
qed

text \<open>At most one queue is ever non-empty: after any contract-respecting sequence from a fresh
  rendezvous the object's own \<open>one_queue_invariant\<close> check holds, and a signal is held back only while
  nobody waits to receive it.\<close>

theorem one_queue_invariant_always:
  assumes "contract_kept ops spec_new"
  shows "\<exists>as h' r'. ipc_run ops h new_rendezvous = Some (as, h', r') \<and> one_queue_invariant r'
    \<and> (pending r' = 0 \<or> fifo_is_empty (receivers r'))"
proof -
  obtain as h' r' where run: "ipc_run ops h new_rendezvous = Some (as, h', r')"
    "rv_rep h' r' (snd (spec_run ops spec_new))"
    using run_implements [OF rv_rep_new assms, of h] by blast
  have "spec_ok (snd (spec_run ops spec_new))" by (rule spec_ok_run [OF spec_ok_new assms])
  with run rv_rep_observers [OF run(2)] show ?thesis
    by (auto simp: spec_ok_def rv_rep_def fifo_rep_is_empty unat_eq_0)
qed

theorem one_queue_invariant_always_witness:
  "contract_kept sample_ops spec_new \<and>
   (\<exists>as h' r'. ipc_run sample_ops (\<lambda>_. None) new_rendezvous = Some (as, h', r') \<and> one_queue_invariant r')"
  using one_queue_invariant_always [OF sample_kept, of "\<lambda>_. None"] sample_kept by blast

text \<open>C18. No signal is lost.  From a fresh rendezvous, as long as fewer than \<open>2\<^sup>3\<^sup>2\<close> signals are
  raised, every one of them has woken a waiting receiver, has been drained by a receive, or is
  still counted.\<close>

theorem no_signal_lost:
  assumes "contract_kept ops spec_new" and "signals_sent ops < 2 ^ 32"
  shows "\<exists>as h' r'. ipc_run ops h new_rendezvous = Some (as, h', r')
    \<and> signals_sent ops = sum_list (map signals_taken as) + unat (pending r')"
proof -
  obtain h' r' where run: "ipc_run ops h new_rendezvous = Some (fst (spec_run ops spec_new), h', r')"
    "rv_rep h' r' (snd (spec_run ops spec_new))"
    using run_implements [OF rv_rep_new assms(1), of h] by blast
  have "sp_pending (spec_new :: 'a ipc_spec) = 0" by (simp add: spec_new_def)
  with run rv_rep_observers(4) [OF run(2)] signals_run [of spec_new ops] assms(2) show ?thesis
    by (simp add: max_pending_def)
qed

theorem no_signal_lost_witness:
  "signals_sent sample_ops = 2 \<and>
   (\<exists>as h' r'. ipc_run sample_ops (\<lambda>_. None) new_rendezvous = Some (as, h', r')
     \<and> 2 = sum_list (map signals_taken as) + unat (pending r'))"
proof -
  have "signals_sent sample_ops = 2" by (simp add: signals_sent_def sample_ops_def)
  with no_signal_lost [OF sample_kept, of "\<lambda>_. None"] show ?thesis by simp
qed

text \<open>No thread is lost or handed back twice.  Over any contract-respecting sequence from a fresh
  rendezvous, the threads that parked are exactly (with multiplicity) those still waiting together
  with those given back: by a rendezvous, to a receiver, woken by a signal, or unlinked by a
  removal.\<close>

theorem no_thread_lost:
  assumes "contract_kept ops spec_new"
  shows "\<exists>as h' r' ss rs. ipc_run ops h new_rendezvous = Some (as, h', r')
    \<and> fifo_rep h' (senders r') ss \<and> fifo_rep h' (receivers r') rs
    \<and> (\<Sum>(x, a) \<leftarrow> zip ops as. parked x a) = mset ss + mset rs + (\<Sum>(x, a) \<leftarrow> zip ops as. released x a)"
proof -
  obtain h' r' where run: "ipc_run ops h new_rendezvous = Some (fst (spec_run ops spec_new), h', r')"
    "rv_rep h' r' (snd (spec_run ops spec_new))"
    using run_implements [OF rv_rep_new assms(1), of h] by blast
  have "all_waiting (spec_new :: 'a ipc_spec) = {#}" by (simp add: all_waiting_def spec_new_def)
  with run threads_run [OF spec_ok_new assms] show ?thesis
    by (auto simp: all_waiting_def rv_rep_def)
qed

theorem no_thread_lost_witness:
  "contract_kept sample_ops spec_new \<and>
   (\<exists>as h' r' ss rs. ipc_run sample_ops (\<lambda>_. None) new_rendezvous = Some (as, h', r')
     \<and> fifo_rep h' (senders r') ss \<and> fifo_rep h' (receivers r') rs
     \<and> (\<Sum>(x, a) \<leftarrow> zip sample_ops as. parked x a)
       = mset ss + mset rs + (\<Sum>(x, a) \<leftarrow> zip sample_ops as. released x a))"
  using no_thread_lost [OF sample_kept, of "\<lambda>_. None"] sample_kept by blast

text \<open>C36. A rendezvous bound to an interrupt takes no message.  Once bound, whatever is then done to
  it, every send is refused, and a receive is handed a signal or blocks, except that it still
  collects a sender that was already queued when the binding was made.\<close>

theorem bound_takes_no_message:
  assumes "rv_rep h r s" and "contract_kept ops (s\<lparr>sp_bound := True\<rparr>)"
  shows "\<exists>as h' r'. ipc_run ops h (bind_to_interrupt r) = Some (as, h', r')
    \<and> is_bound_to_interrupt r' \<and> list_all (no_message (set (sp_senders s))) as"
proof -
  have "rv_rep h (bind_to_interrupt r) (s\<lparr>sp_bound := True\<rparr>)"
    using assms(1) by (simp add: rv_rep_def bind_to_interrupt_def)
  from run_implements [OF this assms(2)] obtain h' r' where
    run: "ipc_run ops h (bind_to_interrupt r) = Some (fst (spec_run ops (s\<lparr>sp_bound := True\<rparr>)), h', r')"
    and rep: "rv_rep h' r' (snd (spec_run ops (s\<lparr>sp_bound := True\<rparr>)))"
    by blast
  have "sp_bound (snd (spec_run ops (s\<lparr>sp_bound := True\<rparr>)))"
    by (rule bound_stays) simp
  with run rep bound_run [of "s\<lparr>sp_bound := True\<rparr>" "set (sp_senders s)" ops] show ?thesis
    by (simp add: is_bound_to_interrupt_def rv_rep_def)
qed

text \<open>The exception is real: thread 2, queued before the binding, is collected after it.\<close>

theorem bound_takes_no_message_witness:
  "\<exists>h r as h' r'. rv_rep h r \<lparr>sp_senders = [2 :: nat], sp_receivers = [], sp_pending = 0, sp_bound = False\<rparr>
     \<and> ipc_run [OpReceive 4, OpSend 5, OpReceive 6] h (bind_to_interrupt r) = Some (as, h', r')
     \<and> as = [Received (Receive_FromSender 2), Sent Send_Refused, Received Receive_Blocked]
     \<and> is_bound_to_interrupt r' \<and> list_all (no_message {2}) as"
proof -
  let ?s = "\<lparr>sp_senders = [2 :: nat], sp_receivers = [], sp_pending = 0, sp_bound = False\<rparr>"
  let ?ops = "[OpReceive 4, OpSend 5, OpReceive 6] :: nat ipc_op list"
  have "contract_kept [OpSend (2 :: nat)] spec_new" by (simp add: spec_new_def)
  from run_implements [OF rv_rep_new this, of "\<lambda>_. None"] obtain h r where rep: "rv_rep h r ?s"
    by (auto simp: spec_new_def)
  have kept: "contract_kept ?ops (?s\<lparr>sp_bound := True\<rparr>)" by simp
  have "rv_rep h (bind_to_interrupt r) (?s\<lparr>sp_bound := True\<rparr>)"
    using rep by (simp add: rv_rep_def bind_to_interrupt_def)
  from run_implements [OF this kept] obtain h' r' where run: "ipc_run ?ops h (bind_to_interrupt r)
      = Some ([Received (Receive_FromSender 2), Sent Send_Refused, Received Receive_Blocked], h', r')"
    by (auto simp del: ipc_run.simps)
  with bound_takes_no_message [OF rep kept] have "is_bound_to_interrupt r'"
    by (simp del: ipc_run.simps)
  with rep run show ?thesis by (simp del: ipc_run.simps) blast
qed



end
