(* ===== verification/Ipc_Notification.thy ===== *)
theory Ipc_Notification
  imports Intrusive_Fifo
begin

text \<open>The notification object of \<open>src/crates/inter_process_communication/src/notification.rs\<close>: a word
  of binary semaphores and the queue of threads waiting for it to become non-zero.  The contract
  (\<open>note_spec_step\<close>) is over a word and a list; the bound thread's state, which the kernel decides, is
  an argument of every signal.\<close>

unbundle bit_operations_syntax


section \<open>The object and its operations\<close>

record 'p Notification =
  note_word :: u64
  waiters :: "'p Fifo"

datatype 'p Signal = Woke 'p u64 | ToBound u64 | Counted | Empty_Signal

datatype Wait = Wait_Word u64 | Wait_Blocked

definition new_notification :: "'p Notification" where
  "new_notification = \<lparr>note_word = 0, waiters = new_fifo\<rparr>"

definition invariant_holds :: "'p Notification \<Rightarrow> bool" where
  "invariant_holds n \<longleftrightarrow> note_word n = 0 \<or> fifo_is_empty (waiters n)"

definition nt_is_idle :: "'p Notification \<Rightarrow> bool" where
  "nt_is_idle n = fifo_is_empty (waiters n)"

definition nt_debug_counts :: "'p Notification \<Rightarrow> nat \<times> u64" where
  "nt_debug_counts n = (fifo_len (waiters n), note_word n)"

definition nt_signal ::
    "'p links \<Rightarrow> 'p Notification \<Rightarrow> u64 \<Rightarrow> bool \<Rightarrow> 'p Signal \<times> 'p links \<times> 'p Notification" where
  "nt_signal h n bits bound_receiving =
     (if bits = 0 then (Empty_Signal, h, n)
      else case pop_front h (waiters n) of
        (Some waiter, h, q) \<Rightarrow> (Woke waiter bits, h, n\<lparr>waiters := q\<rparr>)
      | (None, h, q) \<Rightarrow>
          let n = n\<lparr>waiters := q\<rparr> in
          if bound_receiving then
            let w = note_word n OR bits in (ToBound w, h, n\<lparr>note_word := 0\<rparr>)
          else (Counted, h, n\<lparr>note_word := note_word n OR bits\<rparr>))"

definition wait :: "'p links \<Rightarrow> 'p Notification \<Rightarrow> 'p \<Rightarrow> Wait \<times> 'p links \<times> 'p Notification" where
  "wait h n me =
     (if note_word n \<noteq> 0 then (Wait_Word (note_word n), h, n\<lparr>note_word := 0\<rparr>)
      else let (h, q) = push_back h (waiters n) me in (Wait_Blocked, h, n\<lparr>waiters := q\<rparr>))"

definition poll :: "'p Notification \<Rightarrow> u64 \<times> 'p Notification" where
  "poll n = (note_word n, n\<lparr>note_word := 0\<rparr>)"

definition remove_waiter ::
    "'p links \<Rightarrow> 'p Notification \<Rightarrow> 'p \<Rightarrow> (bool \<times> 'p links \<times> 'p Notification) option" where
  "remove_waiter h n victim =
     (case drain_with pop_front (repush_unless push_back victim) h (waiters n) (new_fifo, False) of
        None \<Rightarrow> None
      | Some (h, _, kept, found) \<Rightarrow> Some (found, h, n\<lparr>waiters := kept\<rparr>))"

definition nt_drain_waiters ::
    "('p \<Rightarrow> 'p links \<Rightarrow> 's \<Rightarrow> 'p links \<times> 's) \<Rightarrow> 'p links \<Rightarrow> 'p Notification \<Rightarrow> 's
      \<Rightarrow> ('p links \<times> 'p Notification \<times> 's) option" where
  "nt_drain_waiters f h n s =
     (case drain_with pop_front f h (waiters n) s of
        None \<Rightarrow> None
      | Some (h, q, s) \<Rightarrow> Some (h, n\<lparr>waiters := q\<rparr>, s))"


section \<open>The contract\<close>

datatype 'p note_op = NtSignal u64 bool | NtWait 'p | NtPoll | NtRemove 'p

datatype 'p note_answer = NtSignalled "'p Signal" | NtWaited Wait | NtPolled u64 | NtRemoved bool

type_synonym 'p note_spec = "u64 \<times> 'p list"

fun note_spec_step :: "'p note_op \<Rightarrow> 'p note_spec \<Rightarrow> 'p note_answer \<times> 'p note_spec" where
  "note_spec_step (NtSignal b bound) (w, ps) =
     (if b = 0 then (NtSignalled Empty_Signal, (w, ps))
      else case ps of
        p # ps \<Rightarrow> (NtSignalled (Woke p b), (w, ps))
      | [] \<Rightarrow> if bound then (NtSignalled (ToBound (w OR b)), (0, []))
              else (NtSignalled Counted, (w OR b, [])))"
| "note_spec_step (NtWait me) (w, ps) =
     (if w \<noteq> 0 then (NtWaited (Wait_Word w), (0, ps)) else (NtWaited Wait_Blocked, (w, ps @ [me])))"
| "note_spec_step NtPoll (w, ps) = (NtPolled w, (0, ps))"
| "note_spec_step (NtRemove p) (w, ps) = (NtRemoved (p \<in> set ps), (w, filter (\<lambda>n. n \<noteq> p) ps))"

fun note_spec_run :: "'p note_op list \<Rightarrow> 'p note_spec \<Rightarrow> 'p note_answer list \<times> 'p note_spec" where
  "note_spec_run [] s = ([], s)"
| "note_spec_run (x # xs) s =
     (let (a, s) = note_spec_step x s; (as, s) = note_spec_run xs s in (a # as, s))"

fun note_step ::
    "'p note_op \<Rightarrow> 'p links \<Rightarrow> 'p Notification \<Rightarrow> ('p note_answer \<times> 'p links \<times> 'p Notification) option" where
  "note_step (NtSignal b bound) h n = (case nt_signal h n b bound of (a, h, n) \<Rightarrow> Some (NtSignalled a, h, n))"
| "note_step (NtWait me) h n = (case wait h n me of (a, h, n) \<Rightarrow> Some (NtWaited a, h, n))"
| "note_step NtPoll h n = (case poll n of (w, n) \<Rightarrow> Some (NtPolled w, h, n))"
| "note_step (NtRemove p) h n =
     (case remove_waiter h n p of None \<Rightarrow> None | Some (b, h, n) \<Rightarrow> Some (NtRemoved b, h, n))"

fun note_run ::
    "'p note_op list \<Rightarrow> 'p links \<Rightarrow> 'p Notification \<Rightarrow> ('p note_answer list \<times> 'p links \<times> 'p Notification) option" where
  "note_run [] h n = Some ([], h, n)"
| "note_run (x # xs) h n =
     (case note_step x h n of
        None \<Rightarrow> None
      | Some (a, h, n) \<Rightarrow>
          (case note_run xs h n of None \<Rightarrow> None | Some (as, h, n) \<Rightarrow> Some (a # as, h, n)))"

fun waits_unqueued :: "'p note_op \<Rightarrow> 'p note_spec \<Rightarrow> bool" where
  "waits_unqueued (NtWait p) s = (p \<notin> set (snd s))"
| "waits_unqueued _ s = True"

fun note_contract :: "'p note_op list \<Rightarrow> 'p note_spec \<Rightarrow> bool" where
  "note_contract [] s = True"
| "note_contract (x # xs) s = (waits_unqueued x s \<and> note_contract xs (snd (note_spec_step x s)))"

definition nt_rep :: "'p links \<Rightarrow> 'p Notification \<Rightarrow> 'p note_spec \<Rightarrow> bool" where
  "nt_rep h n s \<longleftrightarrow> note_word n = fst s \<and> fifo_rep h (waiters n) (snd s)"


section \<open>The operations implement the contract\<close>

lemma nt_rep_new: "nt_rep h new_notification (0, [])"
  by (simp add: nt_rep_def new_notification_def fifo_rep_new)

lemma note_step_implements:
  assumes rep: "nt_rep h n s" and fresh: "waits_unqueued x s"
  shows "\<exists>h' n'. note_step x h n = Some (fst (note_spec_step x s), h', n') \<and> nt_rep h' n' (snd (note_spec_step x s))"
proof -
  obtain w ps where s: "s = (w, ps)" by (cases s)
  have R: "note_word n = w" "fifo_rep h (waiters n) ps" using rep by (simp_all add: nt_rep_def s)
  show ?thesis
  proof (cases x)
    case (NtSignal b bound)
    show ?thesis
    proof (cases ps)
      case Nil
      then show ?thesis using R by (auto simp: NtSignal s nt_signal_def fifo_rep_pop_Nil nt_rep_def Let_def)
    next
      case (Cons p qs)
      obtain q' where "pop_front h (waiters n) = (Some p, h(p := None), q')"
        "fifo_rep (h(p := None)) q' qs"
        using fifo_rep_pop_Cons R(2) Cons by metis
      then show ?thesis using R Cons by (auto simp: NtSignal s nt_signal_def nt_rep_def)
    qed
  next
    case (NtWait me)
    obtain h' q' where push: "push_back h (waiters n) me = (h', q')" by (cases "push_back h (waiters n) me")
    with fifo_rep_push [OF R(2) _ push] fresh show ?thesis
      using R by (auto simp: NtWait s wait_def nt_rep_def)
  next
    case NtPoll
    then show ?thesis using R by (auto simp: s poll_def nt_rep_def)
  next
    case (NtRemove p)
    with fifo.repush_removes [OF R(2), of p] R show ?thesis
      by (auto simp: s remove_waiter_def nt_rep_def)
  qed
qed

lemma note_run_implements:
  assumes "nt_rep h n s" and "note_contract xs s"
  shows "\<exists>h' n'. note_run xs h n = Some (fst (note_spec_run xs s), h', n') \<and> nt_rep h' n' (snd (note_spec_run xs s))"
  using assms
proof (induction xs arbitrary: h n s)
  case (Cons x xs)
  obtain h1 n1 where "note_step x h n = Some (fst (note_spec_step x s), h1, n1)"
    "nt_rep h1 n1 (snd (note_spec_step x s))"
    using note_step_implements [of h n s x] Cons.prems by auto
  moreover from this obtain h2 n2 where
    "note_run xs h1 n1 = Some (fst (note_spec_run xs (snd (note_spec_step x s))), h2, n2)"
    "nt_rep h2 n2 (snd (note_spec_run xs (snd (note_spec_step x s))))"
    using Cons.IH Cons.prems(2) by fastforce
  ultimately show ?case by (simp add: split_beta Let_def)
qed auto


section \<open>What the contract guarantees\<close>

definition note_ok :: "'p note_spec \<Rightarrow> bool" where
  "note_ok s \<longleftrightarrow> fst s = 0 \<or> snd s = []"

lemma note_ok_step: "note_ok s \<Longrightarrow> note_ok (snd (note_spec_step x s))"
  by (cases s; cases x) (auto simp: note_ok_def split: list.splits)

lemma note_ok_run: "note_ok s \<Longrightarrow> note_ok (snd (note_spec_run xs s))"
  by (induction xs arbitrary: s) (auto simp: note_ok_step split_beta Let_def)

text \<open>Bits an operation raises, and bits an answer delivers.\<close>

fun raised :: "'p note_op \<Rightarrow> u64" where
  "raised (NtSignal b _) = b"
| "raised _ = 0"

fun delivered :: "'p note_answer \<Rightarrow> u64" where
  "delivered (NtSignalled (Woke _ w)) = w"
| "delivered (NtSignalled (ToBound w)) = w"
| "delivered (NtWaited (Wait_Word w)) = w"
| "delivered (NtPolled w) = w"
| "delivered _ = 0"

definition or_all :: "u64 list \<Rightarrow> u64" where
  "or_all ws = foldr (OR) ws 0"

lemma or_all_simps [simp]: "or_all [] = 0" "or_all (w # ws) = w OR or_all ws"
  by (simp_all add: or_all_def)

lemma bits_step:
  "note_ok s \<Longrightarrow> fst s OR raised x = delivered (fst (note_spec_step x s)) OR fst (snd (note_spec_step x s))"
  by (cases s; cases x) (auto simp: note_ok_def split: list.splits)

lemma or_regroup:
  assumes "a OR p = d OR v" and "v OR P = D OR w"
  shows "a OR (p OR P) = (d OR D) OR (w :: u64)"
proof -
  have "a OR (p OR P) = d OR (v OR P)" unfolding or.assoc [symmetric] assms(1) ..
  then show ?thesis unfolding assms(2) or.assoc [symmetric] .
qed

lemma bits_run:
  "note_ok s \<Longrightarrow> fst s OR or_all (map raised xs)
    = or_all (map delivered (fst (note_spec_run xs s))) OR fst (snd (note_spec_run xs s))"
proof (induction xs arbitrary: s)
  case (Cons x xs)
  from or_regroup [OF bits_step [OF Cons.prems, of x] Cons.IH [OF note_ok_step [OF Cons.prems], of x]]
  show ?case by (simp add: split_beta Let_def)
qed simp


section \<open>Properties\<close>

text \<open>C23. The notification implements its contract over any sequence of signals, waits, polls and
  removals in which every waiting thread arrives on no queue: every operation returns, with the
  contract's answers, and a non-zero word never coexists with a waiter (the object's own
  \<open>invariant_holds\<close> check), so the branch of \<open>signal\<close> that delivers the new bits alone to a waiter
  withholds nothing.\<close>

theorem notification_refines_contract:
  assumes "note_contract ops (0, [])"
  shows "\<exists>h' n'. note_run ops h new_notification = Some (fst (note_spec_run ops (0, [])), h', n')
    \<and> nt_rep h' n' (snd (note_spec_run ops (0, []))) \<and> invariant_holds n'
    \<and> nt_debug_counts n' = (length (snd (snd (note_spec_run ops (0, [])))), fst (snd (note_spec_run ops (0, []))))"
proof -
  have "note_ok (snd (note_spec_run ops (0, [])))" by (rule note_ok_run) (simp add: note_ok_def)
  with note_run_implements [OF nt_rep_new assms, of h] show ?thesis
    by (auto simp: note_ok_def nt_rep_def invariant_holds_def nt_debug_counts_def fifo_rep_is_empty
        fifo_rep_len)
qed

definition sample_notes :: "nat note_op list" where
  "sample_notes = [NtSignal 1 False, NtSignal 4 False, NtWait 1, NtWait 2, NtWait 3, NtRemove 2,
     NtSignal 8 True, NtSignal 2 True, NtSignal 2 True, NtSignal 0 False, NtSignal 16 False, NtPoll]"

lemma sample_notes_kept: "note_contract sample_notes (0, [])"
  by (simp add: sample_notes_def)

lemma sample_notes_spec:
  "note_spec_run sample_notes (0, []) =
     ([NtSignalled Counted, NtSignalled Counted, NtWaited (Wait_Word 5), NtWaited Wait_Blocked,
       NtWaited Wait_Blocked, NtRemoved True, NtSignalled (Woke 3 8), NtSignalled (ToBound 2),
       NtSignalled (ToBound 2), NtSignalled Empty_Signal, NtSignalled Counted, NtPolled 16], (0, []))"
  by (simp add: sample_notes_def)

theorem notification_refines_contract_witness:
  "note_contract sample_notes (0, []) \<and>
   (\<exists>h' n'. note_run sample_notes (\<lambda>_. None) new_notification = Some (fst (note_spec_run sample_notes (0, [])), h', n')
     \<and> invariant_holds n' \<and> nt_debug_counts n' = (0, 0))"
  using notification_refines_contract [OF sample_notes_kept, of "\<lambda>_. None"] sample_notes_kept
  by (simp add: sample_notes_spec) blast

text \<open>C24. No bit is lost and none is invented: from a fresh notification, the bits raised by all
  signals are exactly the bits delivered (to a woken waiter, to the bound thread, by a wait or by a
  poll) together with the bits still in the word.\<close>

theorem no_bit_lost:
  assumes "note_contract ops (0, [])"
  shows "\<exists>as h' n'. note_run ops h new_notification = Some (as, h', n')
    \<and> or_all (map raised ops) = or_all (map delivered as) OR note_word n'"
proof -
  have "note_ok (0, [])" by (simp add: note_ok_def)
  with note_run_implements [OF nt_rep_new assms, of h] bits_run [of "(0, [])" ops] show ?thesis
    by (auto simp: nt_rep_def)
qed

theorem no_bit_lost_witness:
  "note_contract sample_notes (0, []) \<and>
   (\<exists>as h' n'. note_run sample_notes (\<lambda>_. None) new_notification = Some (as, h', n')
     \<and> 0x1f = or_all (map delivered as) OR note_word n')"
proof -
  have "or_all (map raised sample_notes) = 0x1f" by (simp add: sample_notes_def)
  with no_bit_lost [OF sample_notes_kept, of "\<lambda>_. None"] sample_notes_kept show ?thesis by simp
qed

text \<open>A wait or poll that answers is truthful: \<open>WAIT\<close> returns only a non-zero word, which it
  clears, and blocks exactly when the word is zero; draining a notification that is about to be
  destroyed terminates and hands over every waiter once, in order, leaving none.\<close>

theorem wait_and_drain:
  assumes "nt_rep h n (w, ps)"
  shows "(case wait h n me of
      (Wait_Word v, h', n') \<Rightarrow> v = w \<and> v \<noteq> 0 \<and> note_word n' = 0 \<and> h' = h \<and> waiters n' = waiters n
    | (Wait_Blocked, h', n') \<Rightarrow> w = 0 \<and> (me \<in> set ps \<or> nt_rep h' n' (0, ps @ [me])))
   \<and> (\<exists>h' n'. nt_drain_waiters (\<lambda>p h seen. (h, seen @ [p])) h n [] = Some (h', n', ps) \<and> nt_is_idle n'
       \<and> note_word n' = w)"
proof -
  have R: "note_word n = w" "fifo_rep h (waiters n) ps" using assms by (simp_all add: nt_rep_def)
  obtain h1 q1 where push: "push_back h (waiters n) me = (h1, q1)" by (cases "push_back h (waiters n) me")
  have seen: "snd (visit (\<lambda>p h seen. (h, seen @ [p])) ps h acc) = acc @ ps" for h :: "'a links" and acc
    by (induction ps arbitrary: h acc) simp_all
  obtain h2 q2 where "drain_with pop_front (\<lambda>p h seen. (h, seen @ [p])) h (waiters n) [] = Some (h2, q2, ps)"
    "fifo_rep h2 q2 []"
    using fifo.drain_visits [OF R(2), where f = "\<lambda>p h seen. (h, seen @ [p])" and s = "[]"] seen [of h "[]"]
    by auto
  with push fifo_rep_push [OF R(2) _ push] R show ?thesis
    by (auto simp: wait_def nt_rep_def nt_drain_waiters_def nt_is_idle_def fifo_rep_is_empty)
qed

theorem wait_and_drain_witness:
  "\<exists>h n h' n'. nt_rep h n (0, [1 :: nat, 2]) \<and> fst (wait h n 3) = Wait_Blocked
     \<and> nt_drain_waiters (\<lambda>p h seen. (h, seen @ [p])) h n [] = Some (h', n', [1, 2]) \<and> nt_is_idle n'"
proof -
  have "note_contract [NtWait 1, NtWait (2 :: nat)] (0, [])" by simp
  from note_run_implements [OF nt_rep_new this, of "\<lambda>_. None"] obtain h n where
    rep: "nt_rep h n (0, [1 :: nat, 2])"
    by auto
  have "fst (wait h n 3) = Wait_Blocked" using rep by (simp add: wait_def nt_rep_def split: prod.splits)
  with rep wait_and_drain [OF rep, of 3] show ?thesis by blast
qed

end
