(* ===== verification/Ipc_Timer.thy ===== *)
theory Ipc_Timer
  imports Prelude
begin

text \<open>The deadline timers of \<open>src/crates/inter_process_communication/src/timer.rs\<close>: one timer, the
  first due one of a sequence, and the earliest deadline.  The table of them and the tick that drives it are
  the kernel's.\<close>


section \<open>One timer\<close>

definition NEVER :: u64 where "NEVER = - 1"

datatype 't Arm = Pending | DueNow 't

datatype 't Timer = Timer (armed: "(u64 \<times> 't) option")

definition new_timer :: "'t Timer" where "new_timer = Timer None"

definition arm :: "'t Timer \<Rightarrow> u64 \<Rightarrow> 't \<Rightarrow> u64 \<Rightarrow> 't Arm \<times> 't Timer" where
  "arm t deadline target now =
     (if deadline \<le> now then (DueNow target, Timer None)
      else (Pending, Timer (Some (deadline, target))))"

definition cancel :: "'t Timer \<Rightarrow> bool \<times> 't Timer" where
  "cancel t = (armed t \<noteq> None, Timer None)"

definition expire :: "'t Timer \<Rightarrow> u64 \<Rightarrow> 't option \<times> 't Timer" where
  "expire t now =
     (case armed t of
        Some (deadline, target) \<Rightarrow> if deadline \<le> now then (Some target, Timer None) else (None, t)
      | None \<Rightarrow> (None, t))"

definition deadline :: "'t Timer \<Rightarrow> u64" where
  "deadline t = (case armed t of None \<Rightarrow> NEVER | Some (d, _) \<Rightarrow> d)"

definition is_armed :: "'t Timer \<Rightarrow> bool" where
  "is_armed t \<longleftrightarrow> armed t \<noteq> None"

definition lowered :: "u64 \<Rightarrow> u64 \<Rightarrow> u64" where
  "lowered cached d = min cached d"

definition is_due :: "u64 \<Rightarrow> u64 \<Rightarrow> bool" where
  "is_due cached now \<longleftrightarrow> cached \<le> now"

fun next_due :: "'t Timer list \<Rightarrow> u64 \<Rightarrow> 't option \<times> 't Timer list" where
  "next_due [] now = (None, [])"
| "next_due (t # ts) now =
     (case expire t now of
        (Some target, t) \<Rightarrow> (Some target, t # ts)
      | (None, t) \<Rightarrow> let (r, ts) = next_due ts now in (r, t # ts))"

definition earliest :: "'t Timer list \<Rightarrow> u64" where
  "earliest ts = foldl (\<lambda>e t. min e (deadline t)) NEVER ts"


section \<open>Lemmas\<close>

definition due :: "u64 \<Rightarrow> 't Timer \<Rightarrow> bool" where
  "due now t \<longleftrightarrow> is_armed t \<and> deadline t \<le> now"

definition fired_targets :: "u64 \<Rightarrow> 't Timer list \<Rightarrow> 't list" where
  "fired_targets now ts = map (snd \<circ> the \<circ> armed) (filter (due now) ts)"

definition disarm_due :: "u64 \<Rightarrow> 't Timer list \<Rightarrow> 't Timer list" where
  "disarm_due now ts = map (\<lambda>t. if due now t then Timer None else t) ts"

lemma expire_due: "expire t now = (if due now t then (Some (snd (the (armed t))), Timer None) else (None, t))"
  by (auto simp: expire_def due_def is_armed_def deadline_def split: option.splits)

lemma not_due_disarmed [simp]: "\<not> due now (Timer None)"
  by (simp add: due_def is_armed_def)

lemma next_due_None: "filter (due now) ts = [] \<Longrightarrow> next_due ts now = (None, ts)"
  by (induction ts) (auto simp: expire_due split: if_splits)

lemma next_due_Some:
  assumes "filter (due now) ts = t # us"
  shows "\<exists>ts'. next_due ts now = (Some (snd (the (armed t))), ts') \<and> filter (due now) ts' = us
    \<and> disarm_due now ts' = disarm_due now ts"
  using assms
  by (induction ts) (auto simp: expire_due disarm_due_def split: if_splits prod.splits)

text \<open>Timers under a cached earliest deadline: the cache is sound when no armed timer is due before it.\<close>

type_synonym 't bank = "'t Timer list \<times> u64"

definition cache_sound :: "'t bank \<Rightarrow> bool" where
  "cache_sound bank \<longleftrightarrow> (\<forall>t \<in> set (fst bank). is_armed t \<longrightarrow> snd bank \<le> deadline t)"

lemma deadline_disarmed: "\<not> is_armed t \<Longrightarrow> deadline t = NEVER"
  by (cases "armed t") (auto simp: is_armed_def deadline_def)

lemma earliest_Min: "earliest ts = Min (insert NEVER (deadline ` set ts))"
proof -
  have "foldl (\<lambda>e t. min e (deadline t)) e ts = Min (insert e (deadline ` set ts))" for e
  proof (induction ts arbitrary: e)
    case (Cons t ts)
    then show ?case by (cases "ts = []") (simp_all add: min.assoc)
  qed simp
  then show ?thesis by (simp add: earliest_def)
qed

lemma earliest_le: "t \<in> set ts \<Longrightarrow> earliest ts \<le> deadline t"
  by (simp add: earliest_Min)

text \<open>The recomputed cache is exact: it is the deadline of some armed timer, or \<open>NEVER\<close>.\<close>

lemma earliest_exact: "earliest ts = NEVER \<or> (\<exists>t \<in> set ts. is_armed t \<and> deadline t = earliest ts)"
proof -
  have "earliest ts \<in> insert NEVER (deadline ` set ts)"
    unfolding earliest_Min by (rule Min_in) simp_all
  then show ?thesis by (auto dest: deadline_disarmed) (metis deadline_disarmed)
qed

lemma sound_not_due: "cache_sound bank \<Longrightarrow> \<not> is_due (snd bank) now \<Longrightarrow> t \<in> set (fst bank) \<Longrightarrow> \<not> due now t"
  by (force simp: cache_sound_def is_due_def due_def)

end
