(* ===== verification/Generational_Table.thy ===== *)
theory Generational_Table
  imports Prelude
begin

text \<open>The slot table with generational names of \<open>src/crates/generational_table/src/lib.rs\<close>.  A name
  packs a slot and the slot's generation; a removal bumps the generation, so a stale name does not
  resolve.  \<open>usize\<close> quantities are naturals; the generations wrap at 32 bits as in the code.  The locale
  \<open>name_table\<close> is what the kernel's registries rely on; \<open>gt\<close> interprets it on this table.\<close>

unbundle bit_operations_syntax


section \<open>The table and its operations\<close>

record 'v Table =
  gt_slots :: "'v option list"
  gt_gens :: "u32 list"
  gt_live :: nat
  gt_top :: nat

definition new_gt :: "nat \<Rightarrow> 'v Table" where
  "new_gt N = \<lparr>gt_slots = replicate N None, gt_gens = replicate N 0, gt_live = 0, gt_top = 0\<rparr>"

definition mk_name :: "nat \<Rightarrow> u32 \<Rightarrow> u64" where
  "mk_name slot generation = push_bit 32 (ucast generation) OR of_nat slot"

definition unpack :: "u64 \<Rightarrow> nat \<times> u32" where
  "unpack name = (unat (name AND 0xffffffff), ucast (drop_bit 32 name))"

fun position_none :: "'v option list \<Rightarrow> nat option" where
  "position_none [] = None"
| "position_none (None # xs) = Some 0"
| "position_none (Some _ # xs) = map_option Suc (position_none xs)"

definition insert_with :: "'v Table \<Rightarrow> (u64 \<Rightarrow> 'v) \<Rightarrow> u64 option \<times> 'v Table" where
  "insert_with t f =
     (case position_none (gt_slots t) of
        None \<Rightarrow> (None, t)
      | Some slot \<Rightarrow>
          let name = mk_name slot (gt_gens t ! slot)
          in (Some name,
              t\<lparr>gt_slots := (gt_slots t)[slot := Some (f name)], gt_live := gt_live t + 1,
                gt_top := if gt_top t \<le> slot then slot + 1 else gt_top t\<rparr>))"

definition slot_of :: "'v Table \<Rightarrow> u64 \<Rightarrow> nat option" where
  "slot_of t name =
     (let (slot, generation) = unpack name in
      if \<not> slot < length (gt_gens t) then None
      else if gt_gens t ! slot \<noteq> generation then None
      else case gt_slots t ! slot of None \<Rightarrow> None | Some _ \<Rightarrow> Some slot)"

definition gt_get :: "'v Table \<Rightarrow> u64 \<Rightarrow> 'v option" where
  "gt_get t name = (case slot_of t name of None \<Rightarrow> None | Some slot \<Rightarrow> gt_slots t ! slot)"

text \<open>A write through the reference \<open>get_mut\<close> returns.\<close>

definition gt_update :: "'v Table \<Rightarrow> u64 \<Rightarrow> ('v \<Rightarrow> 'v) \<Rightarrow> 'v Table" where
  "gt_update t name g =
     (case slot_of t name of
        None \<Rightarrow> t
      | Some slot \<Rightarrow> t\<lparr>gt_slots := (gt_slots t)[slot := map_option g (gt_slots t ! slot)]\<rparr>)"

text \<open>The shrink of \<open>top\<close>: at most \<open>N\<close> steps, stopping at the first live slot.\<close>

fun shrink_top :: "nat \<Rightarrow> 'v option list \<Rightarrow> nat \<Rightarrow> nat" where
  "shrink_top 0 slots tp = tp"
| "shrink_top (Suc k) slots tp =
     (if tp = 0 \<or> slots ! (tp - 1) \<noteq> None then tp else shrink_top k slots (tp - 1))"

definition gt_remove :: "'v Table \<Rightarrow> u64 \<Rightarrow> 'v option \<times> 'v Table" where
  "gt_remove t name =
     (case slot_of t name of
        None \<Rightarrow> (None, t)
      | Some slot \<Rightarrow>
          (case gt_slots t ! slot of
             None \<Rightarrow> (None, t)
           | Some v \<Rightarrow>
               let slots = (gt_slots t)[slot := None]
               in (Some v,
                   t\<lparr>gt_slots := slots,
                     gt_gens := (gt_gens t)[slot := gt_gens t ! slot + 1],
                     gt_live := gt_live t - 1,
                     gt_top := if slot + 1 = gt_top t
                       then shrink_top (length slots) slots (gt_top t) else gt_top t\<rparr>)))"

definition gt_len :: "'v Table \<Rightarrow> nat" where "gt_len t = gt_live t"

definition gt_is_empty :: "'v Table \<Rightarrow> bool" where "gt_is_empty t \<longleftrightarrow> gt_live t = 0"

definition iter_from :: "'v Table \<Rightarrow> nat \<Rightarrow> (nat \<times> u64 \<times> 'v) list" where
  "iter_from t from =
     List.map_filter
       (\<lambda>(slot, s). case s of None \<Rightarrow> None | Some v \<Rightarrow> Some (slot, mk_name slot (gt_gens t ! slot), v))
       (drop from (enumerate 0 (take (gt_top t) (gt_slots t))))"

definition gt_iter :: "'v Table \<Rightarrow> (u64 \<times> 'v) list" where
  "gt_iter t = map (\<lambda>(_, name, v). (name, v)) (iter_from t 0)"

definition gt_values :: "'v Table \<Rightarrow> 'v list" where
  "gt_values t = List.map_filter (\<lambda>s. s) (take (gt_top t) (gt_slots t))"

definition live_slots :: "'v Table \<Rightarrow> nat list" where
  "live_slots t =
     List.map_filter (\<lambda>(i, s). map_option (\<lambda>_. i) s) (enumerate 0 (take (gt_top t) (gt_slots t)))"


section \<open>Names\<close>

lemma low_mask: "(0xffffffff :: u64) = mask 32"
  by (simp add: mask_eq_exp_minus_1)

lemma nat_bit_less:
  assumes "m < 2 ^ k" and "bit (m :: nat) n"
  shows "n < k"
proof (rule ccontr)
  assume "\<not> n < k"
  then have "(2 :: nat) ^ k \<le> 2 ^ n" by simp
  with assms(1) have "m < 2 ^ n" by (rule order_less_le_trans)
  then have "m div 2 ^ n = 0" by simp
  with assms(2) show False by (simp add: bit_iff_odd)
qed

lemma unpack_mk_name:
  assumes s: "slot < 2 ^ 32"
  shows "unpack (mk_name slot g) = (slot, g)"
proof -
  have u: "unat (of_nat slot :: u64) = slot" using s by (simp add: unat_of_nat take_bit_nat_eq_self)
  note hi = nat_bit_less [OF s]
  have "mk_name slot g AND 0xffffffff = of_nat slot"
    unfolding low_mask by (rule bit_eqI) (auto simp: mk_name_def bit_simps dest: hi)
  moreover have "(ucast (drop_bit 32 (mk_name slot g)) :: u32) = g"
    by (rule bit_eqI) (auto simp: mk_name_def bit_simps dest: hi)
  ultimately show ?thesis by (simp add: unpack_def u)
qed

lemma mk_name_unpack:
  assumes "unpack name = (slot, g)"
  shows "mk_name slot g = name"
proof -
  have "slot = unat (name AND mask 32)" "g = ucast (drop_bit 32 name)"
    using assms by (simp_all add: unpack_def low_mask)
  then show ?thesis by (auto intro!: bit_eqI simp: mk_name_def bit_simps)
qed

lemma mk_name_inject: "slot < 2 ^ 32 \<Longrightarrow> slot' < 2 ^ 32 \<Longrightarrow> mk_name slot g = mk_name slot' g' \<longleftrightarrow> slot = slot' \<and> g = g'"
  by (metis unpack_mk_name prod.inject)

lemma mk_name_not_max: "slot < 2 ^ 32 - 1 \<Longrightarrow> mk_name slot g \<noteq> - 1"
proof
  assume s: "slot < 2 ^ 32 - 1" and m: "mk_name slot g = - 1"
  have "unpack (- 1) = (slot, g)" using unpack_mk_name [of slot g] s m by simp
  then show False using s by (simp add: unpack_def)
qed



section \<open>Well-formed tables\<close>

definition gt_wf :: "'v Table \<Rightarrow> bool" where
  "gt_wf t \<longleftrightarrow> length (gt_gens t) = length (gt_slots t)
     \<and> 0 < length (gt_slots t) \<and> length (gt_slots t) \<le> 2 ^ 32 - 1
     \<and> gt_live t = length (filter (\<lambda>s. s \<noteq> None) (gt_slots t))
     \<and> gt_top t \<le> length (gt_slots t)
     \<and> (\<forall>i < length (gt_slots t). gt_top t \<le> i \<longrightarrow> gt_slots t ! i = None)
     \<and> (gt_top t = 0 \<or> gt_slots t ! (gt_top t - 1) \<noteq> None)"

lemma gt_wfD:
  assumes "gt_wf t"
  shows "length (gt_gens t) = length (gt_slots t)" "0 < length (gt_slots t)"
    "length (gt_slots t) \<le> 2 ^ 32 - 1" "i < length (gt_slots t) \<Longrightarrow> i < 2 ^ 32"
    "i < length (gt_slots t) \<Longrightarrow> i < 2 ^ 32 - 1"
    "gt_live t = length (filter (\<lambda>s. s \<noteq> None) (gt_slots t))" "gt_top t \<le> length (gt_slots t)"
    "i < length (gt_slots t) \<Longrightarrow> gt_top t \<le> i \<Longrightarrow> gt_slots t ! i = None"
    "gt_top t = 0 \<or> gt_slots t ! (gt_top t - 1) \<noteq> None"
  using assms by (auto simp: gt_wf_def)

lemma gt_wf_new: "0 < N \<Longrightarrow> N \<le> 2 ^ 32 - 1 \<Longrightarrow> gt_wf (new_gt N)"
  by (simp add: gt_wf_def new_gt_def)

text \<open>Resolution, by slot.\<close>

lemma slot_of_Some_iff:
  assumes "gt_wf t"
  shows "slot_of t name = Some i \<longleftrightarrow>
    i < length (gt_slots t) \<and> gt_slots t ! i \<noteq> None \<and> name = mk_name i (gt_gens t ! i)"
  using assms
  by (auto simp: slot_of_def gt_wf_def unpack_mk_name split: option.splits prod.splits if_splits
      dest: mk_name_unpack)

lemma gt_get_Some_iff:
  assumes "gt_wf t"
  shows "gt_get t name = Some v \<longleftrightarrow>
    (\<exists>i < length (gt_slots t). gt_slots t ! i = Some v \<and> name = mk_name i (gt_gens t ! i))"
proof -
  have "gt_get t name = Some v \<longleftrightarrow> (\<exists>i. slot_of t name = Some i \<and> gt_slots t ! i = Some v)"
    by (auto simp: gt_get_def split: option.splits)
  then show ?thesis using slot_of_Some_iff [OF assms] by auto
qed

lemma gt_get_slot:
  assumes "gt_wf t" and "i < length (gt_slots t)"
  shows "gt_get t (mk_name i (gt_gens t ! i)) = gt_slots t ! i"
proof -
  have "gt_get t (mk_name i (gt_gens t ! i)) = Some v \<longleftrightarrow> gt_slots t ! i = Some v" for v
    using assms gt_wfD(4) [OF assms(1)] by (metis gt_get_Some_iff mk_name_inject)
  then show ?thesis by (metis option.exhaust)
qed

lemma position_none_Some:
  "position_none xs = Some i \<longleftrightarrow> i < length xs \<and> xs ! i = None \<and> (\<forall>j < i. xs ! j \<noteq> None)"
proof (induction xs arbitrary: i rule: position_none.induct)
  case (3 v xs)
  then show ?case by (cases i) (auto simp: All_less_Suc2)
qed (auto simp: gr0_conv_Suc nth_Cons split: nat.splits)

lemma position_none_None: "position_none xs = None \<longleftrightarrow> (\<forall>i < length xs. xs ! i \<noteq> None)"
  by (induction xs rule: position_none.induct) (auto simp: nth_Cons split: nat.splits)

lemma length_filter_update:
  assumes "i < length xs"
  shows "length (filter P (xs[i := x])) + (if P (xs ! i) then 1 else 0)
    = length (filter P xs) + (if P x then 1 else 0)"
  using assms
proof (induction xs arbitrary: i)
  case (Cons y ys)
  then show ?case by (cases i) auto
qed simp

lemma shrink_top_spec:
  assumes "tp \<le> k"
  shows "shrink_top k xs tp \<le> tp \<and> (\<forall>i. shrink_top k xs tp \<le> i \<and> i < tp \<longrightarrow> xs ! i = None)
    \<and> (shrink_top k xs tp = 0 \<or> xs ! (shrink_top k xs tp - 1) \<noteq> None)"
  using assms
proof (induction k xs tp rule: shrink_top.induct)
  case (2 k xs tp)
  show ?case
  proof (cases "tp = 0 \<or> xs ! (tp - 1) \<noteq> None")
    case False
    with 2 show ?thesis by (cases tp) (auto simp: less_Suc_eq)
  qed auto
qed simp

text \<open>Every operation keeps a table well-formed, and what it does to the slots.\<close>

lemma insert_with_cases:
  assumes wf: "gt_wf t"
  shows "insert_with t f = (None, t) \<and> (\<forall>i < length (gt_slots t). gt_slots t ! i \<noteq> None)
    \<or> (\<exists>i t'. insert_with t f = (Some (mk_name i (gt_gens t ! i)), t') \<and> i < length (gt_slots t)
        \<and> gt_slots t ! i = None \<and> (\<forall>j < i. gt_slots t ! j \<noteq> None)
        \<and> gt_slots t' = (gt_slots t)[i := Some (f (mk_name i (gt_gens t ! i)))] \<and> gt_gens t' = gt_gens t
        \<and> gt_wf t')"
proof (cases "position_none (gt_slots t)")
  case None
  then have "\<forall>i < length (gt_slots t). gt_slots t ! i \<noteq> None" by (simp only: position_none_None)
  with None show ?thesis by (simp add: insert_with_def)
next
  case (Some i)
  then have i: "i < length (gt_slots t)" "gt_slots t ! i = None" "\<forall>j < i. gt_slots t ! j \<noteq> None"
    by (simp_all add: position_none_Some)
  define t' where "t' = snd (insert_with t f)"
  have ins: "insert_with t f = (Some (mk_name i (gt_gens t ! i)), t')"
    "gt_slots t' = (gt_slots t)[i := Some (f (mk_name i (gt_gens t ! i)))]" "gt_gens t' = gt_gens t"
    "gt_live t' = gt_live t + 1" "gt_top t' = (if gt_top t \<le> i then i + 1 else gt_top t)"
    by (simp_all add: t'_def insert_with_def Some Let_def)
  have "gt_wf t'"
    using wf i length_filter_update [of i "gt_slots t" "\<lambda>s. s \<noteq> None" "Some (f (mk_name i (gt_gens t ! i)))"]
    by (auto simp: gt_wf_def ins nth_list_update)
  with ins i show ?thesis by blast
qed

lemma gt_remove_cases:
  assumes wf: "gt_wf t"
  shows "gt_remove t name = (None, t) \<and> gt_get t name = None
    \<or> (\<exists>i v t'. gt_remove t name = (Some v, t') \<and> i < length (gt_slots t) \<and> gt_slots t ! i = Some v
        \<and> name = mk_name i (gt_gens t ! i) \<and> gt_slots t' = (gt_slots t)[i := None]
        \<and> gt_gens t' = (gt_gens t)[i := gt_gens t ! i + 1] \<and> gt_wf t')"
proof (cases "slot_of t name")
  case None
  then show ?thesis by (simp add: gt_remove_def gt_get_def)
next
  case (Some i)
  then obtain v where i: "i < length (gt_slots t)" "gt_slots t ! i = Some v" "name = mk_name i (gt_gens t ! i)"
    by (auto simp: slot_of_Some_iff [OF wf])
  let ?slots = "(gt_slots t)[i := None]"
  define t' where "t' = snd (gt_remove t name)"
  have rm: "gt_remove t name = (Some v, t')" "gt_slots t' = ?slots"
    "gt_gens t' = (gt_gens t)[i := gt_gens t ! i + 1]" "gt_live t' = gt_live t - 1"
    "gt_top t' = (if i + 1 = gt_top t then shrink_top (length ?slots) ?slots (gt_top t) else gt_top t)"
    by (simp_all add: t'_def gt_remove_def Some i(1,2) Let_def)
  have below: "i < gt_top t" using gt_wfD(8) [OF wf i(1)] i(2) by (metis leI option.distinct(1))
  have live: "gt_live t' = length (filter (\<lambda>s. s \<noteq> None) ?slots)"
    using length_filter_update [OF i(1), of "\<lambda>s. s \<noteq> None" None] gt_wfD(6) [OF wf] i(2) by (simp add: rm)
  have "gt_top t' \<le> length ?slots \<and> (\<forall>j < length ?slots. gt_top t' \<le> j \<longrightarrow> ?slots ! j = None)
      \<and> (gt_top t' = 0 \<or> ?slots ! (gt_top t' - 1) \<noteq> None)"
  proof (cases "i + 1 = gt_top t")
    case True
    define slots where "slots = ?slots"
    have beyond: "slots ! j = None" if "j < length slots" "gt_top t \<le> j" for j
      using gt_wfD(8) [OF wf, of j] that i(1) by (cases "j = i") (simp_all add: slots_def)
    have len: "gt_top t \<le> length slots" using gt_wfD(7) [OF wf] by (simp add: slots_def)
    have "gt_top t' = shrink_top (length slots) slots (gt_top t)" using True rm(5) by (simp add: slots_def)
    with shrink_top_spec [OF len, of slots] have sh: "gt_top t' \<le> gt_top t"
      "\<And>j. gt_top t' \<le> j \<Longrightarrow> j < gt_top t \<Longrightarrow> slots ! j = None"
      "gt_top t' = 0 \<or> slots ! (gt_top t' - 1) \<noteq> None" by auto
    have "slots ! j = None" if "j < length slots" "gt_top t' \<le> j" for j
      using that sh(2) beyond by (cases "j < gt_top t") auto
    with sh(1,3) len show ?thesis unfolding slots_def [symmetric] by auto
  next
    case False
    then show ?thesis using below gt_wfD(7-9) [OF wf] by (auto simp: rm(5) nth_list_update)
  qed
  then have "gt_wf t'" using wf live by (simp add: gt_wf_def rm)
  with rm i show ?thesis by blast
qed

lemma gt_update_cases:
  assumes wf: "gt_wf t"
  shows "gt_update t name g = t \<and> gt_get t name = None
    \<or> (\<exists>i v. i < length (gt_slots t) \<and> gt_slots t ! i = Some v \<and> name = mk_name i (gt_gens t ! i)
        \<and> gt_update t name g = t\<lparr>gt_slots := (gt_slots t)[i := Some (g v)]\<rparr>
        \<and> gt_wf (gt_update t name g))"
proof (cases "slot_of t name")
  case None
  then show ?thesis by (simp add: gt_update_def gt_get_def)
next
  case (Some i)
  then obtain v where i: "i < length (gt_slots t)" "gt_slots t ! i = Some v" "name = mk_name i (gt_gens t ! i)"
    by (auto simp: slot_of_Some_iff [OF wf])
  have upd: "gt_update t name g = t\<lparr>gt_slots := (gt_slots t)[i := Some (g v)]\<rparr>"
    using i(2) by (simp add: gt_update_def Some)
  have "gt_wf (gt_update t name g)"
    unfolding upd using wf i(1,2) length_filter_update [OF i(1), of "\<lambda>s. s \<noteq> None" "Some (g v)"]
    by (auto simp: gt_wf_def nth_list_update)
  with upd i show ?thesis by blast
qed

text \<open>Two tables of equal generations whose slots differ at one place resolve alike but there.\<close>

lemma gt_get_slot_changed:
  assumes "gt_wf t" and "gt_wf t'" and "i < length (gt_slots t)"
    and "gt_slots t' = (gt_slots t)[i := x]" and "gt_gens t' = gt_gens t"
  shows "gt_get t' = (gt_get t)(mk_name i (gt_gens t ! i) := x)"
proof
  fix n
  show "gt_get t' n = ((gt_get t)(mk_name i (gt_gens t ! i) := x)) n"
  proof (cases "n = mk_name i (gt_gens t ! i)")
    case True
    then show ?thesis using gt_get_slot [OF assms(2), of i] assms(3-5) by simp
  next
    case False
    have "gt_get t' n = Some v \<longleftrightarrow> gt_get t n = Some v" for v
      unfolding gt_get_Some_iff [OF assms(1)] gt_get_Some_iff [OF assms(2)]
      using False assms(3-5) by (auto simp: nth_list_update)
    with False show ?thesis by (metis fun_upd_other option.exhaust)
  qed
qed

lemma gt_remove_get:
  assumes wf: "gt_wf t" and rm: "gt_remove t name = (r, t')"
  shows "r = gt_get t name" and "gt_get t' = (gt_get t)(name := None)" and "gt_wf t'"
proof -
  have "r = gt_get t name \<and> gt_get t' = (gt_get t)(name := None) \<and> gt_wf t'"
    using gt_remove_cases [OF wf, of name]
  proof (elim disjE exE conjE)
    fix i v t2
    assume r: "gt_remove t name = (Some v, t2)" and i: "i < length (gt_slots t)" "gt_slots t ! i = Some v"
      "name = mk_name i (gt_gens t ! i)" and t2: "gt_slots t2 = (gt_slots t)[i := None]"
      "gt_gens t2 = (gt_gens t)[i := gt_gens t ! i + 1]" "gt_wf t2"
    have t': "t' = t2" "r = Some v" using rm r by simp_all
    have "gt_get t2 n = ((gt_get t)(name := None)) n" for n
    proof -
      have "gt_get t2 n = Some w \<longleftrightarrow> n \<noteq> name \<and> gt_get t n = Some w" for w
      proof -
        have "gt_get t2 n = Some w \<longleftrightarrow> (\<exists>j. j < length (gt_slots t) \<and> j \<noteq> i \<and> gt_slots t ! j = Some w
            \<and> n = mk_name j (gt_gens t ! j))"
          unfolding gt_get_Some_iff [OF t2(3)]
          by (rule ex_cong1) (auto simp: t2(1,2) nth_list_update gt_wfD(1) [OF wf] i(1) split: if_splits)
        then show ?thesis
          unfolding gt_get_Some_iff [OF wf] i(3) using i(1) gt_wfD(4) [OF wf] by (metis mk_name_inject)
      qed
      then show ?thesis by (metis fun_upd_apply option.exhaust)
    qed
    with t' gt_get_slot [OF wf i(1)] i t2(3) show ?thesis by auto
  qed (use rm wf in auto)
  then show "r = gt_get t name" "gt_get t' = (gt_get t)(name := None)" "gt_wf t'" by auto
qed

lemma insert_with_get:
  assumes wf: "gt_wf t" and ins: "insert_with t f = (Some n, t')"
  shows "gt_get t n = None" and "n \<noteq> - 1" and "gt_get t' = (gt_get t)(n \<mapsto> f n)" and "gt_wf t'"
proof -
  obtain i where i: "n = mk_name i (gt_gens t ! i)" "i < length (gt_slots t)" "gt_slots t ! i = None"
    "gt_slots t' = (gt_slots t)[i := Some (f n)]" "gt_gens t' = gt_gens t" "gt_wf t'"
    using insert_with_cases [OF wf, of f] ins by auto
  then show "gt_wf t'" by simp
  show "gt_get t n = None" using i gt_get_slot [OF wf i(2)] by simp
  show "n \<noteq> - 1" using i mk_name_not_max gt_wfD(5) [OF wf] by simp
  show "gt_get t' = (gt_get t)(n \<mapsto> f n)" using gt_get_slot_changed [OF wf i(6,2,4,5)] i(1) by simp
qed

lemma gt_update_get:
  assumes wf: "gt_wf t"
  shows "gt_wf (gt_update t n g)" and "gt_get (gt_update t n g) = (gt_get t)(n := map_option g (gt_get t n))"
proof -
  have "gt_wf (gt_update t n g) \<and> gt_get (gt_update t n g) = (gt_get t)(n := map_option g (gt_get t n))"
    using gt_update_cases [OF wf, of n g]
  proof (elim disjE exE conjE)
    fix i v
    assume i: "i < length (gt_slots t)" "gt_slots t ! i = Some v" "n = mk_name i (gt_gens t ! i)"
      and u: "gt_update t n g = t\<lparr>gt_slots := (gt_slots t)[i := Some (g v)]\<rparr>" "gt_wf (gt_update t n g)"
    with gt_get_slot_changed [OF wf u(2) i(1), of "Some (g v)"] gt_get_slot [OF wf i(1)] show ?thesis
      by simp
  qed (use wf in auto)
  then show "gt_wf (gt_update t n g)" "gt_get (gt_update t n g) = (gt_get t)(n := map_option g (gt_get t n))"
    by auto
qed



section \<open>The interface of the kernel's registries\<close>

locale name_table =
  fixes wf :: "'t \<Rightarrow> bool"
    and lookup :: "'t \<Rightarrow> u64 \<Rightarrow> 'v option"
    and ins :: "'t \<Rightarrow> (u64 \<Rightarrow> 'v) \<Rightarrow> u64 option \<times> 't"
    and upd :: "'t \<Rightarrow> u64 \<Rightarrow> ('v \<Rightarrow> 'v) \<Rightarrow> 't"
    and del :: "'t \<Rightarrow> u64 \<Rightarrow> 'v option \<times> 't"
  assumes ins_full: "wf t \<Longrightarrow> ins t f = (None, t') \<Longrightarrow> t' = t"
    and ins_wf: "wf t \<Longrightarrow> ins t f = (Some n, t') \<Longrightarrow> wf t'"
    and ins_fresh: "wf t \<Longrightarrow> ins t f = (Some n, t') \<Longrightarrow> lookup t n = None \<and> n \<noteq> - 1"
    and ins_lookup: "wf t \<Longrightarrow> ins t f = (Some n, t') \<Longrightarrow> lookup t' = (lookup t)(n \<mapsto> f n)"
    and upd_wf: "wf t \<Longrightarrow> wf (upd t n g)"
    and upd_lookup: "wf t \<Longrightarrow> lookup (upd t n g) = (lookup t)(n := map_option g (lookup t n))"
    and del_wf: "wf t \<Longrightarrow> del t n = (r, t') \<Longrightarrow> wf t'"
    and del_value: "wf t \<Longrightarrow> del t n = (r, t') \<Longrightarrow> r = lookup t n"
    and del_lookup: "wf t \<Longrightarrow> del t n = (r, t') \<Longrightarrow> lookup t' = (lookup t)(n := None)"
begin

text \<open>What a registry's client checks of each entry survives each operation if it survives the
  change the operation makes.\<close>

definition all_entries :: "(u64 \<Rightarrow> 'v \<Rightarrow> bool) \<Rightarrow> 't \<Rightarrow> bool" where
  "all_entries P t \<longleftrightarrow> (\<forall>n v. lookup t n = Some v \<longrightarrow> P n v)"

lemma all_entries_ins:
  "wf t \<Longrightarrow> ins t f = (r, t') \<Longrightarrow> all_entries P t \<Longrightarrow> (\<And>n. r = Some n \<Longrightarrow> P n (f n)) \<Longrightarrow> all_entries P t'"
  by (cases r) (auto simp: all_entries_def ins_lookup dest: ins_full)

lemma all_entries_upd:
  "wf t \<Longrightarrow> all_entries P t \<Longrightarrow> (\<And>v. lookup t n = Some v \<Longrightarrow> P n v \<Longrightarrow> P n (g v)) \<Longrightarrow> all_entries P (upd t n g)"
  by (auto simp: all_entries_def upd_lookup)

lemma all_entries_del: "wf t \<Longrightarrow> del t n = (r, t') \<Longrightarrow> all_entries P t \<Longrightarrow> all_entries P t'"
  by (auto simp: all_entries_def del_lookup)

lemma del_gone: "wf t \<Longrightarrow> del t n = (r, t') \<Longrightarrow> lookup t' n = None"
  by (simp add: del_lookup)

lemma ins_keeps: "wf t \<Longrightarrow> ins t f = (Some n, t') \<Longrightarrow> lookup t m = Some v \<Longrightarrow> lookup t' m = Some v"
  using ins_fresh ins_lookup by fastforce

end

interpretation gt: name_table gt_wf gt_get insert_with gt_update gt_remove
proof unfold_locales
  fix t t' :: "'v Table" and f
  assume "gt_wf t" "insert_with t f = (None, t')"
  then show "t' = t" using insert_with_cases [of t f] by auto
qed ((rule insert_with_get(4) conjI [OF insert_with_get(1,2)] insert_with_get(3) gt_update_get
    gt_remove_get(3,1,2); assumption)+)


lemma table_full:
  assumes "gt_wf t" and "insert_with t f = (None, t')"
  shows "gt_len t = length (gt_slots t)"
proof -
  have "length (filter (\<lambda>s. s \<noteq> None) (gt_slots t)) = length (gt_slots t)"
    if "\<forall>i < length (gt_slots t). gt_slots t ! i \<noteq> None"
    using that by (simp add: filter_id_conv all_set_conv_all_nth)
  then show ?thesis
    using insert_with_cases [OF assms(1), of f] assms(2) gt_wfD(6) [OF assms(1)] by (auto simp: gt_len_def)
qed


section \<open>Properties\<close>

text \<open>C21. The table is a finite map keyed by names.  On a well-formed table: an insertion either
  fails, exactly when every slot is live, or returns a name that resolved to nothing before (and is
  never \<open>u64::MAX\<close>) and adds exactly that entry, storing what the caller built from the name; a removal
  returns what the name resolved to and deletes exactly that entry; a write through a name changes
  exactly that entry; and each leaves the table well-formed.\<close>

theorem table_is_a_map:
  assumes "gt_wf t"
  shows "(case insert_with t f of
      (None, t') \<Rightarrow> t' = t \<and> gt_len t = length (gt_slots t)
    | (Some n, t') \<Rightarrow> gt_get t n = None \<and> n \<noteq> - 1 \<and> gt_get t' = (gt_get t)(n \<mapsto> f n) \<and> gt_wf t')
   \<and> (case gt_remove t m of (r, t') \<Rightarrow> r = gt_get t m \<and> gt_get t' = (gt_get t)(m := None) \<and> gt_wf t')
   \<and> gt_get (gt_update t m g) = (gt_get t)(m := map_option g (gt_get t m)) \<and> gt_wf (gt_update t m g)"
proof -
  have "gt_len t = length (gt_slots t)" if "insert_with t f = (None, t')" for t'
    using table_full [OF assms that] .
  with assms show ?thesis
    using gt.ins_full [OF assms] insert_with_get [OF assms] gt_remove_get [OF assms]
      gt_update_get [OF assms]
    by (auto split: prod.splits option.splits)
qed

theorem table_is_a_map_witness:
  "gt_wf (new_gt 2 :: nat Table) \<and>
   (case insert_with (new_gt 2) (\<lambda>_. 7 :: nat) of
      (None, t') \<Rightarrow> False | (Some n, t') \<Rightarrow> gt_get t' n = Some 7 \<and> gt_wf t')"
proof -
  have wf: "gt_wf (new_gt 2 :: nat Table)" by (simp add: gt_wf_new)
  have "\<exists>t'. insert_with (new_gt 2) (\<lambda>_. 7 :: nat) = (Some (mk_name 0 0), t')"
    by (simp add: insert_with_def new_gt_def replicate_2)
  with table_is_a_map [OF wf, of "\<lambda>_. 7"] wf show ?thesis by auto
qed

text \<open>A caller's operations on a table.\<close>

datatype 'v table_op = TbInsert "u64 \<Rightarrow> 'v" | TbUpdate u64 "'v \<Rightarrow> 'v" | TbRemove u64

fun table_step :: "'v table_op \<Rightarrow> 'v Table \<Rightarrow> 'v Table" where
  "table_step (TbInsert f) t = snd (insert_with t f)"
| "table_step (TbUpdate n g) t = gt_update t n g"
| "table_step (TbRemove n) t = snd (gt_remove t n)"

text \<open>How far the generation of the slot behind a name has moved past the name.\<close>

definition age :: "'v Table \<Rightarrow> u64 \<Rightarrow> nat" where
  "age t name = unat (gt_gens t ! fst (unpack name) - snd (unpack name))"

lemma table_step_wf: "gt_wf t \<Longrightarrow> gt_wf (table_step x t)"
  by (cases x) (metis insert_with_cases snd_conv table_step.simps(1), auto simp: gt.upd_wf,
      metis gt.del_wf prod.collapse)

lemma table_step_length: "length (gt_slots (table_step x t)) = length (gt_slots t)"
  by (cases x) (auto simp: insert_with_def gt_update_def gt_remove_def Let_def split: option.splits)

lemma table_step_gens:
  assumes "gt_wf t"
  shows "gt_gens (table_step x t) ! i = gt_gens t ! i
    \<or> i < length (gt_slots t) \<and> gt_slots t ! i \<noteq> None \<and> gt_gens (table_step x t) ! i = gt_gens t ! i + 1"
proof (cases x)
  case (TbInsert f)
  with insert_with_cases [OF assms, of f] show ?thesis by auto
next
  case (TbUpdate n g)
  then show ?thesis by (auto simp: gt_update_def split: option.splits)
next
  case (TbRemove n)
  with gt_remove_cases [OF assms, of n] gt_wfD(1) [OF assms] show ?thesis
    by (auto simp: nth_list_update split: if_splits)
qed

lemma age_zero_iff_resolvable:
  assumes "gt_wf t" and "gt_get t name \<noteq> None"
  shows "age t name = 0"
proof -
  obtain i where "i < length (gt_slots t)" "name = mk_name i (gt_gens t ! i)"
    using assms(2) gt_get_Some_iff [OF assms(1)] by fastforce
  then show ?thesis using gt_wfD(4) [OF assms(1)] by (simp add: age_def unpack_mk_name)
qed

lemma age_step:
  assumes "gt_wf t" and "age t name + 1 < 2 ^ 32"
  shows "age (table_step x t) name = age t name \<or> age (table_step x t) name = age t name + 1"
proof -
  let ?d = "gt_gens t ! fst (unpack name) - snd (unpack name)"
  have "unat (?d + 1) = unat ?d + 1"
    using unat_add_no_wrap [of ?d 1] assms(2) by (simp add: age_def)
  then show ?thesis
    using table_step_gens [OF assms(1), of x "fst (unpack name)"] by (auto simp: age_def algebra_simps)
qed

lemma stale_stays_stale:
  assumes "gt_wf t" and "0 < age t name" and "age t name + length xs < 2 ^ 32"
  shows "gt_get (fold table_step xs t) name = None"
  using assms
proof (induction xs arbitrary: t)
  case Nil
  then show ?case using age_zero_iff_resolvable [of t name] by (cases "gt_get t name") auto
next
  case (Cons x xs)
  then have "0 < age (table_step x t) name" "age (table_step x t) name + length xs < 2 ^ 32"
    using age_step [of t name x] by auto
  with Cons.IH [OF table_step_wf] Cons.prems(1) show ?case by simp
qed

text \<open>C20. A removed name never resolves again: once the entry behind a name is removed, the name
  stays dead through any further \<open>2\<^sup>3\<^sup>2 - 2\<close> operations on the table, whatever they insert, write or
  remove, and however often the slot is reused.\<close>

theorem removed_name_stays_dead:
  assumes "gt_wf t" and "gt_get t name = Some v" and "length ops < 2 ^ 32 - 1"
  shows "gt_get (fold table_step ops (snd (gt_remove t name))) name = None"
proof -
  obtain i v where i: "i < length (gt_slots t)" "name = mk_name i (gt_gens t ! i)"
    "gt_gens (snd (gt_remove t name)) = (gt_gens t)[i := gt_gens t ! i + 1]" "gt_wf (snd (gt_remove t name))"
    using gt_remove_cases [OF assms(1), of name] assms(2) by auto
  then have "age (snd (gt_remove t name)) name = 1"
    using gt_wfD(1,4) [OF assms(1)] by (simp add: age_def unpack_mk_name)
  with stale_stays_stale [OF i(4), of name ops] assms(3) show ?thesis by simp
qed

theorem removed_name_stays_dead_witness:
  "let t = snd (insert_with (new_gt 2) (\<lambda>_. 7 :: nat)) in
   gt_get t (mk_name 0 0) = Some 7 \<and>
   gt_get (fold table_step [TbInsert (\<lambda>_. 8), TbRemove (mk_name 0 1), TbInsert (\<lambda>_. 9)]
     (snd (gt_remove t (mk_name 0 0)))) (mk_name 0 0) = None"
proof -
  define t where "t = snd (insert_with (new_gt 2) (\<lambda>_. 7 :: nat))"
  have ins: "insert_with (new_gt 2) (\<lambda>_. 7 :: nat) = (Some (mk_name 0 0), t)"
    by (simp add: t_def insert_with_def new_gt_def replicate_2 Let_def)
  have wf: "gt_wf (new_gt 2 :: nat Table)" by (simp add: gt_wf_new)
  have "gt_wf t" "gt_get t (mk_name 0 0) = Some 7"
    using insert_with_get(4) [OF wf ins] insert_with_get(3) [OF wf ins] by simp_all
  with removed_name_stays_dead [OF this, of "[TbInsert (\<lambda>_. 8), TbRemove (mk_name 0 1), TbInsert (\<lambda>_. 9)]"]
  show ?thesis unfolding t_def [symmetric] Let_def by simp
qed

text \<open>The walks, bounded by \<open>top\<close>, against walks of the whole slot array.\<close>

definition live_below :: "'v Table \<Rightarrow> nat \<Rightarrow> nat list" where
  "live_below t from = filter (\<lambda>i. gt_slots t ! i \<noteq> None) [from..<length (gt_slots t)]"

lemma enumerate_take_top:
  assumes "gt_wf t"
  shows "enumerate 0 (take (gt_top t) (gt_slots t)) = map (\<lambda>i. (i, gt_slots t ! i)) [0..<gt_top t]"
proof -
  have "take (gt_top t) (gt_slots t) = map ((!) (gt_slots t)) [0..<gt_top t]"
    using gt_wfD(7) [OF assms] by (intro nth_equalityI) auto
  then show ?thesis by (simp add: enumerate_map_upt)
qed

lemma filter_top:
  assumes "gt_wf t"
  shows "filter (\<lambda>i. gt_slots t ! i \<noteq> None) [from..<gt_top t] = live_below t from"
proof (cases "from \<le> gt_top t")
  case True
  have rest: "filter (\<lambda>i. gt_slots t ! i \<noteq> None) [gt_top t..<length (gt_slots t)] = []"
    using gt_wfD(8) [OF assms] by (auto simp: filter_empty_conv)
  have "[from..<length (gt_slots t)] = [from..<gt_top t] @ [gt_top t..<length (gt_slots t)]"
    using True gt_wfD(7) [OF assms] by (metis le_add_diff_inverse upt_add_eq_append)
  with rest show ?thesis by (simp add: live_below_def)
next
  case False
  then have "filter (\<lambda>i. gt_slots t ! i \<noteq> None) [from..<length (gt_slots t)] = []"
    using gt_wfD(8) [OF assms] by (auto simp: filter_empty_conv)
  with False show ?thesis by (simp add: live_below_def)
qed

lemma iter_from_live:
  assumes "gt_wf t"
  shows "iter_from t from = map (\<lambda>i. (i, mk_name i (gt_gens t ! i), the (gt_slots t ! i))) (live_below t from)"
proof -
  have "iter_from t from = List.map_filter (\<lambda>i. case gt_slots t ! i of None \<Rightarrow> None
      | Some v \<Rightarrow> Some (i, mk_name i (gt_gens t ! i), v)) [from..<gt_top t]"
    by (simp add: iter_from_def enumerate_take_top [OF assms] drop_map List.map_filter_def comp_def
        filter_map)
  also have "\<dots> = map (\<lambda>i. (i, mk_name i (gt_gens t ! i), the (gt_slots t ! i)))
      (filter (\<lambda>i. gt_slots t ! i \<noteq> None) [from..<gt_top t])"
    by (auto simp: List.map_filter_def split: option.splits intro!: map_cong filter_cong)
  finally show ?thesis unfolding filter_top [OF assms] .
qed

lemma gt_iter_live:
  "gt_wf t \<Longrightarrow> gt_iter t = map (\<lambda>i. (mk_name i (gt_gens t ! i), the (gt_slots t ! i))) (live_below t 0)"
  by (simp add: gt_iter_def iter_from_live)

lemma gt_iter_set: "gt_wf t \<Longrightarrow> set (gt_iter t) = {(n, v). gt_get t n = Some v}"
  by (auto simp: gt_iter_live live_below_def gt_get_Some_iff)

lemma gt_iter_distinct:
  assumes "gt_wf t"
  shows "distinct (map fst (gt_iter t))"
proof -
  have "inj_on (\<lambda>i. mk_name i (gt_gens t ! i)) (set (live_below t 0))"
    using gt_wfD(4) [OF assms] by (auto simp: inj_on_def live_below_def mk_name_inject)
  moreover have "distinct (live_below t 0)" by (simp add: live_below_def)
  ultimately show ?thesis by (simp add: gt_iter_live [OF assms] distinct_map comp_def)
qed

text \<open>A walk bounded by the high-water mark misses nothing: on a well-formed table the values,
  the live slots, and the named entries from any resume point are those of a walk over every slot,
  in slot order, each slot once; the named entries are exactly the names that resolve, each with its
  value and no name twice, and there are \<open>len\<close> of them.\<close>

theorem walks_miss_nothing:
  assumes "gt_wf t"
  shows "live_slots t = live_below t 0
    \<and> gt_values t = map (\<lambda>i. the (gt_slots t ! i)) (live_below t 0)
    \<and> iter_from t from = map (\<lambda>i. (i, mk_name i (gt_gens t ! i), the (gt_slots t ! i))) (live_below t from)
    \<and> set (gt_iter t) = {(n, v). gt_get t n = Some v}
    \<and> distinct (map fst (gt_iter t)) \<and> length (gt_iter t) = gt_len t"
proof (intro conjI)
  show "live_slots t = live_below t 0"
    unfolding live_slots_def enumerate_take_top [OF assms] filter_top [OF assms, symmetric]
    by (auto simp: List.map_filter_def filter_map comp_def option.map_sel intro!: map_idI)
  have "take (gt_top t) (gt_slots t) = map snd (enumerate 0 (take (gt_top t) (gt_slots t)))" by simp
  then show "gt_values t = map (\<lambda>i. the (gt_slots t ! i)) (live_below t 0)"
    unfolding gt_values_def enumerate_take_top [OF assms]
    by (simp add: List.map_filter_def filter_map comp_def filter_top [OF assms, symmetric])
  have "map ((!) (gt_slots t)) [0..<length (gt_slots t)] = gt_slots t" by (rule map_nth)
  then have "length (filter (\<lambda>s. s \<noteq> None) (gt_slots t)) = length (live_below t 0)"
    by (metis (no_types, lifting) comp_apply filter_cong filter_map length_map live_below_def)
  then show "length (gt_iter t) = gt_len t"
    using gt_wfD(6) [OF assms] by (simp add: gt_iter_live [OF assms] gt_len_def)
qed (rule iter_from_live [OF assms] gt_iter_set [OF assms] gt_iter_distinct [OF assms])+

theorem walks_miss_nothing_witness:
  "let t = snd (insert_with (new_gt 2) (\<lambda>_. 7 :: nat)) in
   gt_wf t \<and> gt_values t = [7] \<and> live_slots t = [0] \<and> iter_from t 1 = []"
proof -
  define t where "t = snd (insert_with (new_gt 2) (\<lambda>_. 7 :: nat))"
  have ins: "insert_with (new_gt 2) (\<lambda>_. 7 :: nat) = (Some (mk_name 0 0), t)"
    and slots: "gt_slots t = [Some 7, None]"
    by (simp_all add: t_def insert_with_def new_gt_def replicate_2 Let_def)
  have wf: "gt_wf t" using insert_with_get(4) [OF gt_wf_new ins] by simp
  have "live_below t 0 = [0]" "live_below t 1 = []" by (simp_all add: live_below_def slots upt_rec)
  with walks_miss_nothing [OF wf, of 1] wf show ?thesis unfolding t_def [symmetric] by (simp add: slots)
qed

text \<open>C38. Insertion is first-fit, so a freed slot is reused: remove an entry whose slot has no free
  slot below it, insert another, and the new entry sits in that same slot, under a different name.
  A slot index kept across the removal then denotes the new entry.\<close>

theorem freed_slot_is_reused:
  assumes "gt_wf t" and "slot_of t name = Some k" and "\<forall>j < k. gt_slots t ! j \<noteq> None"
  shows "\<exists>n' t'. insert_with (snd (gt_remove t name)) f = (Some n', t') \<and> slot_of t' n' = Some k
    \<and> n' \<noteq> name \<and> gt_slots t' ! k = Some (f n')"
proof -
  obtain v t1 where k: "k < length (gt_slots t)" "name = mk_name k (gt_gens t ! k)"
    and rm: "gt_remove t name = (Some v, t1)" "gt_slots t1 = (gt_slots t)[k := None]"
      "gt_gens t1 = (gt_gens t)[k := gt_gens t ! k + 1]" "gt_wf t1"
    using gt_remove_cases [OF assms(1), of name] assms(2) slot_of_Some_iff [OF assms(1), of name k]
      gt_get_slot [OF assms(1), of k] gt_wfD(4) [OF assms(1)]
    by (auto simp: mk_name_inject)
  have "position_none (gt_slots t1) = Some k"
    using assms(3) k(1) by (simp add: position_none_Some rm)
  then obtain t' where ins: "insert_with t1 f = (Some (mk_name k (gt_gens t1 ! k)), t')"
    "gt_slots t' = (gt_slots t1)[k := Some (f (mk_name k (gt_gens t1 ! k)))]" "gt_gens t' = gt_gens t1"
    by (simp add: insert_with_def Let_def)
  have "mk_name k (gt_gens t1 ! k) \<noteq> name"
    using k gt_wfD(1,4) [OF assms(1)] by (simp add: rm mk_name_inject)
  moreover have "slot_of t' (mk_name k (gt_gens t1 ! k)) = Some k"
    using slot_of_Some_iff [OF insert_with_get(4) [OF rm(4) ins(1)]] k(1) by (simp add: ins rm)
  ultimately show ?thesis using ins k(1) rm by simp
qed

theorem freed_slot_is_reused_witness:
  "let t = snd (insert_with (new_gt 2) (\<lambda>_. 7 :: nat)) in
   slot_of t (mk_name 0 0) = Some 0 \<and>
   (\<exists>n' t'. insert_with (snd (gt_remove t (mk_name 0 0))) (\<lambda>_. 8) = (Some n', t')
     \<and> slot_of t' n' = Some 0 \<and> n' \<noteq> mk_name 0 0 \<and> gt_slots t' ! 0 = Some 8)"
proof -
  define t where "t = snd (insert_with (new_gt 2) (\<lambda>_. 7 :: nat))"
  have ins: "insert_with (new_gt 2) (\<lambda>_. 7 :: nat) = (Some (mk_name 0 0), t)"
    and slots: "gt_slots t = [Some 7, None]" "gt_gens t = [0, 0]"
    by (simp_all add: t_def insert_with_def new_gt_def replicate_2 Let_def)
  have wf: "gt_wf t" using insert_with_get(4) [OF gt_wf_new ins] by simp
  have "slot_of t (mk_name 0 0) = Some 0" by (simp add: slot_of_Some_iff [OF wf] slots)
  with freed_slot_is_reused [OF wf this, of "\<lambda>_. 8"] show ?thesis
    unfolding t_def [symmetric] Let_def by simp
qed

end
