(* ===== verification/Region_Tree.thy ===== *)
theory Region_Tree
  imports Prelude
begin

text \<open>The geometry behind \<open>Memory_Regions\<close>: page runs held by live regions, by claims in flight and by
  carves that never got a name, arranged as a forest by their parents.  The invariant \<open>tree_inv\<close> says
  where a held run sits in its parent, that runs of equal depth are disjoint, and that two runs that
  meet are nested through a child of the shallower one.  Each lemma is one change the region table
  makes: a new root, a carve, a retype, a claim, a child's return, and a root's release.\<close>


section \<open>Held runs\<close>

datatype hold = Live u64 | Flight nat | Lost nat

record hspan =
  lo :: nat
  hi :: nat
  par :: u64

definition NO_PARENT :: u64 where "NO_PARENT = - 1"

definition meet :: "hspan \<Rightarrow> hspan \<Rightarrow> bool" where
  "meet a b \<longleftrightarrow> max (lo a) (lo b) < min (hi a) (hi b)"

definition inside :: "hspan \<Rightarrow> hspan \<Rightarrow> bool" where
  "inside a b \<longleftrightarrow> lo b \<le> lo a \<and> hi a \<le> hi b"

text \<open>\<open>tp n\<close> is the first page of region \<open>n\<close> not handed out, \<open>fl n\<close> the end of its own retypes, both
  as page numbers; \<open>rk\<close> is the depth.\<close>

definition placed :: "(hold \<rightharpoonup> hspan) \<Rightarrow> (u64 \<Rightarrow> nat) \<Rightarrow> (u64 \<Rightarrow> nat) \<Rightarrow> (hold \<Rightarrow> nat) \<Rightarrow> hold \<Rightarrow> hspan \<Rightarrow> bool" where
  "placed H tp fl rk h a \<longleftrightarrow>
     (if par a = NO_PARENT then rk h = 0
      else \<exists>P. H (Live (par a)) = Some P \<and> lo a < hi a \<and> lo P \<le> lo a \<and> hi a \<le> tp (par a)
        \<and> (hi a < fl (par a) \<or> fl (par a) \<le> lo a) \<and> rk h = Suc (rk (Live (par a))))"

definition tree_inv :: "(hold \<rightharpoonup> hspan) \<Rightarrow> (u64 \<Rightarrow> nat) \<Rightarrow> (u64 \<Rightarrow> nat) \<Rightarrow> (hold \<Rightarrow> nat) \<Rightarrow> bool" where
  "tree_inv H tp fl rk \<longleftrightarrow>
     finite (dom H)
   \<and> (\<forall>h a. H h = Some a \<longrightarrow> placed H tp fl rk h a)
   \<and> (\<forall>n P. H (Live n) = Some P \<longrightarrow> n \<noteq> NO_PARENT \<and> lo P \<le> fl n \<and> fl n \<le> tp n \<and> tp n \<le> hi P)
   \<and> (\<forall>h h' a b. H h = Some a \<and> H h' = Some b \<and> h \<noteq> h' \<and> rk h = rk h' \<longrightarrow> \<not> meet a b)
   \<and> (\<forall>h h' a b. H h = Some a \<and> H h' = Some b \<and> rk h < rk h' \<and> meet a b \<longrightarrow>
        (\<exists>n c C. h = Live n \<and> H c = Some C \<and> par C = n \<and> inside b C))
   \<and> (\<forall>h a. H h = Some a \<and> lo a < hi a \<longrightarrow> (\<exists>g G. H g = Some G \<and> par G = NO_PARENT \<and> inside a G))"

lemma meet_sym: "meet a b \<longleftrightarrow> meet b a"
  by (auto simp: meet_def)

lemma meet_inside: "meet a b \<Longrightarrow> inside b c \<Longrightarrow> meet a c"
  by (auto simp: meet_def inside_def)

lemma not_meet: "\<not> meet a b \<longleftrightarrow> hi a \<le> lo b \<or> hi b \<le> lo a \<or> hi a \<le> lo a \<or> hi b \<le> lo b"
  by (auto simp: meet_def)

lemma tree_invI:
  assumes "finite (dom H)" and "\<And>h a. H h = Some a \<Longrightarrow> placed H tp fl rk h a"
    and "\<And>n P. H (Live n) = Some P \<Longrightarrow> n \<noteq> NO_PARENT \<and> lo P \<le> fl n \<and> fl n \<le> tp n \<and> tp n \<le> hi P"
    and "\<And>h h' a b. H h = Some a \<Longrightarrow> H h' = Some b \<Longrightarrow> h \<noteq> h' \<Longrightarrow> rk h = rk h' \<Longrightarrow> \<not> meet a b"
    and "\<And>h h' a b. H h = Some a \<Longrightarrow> H h' = Some b \<Longrightarrow> rk h < rk h' \<Longrightarrow> meet a b \<Longrightarrow>
        \<exists>n c C. h = Live n \<and> H c = Some C \<and> par C = n \<and> inside b C"
    and "\<And>h a. H h = Some a \<Longrightarrow> lo a < hi a \<Longrightarrow> \<exists>g G. H g = Some G \<and> par G = NO_PARENT \<and> inside a G"
  shows "tree_inv H tp fl rk"
  unfolding tree_inv_def using assms by blast

lemma tree_invD:
  assumes "tree_inv H tp fl rk"
  shows "finite (dom H)" and "H h = Some a \<Longrightarrow> placed H tp fl rk h a"
    and "H (Live n) = Some P \<Longrightarrow> n \<noteq> NO_PARENT" and "H (Live n) = Some P \<Longrightarrow> lo P \<le> fl n"
    and "H (Live n) = Some P \<Longrightarrow> fl n \<le> tp n" and "H (Live n) = Some P \<Longrightarrow> tp n \<le> hi P"
    and "H h = Some a \<Longrightarrow> H h' = Some b \<Longrightarrow> h \<noteq> h' \<Longrightarrow> rk h = rk h' \<Longrightarrow> \<not> meet a b"
    and "H h = Some a \<Longrightarrow> H h' = Some b \<Longrightarrow> rk h < rk h' \<Longrightarrow> meet a b \<Longrightarrow>
        \<exists>n c C. h = Live n \<and> H c = Some C \<and> par C = n \<and> inside b C"
    and "H h = Some a \<Longrightarrow> lo a < hi a \<Longrightarrow> \<exists>g G. H g = Some G \<and> par G = NO_PARENT \<and> inside a G"
  using assms unfolding tree_inv_def by blast+

lemma child_placed:
  assumes "tree_inv H tp fl rk" and "H c = Some C" and "par C = n" and "n \<noteq> NO_PARENT"
  obtains P where "H (Live n) = Some P" and "lo C < hi C" and "lo P \<le> lo C" and "hi C \<le> tp n"
    and "hi C < fl n \<or> fl n \<le> lo C" and "rk c = Suc (rk (Live n))"
  using tree_invD(2) [OF assms(1,2)] assms(3,4) by (auto simp: placed_def)

lemma child_inside:
  assumes "tree_inv H tp fl rk" and "H c = Some C" and "par C = n" and "H (Live n) = Some P"
  shows "inside C P"
  using child_placed [OF assms(1-3)] tree_invD(3,6) [OF assms(1)] assms(4)
  by (auto simp: inside_def) (metis le_trans option.inject)+

text \<open>A holder that is not a live region has nothing under it: every other run that meets it lies
  above it.\<close>

lemma leaf_meets:
  assumes inv: "tree_inv H tp fl rk" and "H h = Some a" and "H h' = Some b" and "h \<noteq> h'"
    and "\<And>n. h = Live n \<Longrightarrow> \<nexists>c C. H c = Some C \<and> par C = n" and "meet a b"
  shows "rk h' < rk h"
proof (rule ccontr)
  assume "\<not> rk h' < rk h"
  then consider "rk h = rk h'" | "rk h < rk h'" by linarith
  then show False
    using tree_invD(7,8) [OF inv assms(2,3)] assms(4-6) by cases blast+
qed

lemma leaves_disjoint:
  assumes "tree_inv H tp fl rk" and "H h = Some a" and "H h' = Some b" and "h \<noteq> h'"
    and "\<And>n. h = Live n \<Longrightarrow> \<nexists>c C. H c = Some C \<and> par C = n"
    and "\<And>n. h' = Live n \<Longrightarrow> \<nexists>c C. H c = Some C \<and> par C = n"
  shows "\<not> meet a b"
  using leaf_meets [OF assms(1-5)] leaf_meets [OF assms(1,3,2) _ assms(6)] assms(4) meet_sym
  by (metis not_less_iff_gr_or_eq)


section \<open>The changes\<close>

lemma tree_inv_empty: "tree_inv Map.empty tp fl rk"
  by (simp add: tree_inv_def)

lemma tree_inv_root:
  assumes inv: "tree_inv H tp fl rk" and new: "H (Live n) = None" "n \<noteq> NO_PARENT" and "lo a \<le> hi a"
    and away: "\<And>g G. H g = Some G \<Longrightarrow> par G = NO_PARENT \<Longrightarrow> \<not> meet a G" and root: "par a = NO_PARENT"
  shows "tree_inv (H(Live n \<mapsto> a)) (tp(n := lo a)) (fl(n := lo a)) (rk(Live n := 0))"
proof -
  have childless: "par b \<noteq> n" if "H h = Some b" for h b
    using tree_invD(2) [OF inv that] new by (auto simp: placed_def split: if_splits)
  have apart: "\<not> meet a b" if b: "H h = Some b" for h b
  proof
    assume m: "meet a b"
    then have "lo b < hi b" by (auto simp: meet_def)
    then obtain g G where "H g = Some G" "par G = NO_PARENT" "inside b G" using tree_invD(9) [OF inv b] by blast
    with away m show False using meet_inside by blast
  qed
  show ?thesis
  proof (rule tree_invI, goal_cases)
    case 1 then show ?case using tree_invD(1) [OF inv] by simp
  next
    case (2 h b)
    then show ?case
      using tree_invD(2) [OF inv, of h b] new childless [of h b] root
      by (auto simp: placed_def split: if_splits)
  next
    case (3 m P) then show ?case using tree_invD(3-6) [OF inv, of m P] new assms(4) by (auto split: if_splits)
  next
    case (4 h h' b c)
    then show ?case using tree_invD(7) [OF inv, of h b h' c] apart meet_sym by (auto split: if_splits)
  next
    case (5 h h' b c)
    then have "h' \<noteq> Live n" "h \<noteq> Live n" using apart meet_sym by (auto split: if_splits)
    with 5 have "H h = Some b" "H h' = Some c" "rk h < rk h'" by auto
    from tree_invD(8) [OF inv this 5(4)] new show ?case by (metis fun_upd_other option.distinct(1))
  next
    case (6 h b)
    show ?case
    proof (cases "h = Live n")
      case True
      then show ?thesis using 6 root by (intro exI [of _ "Live n"]) (auto simp: inside_def)
    next
      case False
      with 6 tree_invD(9) [OF inv, of h b] new show ?thesis by (metis fun_upd_other option.distinct(1))
    qed
  qed
qed

text \<open>A carve takes the run from the parent's top; the holder is the new region, or nobody.\<close>

lemma tree_inv_carve:
  assumes inv: "tree_inv H tp fl rk" and p: "H (Live p) = Some P" and new: "H x = None"
    and w: "tp p < w" "w \<le> hi P" and a: "lo a = tp p" "hi a = w" "par a = p"
    and tp': "\<And>n. H (Live n) \<noteq> None \<Longrightarrow> tp' n = (if n = p then w else tp n)"
    and fl': "\<And>n. H (Live n) \<noteq> None \<Longrightarrow> fl' n = fl n"
    and x: "\<And>c. x = Live c \<Longrightarrow> c \<noteq> NO_PARENT \<and> tp' c = lo a \<and> fl' c = lo a"
  shows "tree_inv (H(x \<mapsto> a)) tp' fl' (rk(x := Suc (rk (Live p))))"
proof -
  have pN: "p \<noteq> NO_PARENT" and P: "lo P \<le> fl p" "fl p \<le> tp p" "tp p \<le> hi P"
    using tree_invD(3-6) [OF inv p] by auto
  have xp: "x \<noteq> Live p" using new p by auto
  have old: "h \<noteq> x" if "H h = Some b" for h b using new that by auto
  have aP: "inside a P" using a w P by (simp add: inside_def)
  have above: "rk h < rk (Live p) \<or> h = Live p" if b: "H h = Some b" "meet a b" for h b
  proof (rule ccontr)
    assume n: "\<not> ?thesis"
    have m: "meet P b" using meet_inside [of b a P] aP b(2) meet_sym by blast
    then have "rk (Live p) < rk h" using tree_invD(7) [OF inv p b(1)] n by force
    from tree_invD(8) [OF inv p b(1) this m] obtain c C where
      "H c = Some C" "par C = p" "inside b C" by auto
    moreover from this have "hi C \<le> tp p" using child_placed [OF inv _ _ pN] by metis
    ultimately show False using b(2) a by (auto simp: meet_def inside_def)
  qed
  show ?thesis
  proof (rule tree_invI, goal_cases)
    case 1 then show ?case using tree_invD(1) [OF inv] by simp
  next
    case (2 h b)
    show ?case
    proof (cases "h = x")
      case True
      with 2 a w P p pN xp tp' fl' show ?thesis by (auto simp: placed_def)
    next
      case False
      then have b: "H h = Some b" using 2 by simp
      show ?thesis
      proof (cases "par b = NO_PARENT")
        case True
        then show ?thesis using tree_invD(2) [OF inv b] False by (simp add: placed_def)
      next
        case par: False
        obtain B where B: "H (Live (par b)) = Some B" "lo b < hi b" "lo B \<le> lo b" "hi b \<le> tp (par b)"
          "hi b < fl (par b) \<or> fl (par b) \<le> lo b" "rk h = Suc (rk (Live (par b)))"
          using child_placed [OF inv b refl par] .
        have "tp (par b) \<le> tp' (par b)" "fl' (par b) = fl (par b)" using tp' fl' B(1) w(1) by auto
        then show ?thesis using B False par old [OF B(1)] by (auto simp: placed_def)
      qed
    qed
  next
    case (3 n N)
    show ?case
    proof (cases "Live n = x")
      case True
      with 3 x [of n] a w show ?thesis by auto
    next
      case False
      with 3 have N: "H (Live n) = Some N" by auto
      with tree_invD(3-6) [OF inv N] tp' [of n] fl' [of n] p w show ?thesis by auto
    qed
  next
    case (4 h h' b c)
    have r: "rk h \<noteq> Suc (rk (Live p))" if "H h = Some b" "meet a b" for h b
      using above [OF that] by auto
    from 4 show ?case
      using tree_invD(7) [OF inv, of h b h' c] r meet_sym by (auto split: if_splits)
  next
    case (5 h h' b c)
    have "h \<noteq> x"
    proof
      assume h: "h = x"
      then have "H h' = Some c" "meet a c" "rk h' > Suc (rk (Live p))" using 5 by (auto split: if_splits)
      with above [of h' c] show False by auto
    qed
    then have b: "H h = Some b" using 5 by simp
    show ?case
    proof (cases "h' = x")
      case True
      then have m: "meet a b" "c = a" using 5 meet_sym by auto
      from above [OF b m(1)] show ?thesis
      proof
        assume "h = Live p"
        with m a show ?thesis by (intro exI [of _ p] exI [of _ x] exI [of _ a]) (simp add: inside_def)
      next
        assume r: "rk h < rk (Live p)"
        have "meet b P" using meet_inside [of b a P] aP m meet_sym by blast
        from tree_invD(8) [OF inv b p r this] obtain n d D where
          "h = Live n" "H d = Some D" "par D = n" "inside P D" by blast
        then show ?thesis using m aP old by (intro exI [of _ n] exI [of _ d] exI [of _ D])
            (auto simp: inside_def)
      qed
    next
      case False
      with 5 \<open>h \<noteq> x\<close> have "H h' = Some c" "rk h < rk h'" by auto
      from tree_invD(8) [OF inv b this 5(4)] show ?thesis using old by (metis fun_upd_other)
    qed
  next
    case (6 h b)
    have "\<exists>b'. H (if h = x then Live p else h) = Some b' \<and> inside b b' \<and> lo b' < hi b'"
      using 6 p aP a w by (auto simp: inside_def)
    then obtain b' where b': "H (if h = x then Live p else h) = Some b'" "inside b b'" "lo b' < hi b'" by blast
    from tree_invD(9) [OF inv b'(1,3)] obtain g G where "H g = Some G" "par G = NO_PARENT" "inside b' G" by blast
    then show ?case using b'(2) old by (intro exI [of _ g] exI [of _ G]) (auto simp: inside_def)
  qed
qed

text \<open>A retype raises the top and the floor together.\<close>

lemma tree_inv_retype:
  assumes inv: "tree_inv H tp fl rk" and p: "H (Live p) = Some P" and w: "tp p < w" "w \<le> hi P"
  shows "tree_inv H (tp(p := w)) (fl(p := w)) rk"
proof -
  have P: "lo P \<le> fl p" "fl p \<le> tp p" using tree_invD(4,5) [OF inv p] by auto
  show ?thesis
  proof (rule tree_invI, goal_cases)
    case (2 h a)
    show ?case
    proof (cases "par a = p \<and> p \<noteq> NO_PARENT")
      case True
      then obtain Q where "H (Live p) = Some Q" "lo a < hi a" "lo Q \<le> lo a" "hi a \<le> tp p"
        "rk h = Suc (rk (Live p))" using child_placed [OF inv 2, of p] by metis
      with True w show ?thesis by (simp add: placed_def)
    next
      case False
      then show ?thesis using tree_invD(2) [OF inv 2] by (auto simp: placed_def)
    qed
  next
    case (3 n N) then show ?case using tree_invD(3-6) [OF inv 3] p P w by auto
  qed (use tree_invD(1,7,8,9) [OF inv] in blast)+
qed

text \<open>A claim takes a childless live region out of the table; its run stays held.\<close>

lemma tree_inv_claim:
  assumes inv: "tree_inv H tp fl rk" and n: "H (Live n) = Some a" and new: "H (Flight k) = None"
    and leaf: "\<nexists>c C. H c = Some C \<and> par C = n"
  shows "tree_inv (H(Live n := None, Flight k \<mapsto> a)) tp fl (rk(Flight k := rk (Live n)))"
proof -
  let ?H = "H(Live n := None, Flight k \<mapsto> a)"
  define orig where "orig h = (if h = Flight k then Live n else h)" for h
  have H: "?H h = Some b \<Longrightarrow> H (orig h) = Some b" for h b
    using n by (auto simp: orig_def split: if_splits)
  have ranks: "(rk(Flight k := rk (Live n))) h = rk (orig h)" for h
    by (simp add: orig_def)
  have there: "\<exists>h'. ?H h' = Some b \<and> orig h' = h" if "H h = Some b" for h b
    using that n new by (intro exI [of _ "if h = Live n then Flight k else h"]) (auto simp: orig_def)
  have inj: "orig h = orig h' \<Longrightarrow> h = h'" if "?H h = Some b" "?H h' = Some c" for h h' b c
    using that by (auto simp: orig_def split: if_splits)
  show ?thesis
  proof (rule tree_invI, goal_cases)
    case 1 then show ?case using tree_invD(1) [OF inv] by simp
  next
    case (2 h b)
    have "par b \<noteq> n" using H [OF 2] leaf by blast
    then show ?case using tree_invD(2) [OF inv H [OF 2]] unfolding placed_def ranks by (auto simp: orig_def)
  next
    case (3 m M) then show ?case using tree_invD(3-6) [OF inv, of m M] by (auto split: if_splits)
  next
    case (4 h h' b c)
    have "orig h \<noteq> orig h'" using inj [OF 4(1,2)] 4(3) by blast
    with tree_invD(7) [OF inv H [OF 4(1)] H [OF 4(2)]] 4(4) show ?case unfolding ranks by blast
  next
    case (5 h h' b c)
    have "rk (orig h) < rk (orig h')" using 5(3) unfolding ranks .
    from tree_invD(8) [OF inv H [OF 5(1)] H [OF 5(2)] this 5(4)] obtain m d D where
      d: "orig h = Live m" "H d = Some D" "par D = m" "inside c D" by blast
    have "m \<noteq> n" using d leaf by blast
    then have "h = Live m" using d(1) by (auto simp: orig_def split: if_splits)
    with d there [OF d(2)] show ?case by blast
  next
    case (6 h b)
    from tree_invD(9) [OF inv H [OF 6(1)] 6(2)] there show ?case by meson
  qed
qed

text \<open>A claim in flight that comes back, to its parent or to the allocator, leaves the forest.  The
  parent's top may drop as far as its floor and its other children allow.\<close>

lemma tree_inv_gone:
  assumes inv: "tree_inv H tp fl rk" and k: "H (Flight k) = Some a"
    and tp': "\<And>n. n \<noteq> par a \<Longrightarrow> tp' n = tp n"
    and low: "\<And>P. H (Live (par a)) = Some P \<Longrightarrow> fl (par a) \<le> tp' (par a) \<and> tp' (par a) \<le> tp (par a)
      \<and> (\<forall>c C. H c = Some C \<and> c \<noteq> Flight k \<and> par C = par a \<longrightarrow> hi C \<le> tp' (par a))"
  shows "tree_inv (H(Flight k := None)) tp' fl rk"
proof -
  let ?H = "H(Flight k := None)"
  have H: "?H h = Some b \<Longrightarrow> H h = Some b \<and> h \<noteq> Flight k" for h b by (auto split: if_splits)
  show ?thesis
  proof (rule tree_invI, goal_cases)
    case 1 then show ?case using tree_invD(1) [OF inv] by simp
  next
    case (2 h b)
    show ?case
    proof (cases "par b = NO_PARENT")
      case True
      then show ?thesis using tree_invD(2) [OF inv, of h b] H [OF 2] by (simp add: placed_def)
    next
      case False
      obtain B where B: "H (Live (par b)) = Some B" "lo b < hi b" "lo B \<le> lo b" "hi b \<le> tp (par b)"
        "hi b < fl (par b) \<or> fl (par b) \<le> lo b" "rk h = Suc (rk (Live (par b)))"
        using child_placed [OF inv _ refl False] H [OF 2] by metis
      have "hi b \<le> tp' (par b)"
        using low [of B] tp' [of "par b"] B H [OF 2] by (cases "par b = par a") auto
      then show ?thesis using B False by (simp add: placed_def)
    qed
  next
    case (3 m M)
    then have m: "H (Live m) = Some M" by simp
    show ?case using tree_invD(3-6) [OF inv m] low tp' [of m] m by (cases "m = par a") auto
  next
    case (4 h h' b c) then show ?case using tree_invD(7) [OF inv, of h b h' c] H by blast
  next
    case (5 h h' b c)
    from tree_invD(8) [OF inv _ _ 5(3,4)] H [OF 5(1)] H [OF 5(2)] obtain m d D where
      d: "h = Live m" "H d = Some D" "par D = m" "inside c D" by blast
    have "d \<noteq> Flight k"
    proof
      assume "d = Flight k"
      then have D: "D = a" "par a = m" using d k by auto
      have mN: "m \<noteq> NO_PARENT" using tree_invD(3) [OF inv, of m b] H [OF 5(1)] d(1) by auto
      have r: "rk (Flight k) = Suc (rk h)" using child_placed [OF inv k D(2) mN] d(1) by metis
      have "meet a c" using 5(4) d(4) D by (auto simp: meet_def inside_def)
      then have "rk h' < rk (Flight k)" using leaf_meets [OF inv k, of h' c] H [OF 5(2)] by blast
      with r 5(3) show False by simp
    qed
    with d show ?case by (metis fun_upd_other)
  next
    case (6 h b)
    from tree_invD(9) [OF inv _ 6(2)] H [OF 6(1)] obtain g G where
      g: "H g = Some G" "par G = NO_PARENT" "inside b G" by blast
    have "g \<noteq> Flight k"
    proof
      assume gk: "g = Flight k"
      then have "meet a b" using g k 6(2) by (auto simp: meet_def inside_def)
      then have "rk h < rk (Flight k)" using leaf_meets [OF inv k, of h b] H [OF 6(1)] by blast
      moreover have "rk (Flight k) = 0" using tree_invD(2) [OF inv k] g gk k by (simp add: placed_def)
      ultimately show False by simp
    qed
    with g show ?case by (metis fun_upd_other)
  qed
qed

text \<open>A child at the very top of its parent: everything else the parent has out lies below it.\<close>

lemma top_child:
  assumes inv: "tree_inv H tp fl rk" and a: "H h = Some a" "par a = p" "p \<noteq> NO_PARENT" and tpp: "hi a = tp p"
  shows "fl p \<le> lo a" and "H c = Some C \<Longrightarrow> c \<noteq> h \<Longrightarrow> par C = p \<Longrightarrow> hi C \<le> lo a"
proof -
  obtain P where P: "H (Live p) = Some P" "lo a < hi a" "hi a < fl p \<or> fl p \<le> lo a"
    "rk h = Suc (rk (Live p))"
    using child_placed [OF inv a] by metis
  then show "fl p \<le> lo a" using tree_invD(5) [OF inv P(1)] tpp by auto
  assume c: "H c = Some C" "c \<noteq> h" "par C = p"
  have "rk c = Suc (rk (Live p))" "lo C < hi C" "hi C \<le> tp p"
    using child_placed [OF inv c(1,3) a(3)] by metis+
  moreover have "\<not> meet C a" using tree_invD(7) [OF inv c(1) a(1) c(2)] P(4) calculation(1) by simp
  ultimately show "hi C \<le> lo a" using P(2) tpp by (auto simp: not_meet)
qed

text \<open>The children of a region start at different pages below its top, so it has at most as many as
  it has handed-out pages.\<close>

lemma children_bounded:
  assumes inv: "tree_inv H tp fl rk" and p: "H (Live p) = Some P"
  shows "finite {h. \<exists>a. H h = Some a \<and> par a = p}" and "card {h. \<exists>a. H h = Some a \<and> par a = p} \<le> tp p - lo P"
proof -
  let ?C = "{h. \<exists>a. H h = Some a \<and> par a = p}"
  have pN: "p \<noteq> NO_PARENT" by (rule tree_invD(3) [OF inv p])
  have "?C \<subseteq> dom H" by auto
  then show fin: "finite ?C" using tree_invD(1) [OF inv] by (rule finite_subset)
  have "inj_on (\<lambda>h. lo (the (H h))) ?C"
  proof (rule inj_onI)
    fix h h' assume h: "h \<in> ?C" "h' \<in> ?C" and eq: "lo (the (H h)) = lo (the (H h'))"
    then obtain a b where ab: "H h = Some a" "par a = p" "H h' = Some b" "par b = p" by auto
    have "rk h = rk h'" "lo a < hi a" "lo b < hi b"
      using child_placed [OF inv ab(1,2) pN] child_placed [OF inv ab(3,4) pN] by metis+
    then show "h = h'" using tree_invD(7) [OF inv ab(1,3)] eq ab by (auto simp: meet_def)
  qed
  moreover have "(\<lambda>h. lo (the (H h))) ` ?C \<subseteq> {lo P..<tp p}"
  proof
    fix x assume "x \<in> (\<lambda>h. lo (the (H h))) ` ?C"
    then obtain h a where a: "H h = Some a" "par a = p" "x = lo a" by auto
    show "x \<in> {lo P..<tp p}" using child_placed [OF inv a(1,2) pN] p a(3) by fastforce
  qed
  ultimately show "card ?C \<le> tp p - lo P" using card_inj_on_le [of _ ?C "{lo P..<tp p}"] by fastforce
qed

text \<open>Only the live regions' tops and floors, and the holders' depths, matter.\<close>

lemma tree_inv_cong:
  assumes "tree_inv H tp fl rk" and "\<And>n P. H (Live n) = Some P \<Longrightarrow> tp' n = tp n \<and> fl' n = fl n"
  shows "tree_inv H tp' fl' rk"
proof (rule tree_invI, goal_cases)
  case (2 h a)
  then show ?case using tree_invD(2) [OF assms(1) 2] assms(2) by (auto simp: placed_def)
next
  case (3 n P) then show ?case using tree_invD(3-6) [OF assms(1) 3] assms(2) [OF 3] by simp
qed (use tree_invD(1,7,8,9) [OF assms(1)] in blast)+


section \<open>Handed-out runs\<close>

text \<open>A run \<open>(o, a, b)\<close>: the pages \<open>a\<close> to \<open>b\<close> that region \<open>o\<close> retyped, and the region still lives.\<close>

type_synonym run = "u64 \<times> nat \<times> nat"

fun run_apart :: "run \<Rightarrow> run \<Rightarrow> bool" where
  "run_apart (_, a, b) (_, a', b') \<longleftrightarrow> b \<le> a' \<or> b' \<le> a"

definition run_ok :: "(hold \<rightharpoonup> hspan) \<Rightarrow> (u64 \<Rightarrow> nat) \<Rightarrow> run \<Rightarrow> bool" where
  "run_ok H fl = (\<lambda>(n, a, b). a < b \<and> (\<exists>P. H (Live n) = Some P \<and> lo P \<le> a) \<and> b \<le> fl n
     \<and> (\<forall>c C. H c = Some C \<and> par C = n \<longrightarrow> b \<le> lo C \<or> hi C \<le> a))"

definition runs_inv :: "(hold \<rightharpoonup> hspan) \<Rightarrow> (u64 \<Rightarrow> nat) \<Rightarrow> run list \<Rightarrow> bool" where
  "runs_inv H fl L \<longleftrightarrow> list_all (run_ok H fl) L \<and> sorted_wrt run_apart L"

lemma runs_inv_mono:
  assumes "runs_inv H fl L" and "\<And>x. x \<in> set L \<Longrightarrow> run_ok H fl x \<Longrightarrow> run_ok H' fl' x"
  shows "runs_inv H' fl' L"
  using assms by (auto simp: runs_inv_def list_all_iff)

lemma runs_inv_filter: "runs_inv H fl L \<Longrightarrow> runs_inv H fl (filter Q L)"
  by (auto simp: runs_inv_def list_all_iff sorted_wrt_filter)

text \<open>What a region has handed out lies inside it and clear of every other holder that is not above
  it.\<close>

lemma run_clear:
  assumes inv: "tree_inv H tp fl rk" and run: "run_ok H fl (n, a, b)" and h: "H h = Some X" "h \<noteq> Live n"
    and "rk (Live n) \<le> rk h"
  shows "b \<le> lo X \<or> hi X \<le> a \<or> hi X \<le> lo X"
proof (rule ccontr)
  assume m: "\<not> ?thesis"
  obtain P where P: "H (Live n) = Some P" "lo P \<le> a" "b \<le> fl n" "a < b" using run by (auto simp: run_ok_def)
  then have "b \<le> hi P" using tree_invD(5,6) [OF inv P(1)] by simp
  with m P have meet: "meet P X" by (auto simp: meet_def)
  then have "rk (Live n) < rk h" using tree_invD(7) [OF inv P(1) h(1)] h(2) assms(5) by force
  from tree_invD(8) [OF inv P(1) h(1) this meet] obtain c C where "H c = Some C" "par C = n" "inside X C" by auto
  with run m show False by (fastforce simp: run_ok_def inside_def)
qed

lemma run_clear_leaf:
  assumes "tree_inv H tp fl rk" and "run_ok H fl (n, a, b)" and "H h = Some X" and "\<And>m. h \<noteq> Live m"
  shows "b \<le> lo X \<or> hi X \<le> a \<or> hi X \<le> lo X"
proof (cases "rk (Live n) \<le> rk h")
  case True
  then show ?thesis using run_clear [OF assms(1-3)] assms(4) by blast
next
  case False
  obtain P where P: "H (Live n) = Some P" "lo P \<le> a" "b \<le> fl n" "a < b" using assms(2) by (auto simp: run_ok_def)
  have "\<not> meet X P" using tree_invD(8) [OF assms(1,3) P(1)] False assms(4) by auto
  moreover have "b \<le> hi P" using P tree_invD(5,6) [OF assms(1) P(1)] by simp
  ultimately show ?thesis using P by (auto simp: not_meet)
qed

text \<open>The pages at a region's top are free: no run handed out so far reaches them.\<close>

lemma fresh_run:
  assumes inv: "tree_inv H tp fl rk" and p: "H (Live p) = Some P" and w: "tp p < w" "w \<le> hi P"
    and run: "run_ok H fl (n, a, b)"
  shows "b \<le> tp p \<or> w \<le> a"
proof (cases "n = p")
  case True
  then show ?thesis using run tree_invD(5) [OF inv p] by (auto simp: run_ok_def)
next
  case False
  obtain N where N: "H (Live n) = Some N" "lo N \<le> a" "b \<le> fl n" "a < b" using run by (auto simp: run_ok_def)
  have bN: "b \<le> hi N" using N tree_invD(5,6) [OF inv N(1)] by simp
  have pN: "p \<noteq> NO_PARENT" and lp: "lo P \<le> tp p" using tree_invD(3-5) [OF inv p] by auto
  consider "meet P N" "rk (Live p) < rk (Live n)" | "meet P N" "rk (Live n) < rk (Live p)" | "\<not> meet P N"
    using tree_invD(7) [OF inv p N(1)] False by (metis hold.inject(1) linorder_neqE_nat)
  then show ?thesis
  proof cases
    case 1
    from tree_invD(8) [OF inv p N(1) 1(2,1)] obtain c C where c: "H c = Some C" "par C = p" "inside N C" by auto
    then have "hi C \<le> tp p" using child_placed [OF inv c(1,2) pN] by metis
    with c N bN show ?thesis by (auto simp: inside_def)
  next
    case 2
    then have "meet N P" using meet_sym by blast
    from tree_invD(8) [OF inv N(1) p 2(2) this] obtain c C where c: "H c = Some C" "par C = n" "inside P C" by auto
    then have "b \<le> lo C \<or> hi C \<le> a" using run by (auto simp: run_ok_def)
    with c(3) w lp show ?thesis by (auto simp: inside_def)
  next
    case 3
    then show ?thesis using N bN w lp by (auto simp: not_meet)
  qed
qed

lemma runs_inv_carve:
  assumes "tree_inv H tp fl rk" and "runs_inv H fl L" and "H (Live p) = Some P" and "H x = None"
    and "lo a = tp p" and "par a = p" and "\<And>n. H (Live n) \<noteq> None \<Longrightarrow> fl' n = fl n"
  shows "runs_inv (H(x \<mapsto> a)) fl' L"
proof (rule runs_inv_mono [OF assms(2)])
  fix r assume "run_ok H fl r"
  then show "run_ok (H(x \<mapsto> a)) fl' r"
    using tree_invD(5) [OF assms(1,3)] assms(3-7) by (cases r) (fastforce simp: run_ok_def)
qed

lemma runs_inv_retype:
  assumes inv: "tree_inv H tp fl rk" and L: "runs_inv H fl L" and p: "H (Live p) = Some P"
    and w: "tp p < w" "w \<le> hi P"
  shows "runs_inv H (fl(p := w)) ((p, tp p, w) # L)"
proof -
  have P: "lo P \<le> tp p" "fl p \<le> tp p" "p \<noteq> NO_PARENT" using tree_invD(3-5) [OF inv p] by auto
  have new: "run_ok H (fl(p := w)) (p, tp p, w)"
    using p P w child_placed [OF inv] by (auto simp: run_ok_def)
  have old: "run_ok H (fl(p := w)) r" if "run_ok H fl r" for r
    using that w P by (cases r) (auto simp: run_ok_def)
  have "run_apart (p, tp p, w) r" if "r \<in> set L" for r
    using fresh_run [OF inv p w] L that by (cases r) (auto simp: runs_inv_def list_all_iff)
  with new old L show ?thesis by (auto simp: runs_inv_def list_all_iff)
qed

end
