(* ===== verification/Memory_Regions.thy ===== *)
theory Memory_Regions
  imports Generational_Table Region_Tree
begin

text \<open>Untyped memory regions: the arithmetic of \<open>src/crates/memory_regions/src/lib.rs\<close> and the table of
  \<open>src/crates/memory_regions/src/table.rs\<close>, over the generational table it is built on (used through
  the interface \<open>name_table\<close>).  Page counts and page numbers are 64-bit words and the child count is a
  32-bit word, as in the code.  \<open>Region_Safety\<close> runs the table as the kernel does.\<close>


section \<open>The arithmetic\<close>

definition split_new_watermark :: "u64 \<Rightarrow> u64 \<Rightarrow> u64 \<Rightarrow> u64 option" where
  "split_new_watermark parent_pages parent_watermark want =
     (if want = 0 then None
      else case checked_add parent_watermark want of
        None \<Rightarrow> None
      | Some new \<Rightarrow> if new > parent_pages then None else Some new)"

definition retype_pages :: "u64 \<Rightarrow> u64" where
  "retype_pages requested = (if requested = 0 then 1 else requested)"

definition retype_new_watermark :: "u64 \<Rightarrow> u64 \<Rightarrow> u64 \<Rightarrow> u64 option" where
  "retype_new_watermark npages wm requested = split_new_watermark npages wm (retype_pages requested)"

datatype DestroyOutcome = Refused | FreeToGlobal | ReturnToParent u64

definition destroy_outcome :: "bool \<Rightarrow> u32 \<Rightarrow> bool \<Rightarrow> bool \<Rightarrow> u64 \<Rightarrow> DestroyOutcome" where
  "destroy_outcome pinned children is_root is_lifo_top child_pages =
     (if pinned \<or> children > 0 then Refused
      else if is_root then FreeToGlobal
      else ReturnToParent (if is_lifo_top then child_pages else 0))"

definition coalesced_watermark :: "u64 \<Rightarrow> u64 \<Rightarrow> u64 \<Rightarrow> bool \<Rightarrow> u64" where
  "coalesced_watermark wm retyped_to live_to quiescent =
     (if \<not> quiescent then wm else min (max retyped_to live_to) wm)"


section \<open>The table\<close>

datatype ObjectKind = KRendezvous | KAddressSpace | KThread | KKernelPool | KNotification | KTimer

fun object_index :: "ObjectKind \<Rightarrow> nat" where
  "object_index KRendezvous = 0"
| "object_index KAddressSpace = 1"
| "object_index KThread = 2"
| "object_index KKernelPool = 3"
| "object_index KNotification = 4"
| "object_index KTimer = 5"

definition OBJECT_COUNT :: nat where "OBJECT_COUNT = 6"

datatype PageUse = Frames | Object ObjectKind | Children

record Spent =
  spent_frames :: u64
  spent_objects :: "u64 list"
  spent_children :: u64

definition no_spent :: Spent where
  "no_spent = \<lparr>spent_frames = 0, spent_objects = replicate OBJECT_COUNT 0, spent_children = 0\<rparr>"

record Region =
  r_base :: u64
  r_pages :: u64
  r_watermark :: u64
  r_retyped_to :: u64
  r_pinned :: bool
  r_parent :: u64
  r_children :: u32
  r_spent :: Spent

record DestroyClaim =
  cl_base :: u64
  cl_pages :: u64
  cl_parent :: u64
  cl_is_root :: bool

type_synonym RegionTable = "Region Table"

definition fresh_region :: "u64 \<Rightarrow> u64 \<Rightarrow> u64 \<Rightarrow> Region" where
  "fresh_region b n up =
     \<lparr>r_base = b, r_pages = n, r_watermark = 0, r_retyped_to = 0, r_pinned = False, r_parent = up,
      r_children = 0, r_spent = no_spent\<rparr>"

definition new_region_table :: "nat \<Rightarrow> RegionTable" where "new_region_table N = new_gt N"

definition region_len :: "RegionTable \<Rightarrow> nat" where "region_len t = gt_len t"

definition region_is_empty :: "RegionTable \<Rightarrow> bool" where "region_is_empty t = gt_is_empty t"

definition insert_root :: "RegionTable \<Rightarrow> u64 \<Rightarrow> u64 \<Rightarrow> u64 option \<times> RegionTable" where
  "insert_root t b n = insert_with t (\<lambda>_. fresh_region b n NO_PARENT)"

definition carve :: "u64 \<Rightarrow> u64 \<Rightarrow> Region \<Rightarrow> Region" where
  "carve new n r =
     r\<lparr>r_watermark := new, r_children := r_children r + 1,
       r_spent := (r_spent r)\<lparr>spent_children := spent_children (r_spent r) + n\<rparr>\<rparr>"

definition split :: "RegionTable \<Rightarrow> u64 \<Rightarrow> u64 \<Rightarrow> u64 option \<times> RegionTable" where
  "split t p n =
     (case gt_get t p of
        None \<Rightarrow> (None, t)
      | Some r \<Rightarrow>
          (case split_new_watermark (r_pages r) (r_watermark r) n of
             None \<Rightarrow> (None, t)
           | Some new \<Rightarrow>
               let b = r_base r + r_watermark r; t = gt_update t p (carve new n)
               in insert_with t (\<lambda>_. fresh_region b n p)))"

definition has_children :: "RegionTable \<Rightarrow> u64 \<Rightarrow> bool" where
  "has_children t name = (case gt_get t name of None \<Rightarrow> False | Some r \<Rightarrow> r_children r > 0)"

definition retype_run :: "RegionTable \<Rightarrow> u64 \<Rightarrow> u64 \<Rightarrow> u64 option \<times> RegionTable" where
  "retype_run t name requested =
     (case gt_get t name of
        None \<Rightarrow> (None, t)
      | Some r \<Rightarrow>
          (case retype_new_watermark (r_pages r) (r_watermark r) requested of
             None \<Rightarrow> (None, t)
           | Some new \<Rightarrow>
               (Some (r_base r + r_watermark r),
                gt_update t name (\<lambda>r. r\<lparr>r_watermark := new, r_retyped_to := new,
                  r_spent := (r_spent r)\<lparr>spent_frames := spent_frames (r_spent r) + (new - r_watermark r)\<rparr>\<rparr>))))"

definition retype_page :: "RegionTable \<Rightarrow> u64 \<Rightarrow> u64 option \<times> RegionTable" where
  "retype_page t name = retype_run t name 1"

definition retype_object_page :: "RegionTable \<Rightarrow> u64 \<Rightarrow> ObjectKind \<Rightarrow> u64 option \<times> RegionTable" where
  "retype_object_page t name kind =
     (case gt_get t name of
        None \<Rightarrow> (None, t)
      | Some r \<Rightarrow>
          if r_watermark r \<ge> r_pages r then (None, t)
          else
            (Some (r_base r + r_watermark r),
             gt_update t name (\<lambda>r. r\<lparr>r_pinned := True, r_watermark := r_watermark r + 1,
               r_retyped_to := r_watermark r + 1,
               r_spent := (r_spent r)\<lparr>spent_objects :=
                 (spent_objects (r_spent r))[object_index kind :=
                   spent_objects (r_spent r) ! object_index kind + 1]\<rparr>\<rparr>)))"

definition unpin :: "RegionTable \<Rightarrow> u64 \<Rightarrow> RegionTable" where
  "unpin t name = gt_update t name (\<lambda>r. r\<lparr>r_pinned := False\<rparr>)"

definition usage :: "RegionTable \<Rightarrow> u64 \<Rightarrow> (u64 \<times> u64) option" where
  "usage t name = map_option (\<lambda>r. (r_watermark r, r_pages r)) (gt_get t name)"

definition parent_or_none :: "RegionTable \<Rightarrow> u64 \<Rightarrow> u64" where
  "parent_or_none t n = (case gt_get t n of None \<Rightarrow> NO_PARENT | Some r \<Rightarrow> r_parent r)"

fun climbs_to :: "nat \<Rightarrow> RegionTable \<Rightarrow> u64 \<Rightarrow> u64 \<Rightarrow> bool" where
  "climbs_to 0 t at ancestor = False"
| "climbs_to (Suc k) t at ancestor =
     (if at = NO_PARENT then False
      else if at = ancestor then True
      else climbs_to k t (parent_or_none t at) ancestor)"

definition descends_from :: "RegionTable \<Rightarrow> u64 \<Rightarrow> u64 \<Rightarrow> bool" where
  "descends_from t n ancestor = climbs_to (length (gt_slots t)) t (parent_or_none t n) ancestor"

fun spent_count :: "PageUse \<Rightarrow> Region \<Rightarrow> u64" where
  "spent_count Frames r = spent_frames (r_spent r)"
| "spent_count (Object kind) r = spent_objects (r_spent r) ! object_index kind"
| "spent_count Children r = spent_children (r_spent r)"

definition region_spent :: "RegionTable \<Rightarrow> u64 \<Rightarrow> PageUse \<Rightarrow> u64 option" where
  "region_spent t name on =
     (case gt_get t name of
        None \<Rightarrow> None
      | Some own \<Rightarrow>
          if on = Children then Some (spent_count on own)
          else Some (sum_list (map (\<lambda>(_, r). spent_count on r)
            (filter (\<lambda>(n, _). n = name \<or> descends_from t n name) (gt_iter t)))))"

definition bounds :: "RegionTable \<Rightarrow> u64 \<Rightarrow> (u64 \<times> u64) option" where
  "bounds t name = map_option (\<lambda>r. (r_base r, r_pages r)) (gt_get t name)"

definition claim_of :: "Region \<Rightarrow> DestroyClaim" where
  "claim_of r = \<lparr>cl_base = r_base r, cl_pages = r_pages r, cl_parent = r_parent r,
     cl_is_root = (r_parent r = NO_PARENT)\<rparr>"

definition claim_for_destroy :: "RegionTable \<Rightarrow> u64 \<Rightarrow> DestroyClaim option \<times> RegionTable" where
  "claim_for_destroy t name =
     (case gt_get t name of
        None \<Rightarrow> (None, t)
      | Some r \<Rightarrow>
          if destroy_outcome (r_pinned r) (r_children r) (r_parent r = NO_PARENT) False (r_pages r) = Refused
          then (None, t)
          else (Some (claim_of r), snd (gt_remove t name)))"

text \<open>The scan of a return: how many of the parent's children are live, and where the highest ends in
  the parent's own page offsets.\<close>

definition live_children :: "RegionTable \<Rightarrow> u64 \<Rightarrow> u64 \<Rightarrow> u32 \<times> u64" where
  "live_children t p parent_base =
     foldl (\<lambda>(n, to) (_, r). (n + 1, max to (r_base r + r_pages r - parent_base))) (0, 0)
       (filter (\<lambda>(_, r). r_parent r = p) (gt_iter t))"

definition take_back :: "DestroyClaim \<Rightarrow> u32 \<Rightarrow> u64 \<Rightarrow> Region \<Rightarrow> Region" where
  "take_back claim live live_to r =
     (let is_lifo_top = (cl_base claim + cl_pages claim = r_base r + r_watermark r);
          wm = (case destroy_outcome False 0 False is_lifo_top (cl_pages claim) of
                  ReturnToParent unbump \<Rightarrow> r_watermark r - unbump
                | _ \<Rightarrow> r_watermark r);
          cs = saturating_sub (r_children r) 1
      in r\<lparr>r_watermark := coalesced_watermark wm (r_retyped_to r) live_to (cs = live),
           r_children := cs,
           r_spent := (r_spent r)\<lparr>spent_children := saturating_sub (spent_children (r_spent r)) (cl_pages claim)\<rparr>\<rparr>)"

definition return_to_parent :: "RegionTable \<Rightarrow> DestroyClaim \<Rightarrow> RegionTable" where
  "return_to_parent t claim =
     (if cl_is_root claim then t
      else case gt_get t (cl_parent claim) of
        None \<Rightarrow> t
      | Some p \<Rightarrow>
          let (live, live_to) = live_children t (cl_parent claim) (r_base p)
          in gt_update t (cl_parent claim) (take_back claim live live_to))"


section \<open>Lemmas on the arithmetic\<close>

lemma split_new_watermark_Some:
  "split_new_watermark n wm want = Some new \<longleftrightarrow>
     0 < unat want \<and> unat wm + unat want \<le> unat n \<and> new = wm + want"
proof -
  have "unat wm + unat want < 2 ^ 64" if "unat wm + unat want \<le> unat n"
    using that unat_less_len [of n] by simp
  then show ?thesis
    by (auto simp: split_new_watermark_def word_le_nat_alt word_less_nat_alt unat_add_no_wrap unat_gt_0
        split: option.splits if_splits dest: checked_add_SomeD)
qed

lemma live_children_fold:
  "foldl (\<lambda>(n, to) (_, r). (n + 1, max to (f r))) (c, m) xs
     = (c + of_nat (length xs), foldl (\<lambda>to (_, r). max to (f r)) m xs)"
  for m :: u64 and c :: u32
  by (induction xs arbitrary: c m) (auto simp: algebra_simps)

lemma foldl_max_ge:
  "x \<in> set xs \<or> m = v \<Longrightarrow> f (snd x) = v \<or> m = v \<Longrightarrow> (v :: u64) \<le> foldl (\<lambda>to (_, r). max to (f r)) m xs"
proof -
  have mono: "m \<le> foldl (\<lambda>to (_, r). max to (f r)) (m :: u64) xs" for m xs
    by (induction xs arbitrary: m) (auto intro: order_trans [OF max.cobounded1])
  show "x \<in> set xs \<or> m = v \<Longrightarrow> f (snd x) = v \<or> m = v \<Longrightarrow> v \<le> foldl (\<lambda>to (_, r). max to (f r)) m xs"
  proof (induction xs arbitrary: m)
    case (Cons y ys)
    show ?case
    proof (cases "m = v \<or> y = x")
      case True
      then have "v \<le> max m (f (snd y))" using Cons.prems by (auto simp: le_max_iff_disj)
      then show ?thesis by (cases y) (auto intro: order_trans [OF _ mono])
    next
      case False
      with Cons show ?thesis by (cases y) auto
    qed
  qed auto
qed

lemma foldl_max_cases:
  "foldl (\<lambda>to (_, r). max to (f r)) (m :: u64) xs = m
     \<or> (\<exists>x \<in> set xs. foldl (\<lambda>to (_, r). max to (f r)) m xs = f (snd x))"
proof (induction xs arbitrary: m)
  case (Cons y ys)
  show ?case
  proof (cases y)
    case (Pair n r)
    with Cons.IH [of "max m (f r)"] show ?thesis by (auto simp: max_def split: if_splits)
  qed
qed simp

definition children_names :: "RegionTable \<Rightarrow> u64 \<Rightarrow> u64 set" where
  "children_names t p = {n. \<exists>r. gt_get t n = Some r \<and> r_parent r = p}"

text \<open>The scan counts the live children and finds the highest end among them.\<close>

lemma live_children_scan:
  assumes wf: "gt_wf t" and sc: "live_children t p pb = (live, live_to)"
  shows "live = of_nat (card (children_names t p))"
    and "n \<in> children_names t p \<Longrightarrow> gt_get t n = Some r \<Longrightarrow> r_base r + r_pages r - pb \<le> live_to"
    and "live_to = 0 \<or> (\<exists>n r. gt_get t n = Some r \<and> r_parent r = p \<and> live_to = r_base r + r_pages r - pb)"
proof -
  let ?cs = "filter (\<lambda>(_, r). r_parent r = p) (gt_iter t)"
  have set: "set ?cs = {(n, r). gt_get t n = Some r \<and> r_parent r = p}"
    using gt_iter_set [OF wf] by auto
  have "distinct (map fst ?cs)" using gt_iter_distinct [OF wf] by (rule distinct_map_filter)
  then have "length ?cs = card (fst ` set ?cs)" using distinct_card [of "map fst ?cs"] by simp
  also have "fst ` set ?cs = children_names t p" unfolding set children_names_def by force
  finally have len: "length ?cs = card (children_names t p)" .
  have eq: "live = of_nat (length ?cs)"
    "live_to = foldl (\<lambda>to (_, r). max to (r_base r + r_pages r - pb)) 0 ?cs"
    using sc by (simp_all add: live_children_def live_children_fold)
  show "live = of_nat (card (children_names t p))" using eq(1) len by simp
  show "r_base r + r_pages r - pb \<le> live_to" if "n \<in> children_names t p" "gt_get t n = Some r"
    unfolding eq(2) by (rule foldl_max_ge [of "(n, r)"]) (use that set in \<open>auto simp: children_names_def\<close>)
  show "live_to = 0 \<or> (\<exists>n r. gt_get t n = Some r \<and> r_parent r = p \<and> live_to = r_base r + r_pages r - pb)"
    using foldl_max_cases [of "\<lambda>r. r_base r + r_pages r - pb" 0 ?cs] unfolding eq(2) set by fastforce
qed

end
