(* ===== verification/Region_Safety.thy ===== *)
theory Region_Safety
  imports Memory_Regions
begin

text \<open>The region table as the kernel runs it (\<open>src/kernel/src/memory_region.rs\<close>): roots come from a
  frame allocator, claims are in flight while their pages are being revoked, and a claimed run goes
  back to the allocator or to its parent.  The invariant, over \<open>Region_Tree\<close>, holds in every reachable
  state, whatever the order in which callers carve, retype, claim and return.\<close>


section \<open>The table in the kernel\<close>

text \<open>The table, the claims in flight (by the ticket of the caller that holds each), the carves lost to
  a full table, the runs handed out by regions that still live, and the runs the frame allocator has
  given out and not got back.\<close>

record rstate =
  rs_table :: RegionTable
  rs_flight :: "nat \<rightharpoonup> DestroyClaim"
  rs_lost :: "DestroyClaim list"
  rs_handed :: "run list"
  rs_alloc :: "(nat \<times> nat) list"

datatype region_op =
  RRoot u64 u64 | RSplit u64 u64 | RRetype u64 u64 | RObject u64 ObjectKind | RUnpin u64
| RClaim u64 nat | RReturn nat | RFree nat

definition rs_start :: "nat \<Rightarrow> rstate" where
  "rs_start N = \<lparr>rs_table = new_region_table N, rs_flight = Map.empty, rs_lost = [], rs_handed = [], rs_alloc = []\<rparr>"

definition page_run :: "u64 \<Rightarrow> u64 \<Rightarrow> nat \<times> nat" where
  "page_run b n = (unat b, unat b + unat n)"

fun region_step :: "region_op \<Rightarrow> rstate \<Rightarrow> rstate" where
  "region_step (RRoot b n) s =
     (case insert_root (rs_table s) b n of
        (None, t) \<Rightarrow> s\<lparr>rs_table := t\<rparr>
      | (Some _, t) \<Rightarrow> s\<lparr>rs_table := t, rs_alloc := page_run b n # rs_alloc s\<rparr>)"
| "region_step (RSplit p n) s =
     (case split (rs_table s) p n of
        (Some _, t) \<Rightarrow> s\<lparr>rs_table := t\<rparr>
      | (None, t) \<Rightarrow>
          (case gt_get (rs_table s) p of
             None \<Rightarrow> s\<lparr>rs_table := t\<rparr>
           | Some r \<Rightarrow>
               (case split_new_watermark (r_pages r) (r_watermark r) n of
                  None \<Rightarrow> s\<lparr>rs_table := t\<rparr>
                | Some _ \<Rightarrow> s\<lparr>rs_table := t,
                    rs_lost := rs_lost s @ [claim_of (fresh_region (r_base r + r_watermark r) n p)]\<rparr>)))"
| "region_step (RRetype n k) s =
     (case retype_run (rs_table s) n k of
        (None, t) \<Rightarrow> s\<lparr>rs_table := t\<rparr>
      | (Some pg, t) \<Rightarrow> s\<lparr>rs_table := t, rs_handed := (n, page_run pg (retype_pages k)) # rs_handed s\<rparr>)"
| "region_step (RObject n kind) s =
     (case retype_object_page (rs_table s) n kind of
        (None, t) \<Rightarrow> s\<lparr>rs_table := t\<rparr>
      | (Some pg, t) \<Rightarrow> s\<lparr>rs_table := t, rs_handed := (n, page_run pg 1) # rs_handed s\<rparr>)"
| "region_step (RUnpin n) s = s\<lparr>rs_table := unpin (rs_table s) n\<rparr>"
| "region_step (RClaim n k) s =
     (case claim_for_destroy (rs_table s) n of
        (None, t) \<Rightarrow> s\<lparr>rs_table := t\<rparr>
      | (Some c, t) \<Rightarrow>
          s\<lparr>rs_table := t, rs_flight := (rs_flight s)(k \<mapsto> c),
            rs_handed := filter (\<lambda>(m, _). m \<noteq> n) (rs_handed s)\<rparr>)"
| "region_step (RReturn k) s =
     (case rs_flight s k of
        None \<Rightarrow> s
      | Some c \<Rightarrow> if cl_is_root c then s
          else s\<lparr>rs_table := return_to_parent (rs_table s) c, rs_flight := (rs_flight s)(k := None)\<rparr>)"
| "region_step (RFree k) s =
     (case rs_flight s k of
        None \<Rightarrow> s
      | Some c \<Rightarrow> if cl_is_root c
          then s\<lparr>rs_flight := (rs_flight s)(k := None),
                 rs_alloc := remove1 (page_run (cl_base c) (cl_pages c)) (rs_alloc s)\<rparr>
          else s)"

text \<open>What the table's callers guarantee: the allocator gives out a non-empty run of real page numbers
  (fewer than \<open>2\<^sup>3\<^sup>2\<close> of them) that it does not already have out, and a ticket is not used twice at
  once.\<close>

fun run_disjoint :: "nat \<times> nat \<Rightarrow> nat \<times> nat \<Rightarrow> bool" where
  "run_disjoint (a, b) (a', b') \<longleftrightarrow> b \<le> a' \<or> b' \<le> a"

fun caller_ok :: "region_op \<Rightarrow> rstate \<Rightarrow> bool" where
  "caller_ok (RRoot b n) s \<longleftrightarrow> 0 < unat n \<and> unat n < 2 ^ 32 \<and> unat b + unat n < 2 ^ 64
     \<and> list_all (run_disjoint (page_run b n)) (rs_alloc s)"
| "caller_ok (RClaim n k) s \<longleftrightarrow> rs_flight s k = None"
| "caller_ok _ s \<longleftrightarrow> True"

inductive reachable :: "nat \<Rightarrow> rstate \<Rightarrow> bool" for N where
  start: "0 < N \<Longrightarrow> N \<le> 2 ^ 32 - 1 \<Longrightarrow> reachable N (rs_start N)"
| step: "reachable N s \<Longrightarrow> caller_ok x s \<Longrightarrow> reachable N (region_step x s)"

definition region_span :: "Region \<Rightarrow> hspan" where
  "region_span r = \<lparr>lo = unat (r_base r), hi = unat (r_base r) + unat (r_pages r), par = r_parent r\<rparr>"

definition claim_span :: "DestroyClaim \<Rightarrow> hspan" where
  "claim_span c = \<lparr>lo = unat (cl_base c), hi = unat (cl_base c) + unat (cl_pages c), par = cl_parent c\<rparr>"

definition forest :: "rstate \<Rightarrow> hold \<Rightarrow> hspan option" where
  "forest s h =
     (case h of
        Live n \<Rightarrow> map_option region_span (gt_get (rs_table s) n)
      | Flight k \<Rightarrow> map_option claim_span (rs_flight s k)
      | Lost i \<Rightarrow> if i < length (rs_lost s) then Some (claim_span (rs_lost s ! i)) else None)"

definition tops :: "RegionTable \<Rightarrow> u64 \<Rightarrow> nat" where
  "tops t n = (case gt_get t n of None \<Rightarrow> 0 | Some r \<Rightarrow> unat (r_base r) + unat (r_watermark r))"

definition floors :: "RegionTable \<Rightarrow> u64 \<Rightarrow> nat" where
  "floors t n = (case gt_get t n of None \<Rightarrow> 0 | Some r \<Rightarrow> unat (r_base r) + unat (r_retyped_to r))"

definition outstanding :: "rstate \<Rightarrow> u64 \<Rightarrow> hold set" where
  "outstanding s p = {h. \<exists>a. forest s h = Some a \<and> par a = p}"

definition sized :: "u64 \<Rightarrow> u64 \<Rightarrow> bool" where
  "sized b n \<longleftrightarrow> unat n < 2 ^ 32 \<and> unat b + unat n < 2 ^ 64"


section \<open>The invariant\<close>

definition alloc_inv :: "rstate \<Rightarrow> bool" where
  "alloc_inv s \<longleftrightarrow>
     (\<forall>h a. forest s h = Some a \<and> par a = NO_PARENT \<longrightarrow> lo a < hi a \<and> (lo a, hi a) \<in> set (rs_alloc s))
   \<and> sorted_wrt run_disjoint (rs_alloc s) \<and> (\<forall>(a, b) \<in> set (rs_alloc s). a < b)"

definition table_inv :: "rstate \<Rightarrow> bool" where
  "table_inv s \<longleftrightarrow> gt_wf (rs_table s)
   \<and> (\<forall>n r. gt_get (rs_table s) n = Some r \<longrightarrow>
        sized (r_base r) (r_pages r) \<and> unat (r_children r) = card (outstanding s n))
   \<and> (\<forall>k c. rs_flight s k = Some c \<longrightarrow>
        sized (cl_base c) (cl_pages c) \<and> (cl_is_root c \<longleftrightarrow> cl_parent c = NO_PARENT))"

definition region_inv :: "rstate \<Rightarrow> bool" where
  "region_inv s \<longleftrightarrow> table_inv s \<and> (\<exists>rk. tree_inv (forest s) (tops (rs_table s)) (floors (rs_table s)) rk)
     \<and> runs_inv (forest s) (floors (rs_table s)) (rs_handed s) \<and> alloc_inv s"

lemma forest_simps [simp]:
  "forest s (Live n) = map_option region_span (gt_get (rs_table s) n)"
  "forest s (Flight k) = map_option claim_span (rs_flight s k)"
  "forest s (Lost i) = (if i < length (rs_lost s) then Some (claim_span (rs_lost s ! i)) else None)"
  by (simp_all add: forest_def)

lemma span_simps [simp]:
  "lo (region_span r) = unat (r_base r)" "hi (region_span r) = unat (r_base r) + unat (r_pages r)"
  "par (region_span r) = r_parent r"
  "lo (claim_span c) = unat (cl_base c)" "hi (claim_span c) = unat (cl_base c) + unat (cl_pages c)"
  "par (claim_span c) = cl_parent c" "claim_span (claim_of r) = region_span r"
  by (simp_all add: region_span_def claim_span_def claim_of_def)

lemma tops_simps [simp]:
  "gt_get t n = Some r \<Longrightarrow> tops t n = unat (r_base r) + unat (r_watermark r)"
  "gt_get t n = Some r \<Longrightarrow> floors t n = unat (r_base r) + unat (r_retyped_to r)"
  by (simp_all add: tops_def floors_def)

lemma fresh_region_simps [simp]:
  "r_base (fresh_region b n p) = b" "r_pages (fresh_region b n p) = n" "r_watermark (fresh_region b n p) = 0"
  "r_retyped_to (fresh_region b n p) = 0" "r_parent (fresh_region b n p) = p" "r_children (fresh_region b n p) = 0"
  by (simp_all add: fresh_region_def)

lemma table_invD:
  assumes "table_inv s"
  shows "gt_wf (rs_table s)" and "gt_get (rs_table s) n = Some r \<Longrightarrow> sized (r_base r) (r_pages r)"
    and "gt_get (rs_table s) n = Some r \<Longrightarrow> unat (r_children r) = card (outstanding s n)"
    and "rs_flight s k = Some c \<Longrightarrow> sized (cl_base c) (cl_pages c)"
    and "rs_flight s k = Some c \<Longrightarrow> cl_is_root c \<longleftrightarrow> cl_parent c = NO_PARENT"
  using assms by (auto simp: table_inv_def)

lemma dead_name_childless:
  assumes "tree_inv (forest s) tp fl rk" and "gt_get (rs_table s) n = None" and "n \<noteq> NO_PARENT"
  shows "outstanding s n = {}"
proof (rule ccontr)
  assume "outstanding s n \<noteq> {}"
  then obtain h a where "forest s h = Some a" "par a = n" by (auto simp: outstanding_def)
  then show False using child_placed [OF assms(1) _ _ assms(3)] assms(2) by (metis forest_simps(1) option.distinct(1) option.map(1))
qed

text \<open>Changes that leave every run in place.\<close>

lemma region_inv_same_spans:
  assumes inv: "region_inv s" and wf: "gt_wf t'"
    and get: "gt_get t' = (gt_get (rs_table s))(n \<mapsto> r')" and r: "gt_get (rs_table s) n = Some r"
    and same: "r_base r' = r_base r" "r_pages r' = r_pages r" "r_parent r' = r_parent r"
      "r_children r' = r_children r"
    and tree: "\<exists>rk. tree_inv (forest s) (tops t') (floors t') rk"
    and runs: "runs_inv (forest s) (floors t') L"
  shows "region_inv (s\<lparr>rs_table := t', rs_handed := L\<rparr>)"
proof -
  let ?s' = "s\<lparr>rs_table := t', rs_handed := L\<rparr>"
  have span: "region_span r' = region_span r" using same by (simp add: region_span_def)
  have F: "forest ?s' = forest s"
    using r span by (auto simp: forest_def get fun_eq_iff split: hold.splits)
  then have O: "outstanding ?s' m = outstanding s m" for m by (simp add: outstanding_def)
  have "table_inv ?s'"
    using inv r same wf by (auto simp: region_inv_def table_inv_def O get)
  moreover have "alloc_inv ?s'" using inv F by (auto simp: region_inv_def alloc_inv_def)
  ultimately show ?thesis using tree runs F by (simp add: region_inv_def)
qed

lemma region_invD:
  assumes "region_inv s"
  shows "table_inv s" and "runs_inv (forest s) (floors (rs_table s)) (rs_handed s)" and "alloc_inv s"
    and "\<exists>rk. tree_inv (forest s) (tops (rs_table s)) (floors (rs_table s)) rk"
  using assms by (auto simp: region_inv_def)

lemma region_inv_unpin: "region_inv s \<Longrightarrow> region_inv (region_step (RUnpin n) s)"
proof -
  assume inv: "region_inv s"
  note wf = table_invD(1) [OF region_invD(1) [OF inv]]
  show ?thesis
  proof (cases "gt_get (rs_table s) n")
    case None
    then have "unpin (rs_table s) n = rs_table s"
      using gt_update_cases [OF wf, of n] by (fastforce simp: unpin_def gt_get_slot [OF wf])
    with inv show ?thesis by simp
  next
    case (Some r)
    let ?t = "unpin (rs_table s) n"
    have get: "gt_get ?t = (gt_get (rs_table s))(n \<mapsto> r\<lparr>r_pinned := False\<rparr>)"
      using Some by (simp add: unpin_def gt.upd_lookup [OF wf])
    have same: "tops ?t = tops (rs_table s)" "floors ?t = floors (rs_table s)"
      using Some by (auto simp: tops_def floors_def get fun_eq_iff)
    have "gt_wf ?t" by (simp add: unpin_def gt.upd_wf [OF wf])
    from region_inv_same_spans [OF inv this get Some, of "rs_handed s"] region_invD(2,4) [OF inv]
    show ?thesis by (simp add: same)
  qed
qed

text \<open>A retype, of a run or of an object page.\<close>

lemma region_inv_hand_out:
  assumes inv: "region_inv s" and r: "gt_get (rs_table s) n = Some r"
    and k: "0 < unat k" "unat (r_watermark r) + unat k \<le> unat (r_pages r)"
    and r': "r_base r' = r_base r" "r_pages r' = r_pages r" "r_parent r' = r_parent r"
      "r_children r' = r_children r" "r_watermark r' = r_watermark r + k" "r_retyped_to r' = r_watermark r + k"
    and t': "gt_wf t'" "gt_get t' = (gt_get (rs_table s))(n \<mapsto> r')"
  shows "region_inv (s\<lparr>rs_table := t', rs_handed := (n, page_run (r_base r + r_watermark r) k) # rs_handed s\<rparr>)"
proof -
  let ?L = "(n, page_run (r_base r + r_watermark r) k) # rs_handed s"
  obtain rk where tree: "tree_inv (forest s) (tops (rs_table s)) (floors (rs_table s)) rk" using region_invD(4) [OF inv] ..
  have n: "forest s (Live n) = Some (region_span r)" using r by simp
  have sz: "sized (r_base r) (r_pages r)" by (rule table_invD(2) [OF region_invD(1) [OF inv] r])
  have b: "unat (r_base r + r_watermark r) = unat (r_base r) + unat (r_watermark r)"
    and w: "unat (r_watermark r + k) = unat (r_watermark r) + unat k"
    using sz k by (simp_all add: unat_add_no_wrap sized_def)
  let ?tp = "tops (rs_table s)"
  have run: "page_run (r_base r + r_watermark r) k = (?tp n, ?tp n + unat k)"
    using r by (simp add: page_run_def b)
  have tp: "tops t' = ?tp(n := ?tp n + unat k)" and fl: "floors t' = (floors (rs_table s))(n := ?tp n + unat k)"
    using r by (auto simp: tops_def floors_def t' r' w fun_eq_iff)
  have k': "?tp n < ?tp n + unat k" "?tp n + unat k \<le> hi (region_span r)" using r k by simp_all
  show ?thesis
  proof (rule region_inv_same_spans [OF inv t' r r'(1-4)])
    show "\<exists>rk. tree_inv (forest s) (tops t') (floors t') rk"
      unfolding tp fl using tree_inv_retype [OF tree n k'] by blast
    show "runs_inv (forest s) (floors t') ?L"
      unfolding fl run by (rule runs_inv_retype [OF tree region_invD(2) [OF inv] n k'])
  qed
qed

lemma region_inv_retype:
  assumes inv: "region_inv s"
  shows "region_inv (region_step (RRetype n k) s)"
proof -
  note wf = table_invD(1) [OF region_invD(1) [OF inv]]
  show ?thesis
  proof (cases "fst (retype_run (rs_table s) n k)")
    case None
    then show ?thesis using inv by (auto simp: retype_run_def split: option.splits)
  next
    case (Some pg)
    then obtain r new where r: "gt_get (rs_table s) n = Some r"
      and new: "retype_new_watermark (r_pages r) (r_watermark r) k = Some new"
      by (auto simp: retype_run_def split: option.splits)
    define r' where "r' = r\<lparr>r_watermark := new, r_retyped_to := new, r_spent := (r_spent r)\<lparr>spent_frames :=
      spent_frames (r_spent r) + (new - r_watermark r)\<rparr>\<rparr>"
    define t' where "t' = snd (retype_run (rs_table s) n k)"
    have run: "retype_run (rs_table s) n k = (Some (r_base r + r_watermark r), t')"
      by (simp add: t'_def retype_run_def r new)
    have t': "gt_wf t'" "gt_get t' = (gt_get (rs_table s))(n \<mapsto> r')"
      by (simp_all add: t'_def r'_def retype_run_def r new gt.upd_lookup [OF wf] gt.upd_wf [OF wf])
    have k: "0 < unat (retype_pages k)" "unat (r_watermark r) + unat (retype_pages k) \<le> unat (r_pages r)"
      "new = r_watermark r + retype_pages k"
      using new by (simp_all add: retype_new_watermark_def split_new_watermark_Some)
    show ?thesis
      using region_inv_hand_out [OF inv r k(1,2) _ _ _ _ _ _ t'] by (simp add: run r'_def k(3))
  qed
qed

lemma region_inv_object:
  assumes inv: "region_inv s"
  shows "region_inv (region_step (RObject n kind) s)"
proof -
  note wf = table_invD(1) [OF region_invD(1) [OF inv]]
  show ?thesis
  proof (cases "fst (retype_object_page (rs_table s) n kind)")
    case None
    then show ?thesis using inv by (auto simp: retype_object_page_def split: option.splits if_splits)
  next
    case (Some pg)
    then obtain r where r: "gt_get (rs_table s) n = Some r" and lt: "\<not> r_pages r \<le> r_watermark r"
      by (auto simp: retype_object_page_def split: option.splits if_splits)
    define r' where "r' = r\<lparr>r_pinned := True, r_watermark := r_watermark r + 1, r_retyped_to := r_watermark r + 1,
      r_spent := (r_spent r)\<lparr>spent_objects := (spent_objects (r_spent r))[object_index kind :=
        spent_objects (r_spent r) ! object_index kind + 1]\<rparr>\<rparr>"
    define t' where "t' = snd (retype_object_page (rs_table s) n kind)"
    have run: "retype_object_page (rs_table s) n kind = (Some (r_base r + r_watermark r), t')"
      using lt by (simp add: t'_def retype_object_page_def r)
    have t': "gt_wf t'" "gt_get t' = (gt_get (rs_table s))(n \<mapsto> r')"
      using lt by (simp_all add: t'_def r'_def retype_object_page_def r gt.upd_lookup [OF wf] gt.upd_wf [OF wf])
    have "unat (r_watermark r) + unat (1 :: u64) \<le> unat (r_pages r)" using lt by (simp add: word_le_nat_alt)
    from region_inv_hand_out [OF inv r _ this _ _ _ _ _ _ t'] show ?thesis by (simp add: run r'_def)
  qed
qed

text \<open>A new root.\<close>

lemma region_inv_root:
  assumes inv: "region_inv s" and ok: "caller_ok (RRoot b n) s"
  shows "region_inv (region_step (RRoot b n) s)"
proof -
  note tinv = region_invD(1) [OF inv]
  note wf = table_invD(1) [OF tinv]
  show ?thesis
  proof (cases "fst (insert_root (rs_table s) b n)")
    case None
    then have "insert_root (rs_table s) b n = (None, rs_table s)"
      using gt.ins_full [OF wf] by (auto simp: insert_root_def prod_eq_iff)
    then show ?thesis using inv by simp
  next
    case (Some m)
    define t' where "t' = snd (insert_root (rs_table s) b n)"
    have ins: "insert_with (rs_table s) (\<lambda>_. fresh_region b n NO_PARENT) = (Some m, t')"
      using Some by (simp add: t'_def insert_root_def prod_eq_iff)
    let ?s' = "s\<lparr>rs_table := t', rs_alloc := page_run b n # rs_alloc s\<rparr>"
    let ?a = "region_span (fresh_region b n NO_PARENT)"
    obtain rk where tree: "tree_inv (forest s) (tops (rs_table s)) (floors (rs_table s)) rk"
      using region_invD(4) [OF inv] ..
    have m: "gt_get (rs_table s) m = None" "m \<noteq> NO_PARENT"
      using gt.ins_fresh [OF wf ins] by (simp_all add: NO_PARENT_def)
    have get: "gt_get t' = (gt_get (rs_table s))(m \<mapsto> fresh_region b n NO_PARENT)"
      using gt.ins_lookup [OF wf ins] .
    have F: "forest ?s' = (forest s)(Live m \<mapsto> ?a)"
      by (auto simp: forest_def get fun_eq_iff split: hold.splits)
    have tp: "tops t' = (tops (rs_table s))(m := lo ?a)" and fl: "floors t' = (floors (rs_table s))(m := lo ?a)"
      by (auto simp: tops_def floors_def get fun_eq_iff)
    have n: "0 < unat n" "sized b n" and away: "list_all (run_disjoint (page_run b n)) (rs_alloc s)"
      using ok by (simp_all add: sized_def)
    have apart: "\<not> meet ?a G" if "forest s g = Some G" "par G = NO_PARENT" for g G
    proof -
      have "(lo G, hi G) \<in> set (rs_alloc s)" using region_invD(3) [OF inv] that by (auto simp: alloc_inv_def)
      with away have "run_disjoint (page_run b n) (lo G, hi G)" by (simp add: list_all_iff)
      then show ?thesis by (auto simp: page_run_def not_meet)
    qed
    have tree': "\<exists>rk. tree_inv (forest ?s') (tops t') (floors t') rk"
      unfolding F tp fl
    proof (rule exI, rule tree_inv_root [OF tree _ m(2)])
      show "\<not> meet ?a G" if "forest s g = Some G" "par G = NO_PARENT" for g G using apart that .
    qed (use m(1) in simp_all)
    have O: "outstanding ?s' p = outstanding s p" if "p \<noteq> NO_PARENT" for p
      using that m(1) unfolding outstanding_def F by (auto split: if_splits)
    have live: "p \<noteq> NO_PARENT" if "gt_get (rs_table s) p = Some r" for p r
      using tree_invD(3) [OF tree, of p "region_span r"] that by simp
    have "table_inv ?s'"
      using tinv n(2) gt.ins_wf [OF wf ins] O [OF m(2)] dead_name_childless [OF tree m] O live
      by (auto simp: table_inv_def get)
    moreover have "runs_inv (forest ?s') (floors t') (rs_handed s)"
      by (rule runs_inv_mono [OF region_invD(2) [OF inv]])
        (use m(1) live in \<open>auto simp: run_ok_def F fl split: if_splits\<close>)
    moreover have "alloc_inv ?s'"
      using region_invD(3) [OF inv] n(1) away m(1)
      unfolding alloc_inv_def F by (auto simp: page_run_def list_all_iff split: if_splits)
    ultimately show ?thesis using tree' ins by (simp add: region_inv_def insert_root_def)
  qed
qed

text \<open>A carve, by a named child or lost to a full table.\<close>

lemma region_inv_carve:
  assumes inv: "region_inv s" and r: "gt_get (rs_table s) p = Some r"
    and n: "0 < unat n" "unat (r_watermark r) + unat n \<le> unat (r_pages r)" and x: "forest s x = None"
    and get: "\<And>m. gt_get (rs_table s) m \<noteq> None \<Longrightarrow> gt_get (rs_table s') m
        = (if m = p then Some (carve (r_watermark r + n) n r) else gt_get (rs_table s) m)"
    and new: "\<And>c. x = Live c \<Longrightarrow> c \<noteq> NO_PARENT \<and> gt_get (rs_table s') c = Some (fresh_region (r_base r + r_watermark r) n p)"
    and only: "\<And>m. gt_get (rs_table s') m \<noteq> None \<Longrightarrow> gt_get (rs_table s) m \<noteq> None \<or> x = Live m"
    and F: "forest s' = (forest s)(x \<mapsto> region_span (fresh_region (r_base r + r_watermark r) n p))"
    and rest: "gt_wf (rs_table s')" "rs_flight s' = rs_flight s" "rs_handed s' = rs_handed s" "rs_alloc s' = rs_alloc s"
  shows "region_inv s'"
proof -
  let ?a = "region_span (fresh_region (r_base r + r_watermark r) n p)"
  note tinv = region_invD(1) [OF inv]
  obtain rk where tree: "tree_inv (forest s) (tops (rs_table s)) (floors (rs_table s)) rk"
    using region_invD(4) [OF inv] ..
  have P: "forest s (Live p) = Some (region_span r)" using r by simp
  have pN: "p \<noteq> NO_PARENT" by (rule tree_invD(3) [OF tree P])
  have sz: "sized (r_base r) (r_pages r)" by (rule table_invD(2) [OF tinv r])
  have b: "unat (r_base r + r_watermark r) = unat (r_base r) + unat (r_watermark r)"
    and w: "unat (r_watermark r + n) = unat (r_watermark r) + unat n"
    using sz n by (simp_all add: unat_add_no_wrap sized_def)
  have tp: "tops (rs_table s') m = (if m = p then tops (rs_table s) p + unat n else tops (rs_table s) m)"
    and fl: "floors (rs_table s') m = floors (rs_table s) m" if "forest s (Live m) \<noteq> None" for m
    using get [of m] that r w by (auto simp: tops_def floors_def carve_def)
  have a: "lo ?a = tops (rs_table s) p" "hi ?a = tops (rs_table s) p + unat n" "par ?a = p"
    using r by (simp_all add: b)
  have grow: "tops (rs_table s) p < tops (rs_table s) p + unat n" "tops (rs_table s) p + unat n \<le> hi (region_span r)"
    using n r by simp_all
  have tree': "tree_inv (forest s') (tops (rs_table s')) (floors (rs_table s')) (rk(x := Suc (rk (Live p))))"
    unfolding F
  proof (rule tree_inv_carve [OF tree P x grow a])
    show "c \<noteq> NO_PARENT \<and> tops (rs_table s') c = lo ?a \<and> floors (rs_table s') c = lo ?a" if "x = Live c" for c
      using new [OF that] by simp
  qed (simp_all add: tp fl)
  have O: "outstanding s' m = (if m = p then insert x (outstanding s p) else outstanding s m)" for m
    using x unfolding outstanding_def F by auto
  have x0: "x \<notin> outstanding s p" using x by (simp add: outstanding_def)
  have P': "gt_get (rs_table s') p = Some (carve (r_watermark r + n) n r)" using get [of p] r by simp
  have P'F: "forest s' (Live p) = Some (region_span r)" using P' by (simp add: carve_def region_span_def)
  have "card (outstanding s' p) \<le> tops (rs_table s') p - lo (region_span r)" and fin: "finite (outstanding s' p)"
    using children_bounded [OF tree' P'F] by (simp_all add: outstanding_def)
  then have "card (outstanding s' p) < 2 ^ 32" using sz n tp [of p] P r by (auto simp: sized_def)
  moreover have "card (outstanding s' p) = card (outstanding s p) + 1"
    using fin x0 by (simp add: O)
  ultimately have count: "unat (r_children r + 1) = card (outstanding s' p)"
    using table_invD(3) [OF tinv r] by (simp add: unat_add_no_wrap)
  have sized': "sized (r_base r + r_watermark r) n" using sz n by (simp add: sized_def b)
  have "table_inv s'"
    unfolding table_inv_def
  proof (intro conjI allI impI)
    fix m q assume q: "gt_get (rs_table s') m = Some q"
    consider "m = p" | "m \<noteq> p" "gt_get (rs_table s) m \<noteq> None" | "x = Live m" "gt_get (rs_table s) m = None"
      using only [of m] q by auto
    then have "sized (r_base q) (r_pages q) \<and> unat (r_children q) = card (outstanding s' m)"
    proof cases
      case 1
      then show ?thesis using q P' sz count by (auto simp: carve_def)
    next
      case 2
      then show ?thesis using q get [of m] table_invD(2,3) [OF tinv] by (auto simp: O)
    next
      case 3
      then have "m \<noteq> p" using r by auto
      with 3 new [of m] q sized' dead_name_childless [OF tree 3(2)] show ?thesis by (auto simp: O)
    qed
    then show "sized (r_base q) (r_pages q)" "unat (r_children q) = card (outstanding s' m)" by auto
  qed (use rest tinv in \<open>auto simp: table_inv_def\<close>)
  moreover have "runs_inv (forest s') (floors (rs_table s')) (rs_handed s')"
    unfolding rest F by (rule runs_inv_carve [OF tree region_invD(2) [OF inv] P x a(1,3) fl])
  moreover have "alloc_inv s'"
    using region_invD(3) [OF inv] pN unfolding alloc_inv_def F rest by auto
  ultimately show ?thesis using tree' by (auto simp: region_inv_def)
qed

lemma region_inv_split:
  assumes inv: "region_inv s"
  shows "region_inv (region_step (RSplit p n) s)"
proof -
  note wf = table_invD(1) [OF region_invD(1) [OF inv]]
  show ?thesis
  proof (cases "gt_get (rs_table s) p")
    case None
    then show ?thesis using inv by (simp add: split_def)
  next
    case (Some r)
    show ?thesis
    proof (cases "split_new_watermark (r_pages r) (r_watermark r) n")
      case None
      then show ?thesis using inv Some by (simp add: split_def)
    next
      case new: (Some new)
      then have n: "0 < unat n" "unat (r_watermark r) + unat n \<le> unat (r_pages r)" "new = r_watermark r + n"
        by (simp_all add: split_new_watermark_Some)
      let ?c = "fresh_region (r_base r + r_watermark r) n p"
      define t1 where "t1 = gt_update (rs_table s) p (carve new n)"
      have t1: "gt_wf t1" "gt_get t1 = (gt_get (rs_table s))(p \<mapsto> carve new n r)"
        using Some by (simp_all add: t1_def gt.upd_lookup [OF wf] gt.upd_wf [OF wf])
      have span: "region_span (carve new n r) = region_span r" by (simp add: region_span_def carve_def)
      obtain m t2 where ins: "insert_with t1 (\<lambda>_. ?c) = (m, t2)" by (cases "insert_with t1 (\<lambda>_. ?c)")
      then have split: "split (rs_table s) p n = (m, t2)" using Some new by (simp add: split_def t1_def)
      show ?thesis
      proof (cases m)
        case None
        then have t2: "t2 = t1" using gt.ins_full [OF t1(1)] ins by blast
        let ?s' = "s\<lparr>rs_table := t1, rs_lost := rs_lost s @ [claim_of ?c]\<rparr>"
        have "forest ?s' = (forest s)(Lost (length (rs_lost s)) \<mapsto> region_span ?c)"
          using Some span by (auto simp: forest_def t1 fun_eq_iff nth_append split: hold.splits)
        then have "region_inv ?s'"
          using Some n(3) t1 by (intro region_inv_carve [OF inv Some n(1,2)]) (auto split: if_splits)
        then show ?thesis using split Some new None t2 by simp
      next
        case m: (Some c)
        have c: "gt_get t1 c = None" "c \<noteq> NO_PARENT" "gt_get t2 = (gt_get t1)(c \<mapsto> ?c)" "gt_wf t2"
          using gt.ins_fresh [OF t1(1)] gt.ins_lookup [OF t1(1)] gt.ins_wf [OF t1(1)] ins m
          by (auto simp: NO_PARENT_def)
        then have c0: "gt_get (rs_table s) c = None" "c \<noteq> p" using t1(2) by (auto split: if_splits)
        let ?s' = "s\<lparr>rs_table := t2\<rparr>"
        have "forest ?s' = (forest s)(Live c \<mapsto> region_span ?c)"
          using Some span by (auto simp: forest_def t1 c(3) fun_eq_iff split: hold.splits)
        then have "region_inv ?s'"
          using Some n(3) t1 c c0 by (intro region_inv_carve [OF inv Some n(1,2), of "Live c"]) (auto split: if_splits)
        then show ?thesis using split m by simp
      qed
    qed
  qed
qed

text \<open>A claim.\<close>

lemma claim_for_destroy_Some:
  assumes "claim_for_destroy t n = (Some c, t')"
  obtains r where "gt_get t n = Some r" and "c = claim_of r" and "r_children r = 0" and "\<not> r_pinned r"
    and "t' = snd (gt_remove t n)"
  using assms
  by (auto simp: claim_for_destroy_def destroy_outcome_def word_gt_0 split: option.splits if_splits)

lemma region_inv_claim:
  assumes inv: "region_inv s" and ok: "caller_ok (RClaim n k) s"
  shows "region_inv (region_step (RClaim n k) s)"
proof -
  note tinv = region_invD(1) [OF inv]
  note wf = table_invD(1) [OF tinv]
  show ?thesis
  proof (cases "fst (claim_for_destroy (rs_table s) n)")
    case None
    then show ?thesis using inv by (auto simp: claim_for_destroy_def split: option.splits if_splits)
  next
    case (Some c)
    define t' where "t' = snd (claim_for_destroy (rs_table s) n)"
    have cl: "claim_for_destroy (rs_table s) n = (Some c, t')" using Some by (simp add: t'_def prod_eq_iff)
    obtain r where r: "gt_get (rs_table s) n = Some r" "c = claim_of r" "r_children r = 0"
      "t' = snd (gt_remove (rs_table s) n)"
      using claim_for_destroy_Some [OF cl] by metis
    have t': "gt_wf t'" "gt_get t' = (gt_get (rs_table s))(n := None)"
      using gt.del_wf [OF wf] gt.del_lookup [OF wf] r(4) by (metis prod.collapse)+
    let ?L = "filter (\<lambda>(m, _). m \<noteq> n) (rs_handed s)"
    let ?s' = "s\<lparr>rs_table := t', rs_flight := (rs_flight s)(k \<mapsto> c), rs_handed := ?L\<rparr>"
    obtain rk where tree: "tree_inv (forest s) (tops (rs_table s)) (floors (rs_table s)) rk"
      using region_invD(4) [OF inv] ..
    have k: "rs_flight s k = None" using ok by simp
    have F: "forest ?s' = (forest s)(Live n := None, Flight k \<mapsto> region_span r)"
      by (auto simp: forest_def t' r(2) fun_eq_iff split: hold.splits)
    have N: "forest s (Live n) = Some (region_span r)" using r by simp
    have was: "\<exists>h'. forest s h' = Some C" if "forest ?s' h = Some C" for h C
      using that N unfolding F by (metis fun_upd_apply option.distinct(1) option.inject)
    have "card (outstanding s n) = 0" using table_invD(3) [OF tinv r(1)] r(3) by simp
    then have leaf: "outstanding s n = {}" using children_bounded(1) [OF tree N] by (simp add: outstanding_def)
    then have leaf': "\<nexists>c C. forest s c = Some C \<and> par C = n" by (auto simp: outstanding_def)
    have "tree_inv (forest ?s') (tops (rs_table s)) (floors (rs_table s)) (rk(Flight k := rk (Live n)))"
      unfolding F using tree_inv_claim [OF tree N _ leaf', of k] k by simp
    then have tree': "tree_inv (forest ?s') (tops t') (floors t') (rk(Flight k := rk (Live n)))"
      by (rule tree_inv_cong) (auto simp: tops_def floors_def t' split: if_splits)
    have O: "outstanding ?s' m = (if r_parent r = m then insert (Flight k) (outstanding s m - {Live n}) else outstanding s m)"
      if "m \<noteq> n" for m
      using r(1) k unfolding outstanding_def F by auto
    have "card (outstanding ?s' m) = card (outstanding s m)" if "m \<noteq> n" "gt_get (rs_table s) m = Some q" for m q
    proof (cases "r_parent r = m")
      case True
      have "finite (outstanding s m)" "Live n \<in> outstanding s m" "Flight k \<notin> outstanding s m"
        using children_bounded(1) [OF tree, of m "region_span q"] that N True k by (auto simp: outstanding_def)
      then show ?thesis using O [OF that(1)] True by (simp add: card_Suc_Diff1 del: card_Diff_insert)
    qed (use O [OF that(1)] in simp)
    then have "table_inv ?s'"
      using tinv t' r(1,2) by (auto simp: table_inv_def claim_of_def split: if_splits)
    moreover have "runs_inv (forest ?s') (floors t') ?L"
    proof (rule runs_inv_mono [OF runs_inv_filter [OF region_invD(2) [OF inv]]])
      fix x assume mem: "x \<in> set ?L" and ok: "run_ok (forest s) (floors (rs_table s)) x"
      obtain m a b where "x = (m, a, b)" by (cases x)
      with mem ok have x: "x = (m, a, b)" "m \<noteq> n" "run_ok (forest s) (floors (rs_table s)) (m, a, b)" by auto
      have clear: "b \<le> lo C \<or> hi C \<le> a" if "forest ?s' h = Some C" "par C = m" for h C
        using was [OF that(1)] x(3) that(2) by (auto simp: run_ok_def simp del: forest_simps)
      have "forest ?s' (Live m) = forest s (Live m)" "floors t' m = floors (rs_table s) m"
        using x(2) by (simp_all add: t' floors_def)
      with x(3) clear show "run_ok (forest ?s') (floors t') x"
        unfolding x(1) run_ok_def by (auto simp del: forest_simps)
    qed
    moreover have "alloc_inv ?s'"
      using region_invD(3) [OF inv] was unfolding alloc_inv_def by (simp del: forest_simps) blast
    ultimately show ?thesis using tree' cl by (auto simp: region_inv_def)
  qed
qed

text \<open>A child's run comes back to its parent.\<close>

lemma coalesced_nat:
  "unat (coalesced_watermark wm rt lt q) = (if q then min (max (unat rt) (unat lt)) (unat wm) else unat wm)"
  by (simp add: coalesced_watermark_def min_def max_def word_le_nat_alt)

lemma take_back_simps:
  "r_base (take_back c live live_to r) = r_base r" "r_pages (take_back c live live_to r) = r_pages r"
  "r_parent (take_back c live live_to r) = r_parent r" "r_retyped_to (take_back c live live_to r) = r_retyped_to r"
  "r_children (take_back c live live_to r) = saturating_sub (r_children r) 1"
  "r_watermark (take_back c live live_to r) = coalesced_watermark
     (if cl_base c + cl_pages c = r_base r + r_watermark r then r_watermark r - cl_pages c else r_watermark r)
     (r_retyped_to r) live_to (saturating_sub (r_children r) 1 = live)"
  by (auto simp: take_back_def destroy_outcome_def Let_def)

text \<open>The new top: the child's own start if it sat at the old top, and from there down to the higher of
  the floor and the live children's end when nothing else is out.\<close>

definition returned_top :: "rstate \<Rightarrow> u64 \<Rightarrow> hspan \<Rightarrow> nat \<Rightarrow> bool \<Rightarrow> nat" where
  "returned_top s p a live_end q =
     (let T = (if hi a = tops (rs_table s) p then lo a else tops (rs_table s) p)
      in if q then min (max (floors (rs_table s) p) live_end) T else T)"

lemma take_back_top:
  assumes tinv: "table_inv s" and tree: "tree_inv (forest s) (tops (rs_table s)) (floors (rs_table s)) rk"
    and k: "rs_flight s k = Some c" and p: "gt_get (rs_table s) (cl_parent c) = Some P"
  shows "unat (r_base P) + unat (r_watermark (take_back c live live_to P))
    = returned_top s (cl_parent c) (claim_span c) (unat (r_base P) + unat live_to) (saturating_sub (r_children P) 1 = live)"
proof -
  have pF: "forest s (Live (cl_parent c)) = Some (region_span P)" using p by simp
  have kF: "forest s (Flight k) = Some (claim_span c)" using k by simp
  have pN: "cl_parent c \<noteq> NO_PARENT" by (rule tree_invD(3) [OF tree pF])
  have szP: "sized (r_base P) (r_pages P)" and szc: "sized (cl_base c) (cl_pages c)"
    using table_invD(2) [OF tinv p] table_invD(4) [OF tinv k] by auto
  have wm: "unat (r_watermark P) \<le> unat (r_pages P)" using tree_invD(6) [OF tree pF] p by simp
  have sums: "unat (cl_base c + cl_pages c) = hi (claim_span c)"
    "unat (r_base P + r_watermark P) = tops (rs_table s) (cl_parent c)"
    using szP szc wm p by (simp_all add: unat_add_no_wrap sized_def)
  then have lifo: "cl_base c + cl_pages c = r_base P + r_watermark P \<longleftrightarrow> hi (claim_span c) = tops (rs_table s) (cl_parent c)"
    by (metis word_unat_eq_iff)
  have "unat (r_base P) \<le> unat (cl_base c)" using child_placed [OF tree kF _ pN] pF by fastforce
  then have "unat (r_base P) + unat (r_watermark P - cl_pages c) = lo (claim_span c)"
    if "hi (claim_span c) = tops (rs_table s) (cl_parent c)"
    using that p by (subst unat_sub_le) (auto simp: word_le_nat_alt)
  then show ?thesis
    using p by (auto simp: take_back_simps coalesced_nat returned_top_def lifo min_def max_def)
qed

lemma returned_top_bounds:
  assumes tree: "tree_inv (forest s) (tops (rs_table s)) (floors (rs_table s)) rk"
    and a: "forest s (Flight k) = Some a" "par a = p" "p \<noteq> NO_PARENT"
    and q: "\<And>h C. q \<Longrightarrow> forest s h = Some C \<Longrightarrow> h \<noteq> Flight k \<Longrightarrow> par C = p \<Longrightarrow> hi C \<le> live_end"
  shows "floors (rs_table s) p \<le> returned_top s p a live_end q" and "returned_top s p a live_end q \<le> tops (rs_table s) p"
    and "forest s h = Some C \<Longrightarrow> h \<noteq> Flight k \<Longrightarrow> par C = p \<Longrightarrow> hi C \<le> returned_top s p a live_end q"
proof -
  obtain P where P: "forest s (Live p) = Some P" "lo a < hi a" "hi a \<le> tops (rs_table s) p"
    using child_placed [OF tree a] by metis
  define T where "T = (if hi a = tops (rs_table s) p then lo a else tops (rs_table s) p)"
  have T: "floors (rs_table s) p \<le> T" "T \<le> tops (rs_table s) p"
    using top_child(1) [OF tree a] tree_invD(5) [OF tree P(1)] P by (auto simp: T_def)
  have below: "hi C \<le> T" if "forest s h = Some C" "h \<noteq> Flight k" "par C = p" for h C
    using top_child(2) [OF tree a] child_placed [OF tree that(1,3) a(3)] that by (auto simp: T_def)
  show "floors (rs_table s) p \<le> returned_top s p a live_end q" "returned_top s p a live_end q \<le> tops (rs_table s) p"
    using T by (auto simp: returned_top_def T_def [symmetric] Let_def)
  show "hi C \<le> returned_top s p a live_end q" if "forest s h = Some C" "h \<noteq> Flight k" "par C = p"
    using below [OF that] q [OF _ that] by (auto simp: returned_top_def T_def [symmetric] Let_def)
qed

text \<open>When the parent's count after the return is the number of live children, nothing else of it is
  out.\<close>

lemma quiescent_all_live:
  assumes tinv: "table_inv s" and tree: "tree_inv (forest s) (tops (rs_table s)) (floors (rs_table s)) rk"
    and k: "rs_flight s k = Some c" and p: "gt_get (rs_table s) (cl_parent c) = Some P"
    and q: "saturating_sub (r_children P) 1 = of_nat (card (children_names (rs_table s) (cl_parent c)))"
    and h: "forest s h = Some C" "h \<noteq> Flight k" "par C = cl_parent c"
  shows "\<exists>n \<in> children_names (rs_table s) (cl_parent c). h = Live n"
proof -
  let ?O = "outstanding s (cl_parent c)" and ?N = "children_names (rs_table s) (cl_parent c)"
  have pF: "forest s (Live (cl_parent c)) = Some (region_span P)" using p by simp
  have fin: "finite ?O" using children_bounded(1) [OF tree pF] by (simp add: outstanding_def)
  have kO: "Flight k \<in> ?O" using k by (simp add: outstanding_def)
  have sub: "Live ` ?N \<subseteq> ?O - {Flight k}" by (auto simp: outstanding_def children_names_def)
  have "card ?N = card (Live ` ?N)" by (simp add: card_image inj_on_def)
  also have "\<dots> \<le> card (?O - {Flight k})" using sub fin by (simp add: card_mono)
  finally have le: "card ?N \<le> card (?O - {Flight k})" .
  have cnt: "unat (r_children P) = card ?O" by (rule table_invD(3) [OF tinv p])
  then have "card ?O < 2 ^ 32" using unat_less_len [of "r_children P"] by simp
  then have "unat (of_nat (card ?N) :: u32) = card ?N"
    using le fin kO by (simp add: unat_of_nat take_bit_nat_eq_self)
  moreover have "unat (saturating_sub (r_children P) 1) = card (?O - {Flight k})"
    using fin kO cnt by (simp add: unat_saturating_sub)
  ultimately have "card (Live ` ?N) = card (?O - {Flight k})"
    using q by (simp add: card_image inj_on_def)
  then have "Live ` ?N = ?O - {Flight k}" using sub fin by (metis card_subset_eq finite_Diff)
  moreover have "h \<in> ?O - {Flight k}" using h by (simp add: outstanding_def)
  ultimately show ?thesis by blast
qed

lemma return_inert:
  assumes "rs_flight s k = None \<or> (\<exists>c. rs_flight s k = Some c \<and> cl_is_root c)"
  shows "region_step (RReturn k) s = s"
  using assms by auto

lemma region_inv_return:
  assumes inv: "region_inv s"
  shows "region_inv (region_step (RReturn k) s)"
proof (cases "rs_flight s k = None \<or> (\<exists>c. rs_flight s k = Some c \<and> cl_is_root c)")
  case True
  then show ?thesis using inv return_inert by metis
next
  case False
  then obtain c where k: "rs_flight s k = Some c" and child: "\<not> cl_is_root c" by auto
  note tinv = region_invD(1) [OF inv]
  note wf = table_invD(1) [OF tinv]
  obtain rk where tree: "tree_inv (forest s) (tops (rs_table s)) (floors (rs_table s)) rk"
    using region_invD(4) [OF inv] ..
  let ?p = "cl_parent c" and ?a = "claim_span c"
  have kF: "forest s (Flight k) = Some ?a" and pa: "par ?a = ?p" using k by simp_all
  have pN: "?p \<noteq> NO_PARENT" using table_invD(5) [OF tinv k] child by simp
  obtain P where p: "gt_get (rs_table s) ?p = Some P"
    using child_placed [OF tree kF pa pN] by auto
  obtain live live_to where sc: "live_children (rs_table s) ?p (r_base P) = (live, live_to)"
    by (cases "live_children (rs_table s) ?p (r_base P)")
  let ?q = "saturating_sub (r_children P) 1 = live" and ?P' = "take_back c live live_to P"
  let ?T = "returned_top s ?p ?a (unat (r_base P) + unat live_to) ?q"
  define t' where "t' = return_to_parent (rs_table s) c"
  have ret: "t' = gt_update (rs_table s) ?p (take_back c live live_to)"
    using child p sc by (simp add: t'_def return_to_parent_def)
  have t': "gt_wf t'" "gt_get t' = (gt_get (rs_table s))(?p \<mapsto> ?P')"
    using p by (simp_all add: ret gt.upd_lookup [OF wf] gt.upd_wf [OF wf])
  let ?s' = "s\<lparr>rs_table := t', rs_flight := (rs_flight s)(k := None)\<rparr>"
  have F: "forest ?s' = (forest s)(Flight k := None)"
    using p by (auto simp: forest_def t' take_back_simps region_span_def fun_eq_iff split: hold.splits)
  have live_end: "hi C \<le> unat (r_base P) + unat live_to"
    if q: ?q and C: "forest s h = Some C" "h \<noteq> Flight k" "par C = ?p" for h C
  proof -
    obtain n where n: "n \<in> children_names (rs_table s) ?p" "h = Live n"
      using quiescent_all_live [OF tinv tree k p _ C] q live_children_scan(1) [OF wf sc] by auto
    then obtain r where r: "gt_get (rs_table s) n = Some r" "C = region_span r" using C(1) by auto
    have "r_base r + r_pages r - r_base P \<le> live_to" using live_children_scan(2) [OF wf sc n(1) r(1)] .
    moreover have "unat (r_base r + r_pages r - r_base P) = hi C - unat (r_base P)"
    proof -
      have "unat (r_base P) \<le> unat (r_base r)" using child_placed [OF tree C(1,3) pN] p r(2) by fastforce
      moreover have "unat (r_base r + r_pages r) = hi C"
        using table_invD(2) [OF tinv r(1)] r(2) by (simp add: sized_def unat_add_no_wrap)
      ultimately show ?thesis using r(2) by (simp add: unat_sub_le word_le_nat_alt)
    qed
    ultimately show ?thesis by (simp add: word_le_nat_alt)
  qed
  note bounds = returned_top_bounds [OF tree kF pa pN live_end]
  have tp: "tops t' = (tops (rs_table s))(?p := ?T)" and fl: "floors t' = floors (rs_table s)"
    using take_back_top [OF tinv tree k p] p by (auto simp: tops_def floors_def t' take_back_simps fun_eq_iff)
  have "tree_inv (forest ?s') (tops t') (floors (rs_table s)) rk"
    unfolding F by (rule tree_inv_gone [OF tree kF]) (use bounds in \<open>auto simp: tp pa\<close>)
  moreover have O: "outstanding ?s' m = (if m = ?p then outstanding s ?p - {Flight k} else outstanding s m)" for m
    using k unfolding outstanding_def F by auto
  have fin: "finite (outstanding s ?p)" "Flight k \<in> outstanding s ?p"
    using children_bounded(1) [OF tree, of ?p "region_span P"] p k by (auto simp: outstanding_def)
  then have "unat (saturating_sub (r_children P) 1) = card (outstanding ?s' ?p)"
    using table_invD(3) [OF tinv p] by (simp add: O unat_saturating_sub)
  then have "table_inv ?s'"
    using tinv t' p by (auto simp: table_inv_def O take_back_simps split: if_splits)
  moreover have "runs_inv (forest ?s') (floors (rs_table s)) (rs_handed s)"
    by (rule runs_inv_mono [OF region_invD(2) [OF inv]]) (auto simp: run_ok_def F)
  moreover have "alloc_inv ?s'"
    using region_invD(3) [OF inv] unfolding alloc_inv_def F by (auto split: if_splits)
  ultimately have "region_inv ?s'" by (auto simp: region_inv_def fl)
  then show ?thesis using k child by (simp add: t'_def)
qed

lemma run_disjoint_sym: "run_disjoint x y \<longleftrightarrow> run_disjoint y x"
  by (cases x; cases y) auto

lemma sorted_wrt_remove1: "sorted_wrt R xs \<Longrightarrow> sorted_wrt R (remove1 x xs)"
  by (induction xs) (auto dest: notin_set_remove1 set_mp [OF set_remove1_subset])

text \<open>A root's run goes back to the allocator.\<close>

lemma region_inv_free:
  assumes inv: "region_inv s"
  shows "region_inv (region_step (RFree k) s)"
proof (cases "\<exists>c. rs_flight s k = Some c \<and> cl_is_root c")
  case False
  then have "region_step (RFree k) s = s" by (auto split: option.splits)
  then show ?thesis using inv by metis
next
  case True
  then obtain c where k: "rs_flight s k = Some c" and root: "cl_is_root c" by auto
  note tinv = region_invD(1) [OF inv]
  obtain rk where tree: "tree_inv (forest s) (tops (rs_table s)) (floors (rs_table s)) rk"
    using region_invD(4) [OF inv] ..
  let ?a = "claim_span c" and ?run = "page_run (cl_base c) (cl_pages c)"
  let ?s' = "s\<lparr>rs_flight := (rs_flight s)(k := None), rs_alloc := remove1 ?run (rs_alloc s)\<rparr>"
  have kF: "forest s (Flight k) = Some ?a" and pa: "par ?a = NO_PARENT"
    using k table_invD(5) [OF tinv k] root by simp_all
  have noN: "forest s (Live NO_PARENT) = None"
    using tree_invD(3) [OF tree, of NO_PARENT] by (metis not_None_eq)
  have F: "forest ?s' = (forest s)(Flight k := None)"
    by (auto simp: forest_def fun_eq_iff split: hold.splits)
  have tree': "tree_inv (forest ?s') (tops (rs_table s)) (floors (rs_table s)) rk"
    unfolding F by (rule tree_inv_gone [OF tree kF]) (use noN pa in simp_all)
  have O: "outstanding ?s' m = outstanding s m" if "m \<noteq> NO_PARENT" for m
    using k pa that unfolding outstanding_def F by auto
  have "table_inv ?s'"
    using tinv O noN by (auto simp: table_inv_def split: if_splits) (metis option.distinct(1) option.map(1))
  moreover have "runs_inv (forest ?s') (floors (rs_table s)) (rs_handed s)"
    by (rule runs_inv_mono [OF region_invD(2) [OF inv]]) (auto simp: run_ok_def F)
  moreover have "alloc_inv ?s'"
  proof -
    note ai = region_invD(3) [OF inv, unfolded alloc_inv_def]
    have "(lo b, hi b) \<in> set (remove1 ?run (rs_alloc s))" if b: "forest s h = Some b" "h \<noteq> Flight k" "par b = NO_PARENT" for h b
    proof -
      have "rk h = 0" "rk (Flight k) = 0"
        using tree_invD(2) [OF tree b(1)] tree_invD(2) [OF tree kF] b(3) pa by (auto simp: placed_def)
      then have "\<not> meet b ?a" using tree_invD(7) [OF tree b(1) kF b(2)] by simp
      moreover have "lo b < hi b" "lo ?a < hi ?a" using ai b kF pa by blast+
      ultimately have "(lo b, hi b) \<noteq> ?run" by (auto simp: not_meet page_run_def)
      then show ?thesis using ai b by (simp add: in_set_remove1)
    qed
    moreover have "sorted_wrt run_disjoint (remove1 ?run (rs_alloc s))" using ai by (simp add: sorted_wrt_remove1)
    moreover have "\<forall>(a, b) \<in> set (remove1 ?run (rs_alloc s)). a < b" using ai set_remove1_subset by fastforce
    ultimately show ?thesis using ai unfolding alloc_inv_def F by (auto split: if_splits)
  qed
  ultimately have "region_inv ?s'" using tree' by (auto simp: region_inv_def)
  then show ?thesis using k root by simp
qed

lemma region_inv_step: "region_inv s \<Longrightarrow> caller_ok x s \<Longrightarrow> region_inv (region_step x s)"
  by (cases x) (auto simp del: region_step.simps caller_ok.simps intro: region_inv_root region_inv_split
      region_inv_retype region_inv_object region_inv_unpin region_inv_claim region_inv_return region_inv_free)

lemma region_inv_start: "0 < N \<Longrightarrow> N \<le> 2 ^ 32 - 1 \<Longrightarrow> region_inv (rs_start N)"
proof -
  assume N: "0 < N" "N \<le> 2 ^ 32 - 1"
  have get: "gt_get (new_region_table N) = Map.empty"
    by (auto simp: new_region_table_def fun_eq_iff gt_get_def slot_of_def new_gt_def
        split: option.splits prod.splits if_splits)
  have F: "forest (rs_start N) = Map.empty"
    by (auto simp: forest_def rs_start_def get fun_eq_iff split: hold.splits)
  show ?thesis
    unfolding region_inv_def table_inv_def alloc_inv_def runs_inv_def F
    using gt_wf_new [OF N] get by (auto simp: rs_start_def new_region_table_def intro!: exI tree_inv_empty)
qed

lemma reachable_inv: "reachable N s \<Longrightarrow> region_inv s"
  by (induction rule: reachable.induct) (auto intro: region_inv_start region_inv_step)



section \<open>Properties\<close>

lemma holder_nonempty:
  assumes "region_inv s" and "forest s h = Some a"
  shows "lo a < hi a"
proof (cases "par a = NO_PARENT")
  case True
  then show ?thesis using region_invD(3) [OF assms(1)] assms(2) by (auto simp: alloc_inv_def)
next
  case False
  obtain rk where tree: "tree_inv (forest s) (tops (rs_table s)) (floors (rs_table s)) rk"
    using region_invD(4) [OF assms(1)] ..
  show ?thesis using child_placed [OF tree assms(2) refl False] by blast
qed

lemma flights_apart:
  assumes "region_inv s" and "rs_flight s k = Some c" and "rs_flight s k' = Some c'" and "k \<noteq> k'"
  shows "run_disjoint (page_run (cl_base c) (cl_pages c)) (page_run (cl_base c') (cl_pages c'))"
proof -
  obtain rk where "tree_inv (forest s) (tops (rs_table s)) (floors (rs_table s)) rk" using region_invD(4) [OF assms(1)] ..
  from leaves_disjoint [OF this, of "Flight k" "claim_span c" "Flight k'" "claim_span c'"] assms
    holder_nonempty [OF assms(1), of "Flight k" "claim_span c"] holder_nonempty [OF assms(1), of "Flight k'" "claim_span c'"]
  show ?thesis by (auto simp: not_meet page_run_def)
qed

lemma disjoint_runs_distinct:
  "sorted_wrt run_disjoint xs \<Longrightarrow> \<forall>(a, b) \<in> set xs. a < b \<Longrightarrow> distinct xs"
  by (induction xs) auto

text \<open>Sample runs of the table, for the witnesses: a root of eight pages at page 16, a child of two pages
  carved off it, and what happens next.\<close>

fun callers_ok :: "region_op list \<Rightarrow> rstate \<Rightarrow> bool" where
  "callers_ok [] s = True"
| "callers_ok (x # xs) s = (caller_ok x s \<and> callers_ok xs (region_step x s))"

lemma reachable_run: "reachable N s \<Longrightarrow> callers_ok xs s \<Longrightarrow> reachable N (fold region_step xs s)"
  by (induction xs arbitrary: s) (auto simp del: region_step.simps caller_ok.simps intro: reachable.step)

lemmas region_eval = rs_start_def new_region_table_def new_gt_def insert_root_def split_def retype_run_def
  claim_for_destroy_def destroy_outcome_def gt_remove_def gt_get_def gt_update_def slot_of_def insert_with_def
  fresh_region_def carve_def claim_of_def split_new_watermark_def retype_new_watermark_def retype_pages_def
  checked_add_def page_run_def mk_name_def unpack_def NO_PARENT_def Let_def word_less_nat_alt word_le_nat_alt

definition sample_regions :: rstate where
  "sample_regions = fold region_step [RRoot 16 8, RSplit 0 2, RRetype 0 3] (rs_start 2)"

lemma sample_regions_eval:
  "sample_regions =
     \<lparr>rs_table = \<lparr>gt_slots =
         [Some \<lparr>r_base = 16, r_pages = 8, r_watermark = 5, r_retyped_to = 5, r_pinned = False,
            r_parent = - 1, r_children = 1,
            r_spent = \<lparr>spent_frames = 3, spent_objects = replicate OBJECT_COUNT 0, spent_children = 2\<rparr>\<rparr>,
          Some (fresh_region 16 2 0)],
        gt_gens = [0, 0], gt_live = 2, gt_top = 2\<rparr>,
      rs_flight = Map.empty, rs_lost = [], rs_handed = [(0, 18, 21)], rs_alloc = [(16, 24)]\<rparr>"
  by (simp add: sample_regions_def region_eval replicate_2 no_spent_def)

lemma sample_regions_reachable: "reachable 2 sample_regions"
  unfolding sample_regions_def
  by (rule reachable_run [OF reachable.start]) (simp_all add: region_eval replicate_2 no_spent_def)

text \<open>The child is claimed, under ticket 7; or the root is, in a table of its own.\<close>

definition sample_claimed :: rstate where
  "sample_claimed = region_step (RClaim 1 7) sample_regions"

lemma sample_claimed_eval:
  "rs_flight sample_claimed = [7 \<mapsto> claim_of (fresh_region 16 2 0)]"
  "rs_handed sample_claimed = [(0, 18, 21)]" "rs_lost sample_claimed = []"
  "gt_slots (rs_table sample_claimed) = [gt_slots (rs_table sample_regions) ! 0, None]"
  "gt_gens (rs_table sample_claimed) = [0, 1]"
  by (simp_all add: sample_claimed_def sample_regions_eval region_eval)

lemma sample_claimed_reachable: "reachable 2 sample_claimed"
  unfolding sample_claimed_def
  by (rule reachable.step [OF sample_regions_reachable]) (simp add: sample_regions_eval)

definition sample_root_claimed :: rstate where
  "sample_root_claimed = fold region_step [RRoot 16 8, RClaim 0 7] (rs_start 2)"

lemma sample_root_claimed_eval:
  "rs_flight sample_root_claimed = [7 \<mapsto> claim_of (fresh_region 16 8 (- 1))]"
  "rs_alloc sample_root_claimed = [(16, 24)]"
  by (simp_all add: sample_root_claimed_def region_eval replicate_2 no_spent_def)

lemma sample_root_claimed_reachable: "reachable 2 sample_root_claimed"
  unfolding sample_root_claimed_def
  by (rule reachable_run [OF reachable.start]) (simp_all add: region_eval replicate_2 no_spent_def)

text \<open>C1. No page is ever in two hands.  In every state the kernel can reach, by any interleaving of
  root creations, carves, retypes, claims, returns and releases (splits on a full table included),
  the runs handed out by regions that still live are pairwise disjoint; each lies in the spent part
  of its region and outside every live child of that region and every run whose claim is still in
  flight; and the runs of any two claims in flight are disjoint.\<close>

theorem no_page_in_two_hands:
  assumes "reachable N s"
  shows "sorted_wrt run_apart (rs_handed s)
    \<and> (\<forall>(n, a, b) \<in> set (rs_handed s). a < b
        \<and> (\<exists>r. gt_get (rs_table s) n = Some r \<and> unat (r_base r) \<le> a \<and> b \<le> unat (r_base r) + unat (r_watermark r))
        \<and> (\<forall>m q. gt_get (rs_table s) m = Some q \<and> r_parent q = n \<longrightarrow> run_disjoint (a, b) (page_run (r_base q) (r_pages q)))
        \<and> (\<forall>k c. rs_flight s k = Some c \<longrightarrow> run_disjoint (a, b) (page_run (cl_base c) (cl_pages c))))
    \<and> (\<forall>k k' c c'. rs_flight s k = Some c \<and> rs_flight s k' = Some c' \<and> k \<noteq> k' \<longrightarrow>
        run_disjoint (page_run (cl_base c) (cl_pages c)) (page_run (cl_base c') (cl_pages c')))"
proof (intro conjI ballI)
  note inv = reachable_inv [OF assms]
  obtain rk where tree: "tree_inv (forest s) (tops (rs_table s)) (floors (rs_table s)) rk"
    using region_invD(4) [OF inv] ..
  note runs = region_invD(2) [OF inv, unfolded runs_inv_def]
  show "sorted_wrt run_apart (rs_handed s)" using runs by simp
  fix x assume mem: "x \<in> set (rs_handed s)"
  obtain n a b where x: "x = (n, a, b)" by (cases x)
  have ok: "run_ok (forest s) (floors (rs_table s)) (n, a, b)" using runs mem x by (auto simp: list_all_iff)
  then obtain r where r: "gt_get (rs_table s) n = Some r" "unat (r_base r) \<le> a" "b \<le> floors (rs_table s) n" "a < b"
    by (auto simp: run_ok_def)
  then have "b \<le> unat (r_base r) + unat (r_watermark r)"
    using tree_invD(5) [OF tree, of n "region_span r"] by simp
  moreover have "run_disjoint (a, b) (page_run (r_base q) (r_pages q))"
    if "gt_get (rs_table s) m = Some q" "r_parent q = n" for m q
  proof -
    have "forest s (Live m) = Some (region_span q)" "par (region_span q) = n" using that by simp_all
    with ok have "b \<le> lo (region_span q) \<or> hi (region_span q) \<le> a" unfolding run_ok_def by blast
    then show ?thesis by (simp add: page_run_def)
  qed
  moreover have "run_disjoint (a, b) (page_run (cl_base c) (cl_pages c))" if "rs_flight s k = Some c" for k c
    using run_clear_leaf [OF tree ok, of "Flight k" "claim_span c"] that
      holder_nonempty [OF inv, of "Flight k" "claim_span c"] by (auto simp: page_run_def)
  ultimately show "case x of (n, a, b) \<Rightarrow> a < b
        \<and> (\<exists>r. gt_get (rs_table s) n = Some r \<and> unat (r_base r) \<le> a \<and> b \<le> unat (r_base r) + unat (r_watermark r))
        \<and> (\<forall>m q. gt_get (rs_table s) m = Some q \<and> r_parent q = n \<longrightarrow> run_disjoint (a, b) (page_run (r_base q) (r_pages q)))
        \<and> (\<forall>k c. rs_flight s k = Some c \<longrightarrow> run_disjoint (a, b) (page_run (cl_base c) (cl_pages c)))"
    using r x by auto
qed (use flights_apart reachable_inv [OF assms] in blast)

theorem no_page_in_two_hands_witness:
  "reachable 2 sample_claimed \<and> rs_handed sample_claimed = [(0, 18, 21)]
   \<and> run_disjoint (18, 21) (page_run 16 2)"
  using no_page_in_two_hands [OF sample_claimed_reachable] sample_claimed_reachable
  by (simp add: sample_claimed_eval claim_of_def page_run_def)

text \<open>C15. No double free.  When a root claim's run goes back to the frame allocator, the allocator
  has exactly that run out (once: the runs it has out are pairwise disjoint), no live region, no
  other claim in flight and no handed-out run overlaps it, and afterwards the allocator no longer
  has it out.\<close>

theorem no_double_free:
  assumes "reachable N s" and "rs_flight s k = Some c" and "cl_is_root c"
  shows "let run = page_run (cl_base c) (cl_pages c); s' = region_step (RFree k) s in
      run \<in> set (rs_alloc s) \<and> run \<notin> set (rs_alloc s') \<and> sorted_wrt run_disjoint (rs_alloc s)
    \<and> (\<forall>n r. gt_get (rs_table s') n = Some r \<longrightarrow> run_disjoint run (page_run (r_base r) (r_pages r)))
    \<and> (\<forall>k' c'. rs_flight s' k' = Some c' \<longrightarrow> run_disjoint run (page_run (cl_base c') (cl_pages c')))
    \<and> (\<forall>(n, x) \<in> set (rs_handed s'). run_disjoint run x)"
proof -
  note inv = reachable_inv [OF assms(1)]
  obtain rk where tree: "tree_inv (forest s) (tops (rs_table s)) (floors (rs_table s)) rk"
    using region_invD(4) [OF inv] ..
  note ai = region_invD(3) [OF inv, unfolded alloc_inv_def]
  let ?run = "page_run (cl_base c) (cl_pages c)"
  have kF: "forest s (Flight k) = Some (claim_span c)" and root: "par (claim_span c) = NO_PARENT"
    using assms(2,3) table_invD(5) [OF region_invD(1) [OF inv] assms(2)] by simp_all
  have "(lo (claim_span c), hi (claim_span c)) \<in> set (rs_alloc s)" using ai kF root by blast
  then have run: "?run \<in> set (rs_alloc s)" by (simp add: page_run_def)
  have "distinct (rs_alloc s)" using ai by (intro disjoint_runs_distinct) auto
  then have gone: "?run \<notin> set (remove1 ?run (rs_alloc s))" by simp
  have rk0: "rk (Flight k) = 0" using tree_invD(2) [OF tree kF] root by (simp add: placed_def)
  have apart: "run_disjoint ?run (lo a, hi a)" if "forest s h = Some a" "h \<noteq> Flight k" for h a
  proof -
    have "\<not> meet (claim_span c) a" using leaf_meets [OF tree kF that(1)] that(2) rk0 by auto
    then show ?thesis using holder_nonempty [OF inv kF] holder_nonempty [OF inv that(1)]
      by (auto simp: not_meet page_run_def)
  qed
  have "run_disjoint ?run (a, b)" if "(n, a, b) \<in> set (rs_handed s)" for n a b
    using run_clear_leaf [OF tree _ kF, of n a b] region_invD(2) [OF inv] that holder_nonempty [OF inv kF]
    by (auto simp: runs_inv_def list_all_iff page_run_def)
  moreover have "run_disjoint ?run (page_run (r_base r) (r_pages r))" if "gt_get (rs_table s) n = Some r" for n r
    using apart [of "Live n" "region_span r"] that by (simp add: page_run_def)
  ultimately show ?thesis
    using run gone ai assms(2,3) flights_apart [OF inv assms(2)] by (auto simp: Let_def split: if_splits)
qed

theorem no_double_free_witness:
  "reachable 2 sample_root_claimed \<and> (16, 24) \<in> set (rs_alloc sample_root_claimed)
   \<and> (16, 24) \<notin> set (rs_alloc (region_step (RFree 7) sample_root_claimed))"
proof -
  let ?c = "claim_of (fresh_region 16 8 (- 1))"
  have k: "rs_flight sample_root_claimed 7 = Some ?c" by (simp add: sample_root_claimed_eval)
  have "cl_is_root ?c" by (simp add: claim_of_def NO_PARENT_def)
  from no_double_free [OF sample_root_claimed_reachable k this] sample_root_claimed_reachable show ?thesis
    unfolding Let_def by (simp add: claim_of_def page_run_def del: region_step.simps)
qed

text \<open>A claim is exclusive and takes everything under the region.  When a claim succeeds, the name
  is dead at once (a second claim on it fails, and so does every other use), the region was not
  pinned and nothing carved from it is live, in flight or lost; and any other live region or claim
  that overlaps the claimed run contains all of it, so it is an ancestor's, not something inside.\<close>

theorem claim_is_exclusive:
  assumes "reachable N s" and "claim_for_destroy (rs_table s) n = (Some c, t')"
  shows "gt_get t' n = None \<and> fst (claim_for_destroy t' n) = None \<and> fst (retype_run t' n k) = None
    \<and> (\<exists>r. gt_get (rs_table s) n = Some r \<and> \<not> r_pinned r \<and> c = claim_of r) \<and> outstanding s n = {}
    \<and> (\<forall>h a. forest s h = Some a \<and> h \<noteq> Live n \<and> meet (claim_span c) a \<longrightarrow> inside (claim_span c) a)"
proof -
  note inv = reachable_inv [OF assms(1)]
  note tinv = region_invD(1) [OF inv]
  note wf = table_invD(1) [OF tinv]
  obtain rk where tree: "tree_inv (forest s) (tops (rs_table s)) (floors (rs_table s)) rk"
    using region_invD(4) [OF inv] ..
  obtain r where r: "gt_get (rs_table s) n = Some r" "c = claim_of r" "r_children r = 0" "\<not> r_pinned r"
    "t' = snd (gt_remove (rs_table s) n)"
    using claim_for_destroy_Some [OF assms(2)] by metis
  have N: "forest s (Live n) = Some (claim_span c)" using r by simp
  have dead: "gt_get t' n = None" using gt.del_gone [OF wf] r(5) by (metis prod.collapse)
  have "card (outstanding s n) = 0" using table_invD(3) [OF tinv r(1)] r(3) by simp
  then have leaf: "outstanding s n = {}" using children_bounded(1) [OF tree N] by (simp add: outstanding_def)
  have "inside (claim_span c) a" if a: "forest s h = Some a" "h \<noteq> Live n" "meet (claim_span c) a" for h a
  proof -
    have "rk h < rk (Live n)" using leaf_meets [OF tree N a(1)] a leaf by (auto simp: outstanding_def)
    moreover have "meet a (claim_span c)" using a(3) meet_sym by blast
    ultimately obtain m d D where d: "h = Live m" "forest s d = Some D" "par D = m" "inside (claim_span c) D"
      using tree_invD(8) [OF tree a(1) N] by blast
    with child_inside [OF tree d(2,3)] a(1) show ?thesis by (auto simp: inside_def)
  qed
  with dead leaf r show ?thesis
    by (auto simp: claim_for_destroy_def retype_run_def)
qed

theorem claim_is_exclusive_witness:
  "reachable 2 sample_regions
   \<and> (\<exists>c t'. claim_for_destroy (rs_table sample_regions) 1 = (Some c, t') \<and> gt_get t' 1 = None
        \<and> fst (claim_for_destroy t' 1) = None)"
proof -
  have "\<exists>c t'. claim_for_destroy (rs_table sample_regions) 1 = (Some c, t')"
    by (simp add: sample_regions_eval region_eval)
  with claim_is_exclusive [OF sample_regions_reachable] sample_regions_reachable show ?thesis by metis
qed

text \<open>Holes close.  When the returning child is the last thing its parent has out, the parent's
  watermark drops back to the end of its own retypes, whatever order its children were carved and
  freed in, and the parent has no children left.\<close>

theorem last_return_closes_holes:
  assumes "reachable N s" and "rs_flight s k = Some c" and "\<not> cl_is_root c"
    and "outstanding s (cl_parent c) = {Flight k}"
  shows "\<exists>r. gt_get (rs_table (region_step (RReturn k) s)) (cl_parent c) = Some r
    \<and> r_watermark r = r_retyped_to r \<and> r_children r = 0"
proof -
  note inv = reachable_inv [OF assms(1)]
  note tinv = region_invD(1) [OF inv]
  note wf = table_invD(1) [OF tinv]
  obtain rk where tree: "tree_inv (forest s) (tops (rs_table s)) (floors (rs_table s)) rk"
    using region_invD(4) [OF inv] ..
  let ?p = "cl_parent c" and ?t = "rs_table s"
  have kF: "forest s (Flight k) = Some (claim_span c)" using assms(2) by simp
  have pN: "?p \<noteq> NO_PARENT" using table_invD(5) [OF tinv assms(2)] assms(3) by simp
  obtain P where p: "gt_get ?t ?p = Some P" using child_placed [OF tree kF _ pN] by auto
  obtain live live_to where sc: "live_children ?t ?p (r_base P) = (live, live_to)"
    by (cases "live_children ?t ?p (r_base P)")
  have none: "\<not> (gt_get ?t n = Some r \<and> r_parent r = ?p)" for n r
  proof
    assume "gt_get ?t n = Some r \<and> r_parent r = ?p"
    then have "Live n \<in> outstanding s ?p" by (simp add: outstanding_def)
    with assms(4) show False by simp
  qed
  then have "children_names ?t ?p = {}" by (auto simp: children_names_def)
  with none have "live = 0" "live_to = 0" using live_children_scan(1,3) [OF wf sc] by auto
  moreover have "unat (r_children P) = 1" using table_invD(3) [OF tinv p] assms(4) by simp
  then have cs: "saturating_sub (r_children P) 1 = 0"
    using unat_saturating_sub [of "r_children P" 1] by (simp add: unat_eq_0)
  moreover have "returned_top s ?p (claim_span c) (unat (r_base P)) True = floors ?t ?p"
    using returned_top_bounds(1) [OF tree kF _ pN, where q = False] tree_invD(4) [OF tree, of ?p "region_span P"] p
    by (auto simp: returned_top_def Let_def min_def max_def split: if_splits)
  ultimately have "unat (r_watermark (take_back c live live_to P)) = unat (r_retyped_to P)"
    using take_back_top [OF tinv tree assms(2) p, of live live_to] p by simp
  then have "r_watermark (take_back c live live_to P) = r_retyped_to (take_back c live live_to P)"
    by (simp add: take_back_simps(4) word_unat_eq_iff)
  with cs show ?thesis
    using assms(2,3) p sc
    by (simp add: return_to_parent_def gt.upd_lookup [OF wf] take_back_simps(5))
qed

theorem last_return_closes_holes_witness:
  "reachable 2 sample_claimed \<and>
   (\<exists>r. gt_get (rs_table (region_step (RReturn 7) sample_claimed)) 0 = Some r
     \<and> r_watermark r = r_retyped_to r \<and> r_children r = 0)"
proof -
  let ?c = "claim_of (fresh_region 16 2 0)"
  have k: "rs_flight sample_claimed 7 = Some ?c" by (simp add: sample_claimed_eval)
  have child: "\<not> cl_is_root ?c" and up: "cl_parent ?c = 0" by (simp_all add: claim_of_def NO_PARENT_def)
  have "r_parent r \<noteq> 0" if "gt_get (rs_table sample_claimed) n = Some r" for n r
    using gt_get_Some_iff [OF table_invD(1) [OF region_invD(1) [OF reachable_inv [OF sample_claimed_reachable]]]] that
    by (auto simp: sample_claimed_eval sample_regions_eval less_Suc_eq nth_Cons split: nat.splits)
  note live = this
  have "h \<in> outstanding sample_claimed (cl_parent ?c) \<longleftrightarrow> h = Flight 7" for h
    using up live by (cases h) (auto simp: outstanding_def sample_claimed_eval)
  then have "outstanding sample_claimed (cl_parent ?c) = {Flight 7}" by blast
  from last_return_closes_holes [OF sample_claimed_reachable k child this] sample_claimed_reachable up
  show ?thesis by simp
qed

lemma lost_step:
  "rs_lost (region_step x s) = rs_lost s
   \<or> (\<exists>r b n p. gt_get (rs_table s) p = Some r \<and> rs_lost (region_step x s) = rs_lost s @ [claim_of (fresh_region b n p)])"
  by (cases x) (auto split: prod.splits option.splits)

lemma lost_has_parent: "reachable N s \<Longrightarrow> c \<in> set (rs_lost s) \<Longrightarrow> cl_parent c \<noteq> NO_PARENT"
proof (induction rule: reachable.induct)
  case start
  then show ?case by (simp add: rs_start_def)
next
  case (step s x)
  obtain rk where tree: "tree_inv (forest s) (tops (rs_table s)) (floors (rs_table s)) rk"
    using region_invD(4) [OF reachable_inv [OF step(1)]] ..
  have "p \<noteq> NO_PARENT" if "gt_get (rs_table s) p = Some r" for p r
    using tree_invD(3) [OF tree, of p "region_span r"] that by simp
  with step lost_step [of x s] show ?case by (auto simp: claim_of_def simp del: region_step.simps)
qed

text \<open>C33. A split refused for a full table pins its parent for good.  In every reachable state, for
  every carve that was lost that way, the parent is still live, still counts a child, and refuses to
  be claimed: nothing can bring the count back down.\<close>

theorem lost_carve_pins_parent:
  assumes "reachable N s" and "c \<in> set (rs_lost s)"
  shows "gt_get (rs_table s) (cl_parent c) \<noteq> None \<and> has_children (rs_table s) (cl_parent c)
    \<and> claim_for_destroy (rs_table s) (cl_parent c) = (None, rs_table s)"
proof -
  note inv = reachable_inv [OF assms(1)]
  note tinv = region_invD(1) [OF inv]
  obtain rk where tree: "tree_inv (forest s) (tops (rs_table s)) (floors (rs_table s)) rk"
    using region_invD(4) [OF inv] ..
  obtain i where i: "i < length (rs_lost s)" "rs_lost s ! i = c" using assms(2) by (auto simp: in_set_conv_nth)
  then have F: "forest s (Lost i) = Some (claim_span c)" by simp
  have pN: "cl_parent c \<noteq> NO_PARENT" by (rule lost_has_parent [OF assms])
  obtain P where p: "gt_get (rs_table s) (cl_parent c) = Some P" using child_placed [OF tree F _ pN] by auto
  have "Lost i \<in> outstanding s (cl_parent c)" using F by (simp add: outstanding_def)
  moreover have "finite (outstanding s (cl_parent c))"
    using children_bounded(1) [OF tree, of "cl_parent c" "region_span P"] p by (simp add: outstanding_def)
  ultimately have "card (outstanding s (cl_parent c)) \<noteq> 0" by auto
  then have "r_children P > 0" using table_invD(3) [OF tinv p] by (auto simp: word_gt_0)
  with p show ?thesis by (simp add: has_children_def claim_for_destroy_def destroy_outcome_def)
qed

theorem lost_carve_pins_parent_witness:
  "reachable 2 (region_step (RSplit 0 1) sample_regions)
   \<and> rs_lost (region_step (RSplit 0 1) sample_regions) = [claim_of (fresh_region 21 1 0)]
   \<and> claim_for_destroy (rs_table (region_step (RSplit 0 1) sample_regions)) 0
       = (None, rs_table (region_step (RSplit 0 1) sample_regions))"
proof -
  define s where "s = region_step (RSplit 0 1) sample_regions"
  have r: "reachable 2 s" unfolding s_def by (rule reachable.step [OF sample_regions_reachable]) simp
  have l: "rs_lost s = [claim_of (fresh_region 21 1 0)]"
    by (simp add: s_def sample_regions_eval region_eval)
  have "claim_for_destroy (rs_table s) (cl_parent (claim_of (fresh_region 21 1 0))) = (None, rs_table s)"
    using lost_carve_pins_parent [OF r] l by simp
  then show ?thesis unfolding s_def [symmetric] using r l by (simp add: claim_of_def)
qed

text \<open>Ancestry: the parent links of the live regions.\<close>

definition parent_links :: "RegionTable \<Rightarrow> (u64 \<times> u64) set" where
  "parent_links t = {(n, p). \<exists>r. gt_get t n = Some r \<and> r_parent r = p \<and> p \<noteq> NO_PARENT}"

lemma parent_live:
  assumes "tree_inv (forest s) tp fl rk" and "gt_get (rs_table s) n = Some r" and "r_parent r \<noteq> NO_PARENT"
  obtains q where "gt_get (rs_table s) (r_parent r) = Some q" and "rk (Live n) = Suc (rk (Live (r_parent r)))"
proof -
  have "forest s (Live n) = Some (region_span r)" using assms(2) by simp
  then show ?thesis using child_placed [OF assms(1) _ _ assms(3), of "Live n" "region_span r"] that by auto
qed

lemma live_chain:
  assumes tree: "tree_inv (forest s) tp fl rk" and "gt_get (rs_table s) n = Some r" and "j \<le> rk (Live n)"
  shows "\<exists>m q. gt_get (rs_table s) m = Some q \<and> rk (Live m) = j"
  using assms(2,3)
proof (induction "rk (Live n)" arbitrary: n r)
  case 0
  then show ?case by auto
next
  case (Suc d)
  have N: "forest s (Live n) = Some (region_span r)" using Suc.prems by simp
  have "r_parent r \<noteq> NO_PARENT" using tree_invD(2) [OF tree N] Suc.hyps(2) by (auto simp: placed_def)
  then obtain q where q: "gt_get (rs_table s) (r_parent r) = Some q" "rk (Live n) = Suc (rk (Live (r_parent r)))"
    using parent_live [OF tree Suc.prems(1)] by blast
  show ?case
  proof (cases "j = rk (Live n)")
    case True
    then show ?thesis using Suc.prems(1) by blast
  next
    case False
    then show ?thesis using Suc.hyps(1) [of "r_parent r" q] Suc.hyps(2) q Suc.prems(2) by simp
  qed
qed

lemma depth_bound:
  assumes wf: "gt_wf (rs_table s)" and tree: "tree_inv (forest s) tp fl rk" and n: "gt_get (rs_table s) n = Some r"
  shows "rk (Live n) < length (gt_slots (rs_table s))"
proof -
  let ?t = "rs_table s"
  let ?L = "(\<lambda>i. rk (Live (mk_name i (gt_gens ?t ! i)))) ` {..<length (gt_slots ?t)}"
  have "{..rk (Live n)} \<subseteq> ?L"
  proof
    fix j assume "j \<in> {..rk (Live n)}"
    then obtain m q where m: "gt_get ?t m = Some q" "rk (Live m) = j" using live_chain [OF tree n, of j] by auto
    then obtain i where "i < length (gt_slots ?t)" "m = mk_name i (gt_gens ?t ! i)"
      using gt_get_Some_iff [OF wf, of m q] by auto
    with m show "j \<in> ?L" by auto
  qed
  then have "card {..rk (Live n)} \<le> card ?L" by (rule card_mono [rotated]) simp
  also have "\<dots> \<le> length (gt_slots ?t)" using card_image_le [of "{..<length (gt_slots ?t)}"] by simp
  finally show ?thesis by simp
qed

lemma climbs_to_ancestry:
  assumes tree: "tree_inv (forest s) tp fl rk" and "k > 0"
    and "at = NO_PARENT \<or> (\<exists>r. gt_get (rs_table s) at = Some r \<and> rk (Live at) < k)"
  shows "climbs_to k (rs_table s) at a \<longleftrightarrow> at \<noteq> NO_PARENT \<and> (at, a) \<in> (parent_links (rs_table s))\<^sup>*"
  using assms(2,3)
proof (induction k arbitrary: at)
  case (Suc k)
  let ?t = "rs_table s"
  show ?case
  proof (cases "at = NO_PARENT \<or> at = a")
    case False
    then obtain r where r: "gt_get ?t at = Some r" "rk (Live at) < Suc k" using Suc.prems by auto
    let ?p = "r_parent r"
    have link: "(at, y) \<in> parent_links ?t \<longleftrightarrow> y = ?p \<and> ?p \<noteq> NO_PARENT" for y using r by (auto simp: parent_links_def)
    have star: "(at, a) \<in> (parent_links ?t)\<^sup>* \<longleftrightarrow> ?p \<noteq> NO_PARENT \<and> (?p, a) \<in> (parent_links ?t)\<^sup>*"
      using False link converse_rtrancl_into_rtrancl [of at ?p "parent_links ?t" a]
      by (auto elim: converse_rtranclE)
    have up: "\<exists>q. gt_get ?t ?p = Some q \<and> rk (Live ?p) < k \<and> 0 < k" if "?p \<noteq> NO_PARENT"
      by (rule parent_live [OF tree r(1) that]) (use r(2) in auto)
    show ?thesis
    proof (cases "?p = NO_PARENT")
      case True
      then show ?thesis using False r star by (cases k) (simp_all add: parent_or_none_def)
    next
      case parent: False
      then show ?thesis using False r star up Suc.IH [of ?p] by (simp add: parent_or_none_def)
    qed
  qed auto
qed simp

text \<open>The bounded climb of \<open>descends_from\<close> decides ancestry: in every reachable state a live region
  descends from a name exactly when following parent links from it, one or more times, reaches that
  name.  The table's capacity is enough steps because the links never form a cycle.\<close>

theorem descends_from_is_ancestry:
  assumes "reachable N s" and "gt_get (rs_table s) n = Some r"
  shows "descends_from (rs_table s) n a \<longleftrightarrow> (n, a) \<in> (parent_links (rs_table s))\<^sup>+"
proof -
  note inv = reachable_inv [OF assms(1)]
  note wf = table_invD(1) [OF region_invD(1) [OF inv]]
  obtain rk where tree: "tree_inv (forest s) (tops (rs_table s)) (floors (rs_table s)) rk"
    using region_invD(4) [OF inv] ..
  let ?t = "rs_table s" and ?p = "r_parent r"
  have up: "?p = NO_PARENT \<or> (\<exists>q. gt_get ?t ?p = Some q \<and> rk (Live ?p) < length (gt_slots ?t))"
    using parent_live [OF tree assms(2)] depth_bound [OF wf tree] by metis
  have "descends_from ?t n a \<longleftrightarrow> ?p \<noteq> NO_PARENT \<and> (?p, a) \<in> (parent_links ?t)\<^sup>*"
    using climbs_to_ancestry [OF tree _ up, of a] gt_wfD(2) [OF wf] assms(2)
    by (simp add: descends_from_def parent_or_none_def)
  also have "\<dots> \<longleftrightarrow> (n, a) \<in> (parent_links ?t)\<^sup>+"
  proof -
    have "(n, y) \<in> parent_links ?t \<longleftrightarrow> y = ?p \<and> ?p \<noteq> NO_PARENT" for y using assms(2) by (auto simp: parent_links_def)
    then show ?thesis by (metis rtrancl_into_trancl2 tranclD)
  qed
  finally show ?thesis .
qed

theorem descends_from_is_ancestry_witness:
  "reachable 2 sample_regions \<and> (descends_from (rs_table sample_regions) 1 0
     \<longleftrightarrow> (1, 0) \<in> (parent_links (rs_table sample_regions))\<^sup>+)"
proof -
  have "gt_get (rs_table sample_regions) 1 = Some (fresh_region 16 2 0)"
    by (simp add: sample_regions_eval gt_get_def slot_of_def unpack_def)
  from descends_from_is_ancestry [OF sample_regions_reachable this, of 0] sample_regions_reachable
  show ?thesis by simp
qed

end
