(* ===== verification/Id_Allocator.thy ===== *)
theory Id_Allocator
  imports Prelude
begin

text \<open>
  The interface of an allocator of names.  Two allocators of the kernel have it: the page frame
  allocator, whose names are physical frame addresses and which can give a run of them at once, and
  the address space identifier allocator.  The laws are the ones a client relies on: what is given
  was free and is of the allocator's own range, and what is given back becomes free again, each
  without disturbing the rest.

  The client lemma is about any sequence of requests by holders that give back only what they hold:
  nobody ever holds a name somebody else holds, giving back never panics, and the allocator's
  bookkeeping is exactly what was reserved at the start plus what is held now.
\<close>

datatype ('r, 'i) request = Take 'r | Give 'i

fun run_requests ::
  "('r \<Rightarrow> 's \<Rightarrow> ('i list \<times> 's) option) \<Rightarrow> ('s \<Rightarrow> 'i \<Rightarrow> 's option) \<Rightarrow>
   ('r, 'i) request list \<Rightarrow> 's \<Rightarrow> 'i list \<Rightarrow> ('s \<times> 'i list) option" where
  "run_requests grant reclaim [] s held = Some (s, held)"
| "run_requests grant reclaim (Take r # ops) s held =
     (case grant r s of
        None \<Rightarrow> run_requests grant reclaim ops s held
      | Some (ids, s') \<Rightarrow> run_requests grant reclaim ops s' (ids @ held))"
| "run_requests grant reclaim (Give i # ops) s held =
     (if i \<in> set held
      then (case reclaim s i of
              None \<Rightarrow> None
            | Some s' \<Rightarrow> run_requests grant reclaim ops s' (remove1 i held))
      else run_requests grant reclaim ops s held)"

locale id_allocator =
  fixes ok :: "'s \<Rightarrow> bool"
    and live :: "'s \<Rightarrow> 'i set"
    and usable :: "'s \<Rightarrow> 'i set"
    and grant :: "'r \<Rightarrow> 's \<Rightarrow> ('i list \<times> 's) option"
    and reclaim :: "'s \<Rightarrow> 'i \<Rightarrow> 's option"
  assumes grant_fresh: "ok s \<Longrightarrow> grant r s = Some (ids, s') \<Longrightarrow>
      distinct ids \<and> set ids \<subseteq> usable s - live s"
    and grant_marks: "ok s \<Longrightarrow> grant r s = Some (ids, s') \<Longrightarrow>
      ok s' \<and> usable s' = usable s \<and> live s' = live s \<union> set ids"
    and reclaim_frees: "ok s \<Longrightarrow> i \<in> usable s \<Longrightarrow> i \<in> live s \<Longrightarrow>
      \<exists>s'. reclaim s i = Some s' \<and> ok s' \<and> usable s' = usable s \<and> live s' = live s - {i}"
begin

lemma serve_from:
  "ok s \<Longrightarrow> distinct held \<Longrightarrow> set held \<subseteq> usable s \<inter> live s \<Longrightarrow>
   \<exists>s' held'. run_requests grant reclaim ops s held = Some (s', held') \<and> ok s' \<and> usable s' = usable s \<and>
     distinct held' \<and> set held' \<subseteq> usable s \<and> live s' = (live s - set held) \<union> set held' \<and>
     set held' \<inter> (live s - set held) = {}"
proof (induction ops arbitrary: s held)
  case Nil
  then show ?case by auto
next
  case (Cons q ops)
  show ?case
  proof (cases q)
    case (Take r)
    show ?thesis
    proof (cases "grant r s")
      case None
      then show ?thesis using Cons Take by simp
    next
      case (Some p)
      obtain ids s1 where p: "p = (ids, s1)" by (cases p)
      note t = grant_fresh [OF Cons.prems(1), of r ids s1] grant_marks [OF Cons.prems(1), of r ids s1]
      have "distinct (ids @ held)" "set (ids @ held) \<subseteq> usable s1 \<inter> live s1" "ok s1"
        using t Some p Cons.prems(2,3) by auto
      from Cons.IH [OF this(3,1,2)] obtain s' held' where
        r: "run_requests grant reclaim ops s1 (ids @ held) = Some (s', held')" "ok s'" "usable s' = usable s1"
          "distinct held'" "set held' \<subseteq> usable s1"
          "live s' = (live s1 - set (ids @ held)) \<union> set held'"
          "set held' \<inter> (live s1 - set (ids @ held)) = {}"
        by blast
      moreover have "live s1 - set (ids @ held) = live s - set held"
        using t Some p by auto
      ultimately show ?thesis using t Some p Take by simp
    qed
  next
    case (Give i)
    show ?thesis
    proof (cases "i \<in> set held")
      case False
      then show ?thesis using Cons Give by simp
    next
      case True
      then have "i \<in> usable s" "i \<in> live s" using Cons.prems(3) by auto
      from reclaim_frees [OF Cons.prems(1) this] obtain s1 where
        s1: "reclaim s i = Some s1" "ok s1" "usable s1 = usable s" "live s1 = live s - {i}"
        by blast
      have "distinct (remove1 i held)" "set (remove1 i held) \<subseteq> usable s1 \<inter> live s1"
        using s1 Cons.prems(2,3) by auto
      from Cons.IH [OF s1(2) this] obtain s' held' where
        r: "run_requests grant reclaim ops s1 (remove1 i held) = Some (s', held')" "ok s'"
          "usable s' = usable s1" "distinct held'" "set held' \<subseteq> usable s1"
          "live s' = (live s1 - set (remove1 i held)) \<union> set held'"
          "set held' \<inter> (live s1 - set (remove1 i held)) = {}"
        by blast
      moreover have "live s1 - set (remove1 i held) = live s - set held"
        using s1 True Cons.prems(2) by auto
      ultimately show ?thesis using s1 True Give by simp
    qed
  qed
qed

lemma never_shared:
  assumes "ok s"
  shows "\<exists>s' held. run_requests grant reclaim ops s [] = Some (s', held) \<and> ok s' \<and>
     distinct held \<and> set held \<subseteq> usable s - live s \<and> live s' = live s \<union> set held"
  using serve_from [OF assms, of "[]" ops] by auto

end

end
