(* ===== verification/Page_Frames.thy ===== *)
theory Page_Frames
  imports Id_Allocator
begin

text \<open>
  The page frame allocator, \<open>src/crates/page_frames/src/lib.rs\<close>: one bit per physical
  frame, a count of the used ones and a hint where the next scan starts.

  A \<open>PageFrame\<close> is the address of its first byte.  An \<open>assert!\<close> or
  \<open>expect\<close> that fails is \<open>None\<close>.  \<open>usize\<close> is \<open>nat\<close> (the supported
  targets are 64-bit, so the casts from \<open>u64\<close> lose nothing); addresses stay 64-bit words
  that wrap.  The private \<open>get\<close> and \<open>set\<close> index the bitmap, which panics out of
  range; \<open>new\<close> asserts that the bitmap has a bit for every frame and every caller stays
  below the frame count, so the invariant \<open>pf_inv\<close> excludes it.
\<close>

section \<open>Frames and the allocator\<close>

definition FRAME_SIZE :: u64 where
  "FRAME_SIZE = 4096"

type_synonym PageFrame = u64

definition from_addr :: "u64 \<Rightarrow> PageFrame option" where
  "from_addr addr = (if addr mod FRAME_SIZE = 0 then Some addr else None)"

definition containing :: "u64 \<Rightarrow> PageFrame" where
  "containing addr = addr - addr mod FRAME_SIZE"

record Stats =
  st_total :: nat
  st_used :: nat

definition st_free :: "Stats \<Rightarrow> nat" where
  "st_free s = st_total s - st_used s"

record PageFrameAllocator =
  pf_bitmap :: "u8 list"
  pf_base :: u64
  pf_total :: nat
  pf_used :: nat
  pf_hint :: nat

definition bitmap_bytes :: "nat \<Rightarrow> nat" where
  "bitmap_bytes frames = (if frames mod 8 = 0 then frames div 8 else frames div 8 + 1)"

definition page_frames_in :: "u64 \<Rightarrow> nat" where
  "page_frames_in span = unat (span div FRAME_SIZE)"

definition new_frames :: "u64 \<Rightarrow> nat \<Rightarrow> u8 list \<Rightarrow> PageFrameAllocator option" where
  "new_frames base frames bitmap =
     (if base mod FRAME_SIZE \<noteq> 0 then None
      else if length bitmap < bitmap_bytes frames then None
      else Some \<lparr>pf_bitmap = replicate (length bitmap) 0xff, pf_base = base, pf_total = frames,
                 pf_used = frames, pf_hint = 0\<rparr>)"

definition stats :: "PageFrameAllocator \<Rightarrow> Stats" where
  "stats a = \<lparr>st_total = pf_total a, st_used = pf_used a\<rparr>"

definition bm_get :: "u8 list \<Rightarrow> nat \<Rightarrow> bool" where
  "bm_get bm i \<longleftrightarrow> bm ! (i div 8) AND bit_mask (i mod 8) \<noteq> 0"

definition bm_set :: "u8 list \<Rightarrow> nat \<Rightarrow> bool \<Rightarrow> u8 list" where
  "bm_set bm i used =
     (let byte = bm ! (i div 8); mask = bit_mask (i mod 8) in
      bm[i div 8 := (if used then byte OR mask else byte AND NOT mask)])"

definition div_ceil :: "u64 \<Rightarrow> u64 \<Rightarrow> u64" where
  "div_ceil x y = (if x mod y \<noteq> 0 then x div y + 1 else x div y)"

definition page_frame_range :: "PageFrameAllocator \<Rightarrow> u64 \<Rightarrow> u64 \<Rightarrow> nat list" where
  "page_frame_range a start len =
     (if len = 0 \<or> saturating_add start len \<le> pf_base a then []
      else
        let first = max start (pf_base a) - pf_base a;
            last = saturating_sub (saturating_add start len) (pf_base a);
            lo = unat (first div FRAME_SIZE);
            hi = min (unat (div_ceil last FRAME_SIZE)) (pf_total a)
        in if hi \<le> lo then [] else [lo..<hi])"

definition free_one :: "nat \<Rightarrow> PageFrameAllocator \<Rightarrow> PageFrameAllocator" where
  "free_one i a =
     (if bm_get (pf_bitmap a) i
      then a\<lparr>pf_bitmap := bm_set (pf_bitmap a) i False, pf_used := pf_used a - 1\<rparr>
      else a)"

definition mark_free :: "PageFrameAllocator \<Rightarrow> u64 \<Rightarrow> u64 \<Rightarrow> PageFrameAllocator" where
  "mark_free a start len =
     (fold free_one (page_frame_range a start len) a)\<lparr>pf_hint := 0\<rparr>"

definition use_one :: "nat \<Rightarrow> PageFrameAllocator \<Rightarrow> PageFrameAllocator" where
  "use_one i a =
     (if \<not> bm_get (pf_bitmap a) i
      then a\<lparr>pf_bitmap := bm_set (pf_bitmap a) i True, pf_used := pf_used a + 1\<rparr>
      else a)"

definition mark_used :: "PageFrameAllocator \<Rightarrow> u64 \<Rightarrow> u64 \<Rightarrow> PageFrameAllocator" where
  "mark_used a start len = fold use_one (page_frame_range a start len) a"

definition pf_alloc :: "PageFrameAllocator \<Rightarrow> (PageFrame \<times> PageFrameAllocator) option" where
  "pf_alloc a =
     (case find (\<lambda>i. \<not> bm_get (pf_bitmap a) i) ([pf_hint a..<pf_total a] @ [0..<pf_hint a]) of
        None \<Rightarrow> None
      | Some i \<Rightarrow>
          Some (pf_base a + of_nat i * FRAME_SIZE,
                a\<lparr>pf_bitmap := bm_set (pf_bitmap a) i True, pf_used := pf_used a + 1,
                  pf_hint := i + 1\<rparr>))"

fun scan_run :: "u8 list \<Rightarrow> nat \<Rightarrow> nat list \<Rightarrow> nat \<Rightarrow> nat \<Rightarrow> nat option" where
  "scan_run bm count [] run_start run = None"
| "scan_run bm count (i # is) run_start run =
     (if bm_get bm i then scan_run bm count is (i + 1) 0
      else if run + 1 = count then Some run_start
      else scan_run bm count is run_start (run + 1))"

definition alloc_contiguous ::
  "PageFrameAllocator \<Rightarrow> nat \<Rightarrow> (PageFrame \<times> PageFrameAllocator) option" where
  "alloc_contiguous a count =
     (if count = 0 \<or> pf_total a < count then None
      else case scan_run (pf_bitmap a) count [0..<pf_total a] 0 0 of
             None \<Rightarrow> None
           | Some run_start \<Rightarrow>
               Some (pf_base a + of_nat run_start * FRAME_SIZE,
                     a\<lparr>pf_bitmap := fold (\<lambda>j bm. bm_set bm j True) [run_start..<run_start + count]
                                    (pf_bitmap a),
                       pf_used := pf_used a + count\<rparr>))"

fun longest_run :: "u8 list \<Rightarrow> nat list \<Rightarrow> nat \<Rightarrow> nat \<Rightarrow> nat" where
  "longest_run bm [] best run = best"
| "longest_run bm (i # is) best run =
     (if bm_get bm i then longest_run bm is best 0
      else longest_run bm is (if best < run + 1 then run + 1 else best) (run + 1))"

definition largest_free_run :: "PageFrameAllocator \<Rightarrow> nat" where
  "largest_free_run a = longest_run (pf_bitmap a) [0..<pf_total a] 0 0"

definition index_of :: "PageFrameAllocator \<Rightarrow> PageFrame \<Rightarrow> nat option" where
  "index_of a frame =
     (if frame < pf_base a then None
      else let i = unat ((frame - pf_base a) div FRAME_SIZE) in
           if i < pf_total a then Some i else None)"

definition pf_free :: "PageFrameAllocator \<Rightarrow> PageFrame \<Rightarrow> PageFrameAllocator option" where
  "pf_free a frame =
     (case index_of a frame of
        None \<Rightarrow> None
      | Some i \<Rightarrow>
          if \<not> bm_get (pf_bitmap a) i then None
          else Some (a\<lparr>pf_bitmap := bm_set (pf_bitmap a) i False, pf_used := pf_used a - 1,
                       pf_hint := min (pf_hint a) i\<rparr>))"

definition is_used :: "PageFrameAllocator \<Rightarrow> PageFrame \<Rightarrow> bool option" where
  "is_used a frame = map_option (bm_get (pf_bitmap a)) (index_of a frame)"


section \<open>The bitmap as a set of used frames\<close>

definition free_at :: "PageFrameAllocator \<Rightarrow> nat \<Rightarrow> bool" where
  "free_at a i \<longleftrightarrow> i < pf_total a \<and> \<not> bm_get (pf_bitmap a) i"

definition used_set :: "PageFrameAllocator \<Rightarrow> nat set" where
  "used_set a = {i. i < pf_total a \<and> bm_get (pf_bitmap a) i}"

definition pf_inv :: "PageFrameAllocator \<Rightarrow> bool" where
  "pf_inv a \<longleftrightarrow> pf_total a \<le> 8 * length (pf_bitmap a) \<and> pf_used a = card (used_set a) \<and>
     pf_hint a \<le> pf_total a \<and> unat (pf_base a) mod 4096 = 0 \<and>
     unat (pf_base a) + pf_total a * 4096 \<le> 2 ^ 64"

definition frame_addr :: "PageFrameAllocator \<Rightarrow> nat \<Rightarrow> PageFrame" where
  "frame_addr a i = pf_base a + of_nat i * FRAME_SIZE"

lemma bm_get_bit: "bm_get bm i \<longleftrightarrow> bit (bm ! (i div 8)) (i mod 8)"
proof -
  have "i mod 8 < 8" by simp
  then show ?thesis
    by (auto simp: bm_get_def word_eq_0_iff_bits bit_simps bit_bit_mask)
qed

lemma length_bm_set [simp]: "length (bm_set bm i u) = length bm"
  by (simp add: bm_set_def Let_def)

lemma bm_get_set:
  assumes "i < 8 * length bm"
  shows "bm_get (bm_set bm i u) j \<longleftrightarrow> (if j = i then u else bm_get bm j)"
proof (cases "j div 8 = i div 8")
  case True
  have "i div 8 < length bm" using assms by simp
  moreover have "j mod 8 = i mod 8 \<longleftrightarrow> j = i"
    using True by (metis div_mult_mod_eq)
  ultimately show ?thesis
    using True by (auto simp: bm_get_bit bm_set_def Let_def bit_facts)
next
  case False
  then show ?thesis by (auto simp: bm_get_bit bm_set_def Let_def)
qed

lemma fold_bm_set_length [simp]: "length (fold (\<lambda>j b. bm_set b j u) js bm) = length bm"
  by (induction js arbitrary: bm) simp_all

lemma bm_get_fold_set:
  "\<forall>j \<in> set js. j < 8 * length bm \<Longrightarrow>
   bm_get (fold (\<lambda>j b. bm_set b j u) js bm) i \<longleftrightarrow> (if i \<in> set js then u else bm_get bm i)"
  by (induction js arbitrary: bm) (auto simp: bm_get_set)

lemma finite_used_set [simp]: "finite (used_set a)"
  by (simp add: used_set_def)

lemma used_set_le: "card (used_set a) \<le> pf_total a"
proof -
  have "used_set a \<subseteq> {..<pf_total a}" by (auto simp: used_set_def)
  from card_mono [OF _ this] show ?thesis by simp
qed

lemma used_set_full_iff: "(\<exists>i. free_at a i) \<longleftrightarrow> card (used_set a) < pf_total a"
proof -
  have sub: "used_set a \<subseteq> {..<pf_total a}" by (auto simp: used_set_def)
  have "(\<exists>i. free_at a i) \<longleftrightarrow> used_set a \<noteq> {..<pf_total a}"
    by (auto simp: free_at_def used_set_def)
  also have "\<dots> \<longleftrightarrow> card (used_set a) \<noteq> pf_total a"
    by (metis card_lessThan card_subset_eq finite_lessThan sub)
  also have "\<dots> \<longleftrightarrow> card (used_set a) < pf_total a"
    using used_set_le [of a] by auto
  finally show ?thesis .
qed


section \<open>Frame addresses\<close>

lemma unat_frame_addr:
  assumes "pf_inv a" "i < pf_total a"
  shows "unat (frame_addr a i) = unat (pf_base a) + i * 4096"
proof -
  have le: "unat (pf_base a) + i * 4096 < 2 ^ 64"
    using assms by (simp add: pf_inv_def)
  have "unat (of_nat i * 4096 :: u64) = i * 4096"
  proof -
    have "of_nat i * (4096 :: u64) = of_nat (i * 4096)" by simp
    then show ?thesis using le by (simp only: unat_of_nat) simp
  qed
  then show ?thesis
    using le by (simp add: frame_addr_def FRAME_SIZE_def unat_add_no_wrap)
qed

lemma index_of_frame_addr:
  assumes "pf_inv a" "i < pf_total a"
  shows "index_of a (frame_addr a i) = Some i"
proof -
  note u = unat_frame_addr [OF assms]
  have "pf_base a \<le> frame_addr a i" using u by (simp add: word_le_nat_alt)
  then have "unat ((frame_addr a i - pf_base a) div FRAME_SIZE) = i"
    using u by (simp add: unat_div unat_sub FRAME_SIZE_def)
  then show ?thesis
    using assms \<open>pf_base a \<le> frame_addr a i\<close> by (simp add: index_of_def Let_def not_less)
qed

lemma index_of_Some:
  assumes "pf_inv a" "index_of a f = Some i"
  shows "i < pf_total a"
    and "unat (frame_addr a i) \<le> unat f" and "unat f < unat (frame_addr a i) + 4096"
proof -
  have b: "pf_base a \<le> f" and i: "i = unat ((f - pf_base a) div FRAME_SIZE)" "i < pf_total a"
    using assms(2) by (auto simp: index_of_def Let_def split: if_splits)
  have q: "i = (unat f - unat (pf_base a)) div 4096"
    using i(1) b by (simp add: unat_div unat_sub FRAME_SIZE_def)
  have le: "unat (pf_base a) \<le> unat f" using b by (simp add: word_le_nat_alt)
  have "i * 4096 \<le> unat f - unat (pf_base a)" "unat f - unat (pf_base a) < i * 4096 + 4096"
    unfolding q by linarith+
  then show "i < pf_total a" "unat (frame_addr a i) \<le> unat f"
    "unat f < unat (frame_addr a i) + 4096"
    using le i(2) unat_frame_addr [OF assms(1) i(2)] by linarith+
qed

lemma inj_frame_addr:
  assumes "pf_inv a" "i < pf_total a" "j < pf_total a" "frame_addr a i = frame_addr a j"
  shows "i = j"
proof -
  have "i * 4096 = j * 4096"
    using unat_frame_addr [OF assms(1,2)] unat_frame_addr [OF assms(1,3)] 
    unfolding assms(4) by linarith
  then show ?thesis by simp
qed

lemma unat_containing: "unat (containing x) = unat x - unat x mod 4096"
  by (simp add: containing_def FRAME_SIZE_def unat_sub word_le_nat_alt unat_mod)


section \<open>Ranges of frames\<close>

definition touches :: "PageFrameAllocator \<Rightarrow> u64 \<Rightarrow> u64 \<Rightarrow> nat \<Rightarrow> bool" where
  "touches a start len i \<longleftrightarrow>
     0 < len \<and> unat start < unat (pf_base a) + i * 4096 + 4096 \<and>
     unat (pf_base a) + i * 4096 < unat start + unat len"

lemma less_unat_div_ceil:
  "i < unat (div_ceil x FRAME_SIZE) \<longleftrightarrow> i * 4096 < unat x"
proof -
  have q: "unat (x div 4096) = unat x div 4096" "unat (x mod 4096) = unat x mod 4096"
    by (simp_all add: unat_div unat_mod)
  have z: "x mod 4096 = 0 \<longleftrightarrow> unat x mod 4096 = 0"
    using q(2) by (metis unat_0 unat_eq_zero)
  have "unat x div 4096 + 1 < 2 ^ 64"
    using unat_less_len [of x] by simp
  then have p: "unat (x div 4096 + 1) = unat x div 4096 + 1"
    using q(1) by (subst unat_add_no_wrap) simp_all
  show ?thesis
  proof (cases "unat x mod 4096 = 0")
    case True
    then have "unat (div_ceil x FRAME_SIZE) = unat x div 4096"
      using z q(1) by (simp add: div_ceil_def FRAME_SIZE_def)
    moreover obtain k where "unat x = 4096 * k" using True by (auto simp: mod_eq_0_iff_dvd)
    ultimately show ?thesis by simp
  next
    case False
    then have "unat (div_ceil x FRAME_SIZE) = unat x div 4096 + 1"
      using z p by (simp add: div_ceil_def FRAME_SIZE_def)
    then have "i < unat (div_ceil x FRAME_SIZE) \<longleftrightarrow> i * 4096 \<le> unat x"
      by (simp add: less_Suc_eq_le less_eq_div_iff_mult_less_eq)
    moreover have "i * 4096 \<noteq> unat x" using False by (metis mod_mult_self2_is_0)
    ultimately show ?thesis by auto
  qed
qed

lemma page_frame_range_eq:
  assumes "\<not> (len = 0 \<or> saturating_add start len \<le> pf_base a)"
  shows "set (page_frame_range a start len) =
    {unat ((max start (pf_base a) - pf_base a) div FRAME_SIZE)
      ..<min (unat (div_ceil (saturating_sub (saturating_add start len) (pf_base a)) FRAME_SIZE))
             (pf_total a)}"
  using assms by (auto simp: page_frame_range_def Let_def)

lemma range_low:
  "unat ((max start b - b) div FRAME_SIZE) \<le> i \<longleftrightarrow> unat start < unat b + i * 4096 + 4096"
proof -
  have "unat (max start b - b) = unat start - unat b"
    by (auto simp: max_def unat_sub word_le_nat_alt)
  then have "unat ((max start b - b) div FRAME_SIZE) = (unat start - unat b) div 4096"
    by (simp add: unat_div FRAME_SIZE_def)
  then have "unat ((max start b - b) div FRAME_SIZE) < Suc i \<longleftrightarrow>
      unat start - unat b < Suc i * 4096"
    by (simp only: div_less_iff_less_mult)
  then show ?thesis by auto
qed

lemma range_high:
  assumes "unat b + i * 4096 < 2 ^ 64 - 1"
  shows "i < unat (div_ceil (saturating_sub (saturating_add start len) b) FRAME_SIZE) \<longleftrightarrow>
    unat b + i * 4096 < unat start + unat len"
  unfolding less_unat_div_ceil unat_saturating_sub unat_saturating_add using assms by auto

lemma mem_page_frame_range:
  assumes "pf_inv a"
  shows "i \<in> set (page_frame_range a start len) \<longleftrightarrow> i < pf_total a \<and> touches a start len i"
proof (cases "i < pf_total a")
  case True
  have b: "unat (pf_base a) + i * 4096 < 2 ^ 64 - 1"
    using assms True by (simp add: pf_inv_def)
  show ?thesis
  proof (cases "len = 0 \<or> saturating_add start len \<le> pf_base a")
    case none: True
    have "\<not> touches a start len i"
    proof (cases "len = 0")
      case False
      then have "min (unat start + unat len) (2 ^ 64 - 1) \<le> unat (pf_base a)"
        using none by (simp add: word_le_nat_alt unat_saturating_add)
      then have "unat start + unat len \<le> unat (pf_base a) + i * 4096"
        using b by linarith
      then show ?thesis by (simp add: touches_def)
    qed (simp add: touches_def)
    then show ?thesis using none by (simp add: page_frame_range_def)
  next
    case some: False
    then have "0 < len" by (simp add: word_neq_0_conv)
    then show ?thesis
      using page_frame_range_eq [OF some] range_low [of start "pf_base a" i]
        range_high [OF b, of start len] True
      by (simp add: touches_def)
  qed
next
  case False
  then show ?thesis
    by (auto simp: page_frame_range_def Let_def)
qed


section \<open>Every operation on the set of used frames\<close>

lemma pf_inv_keep:
  assumes "pf_inv a" "pf_base b = pf_base a" "pf_total b = pf_total a"
    "length (pf_bitmap b) = length (pf_bitmap a)" "pf_hint b \<le> pf_total a"
    "pf_used b = card (used_set b)"
  shows "pf_inv b"
  using assms by (simp add: pf_inv_def)

definition same_ground :: "PageFrameAllocator \<Rightarrow> PageFrameAllocator \<Rightarrow> bool" where
  "same_ground a b \<longleftrightarrow> pf_base b = pf_base a \<and> pf_total b = pf_total a"

lemma same_ground_simps [simp]: "same_ground a a"
  by (simp add: same_ground_def)

lemma same_ground_trans: "same_ground a b \<Longrightarrow> same_ground b c \<Longrightarrow> same_ground a c"
  by (simp add: same_ground_def)

lemma free_one_correct:
  assumes "pf_inv a" "i < pf_total a"
  shows "pf_inv (free_one i a)" and "used_set (free_one i a) = used_set a - {i}"
    and "same_ground a (free_one i a)"
proof -
  have len: "i < 8 * length (pf_bitmap a)" using assms by (simp add: pf_inv_def)
  show u: "used_set (free_one i a) = used_set a - {i}"
    using assms(2) by (auto simp: used_set_def free_one_def bm_get_set [OF len])
  show "same_ground a (free_one i a)" by (simp add: free_one_def same_ground_def)
  have "pf_used (free_one i a) = card (used_set a - {i})"
    using assms by (auto simp: free_one_def pf_inv_def used_set_def)
  then show "pf_inv (free_one i a)"
    using pf_inv_keep [OF assms(1), of "free_one i a"] assms(1) u
    by (auto simp: free_one_def pf_inv_def)
qed

lemma use_one_correct:
  assumes "pf_inv a" "i < pf_total a"
  shows "pf_inv (use_one i a)" and "used_set (use_one i a) = insert i (used_set a)"
    and "same_ground a (use_one i a)"
proof -
  have len: "i < 8 * length (pf_bitmap a)" using assms by (simp add: pf_inv_def)
  show u: "used_set (use_one i a) = insert i (used_set a)"
    using assms(2) by (auto simp: used_set_def use_one_def bm_get_set [OF len])
  show "same_ground a (use_one i a)" by (simp add: use_one_def same_ground_def)
  have "pf_used (use_one i a) = card (insert i (used_set a))"
    using assms by (auto simp: use_one_def pf_inv_def used_set_def card_insert_if)
  then show "pf_inv (use_one i a)"
    using pf_inv_keep [OF assms(1), of "use_one i a"] assms(1) u
    by (auto simp: use_one_def pf_inv_def)
qed


lemma fold_free_one:
  "pf_inv a \<Longrightarrow> \<forall>i \<in> set is. i < pf_total a \<Longrightarrow>
   pf_inv (fold free_one is a) \<and> used_set (fold free_one is a) = used_set a - set is \<and>
   same_ground a (fold free_one is a)"
proof (induction "is" arbitrary: a)
  case (Cons i js)
  note f = free_one_correct [OF Cons.prems(1), of i]
  have "\<forall>j \<in> set js. j < pf_total (free_one i a)"
    using Cons.prems(2) f(3) by (simp add: same_ground_def)
  then show ?case
    using Cons.IH [OF f(1)] f Cons.prems(2) by (auto simp: same_ground_def)
qed simp

lemma fold_use_one:
  "pf_inv a \<Longrightarrow> \<forall>i \<in> set is. i < pf_total a \<Longrightarrow>
   pf_inv (fold use_one is a) \<and> used_set (fold use_one is a) = used_set a \<union> set is \<and>
   same_ground a (fold use_one is a)"
proof (induction "is" arbitrary: a)
  case (Cons i js)
  note f = use_one_correct [OF Cons.prems(1), of i]
  have "\<forall>j \<in> set js. j < pf_total (use_one i a)"
    using Cons.prems(2) f(3) by (simp add: same_ground_def)
  then show ?case
    using Cons.IH [OF f(1)] f Cons.prems(2) by (auto simp: same_ground_def)
qed simp

lemma used_set_hint [simp]: "used_set (a\<lparr>pf_hint := h\<rparr>) = used_set a"
  by (simp add: used_set_def)

lemma mark_free_correct:
  assumes "pf_inv a"
  shows "pf_inv (mark_free a start len)"
    and "used_set (mark_free a start len) = {i \<in> used_set a. \<not> touches a start len i}"
    and "same_ground a (mark_free a start len)"
proof -
  have m: "set (page_frame_range a start len) = {i. i < pf_total a \<and> touches a start len i}"
    using mem_page_frame_range [OF assms] by blast
  then have r: "\<forall>i \<in> set (page_frame_range a start len). i < pf_total a" by blast
  note f = fold_free_one [OF assms r]
  show "pf_inv (mark_free a start len)"
    using f by (simp add: mark_free_def pf_inv_def)
  show "used_set (mark_free a start len) = {i \<in> used_set a. \<not> touches a start len i}"
    using f m by (auto simp: mark_free_def used_set_def)
  show "same_ground a (mark_free a start len)"
    using f by (simp add: mark_free_def same_ground_def)
qed

lemma mark_used_correct:
  assumes "pf_inv a"
  shows "pf_inv (mark_used a start len)"
    and "used_set (mark_used a start len) = used_set a \<union> {i. i < pf_total a \<and> touches a start len i}"
    and "same_ground a (mark_used a start len)"
proof -
  have m: "set (page_frame_range a start len) = {i. i < pf_total a \<and> touches a start len i}"
    using mem_page_frame_range [OF assms] by blast
  then have r: "\<forall>i \<in> set (page_frame_range a start len). i < pf_total a" by blast
  note f = fold_use_one [OF assms r]
  show "pf_inv (mark_used a start len)"
    "used_set (mark_used a start len) = used_set a \<union> {i. i < pf_total a \<and> touches a start len i}"
    "same_ground a (mark_used a start len)"
    using f m by (simp_all add: mark_used_def)
qed

lemma new_frames_correct:
  assumes "new_frames base n bitmap = Some a" "unat base + n * 4096 \<le> 2 ^ 64"
  shows "pf_inv a" and "used_set a = {..<n}" and "pf_base a = base" and "pf_total a = n"
proof -
  have b: "base mod 4096 = 0" and l: "bitmap_bytes n \<le> length bitmap"
    and a: "a = \<lparr>pf_bitmap = replicate (length bitmap) 0xff, pf_base = base, pf_total = n,
                 pf_used = n, pf_hint = 0\<rparr>"
    using assms(1) by (auto simp: new_frames_def FRAME_SIZE_def split: if_splits)
  have n: "n \<le> 8 * length bitmap"
    using l by (auto simp: bitmap_bytes_def split: if_splits)
  have get: "bm_get (replicate (length bitmap) 0xff) i" if "i < n" for i
  proof -
    have "i div 8 < length bitmap" using that n by simp
    moreover have "bit (0xff :: u8) k" if "k < 8" for k
    proof -
      have "(0xff :: u8) = - 1" by simp
      then show ?thesis using that by (simp only: bit_minus_1_iff) simp
    qed
    ultimately show ?thesis by (simp add: bm_get_bit)
  qed
  show u: "used_set a = {..<n}" using get by (auto simp: used_set_def a)
  have "unat (base mod 4096) = 0" using b by simp
  then have "unat base mod 4096 = 0" by (simp add: unat_mod)
  then show "pf_inv a" using u n assms(2) by (simp add: pf_inv_def a)
  show "pf_base a = base" "pf_total a = n" by (simp_all add: a)
qed

lemma find_SomeD: "find P xs = Some x \<Longrightarrow> x \<in> set xs \<and> P x"
  by (induction xs) (auto split: if_splits)

lemma scan_order_set: "h \<le> n \<Longrightarrow> set ([h..<n] @ [0..<h]) = {..<n}"
  by auto

lemma scan_finds_free:
  assumes "pf_inv a"
    "find (\<lambda>i. \<not> bm_get (pf_bitmap a) i) ([pf_hint a..<pf_total a] @ [0..<pf_hint a]) = Some i"
  shows "free_at a i"
  using find_SomeD [OF assms(2)] assms(1) by (auto simp: pf_inv_def free_at_def)

lemma scan_finds_none:
  assumes "pf_inv a"
  shows "find (\<lambda>i. \<not> bm_get (pf_bitmap a) i) ([pf_hint a..<pf_total a] @ [0..<pf_hint a]) = None
    \<longleftrightarrow> \<not> (\<exists>i. free_at a i)"
proof -
  have "set ([pf_hint a..<pf_total a] @ [0..<pf_hint a]) = {..<pf_total a}"
    using assms by (intro scan_order_set) (simp add: pf_inv_def)
  then show ?thesis unfolding find_None_iff free_at_def by auto
qed

lemma pf_alloc_None_iff:
  assumes "pf_inv a"
  shows "pf_alloc a = None \<longleftrightarrow> pf_used a = pf_total a"
proof -
  have "pf_alloc a = None \<longleftrightarrow> \<not> (\<exists>i. free_at a i)"
    unfolding scan_finds_none [OF assms, symmetric] by (simp add: pf_alloc_def split: option.splits)
  then show ?thesis
    using used_set_full_iff [of a] used_set_le [of a] assms by (auto simp: pf_inv_def)
qed

lemma pf_alloc_Some:
  assumes "pf_inv a" "pf_alloc a = Some (f, b)"
  shows "\<exists>i. free_at a i \<and> f = frame_addr a i \<and> used_set b = insert i (used_set a) \<and>
    same_ground a b \<and> pf_inv b"
proof -
  obtain i where i: "free_at a i" "f = frame_addr a i"
    and b: "b = a\<lparr>pf_bitmap := bm_set (pf_bitmap a) i True, pf_used := pf_used a + 1,
                 pf_hint := i + 1\<rparr>"
    using assms(2) scan_finds_free [OF assms(1)]
    unfolding pf_alloc_def frame_addr_def by (auto split: option.splits)
  have len: "i < 8 * length (pf_bitmap a)"
    using assms(1) i(1) by (simp add: pf_inv_def free_at_def)
  have u: "used_set b = insert i (used_set a)"
    using i(1) by (auto simp: b used_set_def free_at_def bm_get_set [OF len])
  have "i \<notin> used_set a" using i(1) by (simp add: free_at_def used_set_def)
  then have "pf_used b = card (used_set b)"
    using assms(1) u by (simp add: b pf_inv_def)
  then have "pf_inv b"
    using pf_inv_keep [OF assms(1), of b] i(1) by (simp add: b free_at_def)
  then show ?thesis using i u by (auto simp: b same_ground_def)
qed


section \<open>Runs of frames\<close>

definition free_window :: "u8 list \<Rightarrow> nat \<Rightarrow> nat \<Rightarrow> nat \<Rightarrow> bool" where
  "free_window bm n c r \<longleftrightarrow> r + c \<le> n \<and> (\<forall>j. r \<le> j \<longrightarrow> j < r + c \<longrightarrow> \<not> bm_get bm j)"

lemma scan_run_correct:
  assumes "rs + run = i" "run < c" "i \<le> n"
    and "\<And>j. rs \<le> j \<Longrightarrow> j < i \<Longrightarrow> \<not> bm_get bm j"
    and "\<And>r. r < rs \<Longrightarrow> \<not> free_window bm n c r"
  shows "(case scan_run bm c [i..<n] rs run of
            None \<Rightarrow> \<forall>r. \<not> free_window bm n c r
          | Some r \<Rightarrow> free_window bm n c r \<and> (\<forall>q < r. \<not> free_window bm n c q))"
  using assms
proof (induction "n - i" arbitrary: i rs run)
  case 0
  have "\<not> free_window bm n c r" for r
    using 0 by (cases "r < rs") (auto simp: free_window_def)
  then show ?case using 0 by simp
next
  case (Suc d)
  have i: "i < n" "[i..<n] = i # [Suc i..<n]" "d = n - Suc i"
    using Suc.hyps(2) by (auto simp: upt_conv_Cons)
  show ?case
  proof (cases "bm_get bm i")
    case True
    have "\<not> free_window bm n c r" if "r < Suc i" for r
    proof (cases "r < rs")
      case False
      then have "r \<le> i" "i < r + c" using Suc.prems(1,2) that by linarith+
      then show ?thesis using True by (auto simp: free_window_def)
    qed (rule Suc.prems(5))
    then show ?thesis
      using Suc.hyps(1) [of "Suc i" "Suc i" 0] Suc.prems(2) i True by simp
  next
    case False
    have more: "\<not> bm_get bm j" if "rs \<le> j" "j < Suc i" for j
      using Suc.prems(4) False that by (cases "j = i") auto
    show ?thesis
    proof (cases "run + 1 = c")
      case True
      then have "free_window bm n c rs"
        using more Suc.prems(1) i(1) by (simp add: free_window_def)
      then show ?thesis using i(2) False True Suc.prems(5) by simp
    next
      case notyet: False
      then show ?thesis
        using Suc.hyps(1) [of "Suc i" rs "run + 1"] Suc.prems i False more by simp
    qed
  qed
qed

lemma longest_run_correct:
  assumes "rs + run = i" "run \<le> best" "i \<le> n" "0 < c"
    and "\<And>j. rs \<le> j \<Longrightarrow> j < i \<Longrightarrow> \<not> bm_get bm j"
  shows "c \<le> longest_run bm [i..<n] best run \<longleftrightarrow> c \<le> best \<or> (\<exists>r \<ge> rs. free_window bm n c r)"
  using assms
proof (induction "n - i" arbitrary: i rs run best)
  case 0
  have "c \<le> best" if "rs \<le> r" "free_window bm n c r" for r
    using 0 that by (auto simp: free_window_def)
  then show ?case using 0 by auto
next
  case (Suc d)
  have i: "i < n" "[i..<n] = i # [Suc i..<n]" "d = n - Suc i"
    using Suc.hyps(2) by (auto simp: upt_conv_Cons)
  show ?case
  proof (cases "bm_get bm i")
    case True
    have "Suc i \<le> r \<or> c \<le> best" if "rs \<le> r" "free_window bm n c r" for r
    proof (cases "Suc i \<le> r")
      case False
      then have "\<not> i < r + c" using that(2) True by (auto simp: free_window_def)
      then show ?thesis using Suc.prems(1,2) that(1) by simp
    qed simp
    moreover have "rs \<le> Suc i" using Suc.prems(1) by simp
    ultimately show ?thesis
      using Suc.hyps(1) [of "Suc i" "Suc i" 0 best] Suc.prems(4) i True
      by (auto dest: le_trans)
  next
    case False
    have more: "\<not> bm_get bm j" if "rs \<le> j" "j < Suc i" for j
      using Suc.prems(5) False that by (cases "j = i") auto
    have "free_window bm n c rs" if "c \<le> run + 1"
      using more Suc.prems(1) i(1) that by (simp add: free_window_def)
    then show ?thesis
      using Suc.hyps(1) [of "Suc i" rs "run + 1" "if best < run + 1 then run + 1 else best"]
        Suc.prems i False more
      by (auto split: if_splits)
  qed
qed


lemma alloc_contiguous_Some:
  assumes "pf_inv a" "alloc_contiguous a count = Some (f, b)"
  shows "\<exists>r. free_window (pf_bitmap a) (pf_total a) count r \<and>
    (\<forall>q < r. \<not> free_window (pf_bitmap a) (pf_total a) count q) \<and>
    f = frame_addr a r \<and> used_set b = used_set a \<union> {r..<r + count} \<and> same_ground a b \<and> pf_inv b"
proof -
  obtain r where c: "0 < count"
    and sr: "scan_run (pf_bitmap a) count [0..<pf_total a] 0 0 = Some r" and f: "f = frame_addr a r"
    and b: "b = a\<lparr>pf_bitmap := fold (\<lambda>j bm. bm_set bm j True) [r..<r + count] (pf_bitmap a),
                 pf_used := pf_used a + count\<rparr>"
    using assms(2) by (auto simp: alloc_contiguous_def frame_addr_def split: if_splits option.splits)
  have w: "free_window (pf_bitmap a) (pf_total a) count r"
    "\<forall>q < r. \<not> free_window (pf_bitmap a) (pf_total a) count q"
    using scan_run_correct [of 0 0 0 count "pf_total a" "pf_bitmap a"] c sr by auto
  have "\<forall>j \<in> set [r..<r + count]. j < 8 * length (pf_bitmap a)"
    using w(1) assms(1) by (auto simp: free_window_def pf_inv_def)
  note get = bm_get_fold_set [OF this, of True]
  have u: "used_set b = used_set a \<union> {r..<r + count}"
    using w(1) by (auto simp: b used_set_def get free_window_def)
  have "used_set a \<inter> {r..<r + count} = {}"
    using w(1) by (auto simp: used_set_def free_window_def)
  then have "pf_used b = card (used_set b)"
    using assms(1) u by (simp add: b pf_inv_def card_Un_disjoint)
  then have "pf_inv b"
    using pf_inv_keep [OF assms(1), of b] assms(1) by (simp add: b pf_inv_def)
  then show ?thesis using w f u by (auto simp: b same_ground_def)
qed

lemma alloc_contiguous_None_iff:
  assumes "0 < count"
  shows "alloc_contiguous a count = None \<longleftrightarrow>
    (\<forall>r. \<not> free_window (pf_bitmap a) (pf_total a) count r)"
proof -
  note w = scan_run_correct [of 0 0 0 count "pf_total a" "pf_bitmap a"]
  have "\<not> free_window (pf_bitmap a) (pf_total a) count r" if "pf_total a < count" for r
    using that by (simp add: free_window_def)
  then show ?thesis
    using w assms by (auto simp: alloc_contiguous_def split: option.splits)
qed

lemma largest_free_run_iff:
  assumes "0 < count"
  shows "count \<le> largest_free_run a \<longleftrightarrow> (\<exists>r. free_window (pf_bitmap a) (pf_total a) count r)"
  using longest_run_correct [of 0 0 0 0 "pf_total a" count "pf_bitmap a"] assms
  by (simp add: largest_free_run_def)

lemma pf_free_correct:
  assumes "pf_inv a" "i \<in> used_set a"
  shows "\<exists>b. pf_free a (frame_addr a i) = Some b \<and> pf_inv b \<and> used_set b = used_set a - {i} \<and>
    same_ground a b"
proof -
  have i: "i < pf_total a" "bm_get (pf_bitmap a) i" using assms(2) by (auto simp: used_set_def)
  have len: "i < 8 * length (pf_bitmap a)" using assms(1) i(1) by (simp add: pf_inv_def)
  define b where "b = a\<lparr>pf_bitmap := bm_set (pf_bitmap a) i False, pf_used := pf_used a - 1,
                        pf_hint := min (pf_hint a) i\<rparr>"
  have u: "used_set b = used_set a - {i}"
    using i by (auto simp: b_def used_set_def bm_get_set [OF len])
  then have "pf_used b = card (used_set b)"
    using assms by (simp add: b_def pf_inv_def)
  then have "pf_inv b"
    using pf_inv_keep [OF assms(1), of b] i(1) by (simp add: b_def)
  moreover have "pf_free a (frame_addr a i) = Some b"
    using index_of_frame_addr [OF assms(1) i(1)] i(2) by (simp add: pf_free_def b_def)
  moreover have "same_ground a b" by (simp add: b_def same_ground_def)
  ultimately show ?thesis using u by blast
qed

lemma pf_free_None:
  "is_used a f \<noteq> Some True \<longleftrightarrow> pf_free a f = None"
  by (auto simp: is_used_def pf_free_def split: option.splits)

lemma is_used_frame_addr:
  "pf_inv a \<Longrightarrow> i < pf_total a \<Longrightarrow> is_used a (frame_addr a i) = Some (i \<in> used_set a)"
  by (simp add: is_used_def index_of_frame_addr used_set_def)


section \<open>The allocator as an allocator of names\<close>

datatype frame_request = One_frame | Frames nat

definition frames_take ::
  "frame_request \<Rightarrow> PageFrameAllocator \<Rightarrow> (PageFrame list \<times> PageFrameAllocator) option" where
  "frames_take r a =
     (case r of
        One_frame \<Rightarrow> map_option (\<lambda>(f, b). ([f], b)) (pf_alloc a)
      | Frames n \<Rightarrow>
          map_option (\<lambda>(f, b). (map (\<lambda>k. f + of_nat k * FRAME_SIZE) [0..<n], b)) (alloc_contiguous a n))"

definition live_frames :: "PageFrameAllocator \<Rightarrow> PageFrame set" where
  "live_frames a = frame_addr a ` used_set a"

definition all_frames :: "PageFrameAllocator \<Rightarrow> PageFrame set" where
  "all_frames a = frame_addr a ` {..<pf_total a}"

lemma same_ground_addr: "same_ground a b \<Longrightarrow> frame_addr b = frame_addr a"
  by (simp add: same_ground_def frame_addr_def fun_eq_iff)

lemma same_ground_all: "same_ground a b \<Longrightarrow> all_frames b = all_frames a"
  by (simp add: all_frames_def same_ground_addr) (simp add: same_ground_def)

lemma run_addresses:
  "map (\<lambda>k. frame_addr a r + of_nat k * FRAME_SIZE) [0..<n] = map (frame_addr a) [r..<r + n]"
proof -
  have "map (frame_addr a) [r..<r + n] = map (\<lambda>k. frame_addr a (r + k)) [0..<n]"
    by (rule nth_equalityI) simp_all
  also have "\<dots> = map (\<lambda>k. frame_addr a r + of_nat k * FRAME_SIZE) [0..<n]"
    by (simp add: frame_addr_def algebra_simps)
  finally show ?thesis by simp
qed

lemma frames_take_Some:
  assumes "pf_inv a" "frames_take r a = Some (fs, b)"
  shows "\<exists>js. fs = map (frame_addr a) js \<and> distinct js \<and> set js \<subseteq> {..<pf_total a} - used_set a \<and>
    used_set b = used_set a \<union> set js \<and> same_ground a b \<and> pf_inv b"
proof (cases r)
  case One_frame
  then obtain f where "pf_alloc a = Some (f, b)" "fs = [f]"
    using assms(2) by (auto simp: frames_take_def)
  with pf_alloc_Some [OF assms(1), of f b] obtain i where
    "free_at a i" "fs = map (frame_addr a) [i]" "used_set b = used_set a \<union> set [i]"
    "same_ground a b" "pf_inv b" by auto
  moreover from this(1) have "set [i] \<subseteq> {..<pf_total a} - used_set a"
    by (simp add: free_at_def used_set_def)
  ultimately show ?thesis by (metis distinct_singleton)
next
  case (Frames n)
  then obtain f where f: "alloc_contiguous a n = Some (f, b)"
    "fs = map (\<lambda>k. f + of_nat k * FRAME_SIZE) [0..<n]"
    using assms(2) by (auto simp: frames_take_def)
  with alloc_contiguous_Some [OF assms(1), of n f b] obtain q where
    q: "free_window (pf_bitmap a) (pf_total a) n q" "f = frame_addr a q"
      "used_set b = used_set a \<union> set [q..<q + n]" "same_ground a b" "pf_inv b"
    by (metis atLeastLessThan_upt)
  have "set [q..<q + n] \<subseteq> {..<pf_total a} - used_set a"
    using q(1) by (auto simp: free_window_def used_set_def)
  then show ?thesis
    using q f run_addresses [of a q n] by (metis distinct_upt)
qed


lemma inj_on_frames: "pf_inv a \<Longrightarrow> inj_on (frame_addr a) {..<pf_total a}"
  by (auto intro!: inj_onI dest: inj_frame_addr)

lemma used_set_sub: "used_set a \<subseteq> {..<pf_total a}"
  by (auto simp: used_set_def)

lemma image_new_frames:
  assumes "pf_inv a" "set js \<subseteq> {..<pf_total a} - used_set a"
  shows "frame_addr a ` set js \<subseteq> all_frames a - live_frames a"
  using assms inj_on_image_set_diff [OF inj_on_frames [OF assms(1)], of "{..<pf_total a}" "used_set a"]
    used_set_sub [of a]
  unfolding all_frames_def live_frames_def by blast

lemma image_less_one:
  assumes "pf_inv a" "i \<in> used_set a"
  shows "frame_addr a ` (used_set a - {i}) = live_frames a - {frame_addr a i}"
  using inj_on_image_set_diff [OF inj_on_frames [OF assms(1)], of "used_set a" "{i}"]
    used_set_sub [of a] assms(2)
  unfolding live_frames_def by auto

interpretation frames: id_allocator pf_inv live_frames all_frames frames_take pf_free
proof
  fix a r fs b
  assume inv: "pf_inv a" and t: "frames_take r a = Some (fs, b)"
  from frames_take_Some [OF this] obtain js where js: "fs = map (frame_addr a) js" "distinct js"
    "set js \<subseteq> {..<pf_total a} - used_set a" "used_set b = used_set a \<union> set js"
    "same_ground a b" "pf_inv b" by blast
  have "inj_on (frame_addr a) (set js)"
    using inj_on_subset [OF inj_on_frames [OF inv]] js(3) by blast
  then show "distinct fs \<and> set fs \<subseteq> all_frames a - live_frames a"
    using js image_new_frames [OF inv js(3)] by (simp add: distinct_map)
  show "pf_inv b \<and> all_frames b = all_frames a \<and> live_frames b = live_frames a \<union> set fs"
    using js same_ground_all [OF js(5)] same_ground_addr [OF js(5)]
    by (simp add: live_frames_def image_Un)
next
  fix a f
  assume inv: "pf_inv a" and f: "f \<in> live_frames a"
  then obtain i where i: "i \<in> used_set a" "f = frame_addr a i" by (auto simp: live_frames_def)
  from pf_free_correct [OF inv i(1)] obtain b where b: "pf_free a f = Some b" "pf_inv b"
    "used_set b = used_set a - {i}" "same_ground a b" using i(2) by blast
  have "live_frames b = live_frames a - {f}"
    using b(3) same_ground_addr [OF b(4)] image_less_one [OF inv i(1)] i(2)
    by (simp add: live_frames_def)
  then show "\<exists>b. pf_free a f = Some b \<and> pf_inv b \<and> all_frames b = all_frames a \<and>
      live_frames b = live_frames a - {f}"
    using b same_ground_all [OF b(4)] by blast
qed

lemma is_used_live: "pf_inv a \<Longrightarrow> f \<in> live_frames a \<Longrightarrow> is_used a f = Some True"
  using used_set_sub [of a] by (auto simp: live_frames_def is_used_frame_addr)

lemma is_used_not_live:
  assumes "pf_inv a" "f \<in> all_frames a - live_frames a"
  shows "is_used a f = Some False"
  using assms by (auto simp: all_frames_def live_frames_def is_used_frame_addr)

lemma card_live_frames:
  assumes "pf_inv a"
  shows "card (live_frames a) = pf_used a"
proof -
  have "inj_on (frame_addr a) (used_set a)"
    using inj_on_subset [OF inj_on_frames [OF assms] used_set_sub] .
  then show ?thesis using assms by (simp add: live_frames_def card_image pf_inv_def)
qed


definition shares_byte :: "PageFrameAllocator \<Rightarrow> u64 \<Rightarrow> u64 \<Rightarrow> nat \<Rightarrow> bool" where
  "shares_byte a start len i \<longleftrightarrow>
     (\<exists>x. unat start \<le> x \<and> x < unat start + unat len \<and>
          unat (frame_addr a i) \<le> x \<and> x < unat (frame_addr a i) + 4096)"

lemma shares_byte_iff:
  assumes "pf_inv a" "i < pf_total a"
  shows "shares_byte a start len i \<longleftrightarrow> touches a start len i"
proof
  assume "touches a start len i"
  then have "unat start < unat (frame_addr a i) + 4096"
    "unat (frame_addr a i) < unat start + unat len" "0 < unat len"
    unfolding touches_def unat_frame_addr [OF assms] by (auto simp: unat_gt_0)
  then show "shares_byte a start len i"
    unfolding shares_byte_def
    by (intro exI [of _ "max (unat start) (unat (frame_addr a i))"]) auto
next
  assume "shares_byte a start len i"
  then obtain x where x: "unat start \<le> x" "x < unat start + unat len"
    "unat (frame_addr a i) \<le> x" "x < unat (frame_addr a i) + 4096"
    by (auto simp: shares_byte_def)
  then have "0 < unat len" by linarith
  then have "0 < len" by (simp add: word_less_nat_alt)
  then show "touches a start len i"
    using x unfolding touches_def unat_frame_addr [OF assms] by linarith
qed


section \<open>Properties\<close>

definition sample_frames :: PageFrameAllocator where
  "sample_frames =
     \<lparr>pf_bitmap = [0xf9], pf_base = 0x40000000, pf_total = 6, pf_used = 4, pf_hint = 3\<rparr>"

lemma sample_frames_used: "used_set sample_frames = {0, 3, 4, 5}"
proof -
  have "used_set sample_frames = set (filter (bm_get [0xf9]) [0..<6])"
    by (auto simp: used_set_def sample_frames_def)
  also have "\<dots> = {0, 3, 4, 5}" by code_simp
  finally show ?thesis .
qed

lemma sample_frames_inv: "pf_inv sample_frames"
  unfolding pf_inv_def sample_frames_used by (simp add: sample_frames_def)

text \<open>C19. No frame is ever held by two: over any sequence of requests for one frame or for a run,
  and of returns by the holders, every frame held is held once, was free when the sequence began,
  and is marked used; no return by a holder panics; the used count is exactly what it was plus the
  number held; and at the end giving back a frame that is not in use, or not the allocator's, is a
  panic.\<close>

theorem frames_never_shared:
  assumes "pf_inv a"
  shows "\<exists>b held. run_requests frames_take pf_free ops a [] = Some (b, held) \<and> pf_inv b \<and>
    distinct held \<and> (\<forall>f \<in> set held. is_used a f = Some False \<and> is_used b f = Some True) \<and>
    st_used (stats b) = st_used (stats a) + length held \<and>
    (\<forall>f. is_used b f \<noteq> Some True \<longrightarrow> pf_free b f = None)"
proof -
  from frames.never_shared [OF assms, of ops] obtain b held where
    h: "run_requests frames_take pf_free ops a [] = Some (b, held)" "pf_inv b" "distinct held"
      "set held \<subseteq> all_frames a - live_frames a" "live_frames b = live_frames a \<union> set held" by blast
  have "finite (live_frames a)" by (simp add: live_frames_def)
  moreover have "live_frames a \<inter> set held = {}" using h(4) by blast
  ultimately have "card (live_frames b) = card (live_frames a) + length held"
    using h(3,5) by (simp add: card_Un_disjoint distinct_card)
  then have "pf_used b = pf_used a + length held"
    using card_live_frames [OF assms] card_live_frames [OF h(2)] by simp
  moreover have "\<forall>f \<in> set held. is_used a f = Some False \<and> is_used b f = Some True"
    using h is_used_not_live [OF assms] is_used_live [OF h(2)] by auto
  ultimately show ?thesis using h(1-3) pf_free_None by (simp add: stats_def)
qed

theorem frames_never_shared_witness:
  "\<exists>b held. run_requests frames_take pf_free
      [Take (Frames 2), Take One_frame, Give 0x40001000, Take One_frame, Give 0x40003000]
      sample_frames [] = Some (b, held) \<and> pf_inv b \<and>
    distinct held \<and> (\<forall>f \<in> set held. is_used sample_frames f = Some False \<and> is_used b f = Some True) \<and>
    st_used (stats b) = st_used (stats sample_frames) + length held \<and>
    (\<forall>f. is_used b f \<noteq> Some True \<longrightarrow> pf_free b f = None)"
  by (rule frames_never_shared [OF sample_frames_inv])

text \<open>A run is found exactly when there is one: a request for \<open>count\<close> contiguous frames
  succeeds exactly when \<open>count\<close> is no more than the longest free run the allocator reports, and
  then takes the lowest run that fits, frames that were all free, and marks those frames and no
  others.\<close>

theorem contiguous_first_fit:
  assumes "pf_inv a" "0 < count"
  shows "(alloc_contiguous a count \<noteq> None \<longleftrightarrow> count \<le> largest_free_run a) \<and>
    (\<forall>f b. alloc_contiguous a count = Some (f, b) \<longrightarrow>
       (\<exists>r. f = frame_addr a r \<and> r + count \<le> pf_total a \<and> (\<forall>i. r \<le> i \<and> i < r + count \<longrightarrow> free_at a i) \<and>
          (\<forall>q < r. \<exists>i. q \<le> i \<and> i < q + count \<and> \<not> free_at a i) \<and>
          used_set b = used_set a \<union> {r..<r + count} \<and> pf_inv b))"
proof (intro conjI allI impI)
  show "alloc_contiguous a count \<noteq> None \<longleftrightarrow> count \<le> largest_free_run a"
    using alloc_contiguous_None_iff [OF assms(2)] largest_free_run_iff [OF assms(2)] by simp
next
  fix f b
  assume "alloc_contiguous a count = Some (f, b)"
  from alloc_contiguous_Some [OF assms(1) this] obtain r where
    r: "free_window (pf_bitmap a) (pf_total a) count r"
      "\<forall>q < r. \<not> free_window (pf_bitmap a) (pf_total a) count q"
      "f = frame_addr a r" "used_set b = used_set a \<union> {r..<r + count}" "pf_inv b" by blast
  have "\<exists>i. q \<le> i \<and> i < q + count \<and> \<not> free_at a i" if "q < r" for q
    using r(1) spec [OF r(2), of q] that by (auto simp: free_window_def free_at_def)
  moreover have "\<forall>i. r \<le> i \<and> i < r + count \<longrightarrow> free_at a i" "r + count \<le> pf_total a"
    using r(1) by (auto simp: free_window_def free_at_def)
  ultimately show "\<exists>r. f = frame_addr a r \<and> r + count \<le> pf_total a \<and>
      (\<forall>i. r \<le> i \<and> i < r + count \<longrightarrow> free_at a i) \<and>
      (\<forall>q < r. \<exists>i. q \<le> i \<and> i < q + count \<and> \<not> free_at a i) \<and>
      used_set b = used_set a \<union> {r..<r + count} \<and> pf_inv b"
    using r(3-5) by blast
qed

theorem contiguous_first_fit_witness:
  "alloc_contiguous sample_frames 2 \<noteq> None \<and> alloc_contiguous sample_frames 3 = None"
proof -
  have "largest_free_run sample_frames = 2" by code_simp
  then have "2 \<le> largest_free_run sample_frames" "\<not> 3 \<le> largest_free_run sample_frames" by simp_all
  then show ?thesis
    using conjunct1 [OF contiguous_first_fit [OF sample_frames_inv zero_less_numeral, of "num.Bit0 num.One"]]
      conjunct1 [OF contiguous_first_fit [OF sample_frames_inv zero_less_numeral, of "num.Bit1 num.One"]]
    by blast
qed

text \<open>Marking is exact to the byte: after \<open>mark_used\<close> a frame is used exactly when it was
  used already or shares a byte with the range, and after \<open>mark_free\<close> exactly when it was used
  and shares none; so a partly covered frame at either end of a reservation is reserved.\<close>

theorem marks_are_exact:
  assumes "pf_inv a" "i < pf_total a"
  shows "is_used (mark_used a start len) (frame_addr a i) =
      Some (is_used a (frame_addr a i) = Some True \<or> shares_byte a start len i) \<and>
    is_used (mark_free a start len) (frame_addr a i) =
      Some (is_used a (frame_addr a i) = Some True \<and> \<not> shares_byte a start len i)"
proof -
  have a: "is_used b (frame_addr a i) = Some (i \<in> used_set b)" if "pf_inv b" "same_ground a b" for b
    using is_used_frame_addr [OF that(1), of i] that(2) assms(2) same_ground_addr [OF that(2)]
    by (simp add: same_ground_def)
  note sh = shares_byte_iff [OF assms, of start len]
  have "is_used (mark_used a start len) (frame_addr a i) =
      Some (is_used a (frame_addr a i) = Some True \<or> shares_byte a start len i)"
    using a [OF mark_used_correct(1,3) [OF assms(1)]] mark_used_correct(2) [OF assms(1)]
      a [OF assms(1)] assms(2) sh by simp
  moreover have "is_used (mark_free a start len) (frame_addr a i) =
      Some (is_used a (frame_addr a i) = Some True \<and> \<not> shares_byte a start len i)"
    using a [OF mark_free_correct(1,3) [OF assms(1)]] mark_free_correct(2) [OF assms(1)]
      a [OF assms(1)] sh by simp
  ultimately show ?thesis ..
qed

theorem marks_are_exact_witness:
  "is_used (mark_used sample_frames 0x40001fff 1) (frame_addr sample_frames 1) = Some True \<and>
   is_used (mark_free sample_frames 0x40002fff 2) (frame_addr sample_frames 3) = Some False"
proof -
  have n: "1 < pf_total sample_frames" "3 < pf_total sample_frames"
    by (simp_all add: sample_frames_def)
  have "unat (frame_addr sample_frames 1) = 0x40001000"
    "unat (frame_addr sample_frames 3) = 0x40003000"
    by (simp_all add: frame_addr_def sample_frames_def FRAME_SIZE_def)
  note addr = this
  moreover have "shares_byte sample_frames 0x40001fff 1 1"
    unfolding shares_byte_def addr by (intro exI [of _ "0x40001fff"]) simp
  moreover have "shares_byte sample_frames 0x40002fff 2 3"
    unfolding shares_byte_def addr by (intro exI [of _ "0x40003000"]) simp
  ultimately show ?thesis
    using marks_are_exact [OF sample_frames_inv n(1), of "0x40001fff" 1]
      marks_are_exact [OF sample_frames_inv n(2), of "0x40002fff" 2]
    by simp
qed

end
