(* ===== verification/Frame_Bringup.thy ===== *)
theory Frame_Bringup
  imports Page_Frames
begin

text \<open>
  How the kernel brings the frame allocator up, \<open>src/kernel/src/memory.rs\<close>: it finds a place
  for the bitmap inside the memory the bitmap is about to describe, marks the machine's RAM free and
  everything already spoken for used, the bitmap included.

  The scan of \<open>place_bitmap\<close> is a loop that jumps, so it is a partial function: \<open>None\<close> is
  not returning, \<open>Some None\<close> the panic of the source, \<open>Some (Some c)\<close> the address found.
  The contents of the memory the bitmap is laid over are the parameter \<open>mem\<close>.
\<close>

section \<open>The bring-up\<close>

record Span =
  sp_start :: u64
  sp_size :: u64

definition sp_end :: "Span \<Rightarrow> u64" where
  "sp_end r = saturating_add (sp_start r) (sp_size r)"

definition MAX_REGIONS :: nat where
  "MAX_REGIONS = 16"

definition align_up :: "u64 \<Rightarrow> u64 \<Rightarrow> u64" where
  "align_up x to = div_ceil x to * to"

definition overlaps :: "u64 \<Rightarrow> u64 \<Rightarrow> u64 \<Rightarrow> u64 \<Rightarrow> bool" where
  "overlaps a alen b blen \<longleftrightarrow> a < saturating_add b blen \<and> b < saturating_add a alen"

partial_function (option) scan_region ::
  "u64 \<Rightarrow> u64 \<Rightarrow> Span list \<Rightarrow> u64 \<Rightarrow> u64 option option" where
  "scan_region need region_end forbidden candidate =
     (if candidate + need \<le> region_end
      then (case find (\<lambda>f. overlaps candidate need (sp_start f) (sp_size f)) forbidden of
              Some f \<Rightarrow>
                scan_region need region_end forbidden (align_up (sp_start f + sp_size f) FRAME_SIZE)
            | None \<Rightarrow> Some (Some candidate))
      else Some None)"

fun place_bitmap :: "u64 \<Rightarrow> Span list \<Rightarrow> Span list \<Rightarrow> u64 option option" where
  "place_bitmap need [] forbidden = Some None"
| "place_bitmap need (region # ram) forbidden =
     (case scan_region need (sp_end region) forbidden (align_up (sp_start region) FRAME_SIZE) of
        None \<Rightarrow> None
      | Some None \<Rightarrow> place_bitmap need ram forbidden
      | Some (Some candidate) \<Rightarrow> Some (Some candidate))"

definition next_multiple_of :: "u64 \<Rightarrow> u64 \<Rightarrow> u64" where
  "next_multiple_of x y = (if x mod y = 0 then x else x + (y - x mod y))"

definition bring_up_page_frames ::
  "(u64 \<Rightarrow> u8) \<Rightarrow> Span list \<Rightarrow> Span list \<Rightarrow> (PageFrameAllocator \<times> u64) option option" where
  "bring_up_page_frames mem ram forbidden =
     (if ram = [] \<or> MAX_REGIONS < length ram then Some None
      else
        let base = Min (set (map sp_start ram));
            high = Max (set (map sp_end ram @ map sp_end forbidden));
            total_frames = page_frames_in (next_multiple_of high FRAME_SIZE - base);
            bytes = bitmap_bytes total_frames
        in case place_bitmap (of_nat bytes) ram forbidden of
             None \<Rightarrow> None
           | Some None \<Rightarrow> Some None
           | Some (Some bitmap_start) \<Rightarrow>
               (case new_frames base total_frames
                       (map (\<lambda>k. mem (bitmap_start + of_nat k)) [0..<bytes]) of
                  None \<Rightarrow> Some None
                | Some a \<Rightarrow>
                    let a1 = fold (\<lambda>r a. mark_free a (sp_start r) (sp_size r)) ram a;
                        a2 = fold (\<lambda>r a. mark_used a (sp_start r) (sp_size r)) forbidden a1
                    in Some (Some (mark_used a2 bitmap_start (of_nat bytes), bitmap_start))))"


section \<open>Alignment and overlap over the natural numbers\<close>

definition physical :: "Span \<Rightarrow> bool" where
  "physical r \<longleftrightarrow> unat (sp_start r) + unat (sp_size r) \<le> 2 ^ 56"

definition clear_of :: "nat \<Rightarrow> nat \<Rightarrow> Span \<Rightarrow> bool" where
  "clear_of c n f \<longleftrightarrow>
     unat (sp_start f) + unat (sp_size f) \<le> c \<or> c + n \<le> unat (sp_start f)"

lemma unat_align_up:
  assumes "unat x \<le> 2 ^ 56"
  shows "unat x \<le> unat (align_up x FRAME_SIZE)" and "unat (align_up x FRAME_SIZE) mod 4096 = 0"
    and "unat (align_up x FRAME_SIZE) \<le> 2 ^ 56"
    and "\<And>c. c mod 4096 = 0 \<Longrightarrow> unat x \<le> c \<Longrightarrow> unat (align_up x FRAME_SIZE) \<le> c"
proof -
  define k where "k = unat (div_ceil x FRAME_SIZE)"
  have le: "unat x \<le> k * 4096" using less_unat_div_ceil [of k x] by (simp add: k_def)
  have least: "k \<le> m" if "unat x \<le> m * 4096" for m
    using less_unat_div_ceil [of m x] that by (simp add: k_def not_less [symmetric])
  have "k \<le> 2 ^ 44" using assms by (intro least) simp
  then have "k * 4096 \<le> 2 ^ 56" by simp
  then have u: "unat (align_up x FRAME_SIZE) = k * 4096"
    unfolding align_up_def k_def by (simp add: unat_mult_lem [THEN iffD1] FRAME_SIZE_def)
  show "unat x \<le> unat (align_up x FRAME_SIZE)" "unat (align_up x FRAME_SIZE) mod 4096 = 0"
    "unat (align_up x FRAME_SIZE) \<le> 2 ^ 56"
    unfolding u using le \<open>k * 4096 \<le> 2 ^ 56\<close> by simp_all
  show "unat (align_up x FRAME_SIZE) \<le> c" if c: "c mod 4096 = 0" "unat x \<le> c" for c
  proof -
    obtain m where "c = 4096 * m" using c(1) by (auto simp: mod_eq_0_iff_dvd)
    then show ?thesis using least [of m] c(2) u by simp
  qed
qed

lemma overlaps_iff:
  assumes "physical f" "unat c + unat n \<le> 2 ^ 57"
  shows "overlaps c n (sp_start f) (sp_size f) \<longleftrightarrow> \<not> clear_of (unat c) (unat n) f"
proof -
  have "unat (saturating_add (sp_start f) (sp_size f)) = unat (sp_start f) + unat (sp_size f)"
    "unat (saturating_add c n) = unat c + unat n"
    using assms by (simp_all add: unat_saturating_add physical_def)
  then show ?thesis by (auto simp: overlaps_def clear_of_def word_less_nat_alt)
qed

definition fits :: "nat \<Rightarrow> nat \<Rightarrow> Span list \<Rightarrow> nat \<Rightarrow> bool" where
  "fits need rend forbidden c \<longleftrightarrow>
     c mod 4096 = 0 \<and> c + need \<le> rend \<and> (\<forall>f \<in> set forbidden. clear_of c need f)"

lemma jump_skips_nothing:
  assumes "physical f" "\<not> clear_of c need f" "c \<le> d" "d mod 4096 = 0"
    "d < unat (align_up (sp_start f + sp_size f) FRAME_SIZE)"
  shows "\<not> clear_of d need f"
proof -
  have u: "unat (sp_start f + sp_size f) = unat (sp_start f) + unat (sp_size f)"
    using assms(1) by (intro unat_add_no_wrap) (simp add: physical_def)
  have "\<not> unat (sp_start f) + unat (sp_size f) \<le> d"
    using unat_align_up(4) [of "sp_start f + sp_size f" d] assms(1,4,5) u
    by (auto simp: physical_def)
  then show ?thesis using assms(2,3) by (auto simp: clear_of_def)
qed

definition first_fit :: "(nat \<Rightarrow> bool) \<Rightarrow> nat \<Rightarrow> u64 option \<Rightarrow> bool" where
  "first_fit P c r \<longleftrightarrow>
     (case r of
        None \<Rightarrow> \<forall>d. c \<le> d \<longrightarrow> \<not> P d
      | Some x \<Rightarrow> P (unat x) \<and> c \<le> unat x \<and> (\<forall>d. c \<le> d \<and> d < unat x \<longrightarrow> \<not> P d))"

lemma first_fit_skip:
  assumes "first_fit P c' r" "c \<le> c'" "\<And>d. c \<le> d \<Longrightarrow> d < c' \<Longrightarrow> \<not> P d"
  shows "first_fit P c r"
  using assms unfolding first_fit_def
  by (cases r) (simp_all, meson not_le, meson le_trans not_le)

lemma scan_region_correct:
  assumes "\<forall>f \<in> set forbidden. physical f" "unat rend \<le> 2 ^ 56" "unat need \<le> 2 ^ 56"
    and "unat c mod 4096 = 0" "unat c \<le> 2 ^ 56"
  shows "\<exists>r. scan_region need rend forbidden c = Some r \<and>
    first_fit (fits (unat need) (unat rend) forbidden) (unat c) r"
  using assms(4,5)
proof (induction "2 ^ 56 - unat c" arbitrary: c rule: less_induct)
  case less
  let ?P = "\<lambda>f. overlaps c need (sp_start f) (sp_size f)"
  have add: "unat (c + need) = unat c + unat need"
    using less.prems assms(3) by (intro unat_add_no_wrap) simp
  have ov: "?P f \<longleftrightarrow> \<not> clear_of (unat c) (unat need) f" if "f \<in> set forbidden" for f
    using overlaps_iff [of f c need] assms(1,3) less.prems(2) that by simp
  show ?case
  proof (cases "c + need \<le> rend")
    case False
    then have "first_fit (fits (unat need) (unat rend) forbidden) (unat c) None"
      using add by (auto simp: fits_def first_fit_def word_le_nat_alt)
    then show ?thesis using False by (subst scan_region.simps) simp
  next
    case room: True
    show ?thesis
    proof (cases "find ?P forbidden")
      case None
      then have "first_fit (fits (unat need) (unat rend) forbidden) (unat c) (Some c)"
        using ov less.prems(1) room add
        by (auto simp: fits_def first_fit_def find_None_iff word_le_nat_alt)
      then show ?thesis using None room by (subst scan_region.simps) auto
    next
      case (Some f)
      then have f: "f \<in> set forbidden" "\<not> clear_of (unat c) (unat need) f" "physical f"
        using find_SomeD [OF Some] ov assms(1) by auto
      let ?c = "align_up (sp_start f + sp_size f) FRAME_SIZE"
      have u: "unat (sp_start f + sp_size f) = unat (sp_start f) + unat (sp_size f)"
        using f(3) by (intro unat_add_no_wrap) (simp add: physical_def)
      then have "unat (sp_start f + sp_size f) \<le> 2 ^ 56" using f(3) by (simp add: physical_def)
      note al = unat_align_up [OF this]
      have lt: "unat c < unat ?c"
        using al(1) u f(2) by (auto simp: clear_of_def)
      then have "2 ^ 56 - unat ?c < 2 ^ 56 - unat c" using al(3) by linarith
      from less.hyps [OF this al(2,3)] obtain r where
        r: "scan_region need rend forbidden ?c = Some r"
          "first_fit (fits (unat need) (unat rend) forbidden) (unat ?c) r" by blast
      have "\<not> fits (unat need) (unat rend) forbidden d" if "unat c \<le> d" "d < unat ?c" for d
        using jump_skips_nothing [OF f(3,2) that(1) _ that(2)] f(1) by (auto simp: fits_def)
      then have "first_fit (fits (unat need) (unat rend) forbidden) (unat c) r"
        using first_fit_skip [OF r(2)] lt by simp
      moreover have "scan_region need rend forbidden c = Some r"
        using Some room r(1) by (subst scan_region.simps) simp
      ultimately show ?thesis by blast
    qed
  qed
qed


definition room_in :: "nat \<Rightarrow> Span list \<Rightarrow> Span \<Rightarrow> nat \<Rightarrow> bool" where
  "room_in need forbidden g c \<longleftrightarrow>
     unat (sp_start g) \<le> c \<and> fits need (unat (sp_start g) + unat (sp_size g)) forbidden c"

lemma unat_sp_end: "physical g \<Longrightarrow> unat (sp_end g) = unat (sp_start g) + unat (sp_size g)"
  by (simp add: sp_end_def unat_saturating_add physical_def)

lemma scan_of_region:
  assumes "\<forall>f \<in> set forbidden. physical f" "physical g" "unat need \<le> 2 ^ 56"
  shows "\<exists>r. scan_region need (sp_end g) forbidden (align_up (sp_start g) FRAME_SIZE) = Some r \<and>
    first_fit (room_in (unat need) forbidden g) 0 r"
proof -
  have st: "unat (sp_start g) \<le> 2 ^ 56" using assms(2) by (simp add: physical_def)
  note al = unat_align_up [OF st]
  have en: "unat (sp_end g) \<le> 2 ^ 56" using unat_sp_end [OF assms(2)] assms(2) by (simp add: physical_def)
  let ?c = "unat (align_up (sp_start g) FRAME_SIZE)"
  from scan_region_correct [OF assms(1) en assms(3) al(2,3)] obtain r where
    r: "scan_region need (sp_end g) forbidden (align_up (sp_start g) FRAME_SIZE) = Some r"
      "first_fit (fits (unat need) (unat (sp_end g)) forbidden) ?c r" by blast
  have "first_fit (room_in (unat need) forbidden g) ?c r"
    using r(2) al(1) unat_sp_end [OF assms(2)]
    by (auto simp: first_fit_def room_in_def split: option.splits)
  moreover have "\<not> room_in (unat need) forbidden g d" if "d < ?c" for d
    using al(4) [of d] that by (auto simp: room_in_def fits_def)
  ultimately have "first_fit (room_in (unat need) forbidden g) 0 r"
    using first_fit_skip [of _ ?c r 0] by simp
  then show ?thesis using r(1) by blast
qed

lemma place_bitmap_correct:
  assumes "\<forall>f \<in> set forbidden. physical f" "\<forall>g \<in> set ram. physical g" "unat need \<le> 2 ^ 56"
  shows "\<exists>r. place_bitmap need ram forbidden = Some r \<and>
    (case r of
       None \<Rightarrow> \<forall>g \<in> set ram. \<forall>c. \<not> room_in (unat need) forbidden g c
     | Some x \<Rightarrow> \<exists>pre g post. ram = pre @ g # post \<and> first_fit (room_in (unat need) forbidden g) 0 r \<and>
         (\<forall>h \<in> set pre. \<forall>c. \<not> room_in (unat need) forbidden h c))"
  using assms(2)
proof (induction ram)
  case (Cons g ram)
  have "physical g" using Cons.prems by simp
  from scan_of_region [OF assms(1) this assms(3)] obtain r where
    r: "scan_region need (sp_end g) forbidden (align_up (sp_start g) FRAME_SIZE) = Some r"
      "first_fit (room_in (unat need) forbidden g) 0 r" by blast
  show ?case
  proof (cases r)
    case None
    then have none: "\<forall>c. \<not> room_in (unat need) forbidden g c" using r(2) by (simp add: first_fit_def)
    from Cons obtain q where q: "place_bitmap need ram forbidden = Some q"
      "case q of
         None \<Rightarrow> \<forall>g \<in> set ram. \<forall>c. \<not> room_in (unat need) forbidden g c
       | Some x \<Rightarrow> \<exists>pre g post. ram = pre @ g # post \<and> first_fit (room_in (unat need) forbidden g) 0 q \<and>
           (\<forall>h \<in> set pre. \<forall>c. \<not> room_in (unat need) forbidden h c)" by auto
    have "place_bitmap need (g # ram) forbidden = Some q" using r(1) None q(1) by simp
    moreover have "\<exists>pre h post. g # ram = pre @ h # post \<and>
        first_fit (room_in (unat need) forbidden h) 0 q \<and>
        (\<forall>h \<in> set pre. \<forall>c. \<not> room_in (unat need) forbidden h c)" if "q = Some x" for x
    proof -
      from q(2) that obtain pre h post where "ram = pre @ h # post"
        "first_fit (room_in (unat need) forbidden h) 0 q"
        "\<forall>h \<in> set pre. \<forall>c. \<not> room_in (unat need) forbidden h c" by auto
      then show ?thesis using none
        by (intro exI [of _ "g # pre"] exI [of _ h] exI [of _ post]) simp
    qed
    ultimately show ?thesis using q(2) none by (cases q) auto
  next
    case (Some x)
    then have "place_bitmap need (g # ram) forbidden = Some r" using r(1) by simp
    then show ?thesis
      using r(2) Some by (intro exI [of _ r]) (auto intro!: exI [of _ "[]"])
  qed
qed simp



section \<open>The allocator the kernel starts with\<close>

lemma same_ground_touches: "same_ground a b \<Longrightarrow> touches b = touches a"
  by (simp add: same_ground_def touches_def fun_eq_iff)

lemma fold_mark_free:
  "pf_inv a \<Longrightarrow>
   pf_inv (fold (\<lambda>r a. mark_free a (sp_start r) (sp_size r)) rs a) \<and>
   same_ground a (fold (\<lambda>r a. mark_free a (sp_start r) (sp_size r)) rs a) \<and>
   used_set (fold (\<lambda>r a. mark_free a (sp_start r) (sp_size r)) rs a) =
     {i \<in> used_set a. \<forall>r \<in> set rs. \<not> touches a (sp_start r) (sp_size r) i}"
proof (induction rs arbitrary: a)
  case (Cons r rs)
  note m = mark_free_correct [OF Cons.prems, of "sp_start r" "sp_size r"]
  show ?case
    using Cons.IH [OF m(1)] m(2) same_ground_touches [OF m(3)] same_ground_trans [OF m(3)] by auto
qed simp

lemma fold_mark_used:
  "pf_inv a \<Longrightarrow>
   pf_inv (fold (\<lambda>r a. mark_used a (sp_start r) (sp_size r)) rs a) \<and>
   same_ground a (fold (\<lambda>r a. mark_used a (sp_start r) (sp_size r)) rs a) \<and>
   used_set (fold (\<lambda>r a. mark_used a (sp_start r) (sp_size r)) rs a) =
     used_set a \<union> {i. i < pf_total a \<and> (\<exists>r \<in> set rs. touches a (sp_start r) (sp_size r) i)}"
proof (induction rs arbitrary: a)
  case (Cons r rs)
  note m = mark_used_correct [OF Cons.prems, of "sp_start r" "sp_size r"]
  have "pf_total (mark_used a (sp_start r) (sp_size r)) = pf_total a"
    using m(3) by (simp add: same_ground_def)
  then show ?case
    using Cons.IH [OF m(1)] m(2) same_ground_touches [OF m(3)] same_ground_trans [OF m(3)] by auto
qed simp

lemma unat_next_multiple_of:
  assumes "unat x \<le> 2 ^ 56"
  shows "unat x \<le> unat (next_multiple_of x FRAME_SIZE)"
    and "unat (next_multiple_of x FRAME_SIZE) mod 4096 = 0"
    and "unat (next_multiple_of x FRAME_SIZE) \<le> 2 ^ 57"
proof -
  have m: "unat (x mod 4096) = unat x mod 4096" by (simp add: unat_mod)
  have z: "x mod 4096 = 0 \<longleftrightarrow> unat x mod 4096 = 0" using m by (metis unat_0 unat_eq_zero)
  have "unat (4096 - x mod 4096) = 4096 - unat x mod 4096"
    using m by (subst unat_sub) (simp_all add: word_le_nat_alt less_imp_le)
  then have a: "unat (x + (4096 - x mod 4096)) = unat x + (4096 - unat x mod 4096)"
    using assms by (subst unat_add_no_wrap) simp_all
  have "y + (4096 - r) = (q + 1) * 4096" if "q * 4096 + r = y" "r < 4096" for y q r :: nat
    using that by simp
  then have "unat x + (4096 - unat x mod 4096) = (unat x div 4096 + 1) * 4096"
    using div_mult_mod_eq [of "unat x" 4096] by (metis mod_less_divisor zero_less_numeral)
  then have "(unat x + (4096 - unat x mod 4096)) mod 4096 = 0" by simp
  moreover have "unat x + (4096 - unat x mod 4096) \<le> 2 ^ 56 + 4096"
    using assms by (intro add_mono) simp_all
  then have "unat x + (4096 - unat x mod 4096) \<le> 2 ^ 57" by (rule order_trans) simp
  moreover have "next_multiple_of x FRAME_SIZE = (if unat x mod 4096 = 0 then x
      else x + (4096 - x mod 4096))"
    by (simp only: next_multiple_of_def FRAME_SIZE_def z)
  moreover have "unat x \<le> unat x + (4096 - unat x mod 4096)" by (rule le_add1)
  ultimately show "unat x \<le> unat (next_multiple_of x FRAME_SIZE)"
    "unat (next_multiple_of x FRAME_SIZE) mod 4096 = 0"
    "unat (next_multiple_of x FRAME_SIZE) \<le> 2 ^ 57"
    using assms unfolding a [symmetric] by auto
qed

text \<open>The machine as the bring-up sees it: the lowest RAM address, and the number of frames from
  there to the end of the highest region, RAM or reserved.\<close>

definition ram_base :: "Span list \<Rightarrow> u64" where
  "ram_base ram = Min (set (map sp_start ram))"

definition frame_count :: "Span list \<Rightarrow> Span list \<Rightarrow> nat" where
  "frame_count ram forbidden =
     page_frames_in (next_multiple_of (Max (set (map sp_end ram @ map sp_end forbidden))) FRAME_SIZE
       - ram_base ram)"

lemma frame_count_covers:
  assumes "ram \<noteq> []" "\<forall>g \<in> set ram \<union> set forbidden. physical g"
    "unat (ram_base ram) mod 4096 = 0"
  defines "n \<equiv> frame_count ram forbidden"
  shows "unat (ram_base ram) + n * 4096 \<le> 2 ^ 57"
    and "\<forall>g \<in> set ram \<union> set forbidden.
      unat (sp_start g) + unat (sp_size g) \<le> unat (ram_base ram) + n * 4096"
proof -
  let ?E = "set (map sp_end ram @ map sp_end forbidden)"
  let ?h = "Max ?E" and ?b = "ram_base ram"
  have fin: "finite ?E" "?E \<noteq> {}" using assms(1) by auto
  have "?h \<in> ?E" using Max_in [OF fin] .
  then obtain g where g: "g \<in> set ram \<union> set forbidden" "?h = sp_end g" by auto
  then have h: "unat ?h \<le> 2 ^ 56" using unat_sp_end [of g] assms(2) by (auto simp: physical_def)
  have ends: "unat (sp_start g) + unat (sp_size g) \<le> unat ?h" if "g \<in> set ram \<union> set forbidden" for g
  proof -
    have "sp_end g \<le> ?h" using that by (intro Max_ge [OF fin(1)]) auto
    then show ?thesis using unat_sp_end [of g] assms(2) that by (simp add: word_le_nat_alt)
  qed
  note nm = unat_next_multiple_of [OF h]
  have "?b \<in> set (map sp_start ram)" unfolding ram_base_def using assms(1) by (intro Min_in) auto
  then obtain g0 where "g0 \<in> set ram" "?b = sp_start g0" by auto
  then have bh: "unat ?b \<le> unat (next_multiple_of ?h FRAME_SIZE)"
    using ends [of g0] nm(1) by auto
  then have "n = (unat (next_multiple_of ?h FRAME_SIZE) - unat ?b) div 4096"
    unfolding n_def frame_count_def page_frames_in_def
    by (simp add: unat_div unat_sub word_le_nat_alt FRAME_SIZE_def)
  moreover have "4096 dvd unat (next_multiple_of ?h FRAME_SIZE) - unat ?b"
    using nm(2) assms(3) by (simp add: mod_eq_0_iff_dvd)
  ultimately have n: "unat ?b + n * 4096 = unat (next_multiple_of ?h FRAME_SIZE)"
    using bh by simp
  show "unat ?b + n * 4096 \<le> 2 ^ 57" using n nm(3) by simp
  show "\<forall>g \<in> set ram \<union> set forbidden. unat (sp_start g) + unat (sp_size g) \<le> unat ?b + n * 4096"
    using ends nm(1) n by fastforce
qed


lemma bring_up_unfold:
  assumes "ram \<noteq> []" "length ram \<le> MAX_REGIONS"
  shows "bring_up_page_frames mem ram forbidden =
    (case place_bitmap (of_nat (bitmap_bytes (frame_count ram forbidden))) ram forbidden of
       None \<Rightarrow> None
     | Some None \<Rightarrow> Some None
     | Some (Some start) \<Rightarrow>
         Some (map_option (\<lambda>a.
           (mark_used
             (fold (\<lambda>r a. mark_used a (sp_start r) (sp_size r)) forbidden
               (fold (\<lambda>r a. mark_free a (sp_start r) (sp_size r)) ram a))
             start (of_nat (bitmap_bytes (frame_count ram forbidden))), start))
           (new_frames (ram_base ram) (frame_count ram forbidden)
             (map (\<lambda>k. mem (start + of_nat k)) [0..<bitmap_bytes (frame_count ram forbidden)]))))"
  using assms
  by (simp add: bring_up_page_frames_def ram_base_def frame_count_def Let_def split: option.splits)

lemma boot_used_set:
  assumes "new_frames base n bitmap = Some a" "unat base + n * 4096 \<le> 2 ^ 57"
    and b_def: "b = mark_used (fold (\<lambda>r a. mark_used a (sp_start r) (sp_size r)) forbidden
      (fold (\<lambda>r a. mark_free a (sp_start r) (sp_size r)) ram a)) start len"
  shows "pf_inv b" and "pf_base b = base" and "pf_total b = n"
    and "i < n \<Longrightarrow> i \<notin> used_set b \<longleftrightarrow>
      (\<exists>g \<in> set ram. touches b (sp_start g) (sp_size g) i) \<and>
      (\<forall>f \<in> set forbidden. \<not> touches b (sp_start f) (sp_size f) i) \<and> \<not> touches b start len i"
proof -
  have "unat base + n * 4096 \<le> 2 ^ 64" using assms(2) by simp
  note new = new_frames_correct [OF assms(1) this]
  define a1 where "a1 = fold (\<lambda>r a. mark_free a (sp_start r) (sp_size r)) ram a"
  define a2 where "a2 = fold (\<lambda>r a. mark_used a (sp_start r) (sp_size r)) forbidden a1"
  have b: "b = mark_used a2 start len" by (simp add: b_def a1_def a2_def)
  have 1: "pf_inv a1" "same_ground a a1"
    "used_set a1 = {i \<in> used_set a. \<forall>r \<in> set ram. \<not> touches a (sp_start r) (sp_size r) i}"
    using fold_mark_free [OF new(1), of ram] by (simp_all add: a1_def)
  have 2: "pf_inv a2" "same_ground a1 a2" "used_set a2 = used_set a1 \<union>
      {i. i < pf_total a1 \<and> (\<exists>r \<in> set forbidden. touches a1 (sp_start r) (sp_size r) i)}"
    using fold_mark_used [OF 1(1), of forbidden] by (simp_all add: a2_def)
  note 3 = mark_used_correct [OF 2(1), of start len, folded b]
  note g = same_ground_trans [OF same_ground_trans [OF 1(2) 2(2)] 3(3)]
  note t = same_ground_touches [OF 1(2)] same_ground_touches [OF 2(2)] same_ground_touches [OF 3(3)]
  show "pf_inv b" "pf_base b = base" "pf_total b = n"
    using 3(1) g new(3,4) by (simp_all add: same_ground_def)
  have n: "pf_total a1 = n" "pf_total a2 = n"
    using 1(2) 2(2) new(4) by (simp_all add: same_ground_def)
  show "i \<notin> used_set b \<longleftrightarrow>
      (\<exists>g \<in> set ram. touches b (sp_start g) (sp_size g) i) \<and>
      (\<forall>f \<in> set forbidden. \<not> touches b (sp_start f) (sp_size f) i) \<and> \<not> touches b start len i"
    if "i < n"
    unfolding 3(2) 2(3) 1(3) new(2) t n using that by auto
qed


lemma bitmap_bytes_small:
  assumes "n * 4096 \<le> 2 ^ 57"
  shows "unat (of_nat (bitmap_bytes n) :: u64) = bitmap_bytes n" and "bitmap_bytes n \<le> 2 ^ 56"
proof -
  have "bitmap_bytes n \<le> n" by (auto simp: bitmap_bytes_def)
  moreover have "n \<le> 2 ^ 45" using assms by simp
  ultimately have "bitmap_bytes n \<le> 2 ^ 45" by linarith
  then show "unat (of_nat (bitmap_bytes n) :: u64) = bitmap_bytes n" "bitmap_bytes n \<le> 2 ^ 56"
    by (simp_all add: unat_of_nat)
qed

lemma new_frames_for_boot:
  assumes "unat base mod 4096 = 0" "length bitmap = bitmap_bytes n"
  shows "\<exists>a. new_frames base n bitmap = Some a"
proof -
  have "unat (base mod 4096) = 0" using assms(1) by (simp add: unat_mod)
  then have "base mod FRAME_SIZE = 0" by (simp add: FRAME_SIZE_def unat_eq_zero)
  then show ?thesis using assms(2) by (simp add: new_frames_def)
qed


section \<open>Properties\<close>

text \<open>The bitmap is placed by first fit and never on anything spoken for: on a machine whose
  regions lie below the physical address limit the search returns, the address it finds is the
  lowest frame-aligned one in the first RAM region that has room clear of every reserved region, and
  it gives up (the panic) only when no region has room at all.\<close>

theorem bitmap_placed_first_fit:
  assumes "\<forall>f \<in> set forbidden. physical f" "\<forall>g \<in> set ram. physical g" "unat need \<le> 2 ^ 56"
  shows "\<exists>r. place_bitmap need ram forbidden = Some r \<and>
    (r = None \<longleftrightarrow> (\<forall>g \<in> set ram. \<forall>c. \<not> room_in (unat need) forbidden g c)) \<and>
    (\<forall>x. r = Some x \<longrightarrow>
       (\<exists>pre g post. ram = pre @ g # post \<and> room_in (unat need) forbidden g (unat x) \<and>
          (\<forall>c < unat x. \<not> room_in (unat need) forbidden g c) \<and>
          (\<forall>h \<in> set pre. \<forall>c. \<not> room_in (unat need) forbidden h c)))"
proof -
  from place_bitmap_correct [OF assms] obtain r where
    r: "place_bitmap need ram forbidden = Some r"
      "case r of
         None \<Rightarrow> \<forall>g \<in> set ram. \<forall>c. \<not> room_in (unat need) forbidden g c
       | Some x \<Rightarrow> \<exists>pre g post. ram = pre @ g # post \<and> first_fit (room_in (unat need) forbidden g) 0 r \<and>
           (\<forall>h \<in> set pre. \<forall>c. \<not> room_in (unat need) forbidden h c)" by blast
  show ?thesis
  proof (cases r)
    case None
    then show ?thesis using r by simp
  next
    case (Some x)
    with r(2) obtain pre g post where p: "ram = pre @ g # post"
      "room_in (unat need) forbidden g (unat x)" "\<forall>c < unat x. \<not> room_in (unat need) forbidden g c"
      "\<forall>h \<in> set pre. \<forall>c. \<not> room_in (unat need) forbidden h c" by (auto simp: first_fit_def)
    then show ?thesis using r(1) Some by auto
  qed
qed

definition sample_ram :: "Span list" where
  "sample_ram = [\<lparr>sp_start = 0x40000000, sp_size = 0x2000\<rparr>, \<lparr>sp_start = 0x40004000, sp_size = 0x4000\<rparr>]"

definition sample_forbidden :: "Span list" where
  "sample_forbidden = [\<lparr>sp_start = 0x40000800, sp_size = 0x1000\<rparr>, \<lparr>sp_start = 0x40003f00, sp_size = 0x110\<rparr>]"

lemma sample_physical:
  "\<forall>f \<in> set sample_forbidden. physical f" "\<forall>g \<in> set sample_ram. physical g"
  by (simp_all add: sample_ram_def sample_forbidden_def physical_def)

lemma sample_room: "room_in 1 sample_forbidden \<lparr>sp_start = 0x40004000, sp_size = 0x4000\<rparr> 0x40005000"
  by (simp add: room_in_def fits_def clear_of_def sample_forbidden_def)

theorem bitmap_placed_first_fit_witness:
  "\<exists>x. place_bitmap 1 sample_ram sample_forbidden = Some (Some x)"
proof -
  have "unat (1 :: u64) \<le> 2 ^ 56" by simp
  from bitmap_placed_first_fit [OF sample_physical this] obtain r where
    "place_bitmap 1 sample_ram sample_forbidden = Some r"
    "r = None \<longleftrightarrow> (\<forall>g \<in> set sample_ram. \<forall>c. \<not> room_in (unat (1 :: u64)) sample_forbidden g c)" by blast
  moreover have "\<lparr>sp_start = 0x40004000, sp_size = 0x4000\<rparr> \<in> set sample_ram"
    by (simp add: sample_ram_def)
  ultimately show ?thesis using sample_room by (cases r) auto
qed

text \<open>C22. The allocator the kernel starts with gives out only real memory that nobody owns: the
  bring-up returns, and panics only when no RAM region has room for the bitmap; otherwise the bitmap
  lies in RAM clear of every reserved region, the allocator reaches the end of every region, and a
  frame is free exactly when it shares a byte with some RAM region and none with any reserved region
  or with the bitmap itself.\<close>

theorem boot_frames_are_safe:
  assumes "ram \<noteq> []" "length ram \<le> MAX_REGIONS" "\<forall>g \<in> set ram \<union> set forbidden. physical g"
    "unat (ram_base ram) mod 4096 = 0"
  shows "\<exists>r. bring_up_page_frames mem ram forbidden = Some r \<and>
    (r = None \<longleftrightarrow>
      (\<forall>g \<in> set ram. \<forall>c. \<not> room_in (bitmap_bytes (frame_count ram forbidden)) forbidden g c)) \<and>
    (\<forall>a start. r = Some (a, start) \<longrightarrow> pf_inv a \<and>
      pf_base a = ram_base ram \<and> pf_total a = frame_count ram forbidden \<and>
      (\<exists>g \<in> set ram. room_in (bitmap_bytes (frame_count ram forbidden)) forbidden g (unat start)) \<and>
      (\<forall>g \<in> set ram \<union> set forbidden.
         unat (sp_start g) + unat (sp_size g) \<le> unat (pf_base a) + pf_total a * 4096) \<and>
      (\<forall>i < pf_total a. is_used a (frame_addr a i) = Some False \<longleftrightarrow>
         (\<exists>g \<in> set ram. shares_byte a (sp_start g) (sp_size g) i) \<and>
         (\<forall>f \<in> set forbidden. \<not> shares_byte a (sp_start f) (sp_size f) i) \<and>
         \<not> shares_byte a start (of_nat (bitmap_bytes (frame_count ram forbidden))) i))"
proof -
  let ?n = "frame_count ram forbidden"
  let ?bytes = "bitmap_bytes ?n"
  note cov = frame_count_covers [OF assms(1,3,4)]
  have n: "?n * 4096 \<le> 2 ^ 57" using cov(1) by simp
  note bs = bitmap_bytes_small [OF n]
  have ph: "\<forall>f \<in> set forbidden. physical f" "\<forall>g \<in> set ram. physical g" using assms(3) by auto
  from place_bitmap_correct [OF ph, of "of_nat ?bytes", unfolded bs(1), OF bs(2)] obtain q where
    q: "place_bitmap (of_nat ?bytes) ram forbidden = Some q"
      "case q of
         None \<Rightarrow> \<forall>g \<in> set ram. \<forall>c. \<not> room_in ?bytes forbidden g c
       | Some x \<Rightarrow> \<exists>pre g post. ram = pre @ g # post \<and> first_fit (room_in ?bytes forbidden g) 0 q \<and>
           (\<forall>h \<in> set pre. \<forall>c. \<not> room_in ?bytes forbidden h c)" by blast
  note unf = bring_up_unfold [OF assms(1,2), of mem forbidden, unfolded q(1)]
  show ?thesis
  proof (cases q)
    case None
    then show ?thesis using q(2) unf by simp
  next
    case (Some x)
    then have "\<exists>pre g post. ram = pre @ g # post \<and> room_in ?bytes forbidden g (unat x)"
      using q(2) unfolding first_fit_def by (simp only: option.case) blast
    then obtain g where g: "g \<in> set ram" "room_in ?bytes forbidden g (unat x)"
      by (metis in_set_conv_decomp)
    obtain a where a: "new_frames (ram_base ram) ?n (map (\<lambda>k. mem (x + of_nat k)) [0..<?bytes]) = Some a"
      using new_frames_for_boot [OF assms(4)] by (metis length_map length_upt minus_nat.diff_0)
    define b where "b = mark_used (fold (\<lambda>r a. mark_used a (sp_start r) (sp_size r)) forbidden
      (fold (\<lambda>r a. mark_free a (sp_start r) (sp_size r)) ram a)) x (of_nat ?bytes)"
    note B = boot_used_set [OF a cov(1) b_def]
    have r: "bring_up_page_frames mem ram forbidden = Some (Some (b, x))"
      using unf Some a by (simp add: b_def)
    have "is_used b (frame_addr b i) = Some False \<longleftrightarrow>
         (\<exists>g \<in> set ram. shares_byte b (sp_start g) (sp_size g) i) \<and>
         (\<forall>f \<in> set forbidden. \<not> shares_byte b (sp_start f) (sp_size f) i) \<and>
         \<not> shares_byte b x (of_nat ?bytes) i" if "i < pf_total b" for i
      using B(4) [of i] that B(3) is_used_frame_addr [OF B(1) that]
        shares_byte_iff [OF B(1) that] by auto
    then show ?thesis using r g B(1-3) cov(2) by auto
  qed
qed

lemma sample_base: "ram_base sample_ram = 0x40000000"
  by (simp add: ram_base_def sample_ram_def)

lemma sample_count: "frame_count sample_ram sample_forbidden = 8"
proof -
  have "map sp_end sample_ram = [0x40002000, 0x40008000]"
    "map sp_end sample_forbidden = [0x40001800, 0x40004010]"
    by (simp_all add: sample_ram_def sample_forbidden_def sp_end_def saturating_add_def)
  then show ?thesis
    unfolding frame_count_def sample_base
    by (simp add: next_multiple_of_def FRAME_SIZE_def page_frames_in_def)
qed

theorem boot_frames_are_safe_witness:
  "\<exists>a start. bring_up_page_frames (\<lambda>_. 0) sample_ram sample_forbidden = Some (Some (a, start)) \<and>
     pf_total a = 8 \<and> is_used a (frame_addr a 0) \<noteq> Some False"
proof -
  have h: "sample_ram \<noteq> []" "length sample_ram \<le> MAX_REGIONS"
    "\<forall>g \<in> set sample_ram \<union> set sample_forbidden. physical g"
    "unat (ram_base sample_ram) mod 4096 = 0"
    using sample_physical sample_base by (auto simp: sample_ram_def MAX_REGIONS_def)
  note b = boot_frames_are_safe [OF h, of "\<lambda>_. 0"]
  have one: "bitmap_bytes 8 = 1" by (simp add: bitmap_bytes_def)
  from b obtain r where r: "bring_up_page_frames (\<lambda>_. 0) sample_ram sample_forbidden = Some r"
    "r = None \<longleftrightarrow> (\<forall>g \<in> set sample_ram. \<forall>c. \<not> room_in 1 sample_forbidden g c)"
    "\<And>a start. r = Some (a, start) \<Longrightarrow> pf_base a = 0x40000000 \<and> pf_total a = 8 \<and> pf_inv a \<and>
      (\<forall>i < pf_total a. is_used a (frame_addr a i) = Some False \<longrightarrow>
        (\<forall>f \<in> set sample_forbidden. \<not> shares_byte a (sp_start f) (sp_size f) i))"
    unfolding sample_base sample_count one by blast
  have "\<lparr>sp_start = 0x40004000, sp_size = 0x4000\<rparr> \<in> set sample_ram" by (simp add: sample_ram_def)
  then obtain a start where a: "r = Some (a, start)" using r(2) sample_room by (cases r) auto
  have "touches a 0x40000800 0x1000 0" using r(3) [OF a] by (simp add: touches_def)
  then have "shares_byte a 0x40000800 0x1000 0" using r(3) [OF a] shares_byte_iff [of a 0] by simp
  moreover have "\<lparr>sp_start = 0x40000800, sp_size = 0x1000\<rparr> \<in> set sample_forbidden"
    by (simp add: sample_forbidden_def)
  ultimately have "is_used a (frame_addr a 0) \<noteq> Some False" using r(3) [OF a] by fastforce
  then show ?thesis using r(1,3) a by auto
qed

end
