(* ===== verification/Asid.thy ===== *)
theory Asid
  imports Id_Allocator
begin

text \<open>
  The address space identifier allocator, \<open>src/crates/address_space_identifier/src/lib.rs\<close>:
  a bitmap of four 64-bit words, searched by counting trailing ones.  Identifier 0 is the kernel's.
  The \<open>debug_assert!\<close> lines of \<open>free\<close> are absent from a release build; the guard that
  follows them is modelled.
\<close>

section \<open>The allocator\<close>

definition ASIDS :: nat where
  "ASIDS = 256"

record Allocator =
  as_bitmap :: "u64 list"

definition new_asids :: Allocator where
  "new_asids = \<lparr>as_bitmap = (replicate (ASIDS div 64) 0)[0 := 1]\<rparr>"

fun claim_bit :: "nat \<Rightarrow> u64 list \<Rightarrow> (nat \<times> u64 list) option" where
  "claim_bit i [] = None"
| "claim_bit i (word # words) =
     (if word \<noteq> - 1
      then (let b = trailing_ones word in Some (i * 64 + b, (word OR bit_mask b) # words))
      else map_option (\<lambda>(n, words'). (n, word # words')) (claim_bit (i + 1) words))"

definition asid_alloc :: "Allocator \<Rightarrow> (u16 \<times> Allocator) option" where
  "asid_alloc a =
     map_option (\<lambda>(n, words). (of_nat n, a\<lparr>as_bitmap := words\<rparr>)) (claim_bit 0 (as_bitmap a))"

definition asid_free :: "Allocator \<Rightarrow> u16 \<Rightarrow> Allocator" where
  "asid_free a asid =
     (if asid \<noteq> 0 \<and> unat asid < ASIDS
      then a\<lparr>as_bitmap := (as_bitmap a)[unat asid div 64 :=
             as_bitmap a ! (unat asid div 64) AND NOT (bit_mask (unat asid mod 64))]\<rparr>
      else a)"


section \<open>The bitmap as a set\<close>

definition bits_of :: "u64 list \<Rightarrow> nat set" where
  "bits_of ws = {n. n < 64 * length ws \<and> bit (ws ! (n div 64)) (n mod 64)}"

lemma bits_of_Nil [simp]: "bits_of [] = {}"
  by (simp add: bits_of_def)

lemma bits_of_Cons: "bits_of (w # ws) = {n. bit w n} \<union> (\<lambda>n. n + 64) ` bits_of ws"
proof (rule set_eqI)
  fix n
  show "n \<in> bits_of (w # ws) \<longleftrightarrow> n \<in> {n. bit w n} \<union> (\<lambda>n. n + 64) ` bits_of ws"
  proof (cases "n < 64")
    case True
    then have "n \<notin> (\<lambda>n. n + 64) ` bits_of ws" by auto
    then show ?thesis using True by (simp add: bits_of_def)
  next
    case False
    then obtain m where m: "n = m + 64" by (metis le_add_diff_inverse2 not_less)
    have "\<not> bit w (m + 64)" by (auto dest: bit_imp_le_length)
    moreover have "m + 64 \<in> bits_of (w # ws) \<longleftrightarrow> m \<in> bits_of ws"
      using div_add_self2 [of "64 :: nat" m] by (simp add: bits_of_def)
    ultimately show ?thesis unfolding m by auto
  qed
qed

lemma trailing_ones_free:
  assumes "w \<noteq> (- 1 :: u64)"
  shows "\<not> bit w (trailing_ones w)" and "trailing_ones w < 64"
proof -
  have "NOT w \<noteq> 0" using assms by (metis bit.compl_one bit.double_compl)
  from trailing_zeros_nonzero [OF this] show "\<not> bit w (trailing_ones w)" "trailing_ones w < 64"
    by (auto simp: trailing_ones_def bit_simps)
qed

lemma claim_bit_Some:
  "claim_bit i ws = Some (n, ws') \<Longrightarrow>
   \<exists>m. n = i * 64 + m \<and> m < 64 * length ws \<and> m \<notin> bits_of ws \<and> bits_of ws' = insert m (bits_of ws) \<and>
     length ws' = length ws"
proof (induction ws arbitrary: i n ws')
  case (Cons w ws)
  show ?case
  proof (cases "w = - 1")
    case True
    with Cons.prems obtain ws1 where c: "claim_bit (i + 1) ws = Some (n, ws1)" "ws' = w # ws1"
      by auto
    from Cons.IH [OF c(1)] obtain m where m: "n = (i + 1) * 64 + m" "m < 64 * length ws"
      "m \<notin> bits_of ws" "bits_of ws1 = insert m (bits_of ws)" "length ws1 = length ws" by blast
    have "\<not> bit w (m + 64)" by (auto dest: bit_imp_le_length)
    then show ?thesis using m c(2) by (intro exI [of _ "m + 64"]) (auto simp: bits_of_Cons)
  next
    case False
    note t = trailing_ones_free [OF False]
    have "trailing_ones w \<notin> (\<lambda>n. n + 64) ` bits_of ws" using t(2) by auto
    then show ?thesis
      using Cons.prems False t
      by (intro exI [of _ "trailing_ones w"]) (auto simp: Let_def bits_of_Cons bit_facts)
  qed
qed simp

lemma claim_bit_None_iff:
  "claim_bit i ws = None \<longleftrightarrow> bits_of ws = {..<64 * length ws}"
proof -
  have "claim_bit i ws = None \<longleftrightarrow> (\<forall>w \<in> set ws. w = - 1)"
    by (induction ws arbitrary: i) (auto simp: Let_def)
  also have "\<dots> \<longleftrightarrow> bits_of ws = {..<64 * length ws}"
  proof
    assume a: "\<forall>w \<in> set ws. w = - 1"
    have "bit (ws ! (n div 64)) (n mod 64)" if "n < 64 * length ws" for n
    proof -
      have "ws ! (n div 64) = - 1" using a that by (simp add: div_less_iff_less_mult mult.commute)
      then show ?thesis by simp
    qed
    then show "bits_of ws = {..<64 * length ws}" by (auto simp: bits_of_def)
  next
    assume b: "bits_of ws = {..<64 * length ws}"
    show "\<forall>w \<in> set ws. w = - 1"
    proof
      fix w assume "w \<in> set ws"
      then obtain k where k: "k < length ws" "w = ws ! k" by (metis in_set_conv_nth)
      show "w = - 1"
      proof (rule bit_word_eqI)
        fix j assume j: "j < LENGTH(64)"
        then have "64 * k + j \<in> bits_of ws" using b k(1) by simp
        then show "bit w j \<longleftrightarrow> bit (- 1 :: u64) j" using j k(2) by (simp add: bits_of_def)
      qed
    qed
  qed
  finally show ?thesis .
qed



section \<open>The allocator as an allocator of names\<close>

definition asid_inv :: "Allocator \<Rightarrow> bool" where
  "asid_inv a \<longleftrightarrow> length (as_bitmap a) = 4 \<and> 0 \<in> bits_of (as_bitmap a)"

definition live_asids :: "Allocator \<Rightarrow> u16 set" where
  "live_asids a = of_nat ` bits_of (as_bitmap a)"

definition user_asids :: "u16 set" where
  "user_asids = of_nat ` {1..<ASIDS}"

definition asid_take :: "unit \<Rightarrow> Allocator \<Rightarrow> (u16 list \<times> Allocator) option" where
  "asid_take r a = map_option (\<lambda>(x, b). ([x], b)) (asid_alloc a)"

lemma inj_asid: "inj_on (of_nat :: nat \<Rightarrow> u16) {..<256}"
proof (rule inj_onI)
  fix x y :: nat
  assume xy: "x \<in> {..<256}" "y \<in> {..<256}" and "of_nat x = (of_nat y :: u16)"
  then have "unat (of_nat x :: u16) = unat (of_nat y :: u16)" by simp
  then show "x = y" using xy by (simp add: unat_of_nat)
qed

lemma asid_bits_lt: "length (as_bitmap a) = 4 \<Longrightarrow> bits_of (as_bitmap a) \<subseteq> {..<256}"
  by (auto simp: bits_of_def)

lemma asid_alloc_Some:
  assumes "asid_inv a" "asid_alloc a = Some (x, b)"
  shows "\<exists>n. x = of_nat n \<and> n \<in> {1..<256} - bits_of (as_bitmap a) \<and>
    bits_of (as_bitmap b) = insert n (bits_of (as_bitmap a)) \<and> asid_inv b"
proof -
  obtain n where n: "claim_bit 0 (as_bitmap a) = Some (n, as_bitmap b)" "x = of_nat n"
    using assms(2) by (auto simp: asid_alloc_def)
  note c = claim_bit_Some [OF n(1)]
  then have "0 < n" using assms(1) by (cases "n = 0") (auto simp: asid_inv_def)
  then show ?thesis using c n(2) assms(1) by (auto simp: asid_inv_def)
qed

lemma asid_free_correct:
  assumes "asid_inv a" "n \<in> {1..<256}"
  shows "asid_inv (asid_free a (of_nat n))"
    and "bits_of (as_bitmap (asid_free a (of_nat n))) = bits_of (as_bitmap a) - {n}"
proof -
  have u: "unat (of_nat n :: u16) = n" using assms(2) by (simp add: unat_of_nat)
  then have "(of_nat n :: u16) \<noteq> 0" using assms(2) by auto
  then have f: "as_bitmap (asid_free a (of_nat n)) =
      (as_bitmap a)[n div 64 := as_bitmap a ! (n div 64) AND NOT (bit_mask (n mod 64))]"
    using assms(2) u by (simp add: asid_free_def ASIDS_def)
  have same: "k mod 64 = n mod 64 \<longleftrightarrow> k = n" if "k div 64 = n div 64" for k
    using that by (metis div_mult_mod_eq)
  show bits: "bits_of (as_bitmap (asid_free a (of_nat n))) = bits_of (as_bitmap a) - {n}"
  proof (rule set_eqI)
    fix k
    have "n div 64 < length (as_bitmap a)"
      using assms by (simp add: asid_inv_def div_less_iff_less_mult)
    then show "k \<in> bits_of (as_bitmap (asid_free a (of_nat n))) \<longleftrightarrow>
        k \<in> bits_of (as_bitmap a) - {n}"
      unfolding f bits_of_def using same [of k]
      by (cases "k div 64 = n div 64") (auto simp: bit_clear_bit)
  qed
  show "asid_inv (asid_free a (of_nat n))"
    using assms bits f by (simp add: asid_inv_def)
qed

interpretation asids: id_allocator asid_inv live_asids "\<lambda>_. user_asids" asid_take
  "\<lambda>a x. Some (asid_free a x)"
proof
  fix a r xs b
  assume inv: "asid_inv a" and t: "asid_take r a = Some (xs, b)"
  then obtain x where x: "asid_alloc a = Some (x, b)" "xs = [x]" by (auto simp: asid_take_def)
  from asid_alloc_Some [OF inv x(1)] obtain n where n: "x = of_nat n"
    "n \<in> {1..<256} - bits_of (as_bitmap a)"
    "bits_of (as_bitmap b) = insert n (bits_of (as_bitmap a))" "asid_inv b" by blast
  have "bits_of (as_bitmap a) \<subseteq> {..<256}" using inv by (simp add: asid_inv_def asid_bits_lt)
  then have "of_nat n \<notin> live_asids a"
    using inj_on_image_mem_iff [OF inj_asid, of n "bits_of (as_bitmap a)"] n(2)
    by (simp add: live_asids_def)
  then show "distinct xs \<and> set xs \<subseteq> user_asids - live_asids a"
    using n x(2) by (simp add: user_asids_def ASIDS_def)
  show "asid_inv b \<and> user_asids = user_asids \<and> live_asids b = live_asids a \<union> set xs"
    using n x(2) by (simp add: live_asids_def)
next
  fix a x
  assume inv: "asid_inv a" and "x \<in> user_asids"
  then obtain n where n: "x = of_nat n" "n \<in> {1..<256}" by (auto simp: user_asids_def ASIDS_def)
  note f = asid_free_correct [OF inv n(2)]
  have "bits_of (as_bitmap a) \<subseteq> {..<256}" using inv by (simp add: asid_inv_def asid_bits_lt)
  then have "live_asids (asid_free a x) = live_asids a - {x}"
    using inj_on_image_set_diff [OF inj_asid, of "bits_of (as_bitmap a)" "{n}"] n f(2)
    by (simp add: live_asids_def) blast
  then show "\<exists>b. Some (asid_free a x) = Some b \<and> asid_inv b \<and> user_asids = user_asids \<and>
      live_asids b = live_asids a - {x}"
    using f(1) n(1) by blast
qed

lemma new_asids_bits: "bits_of (as_bitmap new_asids) = {0}"
proof -
  have "as_bitmap new_asids = [1, 0, 0, 0]" by code_simp
  then show ?thesis by (auto simp: bits_of_Cons bit_1_iff)
qed

lemma new_asids_inv: "asid_inv new_asids"
  using new_asids_bits by (simp add: asid_inv_def) (simp add: new_asids_def ASIDS_def)

lemma asid_alloc_None_iff:
  assumes "asid_inv a"
  shows "asid_alloc a = None \<longleftrightarrow> bits_of (as_bitmap a) = {..<256}"
  using claim_bit_None_iff [of 0 "as_bitmap a"] assms by (simp add: asid_alloc_def asid_inv_def)

text \<open>C34. No two address spaces ever share an identifier: over any sequence of allocations and of
  releases by the holders, starting from the fresh allocator, the identifiers held are pairwise
  different and lie between 1 and 255, so none is the kernel's 0; and allocation is refused exactly
  when all 255 of them are held.\<close>

theorem asids_never_shared:
  "\<exists>a held. run_requests asid_take (\<lambda>a x. Some (asid_free a x)) ops new_asids [] = Some (a, held) \<and>
     distinct held \<and> set held \<subseteq> {1..255} \<and> (asid_alloc a = None \<longleftrightarrow> length held = 255)"
proof -
  from asids.never_shared [OF new_asids_inv, of ops] obtain a held where
    h: "run_requests asid_take (\<lambda>a x. Some (asid_free a x)) ops new_asids [] = Some (a, held)"
      "asid_inv a" "distinct held" "set held \<subseteq> user_asids - live_asids new_asids"
      "live_asids a = live_asids new_asids \<union> set held" by blast
  have range: "of_nat n \<in> {1..255 :: u16}" if "n \<in> {1..<256}" for n
    using that by (simp add: word_le_nat_alt unat_of_nat)
  have "set held \<subseteq> {1..255}"
    using h(4) range by (auto simp: user_asids_def ASIDS_def)
  moreover have "asid_alloc a = None \<longleftrightarrow> length held = 255"
  proof -
    have sub: "bits_of (as_bitmap a) \<subseteq> {..<256}" using h(2) by (simp add: asid_inv_def asid_bits_lt)
    have new: "live_asids new_asids = {0}" by (simp add: live_asids_def new_asids_bits)
    have "0 \<notin> set held" using h(4) new by auto
    then have "card (live_asids a) = length held + 1"
      using h(3,5) new by (simp add: distinct_card)
    moreover have "card (live_asids a) = card (bits_of (as_bitmap a))"
      unfolding live_asids_def using inj_on_subset [OF inj_asid sub] by (rule card_image)
    ultimately have "card (bits_of (as_bitmap a)) = length held + 1" by simp
    moreover have "bits_of (as_bitmap a) = {..<256} \<longleftrightarrow> card (bits_of (as_bitmap a)) = 256"
      by (metis card_lessThan card_subset_eq finite_lessThan sub)
    ultimately show ?thesis using asid_alloc_None_iff [OF h(2)] by simp
  qed
  ultimately show ?thesis using h(1,3) by (intro exI [of _ a] exI [of _ held]) simp
qed

end
