(* ===== verification/Bytes.thy ===== *)
theory Bytes
  imports Prelude
begin

text \<open>
  Little-endian machine integers in bytes, the standard library's \<open>from_le_bytes\<close> and
  \<open>to_le_bytes\<close>, and a byte-addressed memory with reads and writes of any width.  Addresses are
  64-bit words and wrap.  Shared by the components that read or write memory shared with a device or
  decode an on-disk or on-wire format.
\<close>

section \<open>Little-endian integers\<close>

fun from_le :: "u8 list \<Rightarrow> 'a::len word" where
  "from_le [] = 0"
| "from_le (b # bs) = ucast b OR push_bit 8 (from_le bs)"

fun to_le :: "nat \<Rightarrow> 'a::len word \<Rightarrow> u8 list" where
  "to_le 0 w = []"
| "to_le (Suc n) w = ucast w # to_le n (drop_bit 8 w)"

lemma length_to_le [simp]: "length (to_le n w) = n"
  by (induction n arbitrary: w) simp_all

lemma bit_from_le:
  "bit (from_le bs :: 'a::len word) i \<longleftrightarrow>
     i < LENGTH('a) \<and> i < 8 * length bs \<and> bit (bs ! (i div 8)) (i mod 8)"
proof (induction bs arbitrary: i)
  case (Cons b bs)
  show ?case
  proof (cases "i < 8")
    case True
    then show ?thesis by (simp add: bit_simps)
  next
    case False
    then obtain j where j: "i = j + 8" by (metis le_add_diff_inverse2 not_less)
    have "(j + 8) div 8 = Suc (j div 8)" by simp
    moreover have "\<not> bit b (j + 8)" by (auto dest: bit_u8_less)
    ultimately show ?thesis
      unfolding j by (auto simp: bit_simps Cons.IH)
  qed
qed simp

lemma bit_nth_to_le:
  "k < n \<Longrightarrow> bit (to_le n (w :: 'a::len word) ! k) j \<longleftrightarrow> j < 8 \<and> bit w (8 * k + j)"
proof (induction n arbitrary: w k)
  case (Suc n)
  then show ?case by (cases k) (auto simp: bit_simps ac_simps)
qed simp

lemma from_le_to_le [simp]:
  "LENGTH('a) \<le> 8 * n \<Longrightarrow> from_le (to_le n (w :: 'a::len word)) = w"
proof (rule bit_word_eqI)
  fix i assume "LENGTH('a) \<le> 8 * n" "i < LENGTH('a)"
  moreover from this have "i div 8 < n" by (simp add: div_less_iff_less_mult mult.commute)
  ultimately show "bit (from_le (to_le n w) :: 'a word) i \<longleftrightarrow> bit w i"
    by (simp add: bit_from_le bit_nth_to_le)
qed

lemma to_le_from_le:
  assumes "8 * length bs \<le> LENGTH('a)"
  shows "to_le (length bs) (from_le bs :: 'a::len word) = bs"
proof (rule nth_equalityI)
  fix k assume "k < length (to_le (length bs) (from_le bs :: 'a word))"
  then have k: "k < length bs" by simp
  show "to_le (length bs) (from_le bs :: 'a word) ! k = bs ! k"
  proof (rule bit_word_eqI)
    fix j assume "j < LENGTH(8)"
    then have "j < 8" by simp
    moreover from this k have "8 * k + j < 8 * length bs" by simp
    ultimately show "bit (to_le (length bs) (from_le bs :: 'a word) ! k) j \<longleftrightarrow> bit (bs ! k) j"
      using k assms by (auto simp: bit_nth_to_le bit_from_le)
  qed
qed simp


section \<open>Byte-addressed memory\<close>

lemma unat_uminus: "w \<noteq> 0 \<Longrightarrow> unat (- w :: u64) = 2 ^ 64 - unat w"
  using unat_sub_if_size [of 0 w] by (simp add: unat_eq_zero word_size)

type_synonym memory = "u64 \<Rightarrow> u8"

definition read_bytes :: "memory \<Rightarrow> u64 \<Rightarrow> nat \<Rightarrow> u8 list" where
  "read_bytes m p n = map (\<lambda>k. m (p + of_nat k)) [0..<n]"

definition write_bytes :: "memory \<Rightarrow> u64 \<Rightarrow> u8 list \<Rightarrow> memory" where
  "write_bytes m p bs = (\<lambda>a. if unat (a - p) < length bs then bs ! unat (a - p) else m a)"

definition read16 :: "memory \<Rightarrow> u64 \<Rightarrow> u16" where
  "read16 m p = from_le (read_bytes m p 2)"

definition read64 :: "memory \<Rightarrow> u64 \<Rightarrow> u64" where
  "read64 m p = from_le (read_bytes m p 8)"

definition write16 :: "memory \<Rightarrow> u64 \<Rightarrow> u16 \<Rightarrow> memory" where
  "write16 m p v = write_bytes m p (to_le 2 v)"

definition write64 :: "memory \<Rightarrow> u64 \<Rightarrow> u64 \<Rightarrow> memory" where
  "write64 m p v = write_bytes m p (to_le 8 v)"

lemma read_write_same:
  assumes "length bs = n" "n < 2 ^ 64"
  shows "read_bytes (write_bytes m p bs) p n = bs"
proof (rule nth_equalityI)
  fix k assume "k < length (read_bytes (write_bytes m p bs) p n)"
  then have k: "k < n" by (simp add: read_bytes_def)
  then have "unat (of_nat k :: u64) = k" using assms(2) by (simp add: unat_of_nat)
  then show "read_bytes (write_bytes m p bs) p n ! k = bs ! k"
    using k assms(1) by (simp add: read_bytes_def write_bytes_def)
qed (simp add: read_bytes_def assms(1))

text \<open>Two windows are apart when neither starts inside the other, going around the address space.\<close>

definition apart :: "u64 \<Rightarrow> nat \<Rightarrow> u64 \<Rightarrow> nat \<Rightarrow> bool" where
  "apart p n q k \<longleftrightarrow> n \<le> unat (q - p) \<and> k \<le> unat (p - q)"

lemma read_write_apart:
  assumes "apart p (length bs) q n"
  shows "read_bytes (write_bytes m p bs) q n = read_bytes m q n"
proof -
  have "\<not> unat (q + of_nat k - p) < length bs" if "k < n" for k
  proof (cases "q = p")
    case True
    then have "n = 0" using assms by (simp add: apart_def)
    then show ?thesis using that by simp
  next
    case False
    have d: "unat (p - q) + unat (q - p) = 2 ^ 64"
    proof -
      have "q - p \<noteq> 0" using False by simp
      then have "unat (- (q - p)) = 2 ^ 64 - unat (q - p)" by (rule unat_uminus)
      moreover have "- (q - p) = p - q" by simp
      ultimately show ?thesis using unat_less_len [of "q - p"] by simp
    qed
    have k: "k < unat (p - q)" using assms that by (simp add: apart_def)
    then have "unat (of_nat k :: u64) = k"
      using unat_less_len [of "p - q"] by (simp add: unat_of_nat)
    then have "unat (q - p + of_nat k) = unat (q - p) + k"
      using k d by (subst unat_add_no_wrap) simp_all
    then have "unat (q + of_nat k - p) = unat (q - p) + k"
      by (simp only: add_diff_eq diff_add_eq)
    then show ?thesis using assms by (simp add: apart_def del: diff_add_eq)
  qed
  then show ?thesis by (simp add: read_bytes_def write_bytes_def)
qed

lemma read16_write16_same [simp]: "read16 (write16 m p v) p = v"
  by (simp add: read16_def write16_def read_write_same)

lemma read64_write64_same [simp]: "read64 (write64 m p v) p = v"
  by (simp add: read64_def write64_def read_write_same)

lemma read64_write64_apart: "apart p 8 q 8 \<Longrightarrow> read64 (write64 m p v) q = read64 m q"
  and read64_write16_apart: "apart p 2 q 8 \<Longrightarrow> read64 (write16 m p w) q = read64 m q"
  and read16_write64_apart: "apart p 8 q 2 \<Longrightarrow> read16 (write64 m p v) q = read16 m q"
  and read16_write16_apart: "apart p 2 q 2 \<Longrightarrow> read16 (write16 m p w) q = read16 m q"
  by (simp_all add: read64_def write64_def read16_def write16_def read_write_apart)

lemma apart_offsets:
  assumes "i + n \<le> j \<or> j + k \<le> i" "i + n \<le> 2 ^ 63" "j + k \<le> 2 ^ 63"
    and "0 < n" "0 < k"
  shows "apart (p + of_nat i) n (p + of_nat j) k"
proof -
  have u: "unat (of_nat a - of_nat b :: u64) = a - b" if "b \<le> a" "a \<le> 2 ^ 63" for a b
    using that by (subst unat_sub) (simp_all add: word_le_nat_alt unat_of_nat)
  have v: "unat (of_nat b - of_nat a :: u64) = 2 ^ 64 - (a - b)" if "b < a" "a \<le> 2 ^ 63" for a b
  proof -
    have "unat (of_nat a - of_nat b :: u64) = a - b" using u that by simp
    moreover from this that have "(of_nat a - of_nat b :: u64) \<noteq> 0" by auto
    ultimately have "unat (- (of_nat a - of_nat b :: u64)) = 2 ^ 64 - (a - b)"
      using unat_uminus by metis
    then show ?thesis by simp
  qed
  have e: "p + of_nat j - (p + of_nat i) = (of_nat j - of_nat i :: u64)" for i j by simp
  consider "i < j" "i + n \<le> j" | "j < i" "j + k \<le> i" using assms(1,4,5) by linarith
  then show ?thesis
  proof cases
    case 1
    then show ?thesis unfolding apart_def e using u [of i j] v [of i j] assms(2,3) by auto
  next
    case 2
    then show ?thesis unfolding apart_def e using u [of j i] v [of j i] assms(2,3) by auto
  qed
qed

end
