(* ===== verification/Dma_Validator.thy ===== *)
theory Dma_Validator
  imports Bytes
begin

text \<open>
  The validator of the descriptors a user-space driver publishes to a device,
  \<open>src/crates/direct_memory_access_validator/src/lib.rs\<close>.  It walks the driver's descriptor
  chains, checks each descriptor against the driver's region, and copies the checked ones into a
  shadow ring only the kernel writes and only the device reads.

  The driver's memory is shared with a running driver, so nothing is assumed of it: the read closures
  of the source become functions of a read counter and an address, so every read may give any value,
  the second read of an address a different one than the first.  The shadow is a byte memory; the
  write closures are its little-endian writes.
\<close>

section \<open>Descriptors\<close>

definition F_NEXT :: u16 where "F_NEXT = 1"
definition F_INDIRECT :: u16 where "F_INDIRECT = 4"

definition is_in_region :: "u64 \<Rightarrow> u64 \<Rightarrow> u64 \<Rightarrow> u64 \<Rightarrow> bool" where
  "is_in_region base len addr n =
     (case (checked_add addr n, checked_add base len) of
        (Some e, Some limit) \<Rightarrow> base \<le> addr \<and> e \<le> limit
      | _ \<Rightarrow> False)"

record Desc =
  d_addr :: u64
  d_word :: u64

definition buf_len :: "Desc \<Rightarrow> u64" where
  "buf_len d = d_word d AND 0xffffffff"

definition flags :: "Desc \<Rightarrow> u16" where
  "flags d = ucast (drop_bit 32 (d_word d) AND 0xffff)"

definition d_next :: "Desc \<Rightarrow> u16" where
  "d_next d = ucast (drop_bit 48 (d_word d) AND 0xffff)"

definition is_indirect :: "Desc \<Rightarrow> bool" where
  "is_indirect d \<longleftrightarrow> flags d AND F_INDIRECT \<noteq> 0"

definition has_next :: "Desc \<Rightarrow> bool" where
  "has_next d \<longleftrightarrow> flags d AND F_NEXT \<noteq> 0"

definition check_descriptor :: "u64 \<Rightarrow> u64 \<Rightarrow> u16 \<Rightarrow> Desc \<Rightarrow> bool" where
  "check_descriptor base len qsize d =
     (if is_indirect d then False
      else if \<not> is_in_region base len (d_addr d) (buf_len d) then False
      else if has_next d \<and> qsize \<le> d_next d then False
      else True)"


section \<open>The walk\<close>

text \<open>What the walk reads of the driver's memory: a value for each read, in order.\<close>

record driver_view =
  view16 :: "nat \<Rightarrow> u64 \<Rightarrow> u16"
  view64 :: "nat \<Rightarrow> u64 \<Rightarrow> u64"

fun walk_chain ::
  "driver_view \<Rightarrow> u64 \<Rightarrow> u64 \<Rightarrow> u64 \<Rightarrow> u64 \<Rightarrow> u16 \<Rightarrow> nat \<Rightarrow> u16 \<Rightarrow> nat \<Rightarrow> memory \<Rightarrow>
   bool \<times> nat \<times> memory" where
  "walk_chain v base len driver_desc shadow_desc qsize 0 d t m = (True, t, m)"
| "walk_chain v base len driver_desc shadow_desc qsize (Suc n) d t m =
     (let src = driver_desc + ucast d * 16;
          desc = \<lparr>d_addr = view64 v t src, d_word = view64 v (t + 1) (src + 8)\<rparr>
      in if \<not> check_descriptor base len qsize desc then (False, t + 2, m)
         else
           let dst = shadow_desc + ucast d * 16;
               m' = write64 (write64 m dst (d_addr desc)) (dst + 8) (d_word desc)
           in if \<not> has_next desc then (True, t + 2, m')
              else walk_chain v base len driver_desc shadow_desc qsize n (d_next desc) (t + 2) m')"

definition shadow_one_head ::
  "driver_view \<Rightarrow> u64 \<Rightarrow> u64 \<Rightarrow> u64 \<Rightarrow> u64 \<Rightarrow> u16 \<Rightarrow> u16 \<Rightarrow> nat \<Rightarrow> memory \<Rightarrow> bool \<times> nat \<times> memory" where
  "shadow_one_head v base len driver_desc shadow_desc head qsize t m =
     walk_chain v base len driver_desc shadow_desc qsize (unat qsize) head t m"

function walk_batch ::
  "driver_view \<Rightarrow> u64 \<Rightarrow> u64 \<Rightarrow> u64 \<Rightarrow> u64 \<Rightarrow> u64 \<Rightarrow> u64 \<Rightarrow> u16 \<Rightarrow> u16 \<Rightarrow> u16 \<Rightarrow> nat \<Rightarrow> memory \<Rightarrow>
   bool \<times> nat \<times> memory" where
  "walk_batch v base len driver_desc driver_avail shadow_desc shadow_avail qsize idx to_idx t m =
     (if idx = to_idx then (True, t, m)
      else
        let slot = ucast (idx mod qsize) :: u64;
            head = view16 v t (driver_avail + 4 + slot * 2)
        in if qsize \<le> head then (False, t + 1, m)
           else case shadow_one_head v base len driver_desc shadow_desc head qsize (t + 1) m of
                  (ok, t', m') \<Rightarrow>
                    if \<not> ok then (False, t', m')
                    else walk_batch v base len driver_desc driver_avail shadow_desc shadow_avail qsize
                           (idx + 1) to_idx t' (write16 m' (shadow_avail + 4 + slot * 2) head))"
  by pat_completeness auto

lemma batch_progress: "idx \<noteq> to_idx \<Longrightarrow> unat (to_idx - (idx + 1) :: u16) < unat (to_idx - idx)"
proof -
  assume "idx \<noteq> to_idx"
  then have n: "to_idx - idx \<noteq> 0" by simp
  then have "unat (to_idx - idx - 1) = unat (to_idx - idx) - 1" by (rule unat_minus_one)
  moreover have "0 < unat (to_idx - idx)" using n by (simp add: unat_gt_0)
  moreover have e: "to_idx - (idx + 1) = to_idx - idx - 1" by simp
  ultimately show ?thesis unfolding e by linarith
qed

termination walk_batch
  by (relation "measure (\<lambda>(v, base, len, dd, da, sd, sa, qsize, idx, to_idx, t, m). unat (to_idx - idx))")
    (auto intro: batch_progress)

declare walk_batch.simps [simp del]

definition validate_and_shadow ::
  "driver_view \<Rightarrow> u64 \<Rightarrow> u64 \<Rightarrow> u64 \<Rightarrow> u64 \<Rightarrow> u64 \<Rightarrow> u64 \<Rightarrow> u16 \<Rightarrow> u16 \<Rightarrow> u16 \<Rightarrow> nat \<Rightarrow> memory \<Rightarrow>
   bool \<times> memory" where
  "validate_and_shadow v base len driver_desc driver_avail shadow_desc shadow_avail from_idx to_idx
     qsize t m =
     (if qsize < to_idx - from_idx then (False, m)
      else case walk_batch v base len driver_desc driver_avail shadow_desc shadow_avail qsize
                  from_idx to_idx t m of
             (ok, t', m') \<Rightarrow>
               if \<not> ok then (False, m') else (True, write16 m' (shadow_avail + 2) to_idx))"


section \<open>The ring layout\<close>

definition LAYOUT_QSIZE :: u16 where "LAYOUT_QSIZE = 8"
definition DESC_OFF :: u64 where "DESC_OFF = 0x000"
definition AVAIL_OFF :: u64 where "AVAIL_OFF = 0x080"
definition USED_OFF :: u64 where "USED_OFF = 0x100"
definition RING_END :: u64 where "RING_END = USED_OFF + 6 + 8 * ucast LAYOUT_QSIZE"
definition RING_BLOCK :: u64 where "RING_BLOCK = 0x200"
definition MAX_QUEUES :: u64 where "MAX_QUEUES = 2"

definition queue_block :: "u16 \<Rightarrow> u64" where
  "queue_block q = ucast q * RING_BLOCK"

lemmas layout_defs = LAYOUT_QSIZE_def DESC_OFF_def AVAIL_OFF_def USED_OFF_def RING_END_def
  RING_BLOCK_def MAX_QUEUES_def queue_block_def


section \<open>What the walk writes\<close>

text \<open>Every write of the walk puts a checked descriptor at a table index below the queue size, or a
  head below the queue size in a ring slot.\<close>

inductive shadow_write :: "u64 \<Rightarrow> u64 \<Rightarrow> u64 \<Rightarrow> u64 \<Rightarrow> u16 \<Rightarrow> memory \<Rightarrow> memory \<Rightarrow> bool"
  for base len sd sa qsize where
  copied: "d < qsize \<Longrightarrow> check_descriptor base len qsize desc \<Longrightarrow>
    shadow_write base len sd sa qsize m
      (write64 (write64 m (sd + ucast d * 16) (d_addr desc)) (sd + ucast d * 16 + 8) (d_word desc))"
| mirrored: "slot < qsize \<Longrightarrow> head < qsize \<Longrightarrow>
    shadow_write base len sd sa qsize m (write16 m (sa + 4 + ucast slot * 2) head)"

lemma walk_chain_writes:
  "d < qsize \<Longrightarrow> walk_chain v base len dd sd qsize n d t m = (ok, t', m') \<Longrightarrow>
   (shadow_write base len sd sa qsize)\<^sup>*\<^sup>* m m'"
proof (induction n arbitrary: d t m)
  case (Suc n)
  let ?desc = "\<lparr>d_addr = view64 v t (dd + ucast d * 16), d_word = view64 v (t + 1) (dd + ucast d * 16 + 8)\<rparr>"
  let ?m = "write64 (write64 m (sd + ucast d * 16) (d_addr ?desc)) (sd + ucast d * 16 + 8) (d_word ?desc)"
  show ?case
  proof (cases "check_descriptor base len qsize ?desc")
    case True
    have step: "shadow_write base len sd sa qsize m ?m" using Suc.prems(1) True by (rule copied)
    show ?thesis
    proof (cases "has_next ?desc")
      case chained: True
      then have "d_next ?desc < qsize" using True by (auto simp: check_descriptor_def split: if_splits)
      from Suc.IH [OF this] have "(shadow_write base len sd sa qsize)\<^sup>*\<^sup>* ?m m'"
        using Suc.prems(2) True chained by (simp add: Let_def)
      with step show ?thesis by (rule converse_rtranclp_into_rtranclp)
    next
      case False
      then have "m' = ?m" using Suc.prems(2) True by (simp add: Let_def)
      then show ?thesis using step by blast
    qed
  next
    case False
    then show ?thesis using Suc.prems(2) by (simp add: Let_def)
  qed
qed simp


lemma walk_batch_writes:
  assumes "unat (to_idx - idx) \<le> unat qsize"
    "walk_batch v base len dd da sd sa qsize idx to_idx t m = (ok, t', m')"
  shows "(shadow_write base len sd sa qsize)\<^sup>*\<^sup>* m m'"
  using assms
proof (induction v base len dd da sd sa qsize idx to_idx t m rule: walk_batch.induct)
  case (1 v base len dd da sd sa qsize idx to_idx t m)
  let ?slot = "ucast (idx mod qsize) :: u64"
  let ?head = "view16 v t (da + 4 + ?slot * 2)"
  show ?case
  proof (cases "idx = to_idx \<or> qsize \<le> ?head")
    case True
    then have "m' = m" using "1.prems"(2)
      by (subst (asm) walk_batch.simps) (auto simp: Let_def split: if_splits)
    then show ?thesis by simp
  next
    case False
    obtain ok1 t1 m1 where w: "shadow_one_head v base len dd sd ?head qsize (t + 1) m = (ok1, t1, m1)"
      by (metis prod.exhaust)
    have h: "?head < qsize" using False by (simp only: not_le de_Morgan_disj)
    have s1: "(shadow_write base len sd sa qsize)\<^sup>*\<^sup>* m m1"
      using walk_chain_writes [OF h] w by (simp add: shadow_one_head_def)
    show ?thesis
    proof (cases ok1)
      case False
      then have "m' = m1" using "1.prems"(2) w \<open>\<not> (idx = to_idx \<or> qsize \<le> ?head)\<close>
        by (subst (asm) walk_batch.simps) (simp add: Let_def)
      then show ?thesis using s1 by simp
    next
      case True
      let ?m = "write16 m1 (sa + 4 + ?slot * 2) ?head"
      have "0 < unat qsize" using "1.prems"(1) False batch_progress [of idx to_idx] by linarith
      then have "idx mod qsize < qsize" by (simp add: word_less_nat_alt unat_mod)
      then have s2: "shadow_write base len sd sa qsize m1 ?m" using h by (rule mirrored)
      have "unat (to_idx - (idx + 1)) \<le> unat qsize"
        using "1.prems"(1) False batch_progress [of idx to_idx] by linarith
      moreover have "walk_batch v base len dd da sd sa qsize (idx + 1) to_idx t1 ?m = (ok, t', m')"
        using "1.prems"(2) w True False by (subst (asm) walk_batch.simps) (simp add: Let_def)
      ultimately have s3: "(shadow_write base len sd sa qsize)\<^sup>*\<^sup>* ?m m'"
        using "1.IH" [OF _ refl refl] False w True by auto
      from s1 s2 have "(shadow_write base len sd sa qsize)\<^sup>*\<^sup>* m ?m"
        by (rule rtranclp.rtrancl_into_rtrancl [where r = "shadow_write base len sd sa qsize"])
      from this s3 show ?thesis by (rule rtranclp_trans)
    qed
  qed
qed

lemma validate_and_shadow_writes:
  assumes "validate_and_shadow v base len dd da sd sa from_idx to_idx qsize t m = (ok, m')"
  shows "\<exists>m1. (shadow_write base len sd sa qsize)\<^sup>*\<^sup>* m m1 \<and>
    m' = (if ok then write16 m1 (sa + 2) to_idx else m1)"
proof (cases "qsize < to_idx - from_idx")
  case True
  then show ?thesis using assms by (auto simp: validate_and_shadow_def)
next
  case False
  obtain ok1 t1 m1 where w: "walk_batch v base len dd da sd sa qsize from_idx to_idx t m = (ok1, t1, m1)"
    by (metis prod.exhaust)
  have "unat (to_idx - from_idx) \<le> unat qsize" using False by (simp add: word_le_nat_alt [symmetric])
  from walk_batch_writes [OF this w] show ?thesis
    using assms False w by (auto simp: validate_and_shadow_def split: if_splits)
qed


section \<open>A confined shadow\<close>

text \<open>The bytes a device touches for a descriptor, and what makes a descriptor harmless: it is not a
  table of further descriptors, every byte it names is in the region, and its link stays in the
  table.  A zeroed descriptor names no byte.\<close>

definition touched :: "Desc \<Rightarrow> nat set" where
  "touched d = {x. unat (d_addr d) \<le> x \<and> x < unat (d_addr d) + unat (buf_len d)}"

definition harmless :: "u64 \<Rightarrow> u64 \<Rightarrow> Desc \<Rightarrow> bool" where
  "harmless base len d \<longleftrightarrow> \<not> is_indirect d \<and>
     touched d \<subseteq> {x. unat base \<le> x \<and> x < unat base + unat len} \<and>
     (has_next d \<longrightarrow> d_next d < LAYOUT_QSIZE)"

lemma is_in_region_iff:
  "is_in_region base len addr n \<longleftrightarrow>
     unat addr + unat n < 2 ^ 64 \<and> unat base + unat len < 2 ^ 64 \<and>
     unat base \<le> unat addr \<and> unat addr + unat n \<le> unat base + unat len"
  by (auto simp: is_in_region_def checked_add_def word_le_nat_alt unat_facts split: option.splits if_splits)

lemma check_descriptor_harmless:
  "check_descriptor base len LAYOUT_QSIZE d \<Longrightarrow> harmless base len d"
  by (auto simp: check_descriptor_def harmless_def is_in_region_iff touched_def not_le split: if_splits)

lemma zero_harmless: "harmless base len \<lparr>d_addr = 0, d_word = 0\<rparr>"
  by (simp add: harmless_def is_indirect_def has_next_def flags_def touched_def buf_len_def)

definition desc_at :: "memory \<Rightarrow> u64 \<Rightarrow> nat \<Rightarrow> Desc" where
  "desc_at m p d = \<lparr>d_addr = read64 m (p + of_nat (16 * d)), d_word = read64 m (p + of_nat (16 * d + 8))\<rparr>"

definition head_at :: "memory \<Rightarrow> u64 \<Rightarrow> nat \<Rightarrow> u16" where
  "head_at m p s = read16 m (p + of_nat (0x84 + 2 * s))"

definition published :: "memory \<Rightarrow> u64 \<Rightarrow> u16" where
  "published m p = read16 m (p + of_nat 0x82)"

definition shadow_ok :: "u64 \<Rightarrow> u64 \<Rightarrow> u64 \<Rightarrow> memory \<Rightarrow> bool" where
  "shadow_ok base len p m \<longleftrightarrow>
     (\<forall>d < 8. harmless base len (desc_at m p d)) \<and> (\<forall>s < 8. head_at m p s < LAYOUT_QSIZE)"


text \<open>The shadow page holds one block per queue; block \<open>q\<close> of a page at \<open>sb\<close>.\<close>

definition block :: "u64 \<Rightarrow> nat \<Rightarrow> u64" where
  "block sb q = sb + of_nat (0x200 * q)"

lemma block_offset: "block sb q + of_nat i = sb + of_nat (0x200 * q + i)"
  by (simp add: block_def)

lemma block_apart:
  assumes "q < 8" "r < 8" "i + n \<le> 0x200" "j + k \<le> 0x200" "0 < n" "0 < k"
    "q = r \<Longrightarrow> i + n \<le> j \<or> j + k \<le> i"
  shows "apart (block sb q + of_nat i) n (block sb r + of_nat j) k"
proof -
  have "0x200 * q + i + n \<le> 0x200 * r + j \<or> 0x200 * r + j + k \<le> 0x200 * q + i"
  proof (cases "q = r")
    case False
    then consider "q < r" | "r < q" by linarith
    then show ?thesis using assms(3,4) by cases linarith+
  qed (use assms(7) in auto)
  moreover have "0x200 * q + i + n \<le> 2 ^ 63" "0x200 * r + j + k \<le> 2 ^ 63" using assms(1-4) by auto
  ultimately show ?thesis unfolding block_offset using assms(5,6) by (intro apart_offsets) auto
qed

lemma desc_at_copy:
  assumes "q < 8" "r < 8" "d < 8" "j < 8"
  shows "desc_at (write64 (write64 m (block sb q + of_nat (16 * d)) a) (block sb q + of_nat (16 * d + 8)) w)
      (block sb r) j = (if r = q \<and> j = d then \<lparr>d_addr = a, d_word = w\<rparr> else desc_at m (block sb r) j)"
proof (cases "r = q \<and> j = d")
  case True
  have "apart (block sb q + of_nat (16 * d + 8)) 8 (block sb q + of_nat (16 * d)) 8"
    using assms by (intro block_apart) auto
  then show ?thesis using True by (simp add: desc_at_def read64_write64_apart del: of_nat_add of_nat_mult)
next
  case False
  have "apart (block sb q + of_nat (16 * d + x)) 8 (block sb r + of_nat (16 * j + y)) 8"
    if "x \<le> 8" "y \<le> 8" for x y
    using assms False that by (intro block_apart) auto
  from this [of 0 0] this [of 0 8] this [of 8 0] this [of 8 8] show ?thesis
    using False by (auto simp: desc_at_def read64_write64_apart simp del: of_nat_add of_nat_mult)
qed

lemma head_at_copy:
  assumes "q < 8" "r < 8" "d < 8" "j < 8"
  shows "head_at (write64 (write64 m (block sb q + of_nat (16 * d)) a) (block sb q + of_nat (16 * d + 8)) w)
      (block sb r) j = head_at m (block sb r) j"
proof -
  have "apart (block sb q + of_nat (16 * d + x)) 8 (block sb r + of_nat (0x84 + 2 * j)) 2"
    if "x \<le> 8" for x
    using assms that by (intro block_apart) auto
  from this [of 0] this [of 8] show ?thesis
    by (auto simp: head_at_def read16_write64_apart simp del: of_nat_add of_nat_mult)
qed

lemma published_copy:
  assumes "q < 8" "r < 8" "d < 8"
  shows "published (write64 (write64 m (block sb q + of_nat (16 * d)) a) (block sb q + of_nat (16 * d + 8)) w)
      (block sb r) = published m (block sb r)"
proof -
  have "apart (block sb q + of_nat (16 * d + x)) 8 (block sb r + of_nat 0x82) 2"
    if "x \<le> 8" for x
    using assms that by (intro block_apart) auto
  from this [of 0] this [of 8] show ?thesis
    by (auto simp: published_def read16_write64_apart simp del: of_nat_add of_nat_mult of_nat_numeral)
qed

lemma desc_at_ring:
  assumes "q < 8" "r < 8" "i + 2 \<le> 0x100" "0x80 \<le> i" "j < 8"
  shows "desc_at (write16 m (block sb q + of_nat i) h) (block sb r) j = desc_at m (block sb r) j"
proof -
  have "apart (block sb q + of_nat i) 2 (block sb r + of_nat (16 * j + y)) 8" if "y \<le> 8" for y
    using assms that by (intro block_apart) auto
  from this [of 0] this [of 8] show ?thesis
    by (auto simp: desc_at_def read64_write16_apart simp del: of_nat_add of_nat_mult)
qed

lemma head_at_ring:
  assumes "q < 8" "r < 8" "s < 8" "j < 8"
  shows "head_at (write16 m (block sb q + of_nat (0x84 + 2 * s)) h) (block sb r) j =
    (if r = q \<and> j = s then h else head_at m (block sb r) j)"
proof (cases "r = q \<and> j = s")
  case True
  then show ?thesis by (simp add: head_at_def del: of_nat_add of_nat_mult)
next
  case False
  have "apart (block sb q + of_nat (0x84 + 2 * s)) 2 (block sb r + of_nat (0x84 + 2 * j)) 2"
    using assms False by (intro block_apart) auto
  then show ?thesis using False by (auto simp: head_at_def read16_write16_apart simp del: of_nat_add of_nat_mult)
qed

lemma ring_publish:
  assumes "q < 8" "r < 8" "s < 8" "j < 8"
  shows "head_at (write16 m (block sb q + of_nat 0x82) h) (block sb r) j = head_at m (block sb r) j"
    and "published (write16 m (block sb q + of_nat (0x84 + 2 * s)) h) (block sb r) = published m (block sb r)"
    and "published (write16 m (block sb q + of_nat 0x82) h) (block sb r) =
      (if r = q then h else published m (block sb r))"
proof -
  have a: "apart (block sb q + of_nat 0x82) 2 (block sb r + of_nat (0x84 + 2 * j)) 2"
    "apart (block sb q + of_nat (0x84 + 2 * s)) 2 (block sb r + of_nat 0x82) 2"
    using assms by (intro block_apart; auto)+
  show "head_at (write16 m (block sb q + of_nat 0x82) h) (block sb r) j = head_at m (block sb r) j"
    "published (write16 m (block sb q + of_nat (0x84 + 2 * s)) h) (block sb r) = published m (block sb r)"
    using a by (simp_all add: head_at_def published_def read16_write16_apart
        del: of_nat_add of_nat_mult of_nat_numeral)
  have "apart (block sb q + of_nat 0x82) 2 (block sb r + of_nat 0x82) 2" if "q \<noteq> r"
    using assms that by (intro block_apart) auto
  then show "published (write16 m (block sb q + of_nat 0x82) h) (block sb r) =
      (if r = q then h else published m (block sb r))"
    by (auto simp: published_def read16_write16_apart simp del: of_nat_numeral)
qed



section \<open>The walk keeps the shadow confined\<close>

lemma ucast_nat: "(ucast (d :: u16) :: u64) = of_nat (unat d)"
  by simp

lemma shadow_addresses:
  "block sb q + DESC_OFF + ucast (d :: u16) * 16 = block sb q + of_nat (16 * unat d)"
  "block sb q + of_nat (16 * n) + 8 = block sb q + of_nat (16 * n + 8)"
  "block sb q + AVAIL_OFF + 4 + ucast (d :: u16) * 2 = block sb q + of_nat (0x84 + 2 * unat d)"
  "block sb q + AVAIL_OFF + 2 = block sb q + of_nat 0x82"
  by (simp_all add: DESC_OFF_def AVAIL_OFF_def ucast_nat mult.commute del: of_nat_unat)

lemma qsize_unat: "unat (d :: u16) < 8 \<longleftrightarrow> d < LAYOUT_QSIZE"
  by (simp add: LAYOUT_QSIZE_def word_less_nat_alt)

lemma shadow_write_ok:
  assumes "shadow_write base len (block sb q + DESC_OFF) (block sb q + AVAIL_OFF) LAYOUT_QSIZE m m'"
    "q < 8" "r < 8"
  shows "(shadow_ok base len (block sb r) m \<longrightarrow> shadow_ok base len (block sb r) m') \<and>
    published m' (block sb r) = published m (block sb r)"
  using assms(1)
proof cases
  case (copied d desc)
  have d: "unat d < 8" using copied(2) by (simp add: qsize_unat)
  note m' = copied(1) [unfolded shadow_addresses]
  have "desc_at m' (block sb r) j = (if r = q \<and> j = unat d then desc else desc_at m (block sb r) j)"
    if "j < 8" for j
    unfolding m' desc_at_copy [OF assms(2,3) d that] by simp
  moreover have "head_at m' (block sb r) j = head_at m (block sb r) j" if "j < 8" for j
    unfolding m' by (rule head_at_copy [OF assms(2,3) d that])
  moreover have "published m' (block sb r) = published m (block sb r)"
    unfolding m' by (rule published_copy [OF assms(2,3) d])
  ultimately show ?thesis
    using check_descriptor_harmless [OF copied(3)] by (simp add: shadow_ok_def)
next
  case (mirrored slot head)
  have s: "unat slot < 8" using mirrored(2) by (simp add: qsize_unat)
  note m' = mirrored(1) [unfolded shadow_addresses]
  have "desc_at m' (block sb r) j = desc_at m (block sb r) j" if "j < 8" for j
    unfolding m' using s by (intro desc_at_ring [OF assms(2,3) _ _ that]) auto
  moreover have "head_at m' (block sb r) j = (if r = q \<and> j = unat slot then head else head_at m (block sb r) j)"
    if "j < 8" for j
    unfolding m' by (rule head_at_ring [OF assms(2,3) s that])
  moreover have "published m' (block sb r) = published m (block sb r)"
    unfolding m' by (rule ring_publish(2) [OF assms(2,3) s s])
  ultimately show ?thesis using mirrored(3) by (simp add: shadow_ok_def)
qed

lemma shadow_writes_ok:
  assumes "(shadow_write base len (block sb q + DESC_OFF) (block sb q + AVAIL_OFF) LAYOUT_QSIZE)\<^sup>*\<^sup>* m m'"
    "q < 8" "r < 8"
  shows "(shadow_ok base len (block sb r) m \<longrightarrow> shadow_ok base len (block sb r) m') \<and>
    published m' (block sb r) = published m (block sb r)"
  using assms(1)
  by (induction rule: rtranclp_induct) (use shadow_write_ok [OF _ assms(2,3)] in auto)

lemma validated_shadow:
  assumes "validate_and_shadow v base len dd da (block sb q + DESC_OFF) (block sb q + AVAIL_OFF)
      from_idx to_idx LAYOUT_QSIZE t m = (ok, m')"
    and "q < 8" "r < 8"
  shows "shadow_ok base len (block sb r) m \<Longrightarrow> shadow_ok base len (block sb r) m'"
    and "published m' (block sb r) = (if ok \<and> r = q then to_idx else published m (block sb r))"
proof -
  from validate_and_shadow_writes [OF assms(1)] obtain m1 where
    w: "(shadow_write base len (block sb q + DESC_OFF) (block sb q + AVAIL_OFF) LAYOUT_QSIZE)\<^sup>*\<^sup>* m m1"
    and m': "m' = (if ok then write16 m1 (block sb q + of_nat 0x82) to_idx else m1)"
    unfolding shadow_addresses by blast
  note ok1 = shadow_writes_ok [OF w assms(2,3)]
  have "desc_at m' (block sb r) j = desc_at m1 (block sb r) j"
    "head_at m' (block sb r) j = head_at m1 (block sb r) j" if "j < 8" for j
    using desc_at_ring [OF assms(2,3), where i = "0x82" and j = j] that
      ring_publish(1) [OF assms(2,3) that that] m'
    by (auto simp del: of_nat_numeral)
  then show "shadow_ok base len (block sb r) m \<Longrightarrow> shadow_ok base len (block sb r) m'"
    using ok1 by (simp add: shadow_ok_def)
  show "published m' (block sb r) = (if ok \<and> r = q then to_idx else published m (block sb r))"
    using ok1 m' ring_publish(3) [OF assms(2,3), where s = 0 and j = 0] by auto
qed



section \<open>An honest driver's chains\<close>

text \<open>When the driver leaves its memory alone, the descriptor it has at an index and the indices its
  chain visits are fixed.\<close>

definition driver_desc_at :: "memory \<Rightarrow> u64 \<Rightarrow> u16 \<Rightarrow> Desc" where
  "driver_desc_at dm dd d =
     \<lparr>d_addr = read64 dm (dd + ucast d * 16), d_word = read64 dm (dd + ucast d * 16 + 8)\<rparr>"

fun visited :: "(u16 \<Rightarrow> Desc) \<Rightarrow> nat \<Rightarrow> u16 \<Rightarrow> u16 set" where
  "visited D 0 d = {}"
| "visited D (Suc n) d = insert d (if has_next (D d) then visited D n (d_next (D d)) else {})"

definition linked :: "(u16 \<Rightarrow> Desc) \<Rightarrow> u16 set \<Rightarrow> u16 set" where
  "linked D X = {d_next (D x) | x. x \<in> X \<and> has_next (D x)}"

lemma linked_insert:
  "linked D (insert d X) = (if has_next (D d) then {d_next (D d)} else {}) \<union> linked D X"
  by (auto simp: linked_def)

lemma visited_step: "visited D (Suc n) d = insert d (linked D (visited D n d))"
proof (induction n arbitrary: d)
  case (Suc n)
  show ?case
  proof (cases "has_next (D d)")
    case True
    then have "visited D (Suc (Suc n)) d = insert d (visited D (Suc n) (d_next (D d)))"
      by (simp only: visited.simps if_True)
    then show ?thesis using Suc.IH [of "d_next (D d)"] True by (simp add: linked_insert)
  qed (simp add: linked_insert linked_def)
qed (simp add: linked_def)

lemma linked_mono: "X \<subseteq> Y \<Longrightarrow> linked D X \<subseteq> linked D Y"
  by (auto simp: linked_def)

lemma visited_mono: "visited D n d \<subseteq> visited D (Suc n) d"
proof (induction n)
  case (Suc n)
  then show ?case unfolding visited_step [of D n] visited_step [of D "Suc n"]
    by (intro insert_mono linked_mono)
qed simp

lemma finite_visit [simp]: "finite (visited D n d)"
  by (induction n arbitrary: d) simp_all

lemma visited_grows: "visited D (Suc n) d \<noteq> visited D n d \<Longrightarrow> Suc n \<le> card (visited D (Suc n) d)"
proof (induction n)
  case (Suc n)
  have "visited D (Suc n) d \<noteq> visited D n d"
    using Suc.prems visited_step [of D n d] visited_step [of D "Suc n" d] by metis
  from Suc.IH [OF this] have "Suc n \<le> card (visited D (Suc n) d)" .
  moreover have "card (visited D (Suc n) d) < card (visited D (Suc (Suc n)) d)"
    by (rule psubset_card_mono [OF finite_visit]) (use visited_mono [of D "Suc n" d] Suc.prems in blast)
  ultimately show ?case by linarith
qed (simp add: card_insert_if)

lemma visited_bound:
  assumes "G d" "\<And>x. G x \<Longrightarrow> has_next (D x) \<Longrightarrow> G (d_next (D x))"
  shows "\<forall>x \<in> visited D n d. G x"
  using assms(1)
proof (induction n arbitrary: d)
  case (Suc n)
  then show ?case using assms(2) by auto
qed simp

lemma visited_closed:
  assumes "\<forall>x \<in> visited D (Suc 8) d. x < LAYOUT_QSIZE" "x \<in> visited D 8 d" "has_next (D x)"
  shows "d_next (D x) \<in> visited D 8 d"
proof -
  have "unat ` visited D (Suc 8) d \<subseteq> {..<8}" using assms(1) by (auto simp: qsize_unat)
  from card_mono [OF _ this] have "card (unat ` visited D (Suc 8) d) \<le> 8" by simp
  moreover have "inj_on unat (visited D (Suc 8) d)" by (rule inj_onI) (rule unsigned_word_eqI)
  ultimately have "card (visited D (Suc 8) d) \<le> 8" by (simp only: card_image)
  then have "visited D (Suc 8) d = visited D 8 d"
    using visited_grows [of D 8 d] by linarith
  moreover have "d_next (D x) \<in> visited D (Suc 8) d"
    using assms(2,3) unfolding visited_step [of D 8] by (auto simp: linked_def)
  ultimately show ?thesis by simp
qed


definition still :: "driver_view \<Rightarrow> memory \<Rightarrow> bool" where
  "still v dm \<longleftrightarrow> (\<forall>t a. view16 v t a = read16 dm a \<and> view64 v t a = read64 dm a)"

text \<open>What the walk of one chain leaves in the shadow table: the driver's descriptors at the indices
  visited, and whatever was there at the others.\<close>

lemma walk_chain_still:
  assumes "still v dm" "q < 8" "G d"
    and G: "\<And>x. G x \<Longrightarrow> x < LAYOUT_QSIZE \<and> check_descriptor base len LAYOUT_QSIZE (driver_desc_at dm dd x)"
    and G_next: "\<And>x. G x \<Longrightarrow> has_next (driver_desc_at dm dd x) \<Longrightarrow> G (d_next (driver_desc_at dm dd x))"
  shows "\<exists>t' m'. walk_chain v base len dd (block sb q + DESC_OFF) LAYOUT_QSIZE n d t m = (True, t', m') \<and>
    (\<forall>j < LAYOUT_QSIZE. desc_at m' (block sb q) (unat j) =
       (if j \<in> visited (driver_desc_at dm dd) n d then driver_desc_at dm dd j
        else desc_at m (block sb q) (unat j))) \<and>
    (\<forall>s < 8. head_at m' (block sb q) s = head_at m (block sb q) s)"
  using assms(3)
proof (induction n arbitrary: d t m)
  case (Suc n)
  let ?D = "driver_desc_at dm dd"
  define m1 where "m1 = write64 (write64 m (block sb q + of_nat (16 * unat d)) (d_addr (?D d)))
    (block sb q + of_nat (16 * unat d + 8)) (d_word (?D d))"
  have d: "unat d < 8" using G [OF Suc.prems] by (simp add: qsize_unat)
  have desc: "\<lparr>d_addr = view64 v t (dd + ucast d * 16), d_word = view64 v (t + 1) (dd + ucast d * 16 + 8)\<rparr> = ?D d"
    using assms(1) by (simp add: still_def driver_desc_at_def)
  have m1: "desc_at m1 (block sb q) (unat j) = (if j = d then ?D d else desc_at m (block sb q) (unat j))"
    if "j < LAYOUT_QSIZE" for j
  proof -
    have "unat j < 8" using that by (simp add: qsize_unat)
    from desc_at_copy [OF assms(2,2) d this] show ?thesis
      unfolding m1_def by (auto dest: unsigned_word_eqI)
  qed
  have h1: "head_at m1 (block sb q) s = head_at m (block sb q) s" if "s < 8" for s
    unfolding m1_def by (rule head_at_copy [OF assms(2,2) d that])
  show ?case
  proof (cases "has_next (?D d)")
    case True
    from Suc.IH [OF G_next [OF Suc.prems True], of "t + 2" m1] obtain t' m' where
      w: "walk_chain v base len dd (block sb q + DESC_OFF) LAYOUT_QSIZE n (d_next (?D d)) (t + 2) m1 = (True, t', m')"
      and r: "\<forall>j < LAYOUT_QSIZE. desc_at m' (block sb q) (unat j) =
         (if j \<in> visited ?D n (d_next (?D d)) then ?D j else desc_at m1 (block sb q) (unat j))"
      and h: "\<forall>s < 8. head_at m' (block sb q) s = head_at m1 (block sb q) s" by blast
    have "walk_chain v base len dd (block sb q + DESC_OFF) LAYOUT_QSIZE (Suc n) d t m = (True, t', m')"
      unfolding walk_chain.simps Let_def desc shadow_addresses m1_def [symmetric]
      using G [OF Suc.prems] True w by simp
    then show ?thesis using r h m1 h1 True by auto
  next
    case False
    have "walk_chain v base len dd (block sb q + DESC_OFF) LAYOUT_QSIZE (Suc n) d t m = (True, t + 2, m1)"
      unfolding walk_chain.simps Let_def desc shadow_addresses m1_def [symmetric]
      using G [OF Suc.prems] False by simp
    then show ?thesis using m1 h1 False by auto
  qed
qed simp


definition driver_head :: "memory \<Rightarrow> u64 \<Rightarrow> u16 \<Rightarrow> u16" where
  "driver_head dm da s = read16 dm (da + 4 + ucast s * 2)"

definition mirrors :: "memory \<Rightarrow> u64 \<Rightarrow> u64 \<Rightarrow> memory \<Rightarrow> u64 \<Rightarrow> u16 \<Rightarrow> bool" where
  "mirrors dm dd da m p i \<longleftrightarrow>
     head_at m p (unat (i mod LAYOUT_QSIZE)) = driver_head dm da (i mod LAYOUT_QSIZE) \<and>
     (\<forall>j \<in> visited (driver_desc_at dm dd) 8 (driver_head dm da (i mod LAYOUT_QSIZE)).
        desc_at m p (unat j) = driver_desc_at dm dd j)"

definition keeps :: "memory \<Rightarrow> u64 \<Rightarrow> u64 \<Rightarrow> u64 \<Rightarrow> memory \<Rightarrow> memory \<Rightarrow> bool" where
  "keeps dm dd da p m m' \<longleftrightarrow>
     (\<forall>j < LAYOUT_QSIZE. desc_at m p (unat j) = driver_desc_at dm dd j \<longrightarrow>
        desc_at m' p (unat j) = driver_desc_at dm dd j) \<and>
     (\<forall>s < LAYOUT_QSIZE. head_at m p (unat s) = driver_head dm da s \<longrightarrow>
        head_at m' p (unat s) = driver_head dm da s)"

lemma keeps_trans: "keeps dm dd da p m m1 \<Longrightarrow> keeps dm dd da p m1 m2 \<Longrightarrow> keeps dm dd da p m m2"
  by (simp add: keeps_def)

lemma slot_lt: "(i :: u16) mod LAYOUT_QSIZE < LAYOUT_QSIZE"
  by (simp add: word_less_nat_alt unat_mod LAYOUT_QSIZE_def)

lemma keeps_mirrors:
  assumes "keeps dm dd da p m m'" "mirrors dm dd da m p i"
    and "\<forall>j \<in> visited (driver_desc_at dm dd) 8 (driver_head dm da (i mod LAYOUT_QSIZE)). j < LAYOUT_QSIZE"
  shows "mirrors dm dd da m' p i"
  using assms slot_lt [of i] by (auto simp: keeps_def mirrors_def)

lemma one_head_still:
  assumes "still v dm" "q < 8" "G h" "h = driver_head dm da (i mod LAYOUT_QSIZE)"
    and G: "\<And>x. G x \<Longrightarrow> x < LAYOUT_QSIZE \<and> check_descriptor base len LAYOUT_QSIZE (driver_desc_at dm dd x)"
    and G_next: "\<And>x. G x \<Longrightarrow> has_next (driver_desc_at dm dd x) \<Longrightarrow> G (d_next (driver_desc_at dm dd x))"
  shows "\<exists>t' m'. shadow_one_head v base len dd (block sb q + DESC_OFF) h LAYOUT_QSIZE t m = (True, t', m') \<and>
    mirrors dm dd da (write16 m' (block sb q + AVAIL_OFF + 4 + ucast (i mod LAYOUT_QSIZE) * 2) h) (block sb q) i \<and>
    keeps dm dd da (block sb q) m (write16 m' (block sb q + AVAIL_OFF + 4 + ucast (i mod LAYOUT_QSIZE) * 2) h)"
proof -
  let ?s = "i mod LAYOUT_QSIZE" and ?D = "driver_desc_at dm dd"
  have q8: "unat LAYOUT_QSIZE = 8" by (simp add: LAYOUT_QSIZE_def)
  from walk_chain_still [OF assms(1-3) G G_next, where sb = sb and n = "unat LAYOUT_QSIZE" and t = t and m = m, unfolded q8]
  obtain t' m' where
    w: "shadow_one_head v base len dd (block sb q + DESC_OFF) h LAYOUT_QSIZE t m = (True, t', m')"
    and r: "\<forall>j < LAYOUT_QSIZE. desc_at m' (block sb q) (unat j) =
       (if j \<in> visited ?D 8 h then ?D j else desc_at m (block sb q) (unat j))"
    and hd: "\<forall>s < 8. head_at m' (block sb q) s = head_at m (block sb q) s"
    unfolding shadow_one_head_def q8 by blast
  let ?m = "write16 m' (block sb q + AVAIL_OFF + 4 + ucast ?s * 2) h"
  have s: "unat ?s < 8" using slot_lt [of i] by (simp add: qsize_unat)
  have d: "desc_at ?m (block sb q) (unat j) = desc_at m' (block sb q) (unat j)" if "j < LAYOUT_QSIZE" for j
  proof -
    have "unat j < 8" using that by (simp add: qsize_unat)
    then show ?thesis unfolding shadow_addresses using s by (intro desc_at_ring [OF assms(2,2)]) auto
  qed
  have e: "head_at ?m (block sb q) (unat j) = (if j = ?s then h else head_at m' (block sb q) (unat j))"
    if "j < LAYOUT_QSIZE" for j
  proof -
    have "unat j < 8" using that by (simp add: qsize_unat)
    from head_at_ring [OF assms(2,2) s this] show ?thesis
      unfolding shadow_addresses by (auto dest: unsigned_word_eqI)
  qed
  have lt: "\<forall>j \<in> visited ?D 8 h. j < LAYOUT_QSIZE"
    using visited_bound [where G = G and D = ?D, OF assms(3) G_next] G by blast
  have "mirrors dm dd da ?m (block sb q) i"
    unfolding mirrors_def assms(4) [symmetric] using e [OF slot_lt [of i]] d r lt by simp
  moreover have "keeps dm dd da (block sb q) m ?m"
    unfolding keeps_def using d e r hd assms(4) by (auto simp: qsize_unat)
  ultimately show ?thesis using w by blast
qed


lemma walk_batch_still:
  assumes "still v dm" "q < 8"
    and G: "\<And>x. G x \<Longrightarrow> x < LAYOUT_QSIZE \<and> check_descriptor base len LAYOUT_QSIZE (driver_desc_at dm dd x)"
    and G_next: "\<And>x. G x \<Longrightarrow> has_next (driver_desc_at dm dd x) \<Longrightarrow> G (d_next (driver_desc_at dm dd x))"
    and heads: "\<And>k. k < unat (to_idx - idx) \<Longrightarrow> G (driver_head dm da ((idx + of_nat k) mod LAYOUT_QSIZE))"
  shows "\<exists>t' m'. walk_batch v base len dd da (block sb q + DESC_OFF) (block sb q + AVAIL_OFF) LAYOUT_QSIZE
      idx to_idx t m = (True, t', m') \<and>
    (\<forall>k < unat (to_idx - idx). mirrors dm dd da m' (block sb q) (idx + of_nat k)) \<and>
    keeps dm dd da (block sb q) m m'"
  using heads
proof (induction "unat (to_idx - idx)" arbitrary: idx t m)
  case 0
  then have "idx = to_idx" by (simp add: unat_eq_zero)
  then show ?case by (subst walk_batch.simps) (simp add: keeps_def)
next
  case (Suc n)
  let ?h = "driver_head dm da (idx mod LAYOUT_QSIZE)"
  have ne: "idx \<noteq> to_idx" using Suc.hyps(2) by auto
  then have n: "n = unat (to_idx - (idx + 1))"
    using Suc.hyps(2) unat_minus_one [of "to_idx - idx"] by (simp add: diff_diff_eq)
  have g: "G ?h" using Suc.prems [of 0] Suc.hyps(2) by simp
  from one_head_still [OF assms(1,2) g refl G G_next, where sb = sb and t = "t + 1" and m = m]
  obtain t1 m1 where
    w: "shadow_one_head v base len dd (block sb q + DESC_OFF) ?h LAYOUT_QSIZE (t + 1) m = (True, t1, m1)"
    and mir: "mirrors dm dd da (write16 m1 (block sb q + AVAIL_OFF + 4 + ucast (idx mod LAYOUT_QSIZE) * 2) ?h)
      (block sb q) idx"
    and kp: "keeps dm dd da (block sb q) m
      (write16 m1 (block sb q + AVAIL_OFF + 4 + ucast (idx mod LAYOUT_QSIZE) * 2) ?h)" by blast
  let ?m = "write16 m1 (block sb q + AVAIL_OFF + 4 + ucast (idx mod LAYOUT_QSIZE) * 2) ?h"
  have "G (driver_head dm da ((idx + 1 + of_nat k) mod LAYOUT_QSIZE))" if "k < unat (to_idx - (idx + 1))" for k
    using Suc.prems [of "Suc k"] that n Suc.hyps(2) by (simp add: ac_simps)
  from Suc.hyps(1) [OF n this, of t1 ?m] obtain t' m' where
    r: "walk_batch v base len dd da (block sb q + DESC_OFF) (block sb q + AVAIL_OFF) LAYOUT_QSIZE
        (idx + 1) to_idx t1 ?m = (True, t', m')"
      "\<forall>k < unat (to_idx - (idx + 1)). mirrors dm dd da m' (block sb q) (idx + 1 + of_nat k)"
      "keeps dm dd da (block sb q) ?m m'" by blast
  have v: "view16 v t (da + 4 + ucast (idx mod LAYOUT_QSIZE) * 2) = ?h"
    using assms(1) by (simp add: still_def driver_head_def)
  have lt: "\<not> LAYOUT_QSIZE \<le> ?h" using G [OF g] by (simp add: not_le)
  have "walk_batch v base len dd da (block sb q + DESC_OFF) (block sb q + AVAIL_OFF) LAYOUT_QSIZE
      idx to_idx t m = (True, t', m')"
    by (subst walk_batch.simps) (simp only: Let_def v ne lt w r(1) if_False not_True_eq_False prod.case)
  moreover have "\<forall>j \<in> visited (driver_desc_at dm dd) 8 ?h. j < LAYOUT_QSIZE"
    using visited_bound [where G = G and D = "driver_desc_at dm dd", OF g G_next] G by blast
  then have "mirrors dm dd da m' (block sb q) idx" by (rule keeps_mirrors [OF r(3) mir])
  then have "mirrors dm dd da m' (block sb q) (idx + of_nat k)" if "k < unat (to_idx - idx)" for k
    using that r(2) n Suc.hyps(2) by (cases k) (auto simp: ac_simps)
  ultimately show ?case using keeps_trans [OF kp r(3)] by blast
qed


lemma publish_keeps:
  assumes "q < 8" "mirrors dm dd da m (block sb q) i"
    and "\<forall>j \<in> visited (driver_desc_at dm dd) 8 (driver_head dm da (i mod LAYOUT_QSIZE)). j < LAYOUT_QSIZE"
  shows "mirrors dm dd da (write16 m (block sb q + AVAIL_OFF + 2) v) (block sb q) i"
proof -
  have s: "unat (i mod LAYOUT_QSIZE) < 8" using slot_lt [of i] by (simp add: qsize_unat)
  have "desc_at (write16 m (block sb q + of_nat 0x82) v) (block sb q) (unat j) = desc_at m (block sb q) (unat j)"
    if "j < LAYOUT_QSIZE" for j
    using that by (intro desc_at_ring [OF assms(1,1)]) (simp_all add: qsize_unat)
  then show ?thesis
    using assms(2,3) ring_publish(1) [OF assms(1,1) s s] unfolding shadow_addresses mirrors_def by simp
qed


section \<open>What is accepted\<close>

text \<open>The reference for the decision: the batch fits the ring, every published head is an index of the table,
  and every descriptor a chain reaches in as many steps as the table has entries passes the check.\<close>

definition batch_ok :: "memory \<Rightarrow> u64 \<Rightarrow> u64 \<Rightarrow> u64 \<Rightarrow> u64 \<Rightarrow> u16 \<Rightarrow> u16 \<Rightarrow> bool" where
  "batch_ok dm base len dd da from_idx to_idx \<longleftrightarrow> to_idx - from_idx \<le> LAYOUT_QSIZE \<and>
     (\<forall>k < unat (to_idx - from_idx).
        let head = driver_head dm da ((from_idx + of_nat k) mod LAYOUT_QSIZE)
        in head < LAYOUT_QSIZE \<and>
           (\<forall>d \<in> visited (driver_desc_at dm dd) 8 head.
              check_descriptor base len LAYOUT_QSIZE (driver_desc_at dm dd d)))"

lemma walk_chain_accepts:
  assumes "still v dm"
  shows "fst (walk_chain v base len dd sd qsize n d t m) \<longleftrightarrow>
    (\<forall>x \<in> visited (driver_desc_at dm dd) n d. check_descriptor base len qsize (driver_desc_at dm dd x))"
proof (induction n arbitrary: d t m)
  case (Suc n)
  have desc: "\<lparr>d_addr = view64 v t (dd + ucast d * 16), d_word = view64 v (t + 1) (dd + ucast d * 16 + 8)\<rparr> = driver_desc_at dm dd d"
    using assms by (simp add: still_def driver_desc_at_def)
  show ?case unfolding walk_chain.simps Let_def desc by (simp add: Suc.IH)
qed simp

lemma walk_batch_accepts:
  assumes "still v dm"
  shows "fst (walk_batch v base len dd da sd sa LAYOUT_QSIZE idx to_idx t m) \<longleftrightarrow>
    (\<forall>k < unat (to_idx - idx). let head = driver_head dm da ((idx + of_nat k) mod LAYOUT_QSIZE)
       in head < LAYOUT_QSIZE \<and>
          (\<forall>d \<in> visited (driver_desc_at dm dd) 8 head.
             check_descriptor base len LAYOUT_QSIZE (driver_desc_at dm dd d)))"
proof (induction "unat (to_idx - idx)" arbitrary: idx t m)
  case 0
  then have "idx = to_idx" by (simp add: unat_eq_zero)
  then show ?case by (subst walk_batch.simps) simp
next
  case (Suc n)
  let ?h = "driver_head dm da (idx mod LAYOUT_QSIZE)"
  have ne: "idx \<noteq> to_idx" using Suc.hyps(2) by auto
  then have n: "n = unat (to_idx - (idx + 1))"
    using Suc.hyps(2) unat_minus_one [of "to_idx - idx"] by (simp add: diff_diff_eq)
  have v: "view16 v t (da + 4 + ucast (idx mod LAYOUT_QSIZE) * 2) = ?h"
    using assms by (simp add: still_def driver_head_def)
  have q8: "unat LAYOUT_QSIZE = 8" by (simp add: LAYOUT_QSIZE_def)
  obtain ok t1 m1 where w: "shadow_one_head v base len dd sd ?h LAYOUT_QSIZE (t + 1) m = (ok, t1, m1)"
    by (metis prod.exhaust)
  have ok: "ok \<longleftrightarrow> (\<forall>x \<in> visited (driver_desc_at dm dd) 8 ?h. check_descriptor base len LAYOUT_QSIZE (driver_desc_at dm dd x))"
    using walk_chain_accepts [OF assms, of base len dd sd LAYOUT_QSIZE 8 ?h "t + 1" m] w
    by (simp add: shadow_one_head_def q8)
  let ?P = "\<lambda>k. let head = driver_head dm da ((idx + of_nat k) mod LAYOUT_QSIZE)
       in head < LAYOUT_QSIZE \<and>
          (\<forall>d \<in> visited (driver_desc_at dm dd) 8 head. check_descriptor base len LAYOUT_QSIZE (driver_desc_at dm dd d))"
  have rest: "fst (walk_batch v base len dd da sd sa LAYOUT_QSIZE (idx + 1) to_idx t' m') \<longleftrightarrow> (\<forall>k < n. ?P (Suc k))" for t' m'
    using Suc.hyps(1) [OF n, of t' m'] n by (simp add: ac_simps)
  have "walk_batch v base len dd da sd sa LAYOUT_QSIZE idx to_idx t m =
      (if LAYOUT_QSIZE \<le> ?h then (False, t + 1, m) else if \<not> ok then (False, t1, m1)
       else walk_batch v base len dd da sd sa LAYOUT_QSIZE (idx + 1) to_idx t1
              (write16 m1 (sa + 4 + ucast (idx mod LAYOUT_QSIZE) * 2) ?h))"
    by (subst walk_batch.simps) (simp only: Let_def v w ne if_False prod.case)
  then have "fst (walk_batch v base len dd da sd sa LAYOUT_QSIZE idx to_idx t m) \<longleftrightarrow> ?P 0 \<and> (\<forall>k < n. ?P (Suc k))"
    using ok rest by (auto simp: not_le Let_def)
  also have "\<dots> \<longleftrightarrow> (\<forall>k < Suc n. ?P k)" by (simp only: All_less_Suc2)
  finally show ?case using Suc.hyps(2) by simp
qed

lemma validate_accepts:
  assumes "still v dm"
  shows "fst (validate_and_shadow v base len dd da sd sa from_idx to_idx LAYOUT_QSIZE t m)
    \<longleftrightarrow> batch_ok dm base len dd da from_idx to_idx"
  using walk_batch_accepts [OF assms, of base len dd da sd sa from_idx to_idx t m]
  by (auto simp: validate_and_shadow_def batch_ok_def not_le split: prod.splits)


section \<open>Properties\<close>

text \<open>C31. The driver's chains reach the device unchanged: when the driver leaves its rings alone and
  every descriptor its published chains visited passes the check, the batch is accepted, the published
  index becomes the driver's, every slot of the batch holds the driver's head, and the shadow table
  holds the driver's own descriptors on a set of indices that contains those heads and is closed under
  the descriptors' links.\<close>

theorem honest_chains_reach_device:
  assumes "still v dm" "q < 8" "to_idx - from_idx \<le> LAYOUT_QSIZE"
    and good: "\<forall>x \<in> G. x < LAYOUT_QSIZE \<and> check_descriptor base len LAYOUT_QSIZE (driver_desc_at dm dd x) \<and>
      (has_next (driver_desc_at dm dd x) \<longrightarrow> d_next (driver_desc_at dm dd x) \<in> G)"
    and heads: "\<forall>k < unat (to_idx - from_idx). driver_head dm da ((from_idx + of_nat k) mod LAYOUT_QSIZE) \<in> G"
  shows "\<exists>m' C. validate_and_shadow v base len dd da (block sb q + DESC_OFF) (block sb q + AVAIL_OFF)
      from_idx to_idx LAYOUT_QSIZE t m = (True, m') \<and>
    published m' (block sb q) = to_idx \<and>
    (\<forall>k < unat (to_idx - from_idx). let s = (from_idx + of_nat k) mod LAYOUT_QSIZE in
       head_at m' (block sb q) (unat s) = driver_head dm da s \<and> driver_head dm da s \<in> C) \<and>
    (\<forall>d \<in> C. desc_at m' (block sb q) (unat d) = driver_desc_at dm dd d \<and>
       (has_next (driver_desc_at dm dd d) \<longrightarrow> d_next (driver_desc_at dm dd d) \<in> C))"
proof -
  let ?D = "driver_desc_at dm dd" and ?h = "\<lambda>k. driver_head dm da ((from_idx + of_nat k) mod LAYOUT_QSIZE)"
  from walk_batch_still [OF assms(1,2), where G = "\<lambda>x. x \<in> G" and sb = sb and t = t and m = m] good heads
  obtain t1 m1 where
    w: "walk_batch v base len dd da (block sb q + DESC_OFF) (block sb q + AVAIL_OFF) LAYOUT_QSIZE
        from_idx to_idx t m = (True, t1, m1)"
    and mir: "\<forall>k < unat (to_idx - from_idx). mirrors dm dd da m1 (block sb q) (from_idx + of_nat k)"
    by blast
  let ?m = "write16 m1 (block sb q + AVAIL_OFF + 2) to_idx"
  have lt: "\<forall>x \<in> visited ?D n (?h k). x < LAYOUT_QSIZE" if "k < unat (to_idx - from_idx)" for n k
    using visited_bound [where G = "\<lambda>x. x \<in> G" and D = ?D and n = n and d = "?h k"] heads good that by blast
  define C where "C = (\<Union>k < unat (to_idx - from_idx). visited ?D 8 (?h k))"
  have mir': "mirrors dm dd da ?m (block sb q) (from_idx + of_nat k)" if "k < unat (to_idx - from_idx)" for k
    using publish_keeps [OF assms(2)] mir lt that by blast
  have "validate_and_shadow v base len dd da (block sb q + DESC_OFF) (block sb q + AVAIL_OFF)
      from_idx to_idx LAYOUT_QSIZE t m = (True, ?m)"
    using assms(3) w by (simp add: validate_and_shadow_def not_less)
  moreover have "published ?m (block sb q) = to_idx"
    unfolding shadow_addresses by (simp add: published_def del: of_nat_numeral)
  moreover have "?h k \<in> C" if "k < unat (to_idx - from_idx)" for k
    using that visited_step [of ?D 7 "?h k"] by (auto simp: C_def intro!: bexI [of _ k])
  moreover have "desc_at ?m (block sb q) (unat d) = ?D d \<and> (has_next (?D d) \<longrightarrow> d_next (?D d) \<in> C)"
    if d: "d \<in> C" for d
  proof -
    from d obtain k where k: "k < unat (to_idx - from_idx)" "d \<in> visited ?D 8 (?h k)"
      unfolding C_def by blast
    then show ?thesis
      using mir' [OF k(1)] visited_closed [OF lt [OF k(1)] k(2)] by (auto simp: mirrors_def C_def)
  qed
  ultimately show ?thesis
    using mir' by (intro exI [of _ ?m] exI [of _ C]) (simp add: Let_def mirrors_def)
qed

definition sample_driver :: memory where
  "sample_driver = write64 (write64 (\<lambda>_. 0) 0x40000000 0x40001000) 0x40000008 16"

lemma sample_driver_desc: "driver_desc_at sample_driver 0x40000000 0 = \<lparr>d_addr = 0x40001000, d_word = 16\<rparr>"
  by (simp add: driver_desc_at_def sample_driver_def read64_write64_apart apart_def)

lemma sample_driver_head: "driver_head sample_driver 0x40000080 0 = 0"
  by (simp add: driver_head_def sample_driver_def read16_write64_apart apart_def)
    (simp add: read16_def read_bytes_def eval_nat_numeral)

theorem honest_chains_reach_device_witness:
  "\<exists>m'. validate_and_shadow \<lparr>view16 = \<lambda>_. read16 sample_driver, view64 = \<lambda>_. read64 sample_driver\<rparr>
      0x40000000 0x10000 0x40000000 0x40000080 (block 0x50000000 1 + DESC_OFF) (block 0x50000000 1 + AVAIL_OFF)
      0 1 LAYOUT_QSIZE 0 (\<lambda>_. 0) = (True, m') \<and>
    desc_at m' (block 0x50000000 1) 0 = \<lparr>d_addr = 0x40001000, d_word = 16\<rparr>"
proof -
  let ?v = "\<lparr>view16 = \<lambda>_. read16 sample_driver, view64 = \<lambda>_. read64 sample_driver\<rparr>"
  have n: "\<not> has_next \<lparr>d_addr = 0x40001000, d_word = 16\<rparr>"
    by (simp add: has_next_def flags_def F_NEXT_def)
  have 1: "still ?v sample_driver" by (simp add: still_def)
  have 2: "(1 :: nat) < 8" "(1 :: u16) - 0 \<le> LAYOUT_QSIZE" by (simp_all add: LAYOUT_QSIZE_def)
  have 3: "\<forall>x \<in> {0}. x < LAYOUT_QSIZE \<and>
      check_descriptor 0x40000000 0x10000 LAYOUT_QSIZE (driver_desc_at sample_driver 0x40000000 x) \<and>
      (has_next (driver_desc_at sample_driver 0x40000000 x) \<longrightarrow>
        d_next (driver_desc_at sample_driver 0x40000000 x) \<in> {0})"
    using n by (simp add: sample_driver_desc check_descriptor_def is_indirect_def flags_def F_INDIRECT_def
        is_in_region_iff buf_len_def LAYOUT_QSIZE_def)
  have 4: "\<forall>k < unat ((1 :: u16) - 0).
      driver_head sample_driver 0x40000080 ((0 + of_nat k) mod LAYOUT_QSIZE) \<in> {0}"
    by (simp add: sample_driver_head)
  from honest_chains_reach_device [OF 1 2 3 4, of "0x50000000" 0 "\<lambda>_. 0"] obtain m' C where
    "validate_and_shadow ?v 0x40000000 0x10000 0x40000000 0x40000080 (block 0x50000000 1 + DESC_OFF)
      (block 0x50000000 1 + AVAIL_OFF) 0 1 LAYOUT_QSIZE 0 (\<lambda>_. 0) = (True, m')"
    "\<forall>k < unat ((1 :: u16) - 0). driver_head sample_driver 0x40000080 ((0 + of_nat k) mod LAYOUT_QSIZE) \<in> C"
    "\<forall>d \<in> C. desc_at m' (block 0x50000000 1) (unat d) = driver_desc_at sample_driver 0x40000000 d"
    unfolding Let_def by blast
  then show ?thesis using sample_driver_head sample_driver_desc by force
qed

end
