(* ===== verification/Virtio.thy ===== *)
theory Virtio
  imports Dma_Validator
begin

text \<open>
  The kernel's side of a device driven from user space, \<open>src/kernel/src/virtio.rs\<close>: the
  device table, registration with a zeroed shadow page, the filtered register writes, queue setup and
  the validated notification.

  The bus underneath is two: a virtio-mmio slot or a virtio-pci function.  What the model keeps of a
  transport is what the source branches on or computes with: of a PCI function the notification base and
  multiplier, the doorbells resolved so far, and the vector its queues raise.  What reaches the hardware is
  a list of events.  Values read from hardware (the maximum queue size, a PCI queue's notification offset),
  the answer of the frame allocator and whether an IOMMU is active are arguments; the confinement that
  registration asks of the IOMMU is part of its result.
\<close>

section \<open>Devices and transports\<close>

definition REG_DEVICE_FEATURES_SEL :: u64 where "REG_DEVICE_FEATURES_SEL = 0x014"
definition REG_DRIVER_FEATURES :: u64 where "REG_DRIVER_FEATURES = 0x020"
definition REG_DRIVER_FEATURES_SEL :: u64 where "REG_DRIVER_FEATURES_SEL = 0x024"
definition REG_INTERRUPT_ACK :: u64 where "REG_INTERRUPT_ACK = 0x064"
definition REG_STATUS :: u64 where "REG_STATUS = 0x070"

lemmas reg_defs = REG_DEVICE_FEATURES_SEL_def REG_DRIVER_FEATURES_def REG_DRIVER_FEATURES_SEL_def
  REG_INTERRUPT_ACK_def REG_STATUS_def

definition VIRTIO_MSIX_NO_VECTOR :: u16 where "VIRTIO_MSIX_NO_VECTOR = 0xffff"

datatype Transport = Mmio | Pci (notify_base: u64) (notify_mult: u32) (notify_addr: "u64 list") (msix_vector: u16)

datatype hw_event =
    Reg_write u64 u32
  | Queue_vector u16 u16
  | Queue_programmed u16 u16 u64 u64 u64
  | Doorbell u16

definition write_reg :: "Transport \<Rightarrow> u64 \<Rightarrow> u32 \<Rightarrow> hw_event list" where
  "write_reg tr off v =
     (case tr of
        Mmio \<Rightarrow> [Reg_write off v]
      | Pci _ _ _ _ \<Rightarrow>
          if off = REG_DEVICE_FEATURES_SEL \<or> off = REG_DRIVER_FEATURES_SEL \<or> off = REG_DRIVER_FEATURES
          then [Reg_write off v]
          else if off = REG_STATUS then [Reg_write off (ucast (ucast v :: u8))] else [])"

definition is_doorbell_ready :: "Transport \<Rightarrow> u16 \<Rightarrow> bool" where
  "is_doorbell_ready tr q =
     (case tr of Mmio \<Rightarrow> True | Pci _ _ addrs _ \<Rightarrow> addrs ! unat q \<noteq> 0)"

definition tr_setup_queue ::
  "Transport \<Rightarrow> u16 \<Rightarrow> u16 \<Rightarrow> u64 \<Rightarrow> u64 \<Rightarrow> u64 \<Rightarrow> u16 \<Rightarrow> Transport \<times> hw_event list" where
  "tr_setup_queue tr q num desc avail used notify_off =
     (case tr of
        Mmio \<Rightarrow> (Mmio, [Queue_programmed q num desc avail used])
      | Pci base mult addrs vector \<Rightarrow>
          (Pci base mult (addrs[unat q := base + ucast notify_off * ucast mult]) vector,
           (if vector \<noteq> VIRTIO_MSIX_NO_VECTOR then [Queue_vector q vector] else [])
           @ [Queue_programmed q num desc avail used]))"

definition notify_queue :: "Transport \<Rightarrow> u16 \<Rightarrow> hw_event list" where
  "notify_queue tr q = [Doorbell q]"

record Device =
  vd_transport :: Transport
  vd_base :: u64
  vd_size :: u64
  vd_last_avail :: "u16 list"
  vd_features_sel :: u32
  vd_shadow :: u64

definition MAX_DEVICES :: nat where "MAX_DEVICES = 34"

datatype TransportError = NoDevice | BadQueue | DmaEscape

record vstate =
  vs_devices :: "Device list"
  vs_mem :: memory

definition get_device :: "vstate \<Rightarrow> nat \<Rightarrow> Device option" where
  "get_device s n = (if n < length (vs_devices s) then Some (vs_devices s ! n) else None)"

definition set_device :: "vstate \<Rightarrow> nat \<Rightarrow> Device \<Rightarrow> vstate" where
  "set_device s n d = s\<lparr>vs_devices := (vs_devices s)[n := d]\<rparr>"


section \<open>Operations\<close>

text \<open>Registration takes the frame \<open>alloc_zeroed\<close> returned; no frame, or a full table, is a panic.  The result
  holds the call \<open>confine(rid, virtio_regions(base, len, shadow))\<close> when one is made.\<close>

definition confinement :: "u32 option \<Rightarrow> bool \<Rightarrow> u64 \<Rightarrow> u64 \<Rightarrow> u64 \<Rightarrow> (u32 \<times> u64 \<times> u64 \<times> u64) option" where
  "confinement rid iommu_active base len shadow_base =
     (case rid of
        Some rid \<Rightarrow> if iommu_active then Some (rid, base, len, shadow_base) else None
      | None \<Rightarrow> None)"

definition vregister ::
  "vstate \<Rightarrow> Transport \<Rightarrow> u64 \<Rightarrow> u64 \<Rightarrow> u32 option \<Rightarrow> bool \<Rightarrow> u64 option
   \<Rightarrow> (nat \<times> vstate \<times> (u32 \<times> u64 \<times> u64 \<times> u64) option) option" where
  "vregister s tr base len rid iommu_active frame =
     (case frame of
        None \<Rightarrow> None
      | Some shadow_base \<Rightarrow>
          if MAX_DEVICES \<le> length (vs_devices s) then None
          else Some (length (vs_devices s),
            s\<lparr>vs_devices := vs_devices s @
                 [\<lparr>vd_transport = tr, vd_base = base, vd_size = len, vd_last_avail = [0, 0],
                   vd_features_sel = 0, vd_shadow = shadow_base\<rparr>],
              vs_mem := write_bytes (vs_mem s) shadow_base (replicate 4096 0)\<rparr>,
            confinement rid iommu_active base len shadow_base))"

definition sanitize_driver_features :: "u32 \<Rightarrow> u32 \<Rightarrow> u32" where
  "sanitize_driver_features sel v =
     (if sel = 0 then v AND NOT (bit_mask 28)
      else if sel = 1 then v AND NOT (bit_mask (34 - 32))
      else v)"

definition write_register ::
  "vstate \<Rightarrow> nat \<Rightarrow> u64 \<Rightarrow> u32 \<Rightarrow> TransportError + (vstate \<times> hw_event list)" where
  "write_register s n off v =
     (if off \<notin> {REG_STATUS, REG_DEVICE_FEATURES_SEL, REG_DRIVER_FEATURES_SEL, REG_DRIVER_FEATURES,
                  REG_INTERRUPT_ACK}
      then Inl BadQueue
      else case get_device s n of
             None \<Rightarrow> Inl NoDevice
           | Some dev \<Rightarrow>
               if off = REG_DRIVER_FEATURES_SEL
               then Inr (set_device s n (dev\<lparr>vd_features_sel := v\<rparr>), write_reg (vd_transport dev) off v)
               else if off = REG_DRIVER_FEATURES
               then Inr (s, write_reg (vd_transport dev) off
                              (sanitize_driver_features (vd_features_sel dev) v))
               else Inr (s, write_reg (vd_transport dev) off v))"

definition setup_queue ::
  "vstate \<Rightarrow> nat \<Rightarrow> u16 \<Rightarrow> u16 \<Rightarrow> u16 \<Rightarrow> u16 \<Rightarrow> TransportError + (vstate \<times> hw_event list)" where
  "setup_queue s n num queue num_max notify_off =
     (if unat MAX_QUEUES \<le> unat queue then Inl BadQueue
      else case get_device s n of
             None \<Rightarrow> Inl NoDevice
           | Some dev \<Rightarrow>
               let blk = queue_block queue in
               if num = 0 \<or> LAYOUT_QSIZE < num \<or> vd_size dev < blk + RING_END then Inl BadQueue
               else if num_max < num then Inl BadQueue
               else case tr_setup_queue (vd_transport dev) queue num
                           (vd_shadow dev + blk + DESC_OFF) (vd_shadow dev + blk + AVAIL_OFF)
                           (vd_base dev + blk + USED_OFF) notify_off of
                      (tr, evs) \<Rightarrow> Inr (set_device s n (dev\<lparr>vd_transport := tr\<rparr>), evs))"

text \<open>The notification reads the driver's published index first, then validates.  The state it
  leaves is returned in both outcomes: a refused batch may already have copied descriptors.\<close>

definition notify ::
  "driver_view \<Rightarrow> vstate \<Rightarrow> nat \<Rightarrow> u16 \<Rightarrow> (TransportError + hw_event list) \<times> vstate" where
  "notify v s n queue =
     (if unat MAX_QUEUES \<le> unat queue then (Inl BadQueue, s)
      else case get_device s n of
             None \<Rightarrow> (Inl NoDevice, s)
           | Some dev \<Rightarrow>
               if \<not> is_doorbell_ready (vd_transport dev) queue then (Inl BadQueue, s)
               else
                 let blk = queue_block queue;
                     driver_desc = vd_base dev + blk + DESC_OFF;
                     driver_avail = vd_base dev + blk + AVAIL_OFF;
                     to_idx = view16 v 0 (driver_avail + 2)
                 in case validate_and_shadow v (vd_base dev) (vd_size dev) driver_desc driver_avail
                           (vd_shadow dev + blk + DESC_OFF) (vd_shadow dev + blk + AVAIL_OFF)
                           (vd_last_avail dev ! unat queue) to_idx LAYOUT_QSIZE 1 (vs_mem s) of
                      (ok, m) \<Rightarrow>
                        if \<not> ok then (Inl DmaEscape, s\<lparr>vs_mem := m\<rparr>)
                        else (Inr (notify_queue (vd_transport dev) queue),
                              (set_device s n (dev\<lparr>vd_last_avail := (vd_last_avail dev)[unat queue := to_idx]\<rparr>))
                                \<lparr>vs_mem := m\<rparr>))"


section \<open>The machine\<close>

definition page_of :: "u64 \<Rightarrow> u64 set" where
  "page_of p = {a. unat (a - p) < 4096}"

definition region_of :: "Device \<Rightarrow> u64 set" where
  "region_of d = {a. unat (vd_base d) \<le> unat a \<and> unat a < unat (vd_base d) + unat (vd_size d)}"

text \<open>A step is a call into the kernel, with whatever the driver's memory shows it, or a store by a
  driver or a device into the device's own region.  Registration gets a frame that nobody has: no
  other shadow page and no region of a device overlaps it, and the new region overlaps no shadow
  page.\<close>

inductive vstep :: "vstate \<Rightarrow> vstate \<Rightarrow> bool" where
  registered: "vregister s tr base len rid iommu_active (Some sb) = Some (n, s', confined) \<Longrightarrow>
    \<forall>d \<in> set (vs_devices s'). page_of sb \<inter> region_of d = {} \<Longrightarrow>
    \<forall>d \<in> set (vs_devices s). page_of (vd_shadow d) \<inter> page_of sb = {} \<Longrightarrow>
    \<forall>d \<in> set (vs_devices s). page_of (vd_shadow d) \<inter> region_of (last (vs_devices s')) = {} \<Longrightarrow>
    vstep s s'"
| wrote: "write_register s n off v = Inr (s', evs) \<Longrightarrow> vstep s s'"
| set_up: "setup_queue s n num queue num_max notify_off = Inr (s', evs) \<Longrightarrow> vstep s s'"
| notified: "notify v s n queue = (r, s') \<Longrightarrow> vstep s s'"
| stored: "d \<in> set (vs_devices s) \<Longrightarrow> a \<in> region_of d \<Longrightarrow> vstep s (s\<lparr>vs_mem := (vs_mem s)(a := b)\<rparr>)"

definition vstart :: "memory \<Rightarrow> vstate" where
  "vstart m = \<lparr>vs_devices = [], vs_mem = m\<rparr>"

text \<open>The descriptors a device can come to act on: the heads in its ring's slots, whatever index it
  believes is published, and everything their links lead to.\<close>

inductive device_sees :: "memory \<Rightarrow> u64 \<Rightarrow> nat \<Rightarrow> bool" for m p where
  from_ring: "s < 8 \<Longrightarrow> device_sees m p (unat (head_at m p s))"
| by_link: "device_sees m p d \<Longrightarrow> has_next (desc_at m p d) \<Longrightarrow>
    device_sees m p (unat (d_next (desc_at m p d)))"



section \<open>What a page's bytes determine\<close>

lemma page_of_offset: "i < 4096 \<Longrightarrow> p + of_nat i \<in> page_of p"
  by (simp add: page_of_def unat_of_nat)

lemma read_bytes_page:
  assumes "\<And>a. a \<in> page_of p \<Longrightarrow> m' a = m a" "i + n \<le> 4096"
  shows "read_bytes m' (p + of_nat i) n = read_bytes m (p + of_nat i) n"
proof -
  have "m' (p + of_nat i + of_nat k) = m (p + of_nat i + of_nat k)" if "k < n" for k
    using assms(1) [OF page_of_offset, of "i + k"] assms(2) that by (simp add: add.assoc)
  then show ?thesis by (simp add: read_bytes_def)
qed

lemma write_bytes_page:
  assumes "a \<notin> page_of p" "i + length bs \<le> 4096"
  shows "write_bytes m (p + of_nat i) bs a = m a"
proof -
  have "\<not> unat (a - (p + of_nat i)) < length bs"
  proof
    assume l: "unat (a - (p + of_nat i)) < length bs"
    have "unat (of_nat i :: u64) = i" using assms(2) by (simp add: unat_of_nat)
    then have "unat (a - (p + of_nat i) + of_nat i) = unat (a - (p + of_nat i)) + i"
      using l assms(2) by (subst unat_add_no_wrap) simp_all
    moreover have "a - (p + of_nat i) + of_nat i = a - p" by simp
    ultimately show False using assms l by (simp add: page_of_def)
  qed
  then show ?thesis by (simp add: write_bytes_def)
qed

lemma shadow_ok_page:
  assumes "\<And>a. a \<in> page_of p \<Longrightarrow> m' a = m a" "q < 2"
  shows "shadow_ok base len (block p q) m' \<longleftrightarrow> shadow_ok base len (block p q) m"
proof -
  have q: "0x200 * q \<le> 0x200" using assms(2) by simp
  have "desc_at m' (block p q) d = desc_at m (block p q) d" if "d < 8" for d
    unfolding desc_at_def read64_def block_offset
    using that q read_bytes_page [OF assms(1), where n = 8 and i = "0x200 * q + 16 * d"]
      read_bytes_page [OF assms(1), where n = 8 and i = "0x200 * q + (16 * d + 8)"] by simp
  moreover have "head_at m' (block p q) s = head_at m (block p q) s" if "s < 8" for s
    unfolding head_at_def read16_def block_offset
    using that q read_bytes_page [OF assms(1), where n = 2 and i = "0x200 * q + (0x84 + 2 * s)"] by simp
  ultimately show ?thesis by (simp add: shadow_ok_def)
qed

lemma shadow_write_page:
  assumes "shadow_write base len (block p q + DESC_OFF) (block p q + AVAIL_OFF) LAYOUT_QSIZE m m'"
    "q < 2" "a \<notin> page_of p"
  shows "m' a = m a"
  using assms(1)
proof cases
  case (copied d desc)
  have "unat d < 8" using copied(2) by (simp add: qsize_unat)
  then show ?thesis
    unfolding copied(1) shadow_addresses unfolding block_offset write64_def
    using assms(2,3) by (simp add: write_bytes_page del: of_nat_add of_nat_mult)
next
  case (mirrored slot head)
  have "unat slot < 8" using mirrored(2) by (simp add: qsize_unat)
  then show ?thesis
    unfolding mirrored(1) shadow_addresses unfolding block_offset write16_def
    using assms(2,3) by (simp add: write_bytes_page del: of_nat_add of_nat_mult)
qed

lemma validated_page:
  assumes "validate_and_shadow v base len dd da (block p q + DESC_OFF) (block p q + AVAIL_OFF)
      from_idx to_idx LAYOUT_QSIZE t m = (ok, m')" "q < 2" "a \<notin> page_of p"
  shows "m' a = m a"
proof -
  from validate_and_shadow_writes [OF assms(1)] obtain m1 where
    w: "(shadow_write base len (block p q + DESC_OFF) (block p q + AVAIL_OFF) LAYOUT_QSIZE)\<^sup>*\<^sup>* m m1"
    and m': "m' = (if ok then write16 m1 (block p q + of_nat 0x82) to_idx else m1)"
    unfolding shadow_addresses by blast
  from w have "m1 a = m a"
  proof (induction rule: rtranclp_induct)
    case (step y z)
    then show ?case using shadow_write_page [OF step.hyps(2) assms(2,3)] by simp
  qed simp
  moreover have "write16 m1 (block p q + of_nat 0x82) to_idx a = m1 a"
    unfolding block_offset write16_def using assms(2,3) by (intro write_bytes_page) auto
  ultimately show ?thesis using m' by simp
qed

lemma zeroed_shadow_ok:
  assumes "q < 2"
  shows "shadow_ok base len (block p q) (write_bytes m p (replicate 4096 0))"
proof -
  let ?m = "write_bytes m p (replicate 4096 0)"
  have z: "?m a = (0 :: u8)" if "a \<in> page_of p" for a
    using that by (simp add: write_bytes_def page_of_def)
  have "shadow_ok base len (block p q) ?m \<longleftrightarrow> shadow_ok base len (block p q) (\<lambda>_. 0)"
    using z assms by (intro shadow_ok_page) auto
  moreover have r: "read64 (\<lambda>_. 0) x = 0" "read16 (\<lambda>_. 0) x = 0" for x
    by (simp_all add: read64_def read16_def read_bytes_def eval_nat_numeral)
  then have "shadow_ok base len (block p q) (\<lambda>_. 0)"
    using zero_harmless by (simp add: shadow_ok_def desc_at_def head_at_def LAYOUT_QSIZE_def)
  ultimately show ?thesis by simp
qed



section \<open>The invariant\<close>

text \<open>Where each device's region and shadow page are never changes once it is registered.\<close>

definition geometry :: "vstate \<Rightarrow> (u64 \<times> u64 \<times> u64) list" where
  "geometry s = map (\<lambda>d. (vd_base d, vd_size d, vd_shadow d)) (vs_devices s)"

definition span :: "u64 \<Rightarrow> u64 \<Rightarrow> u64 set" where
  "span b n = {a. unat b \<le> unat a \<and> unat a < unat b + unat n}"

lemma region_of_span: "region_of d = span (vd_base d) (vd_size d)"
  by (simp add: region_of_def span_def)

definition pages_apart :: "(u64 \<times> u64 \<times> u64) list \<Rightarrow> bool" where
  "pages_apart g \<longleftrightarrow>
     (\<forall>i < length g. \<forall>j < length g. i \<noteq> j \<longrightarrow> page_of (snd (snd (g ! i))) \<inter> page_of (snd (snd (g ! j))) = {}) \<and>
     (\<forall>x \<in> set g. \<forall>y \<in> set g. page_of (snd (snd x)) \<inter> span (fst y) (fst (snd y)) = {})"

definition all_confined :: "(u64 \<times> u64 \<times> u64) list \<Rightarrow> memory \<Rightarrow> bool" where
  "all_confined g m \<longleftrightarrow> (\<forall>(b, n, p) \<in> set g. \<forall>q < 2. shadow_ok b n (block p q) m)"

definition vinv :: "vstate \<Rightarrow> bool" where
  "vinv s \<longleftrightarrow> pages_apart (geometry s) \<and> all_confined (geometry s) (vs_mem s)"

lemma pages_apart_pages:
  assumes "pages_apart g" "i < length g" "j < length g" "i \<noteq> j" "g ! i = (b, n, p)" "g ! j = (b', n', p')"
  shows "page_of p \<inter> page_of p' = {}"
proof -
  have "page_of (snd (snd (g ! i))) \<inter> page_of (snd (snd (g ! j))) = {}"
    using assms(1-4) unfolding pages_apart_def by blast
  then show ?thesis using assms(5,6) by simp
qed

lemma pages_apart_span:
  assumes "pages_apart g" "(b, n, p) \<in> set g" "(b', n', p') \<in> set g"
  shows "page_of p \<inter> span b' n' = {}"
proof -
  have "page_of (snd (snd (b, n, p))) \<inter> span (fst (b', n', p')) (fst (snd (b', n', p'))) = {}"
    using assms unfolding pages_apart_def by blast
  then show ?thesis by simp
qed

lemma geometry_set_device:
  assumes "get_device s n = Some dev" "vd_base d = vd_base dev" "vd_size d = vd_size dev" "vd_shadow d = vd_shadow dev"
  shows "geometry (set_device s n d) = geometry s"
  using assms
  by (auto simp: geometry_def set_device_def get_device_def nth_list_update intro!: nth_equalityI split: if_splits)

lemma geometry_mem [simp]: "geometry (s\<lparr>vs_mem := m\<rparr>) = geometry s"
  by (simp add: geometry_def)

lemma all_confined_elsewhere:
  assumes "all_confined g m" "\<And>a b n p. (b, n, p) \<in> set g \<Longrightarrow> a \<in> page_of p \<Longrightarrow> m' a = m a"
  shows "all_confined g m'"
  unfolding all_confined_def
proof (clarify)
  fix b n p and q :: nat
  assume g: "(b, n, p) \<in> set g" and q: "q < 2"
  have "shadow_ok b n (block p q) m" using assms(1) g q by (auto simp: all_confined_def)
  then show "shadow_ok b n (block p q) m'" using shadow_ok_page [OF assms(2) [OF g] q] by simp
qed

lemma all_confined_one_page:
  assumes "pages_apart g" "all_confined g m" "k < length g" "g ! k = (b, n, p)"
    and "\<And>a. a \<notin> page_of p \<Longrightarrow> m' a = m a" "\<And>q. q < 2 \<Longrightarrow> shadow_ok b n (block p q) m'"
  shows "all_confined g m'"
  unfolding all_confined_def
proof (clarify)
  fix b' n' p' and q :: nat
  assume "(b', n', p') \<in> set g" and q: "q < 2"
  then obtain i where i: "i < length g" "g ! i = (b', n', p')" by (metis in_set_conv_nth)
  have ok: "shadow_ok b' n' (block p' q) m" using assms(2) \<open>(b', n', p') \<in> set g\<close> q by (auto simp: all_confined_def)
  show "shadow_ok b' n' (block p' q) m'"
  proof (cases "i = k")
    case True
    then show ?thesis using assms(4,6) i(2) q by auto
  next
    case False
    then have "page_of p' \<inter> page_of p = {}"
      using pages_apart_pages [OF assms(1) i(1) assms(3) _ i(2) assms(4)] by blast
    then have "m' a = m a" if "a \<in> page_of p'" for a using assms(5) that by blast
    then show ?thesis using shadow_ok_page [where p = p' and m = m and m' = m', OF _ q] ok by simp
  qed
qed

lemma block_of_queue: "vd_shadow dev + queue_block q = block (vd_shadow dev) (unat q)"
  by (simp add: block_def queue_block_def RING_BLOCK_def mult.commute)

lemma notify_vinv:
  assumes "vinv s" "notify v s n queue = (r, s')"
  shows "vinv s'"
proof (cases "s' = s")
  case False
  from assms(2) False obtain dev where q: "unat queue < 2" and dev: "get_device s n = Some dev"
    by (auto simp: notify_def MAX_QUEUES_def not_le split: if_splits option.splits)
  define dd da to_idx where "dd = vd_base dev + queue_block queue + DESC_OFF"
    and "da = vd_base dev + queue_block queue + AVAIL_OFF" and "to_idx = view16 v 0 (da + 2)"
  obtain ok m where vs: "validate_and_shadow v (vd_base dev) (vd_size dev) dd da
      (block (vd_shadow dev) (unat queue) + DESC_OFF) (block (vd_shadow dev) (unat queue) + AVAIL_OFF)
      (vd_last_avail dev ! unat queue) to_idx LAYOUT_QSIZE 1 (vs_mem s) = (ok, m)"
    by (metis prod.exhaust)
  have s': "geometry s' = geometry s \<and> vs_mem s' = m"
    using assms(2) False q dev vs geometry_set_device [OF dev]
    by (auto simp: notify_def MAX_QUEUES_def Let_def block_of_queue dd_def da_def to_idx_def set_device_def
        split: if_splits)
  have n: "n < length (geometry s)" "geometry s ! n = (vd_base dev, vd_size dev, vd_shadow dev)"
    using dev by (auto simp: get_device_def geometry_def split: if_splits)
  have "all_confined (geometry s) m"
  proof (rule all_confined_one_page [OF _ _ n])
    show "pages_apart (geometry s)" "all_confined (geometry s) (vs_mem s)"
      using assms(1) by (simp_all add: vinv_def)
    show "m a = vs_mem s a" if "a \<notin> page_of (vd_shadow dev)" for a
      by (rule validated_page [OF vs q that])
    show "shadow_ok (vd_base dev) (vd_size dev) (block (vd_shadow dev) r) m" if "r < 2" for r
    proof (rule validated_shadow(1) [OF vs])
      show "shadow_ok (vd_base dev) (vd_size dev) (block (vd_shadow dev) r) (vs_mem s)"
        using assms(1) n that nth_mem [OF n(1)] by (auto simp: vinv_def all_confined_def)
    qed (use q that in auto)
  qed
  then show ?thesis using assms(1) s' by (simp add: vinv_def)
qed (use assms(1) in simp)


lemma pages_apart_snoc:
  assumes "pages_apart g"
    and "\<forall>y \<in> set (g @ [(b', n', p')]). page_of p' \<inter> span (fst y) (fst (snd y)) = {}"
    and "\<forall>x \<in> set g. page_of (snd (snd x)) \<inter> page_of p' = {}"
    and "\<forall>x \<in> set g. page_of (snd (snd x)) \<inter> span b' n' = {}"
  shows "pages_apart (g @ [(b', n', p')])"
proof -
  have "page_of (snd (snd (g ! i))) \<inter> page_of p' = {}" if "i < length g" for i
    using assms(3) nth_mem [OF that] by blast
  then show ?thesis
    using assms(1,2,4) unfolding pages_apart_def
    by (simp add: nth_append less_Suc_eq Int_commute)
qed

lemma register_vinv:
  assumes "vinv s" "vregister s tr base len rid iommu_active (Some sb) = Some (n, s', confined)"
    "\<forall>d \<in> set (vs_devices s'). page_of sb \<inter> region_of d = {}"
    "\<forall>d \<in> set (vs_devices s). page_of (vd_shadow d) \<inter> page_of sb = {}"
    "\<forall>d \<in> set (vs_devices s). page_of (vd_shadow d) \<inter> region_of (last (vs_devices s')) = {}"
  shows "vinv s'"
proof -
  let ?m = "write_bytes (vs_mem s) sb (replicate 4096 0)"
  have g: "geometry s' = geometry s @ [(base, len, sb)]" and m: "vs_mem s' = ?m"
    using assms(2) by (auto simp: vregister_def geometry_def split: if_splits)
  have l: "region_of (last (vs_devices s')) = span base len"
    using assms(2) by (auto simp: vregister_def region_of_span split: if_splits)
  have "pages_apart (geometry s @ [(base, len, sb)])"
  proof (rule pages_apart_snoc)
    show "pages_apart (geometry s)" using assms(1) by (simp add: vinv_def)
    have "\<forall>y \<in> set (geometry s'). page_of sb \<inter> span (fst y) (fst (snd y)) = {}"
      using assms(3) by (simp add: geometry_def region_of_span)
    then show "\<forall>y \<in> set (geometry s @ [(base, len, sb)]). page_of sb \<inter> span (fst y) (fst (snd y)) = {}"
      by (simp only: g)
    show "\<forall>x \<in> set (geometry s). page_of (snd (snd x)) \<inter> page_of sb = {}"
      "\<forall>x \<in> set (geometry s). page_of (snd (snd x)) \<inter> span base len = {}"
      using assms(4,5) by (auto simp: geometry_def l)
  qed
  moreover have "all_confined (geometry s) ?m"
  proof (rule all_confined_elsewhere)
    show "all_confined (geometry s) (vs_mem s)" using assms(1) by (simp add: vinv_def)
    fix a b n p assume "(b, n, p) \<in> set (geometry s)" "a \<in> page_of p"
    then have "a \<notin> page_of sb" using assms(4) by (auto simp: geometry_def)
    then show "?m a = vs_mem s a" by (simp add: write_bytes_def page_of_def)
  qed
  ultimately show ?thesis
    using zeroed_shadow_ok [of _ base len sb "vs_mem s"] by (auto simp: vinv_def g m all_confined_def)
qed

lemma store_vinv:
  assumes "vinv s" "d \<in> set (vs_devices s)" "a \<in> region_of d"
  shows "vinv (s\<lparr>vs_mem := (vs_mem s)(a := b)\<rparr>)"
proof -
  have g: "(vd_base d, vd_size d, vd_shadow d) \<in> set (geometry s)"
    using assms(2) by (auto simp: geometry_def)
  have pg: "pages_apart (geometry s)" using assms(1) by (simp add: vinv_def)
  have a: "a \<in> span (vd_base d) (vd_size d)" using assms(3) by (simp add: region_of_span)
  have out: "a \<notin> page_of p" if "(b', n', p) \<in> set (geometry s)" for b' n' p
    using pages_apart_span [OF pg that g] a by (auto simp only: disjoint_iff)
  have "all_confined (geometry s) ((vs_mem s)(a := b))"
  proof (rule all_confined_elsewhere)
    show "all_confined (geometry s) (vs_mem s)" using assms(1) by (simp add: vinv_def)
    fix x b' n' p assume "(b', n', p) \<in> set (geometry s)" "x \<in> page_of p"
    then have "x \<noteq> a" using out by metis
    then show "((vs_mem s)(a := b)) x = vs_mem s x" by simp
  qed
  then show ?thesis using assms(1) by (simp add: vinv_def)
qed

lemma write_register_keeps:
  "write_register s n off v = Inr (s', evs) \<Longrightarrow> geometry s' = geometry s \<and> vs_mem s' = vs_mem s"
  using geometry_set_device [of s n]
  by (auto simp: write_register_def set_device_def split: if_splits option.splits)

lemma setup_queue_keeps:
  "setup_queue s n num queue num_max notify_off = Inr (s', evs) \<Longrightarrow>
   geometry s' = geometry s \<and> vs_mem s' = vs_mem s"
  using geometry_set_device [of s n]
  by (auto simp: setup_queue_def tr_setup_queue_def set_device_def Let_def split: if_splits option.splits Transport.splits)

lemma vstep_vinv: "vstep s s' \<Longrightarrow> vinv s \<Longrightarrow> vinv s'"
proof (induction rule: vstep.induct)
  case (registered s tr base len rid iommu_active sb n s' confined)
  then show ?case using register_vinv by blast
next
  case (wrote s n off v s' evs)
  then show ?case using write_register_keeps by (simp add: vinv_def)
next
  case (set_up s n num queue num_max notify_off s' evs)
  then show ?case using setup_queue_keeps by (simp add: vinv_def)
next
  case (notified v s n queue r s')
  then show ?case using notify_vinv by blast
next
  case (stored d s a b)
  then show ?case using store_vinv by blast
qed

lemma reachable_vinv: "vstep\<^sup>*\<^sup>* (vstart m) s \<Longrightarrow> vinv s"
proof (induction rule: rtranclp_induct)
  case base
  show ?case by (simp add: vinv_def vstart_def geometry_def pages_apart_def all_confined_def)
next
  case (step y z)
  then show ?case using vstep_vinv by blast
qed

lemma sees_lt:
  assumes "shadow_ok b n p m" "device_sees m p d"
  shows "d < 8"
  using assms(2)
proof induction
  case (from_ring s)
  then show ?case using assms(1) by (simp add: shadow_ok_def qsize_unat)
next
  case (by_link d)
  then show ?case using assms(1) by (simp add: shadow_ok_def harmless_def qsize_unat)
qed


section \<open>Properties\<close>

lemma page_of_bounds:
  assumes "a \<in> page_of p" "unat p + 4096 \<le> 2 ^ 64"
  shows "unat p \<le> unat a \<and> unat a < unat p + 4096"
proof -
  have k: "unat (a - p) < 4096" using assms(1) by (simp add: page_of_def)
  then have "unat (p + (a - p)) = unat p + unat (a - p)"
    using assms(2) by (intro unat_add_no_wrap) simp
  then have "unat a = unat p + unat (a - p)" by simp
  then show ?thesis using k by linarith
qed

text \<open>A device of one driver, registered and then notified of one published buffer.\<close>

definition sample_device :: Device where
  "sample_device = \<lparr>vd_transport = Mmio, vd_base = 0x40000000, vd_size = 0x10000,
     vd_last_avail = [0, 0], vd_features_sel = 0, vd_shadow = 0x50000000\<rparr>"

definition sample_registered :: vstate where
  "sample_registered = \<lparr>vs_devices = [sample_device],
     vs_mem = write_bytes (\<lambda>_. 0) 0x50000000 (replicate 4096 0)\<rparr>"

definition sample_view :: driver_view where
  "sample_view = \<lparr>view16 = \<lambda>_ a. if a = 0x40000282 then 1 else 0,
     view64 = \<lambda>_ a. if a = 0x40000200 then 0x40001000 else 16\<rparr>"

lemma sample_registered_reachable: "vstep\<^sup>*\<^sup>* (vstart (\<lambda>_. 0)) sample_registered"
proof -
  have r: "vregister (vstart (\<lambda>_. 0)) Mmio 0x40000000 0x10000 None False (Some 0x50000000) = Some (0, sample_registered, None)"
    by (simp add: vregister_def confinement_def vstart_def MAX_DEVICES_def sample_registered_def sample_device_def)
  have "page_of 0x50000000 \<inter> region_of sample_device = {}"
    using page_of_bounds [of _ "0x50000000"] by (fastforce simp: region_of_def sample_device_def)
  then have "vstep (vstart (\<lambda>_. 0)) sample_registered"
    by (intro vstep.registered [OF r]) (simp_all add: sample_registered_def vstart_def)
  then show ?thesis by blast
qed

lemma sample_desc:
  "check_descriptor 0x40000000 0x10000 8 \<lparr>d_addr = 0x40001000, d_word = 16\<rparr>"
  "\<not> has_next \<lparr>d_addr = 0x40001000, d_word = 16\<rparr>"
  by (simp_all add: check_descriptor_def is_indirect_def has_next_def flags_def F_INDIRECT_def F_NEXT_def
      is_in_region_iff buf_len_def)

lemma sample_views:
  "view16 sample_view t 0x40000282 = 1" "view16 sample_view t 0x40000284 = 0"
  "view64 sample_view t 0x40000200 = 0x40001000" "view64 sample_view t 0x40000208 = 16"
  by (simp_all add: sample_view_def)

lemma sample_head:
  "shadow_one_head sample_view 0x40000000 0x10000 0x40000200 sd 0 8 t m =
    (True, t + 2, write64 (write64 m sd 0x40001000) (sd + 8) 16)"
proof -
  have e: "unat (8 :: u16) = Suc 7" by simp
  show ?thesis
    unfolding shadow_one_head_def e walk_chain.simps by (simp add: Let_def sample_views sample_desc)
qed

lemma sample_validated:
  "validate_and_shadow sample_view 0x40000000 0x10000 0x40000200 0x40000280 sd sa 0 1 8 t m =
    (True, write16 (write16 (write64 (write64 m sd 0x40001000) (sd + 8) 16) (sa + 4) 0) (sa + 2) 1)"
proof -
  have d: "walk_batch sample_view 0x40000000 0x10000 0x40000200 0x40000280 sd sa 8 1 1 t' m' = (True, t', m')"
    for t' m' by (subst walk_batch.simps) simp
  have "walk_batch sample_view 0x40000000 0x10000 0x40000200 0x40000280 sd sa 8 0 1 t m =
      (True, t + 3, write16 (write64 (write64 m sd 0x40001000) (sd + 8) 16) (sa + 4) 0)"
    by (subst walk_batch.simps) (simp add: Let_def d sample_views sample_head)
  then show ?thesis by (simp add: validate_and_shadow_def)
qed

definition sample_published :: vstate where
  "sample_published = \<lparr>vs_devices = [sample_device\<lparr>vd_last_avail := [0, 1]\<rparr>],
     vs_mem = write16 (write16 (write64 (write64 (vs_mem sample_registered)
       (block 0x50000000 1 + of_nat (16 * 0)) 0x40001000) (block 0x50000000 1 + of_nat (16 * 0 + 8)) 16)
       (block 0x50000000 1 + of_nat (0x84 + 2 * 0)) 0) (block 0x50000000 1 + of_nat 0x82) 1\<rparr>"

lemma sample_notified: "notify sample_view sample_registered 0 1 = (Inr [Doorbell 1], sample_published)"
  by (simp add: notify_def sample_registered_def sample_published_def sample_device_def get_device_def
      set_device_def is_doorbell_ready_def layout_defs Let_def block_def notify_queue_def sample_views
      sample_validated)

lemma sample_published_reachable: "vstep\<^sup>*\<^sup>* (vstart (\<lambda>_. 0)) sample_published"
  using sample_registered_reachable vstep.notified [OF sample_notified]
  by (rule rtranclp.rtrancl_into_rtrancl)

lemma sample_published_desc:
  "desc_at (vs_mem sample_published) (block 0x50000000 1) 0 = \<lparr>d_addr = 0x40001000, d_word = 16\<rparr>"
proof -
  have b: "(1 :: nat) < 8" "(0 :: nat) < 8" by simp_all
  show ?thesis
    unfolding sample_published_def vstate.simps
    by (subst desc_at_ring [OF b(1,1) _ _ b(2)], simp, simp, subst desc_at_ring [OF b(1,1) _ _ b(2)],
        simp, simp, subst desc_at_copy [OF b(1,1) b(2,2)], simp)
qed

lemma sample_published_head: "head_at (vs_mem sample_published) (block 0x50000000 1) 0 = 0"
proof -
  have b: "(1 :: nat) < 8" "(0 :: nat) < 8" by simp_all
  show ?thesis
    unfolding sample_published_def vstate.simps
    by (subst ring_publish(1) [OF b(1,1) b(2,2)], subst head_at_ring [OF b(1,1) b(2,2)], simp)
qed

text \<open>C5. No device can be steered outside its driver's region: in every state the kernel can reach,
  whatever the drivers publish and however their memory changes while the kernel reads it, every
  descriptor a device can come to act on, through any slot of either queue's ring and along any chain
  of links, is an ordinary descriptor, and every byte it names lies in the region granted to that
  device's driver.\<close>

theorem device_confined:
  assumes "vstep\<^sup>*\<^sup>* (vstart m0) s" "dev \<in> set (vs_devices s)" "q < 2"
    and "device_sees (vs_mem s) (block (vd_shadow dev) q) d"
  shows "\<not> is_indirect (desc_at (vs_mem s) (block (vd_shadow dev) q) d) \<and>
    touched (desc_at (vs_mem s) (block (vd_shadow dev) q) d) \<subseteq>
      {x. unat (vd_base dev) \<le> x \<and> x < unat (vd_base dev) + unat (vd_size dev)}"
proof -
  have "(vd_base dev, vd_size dev, vd_shadow dev) \<in> set (geometry s)"
    using assms(2) by (auto simp: geometry_def)
  then have ok: "shadow_ok (vd_base dev) (vd_size dev) (block (vd_shadow dev) q) (vs_mem s)"
    using reachable_vinv [OF assms(1)] assms(3) by (auto simp: vinv_def all_confined_def)
  then show ?thesis
    using sees_lt [OF ok assms(4)] by (simp add: shadow_ok_def harmless_def)
qed

theorem device_confined_witness:
  "device_sees (vs_mem sample_published) (block 0x50000000 1) 0 \<and>
   desc_at (vs_mem sample_published) (block 0x50000000 1) 0 = \<lparr>d_addr = 0x40001000, d_word = 16\<rparr> \<and>
   touched (desc_at (vs_mem sample_published) (block 0x50000000 1) 0) \<subseteq> {x. 0x40000000 \<le> x \<and> x < 0x40010000}"
proof -
  have s: "device_sees (vs_mem sample_published) (block 0x50000000 1) 0"
    using device_sees.from_ring [of 0 "vs_mem sample_published" "block 0x50000000 1"] sample_published_head by simp
  let ?d = "sample_device\<lparr>vd_last_avail := [0, 1]\<rparr>"
  have d: "?d \<in> set (vs_devices sample_published)" by (simp add: sample_published_def)
  have "device_sees (vs_mem sample_published) (block (vd_shadow ?d) 1) 0"
    using s by (simp add: sample_device_def)
  from device_confined [OF sample_published_reachable d _ this]
  show ?thesis using s sample_published_desc by (simp add: sample_device_def)
qed

text \<open>C30. The device is rung exactly for a batch that passes.  A notification that succeeds rings the doorbell
  of its queue and advances both the published index of that queue and the kernel's mark to the index the
  driver showed, and moves no other queue's index; on every error nothing is rung and no device, mark or
  published index moves.  When the driver leaves its rings alone, success is decided by them: the queue
  exists and has a doorbell, the batch fits the ring, every head is an index of the table, and every
  descriptor a published chain reaches names only bytes of the driver's region and is not indirect.\<close>

theorem notify_outcomes:
  assumes "notify v s n queue = (r, s')" "get_device s n = Some dev" "length (vd_last_avail dev) = 2" "q < 2"
  shows "(case r of
      Inl e \<Rightarrow> vs_devices s' = vs_devices s \<and>
        published (vs_mem s') (block (vd_shadow dev) q) = published (vs_mem s) (block (vd_shadow dev) q)
    | Inr evs \<Rightarrow> evs = [Doorbell queue] \<and> unat queue < 2 \<and>
        published (vs_mem s') (block (vd_shadow dev) q) =
          (if q = unat queue then view16 v 0 (vd_base dev + queue_block queue + AVAIL_OFF + 2)
           else published (vs_mem s) (block (vd_shadow dev) q)) \<and>
        vd_last_avail (vs_devices s' ! n) ! unat queue =
          view16 v 0 (vd_base dev + queue_block queue + AVAIL_OFF + 2))
   \<and> (still v dm \<longrightarrow>
       (\<exists>evs. r = Inr evs) = (unat queue < 2 \<and> is_doorbell_ready (vd_transport dev) queue \<and>
         batch_ok dm (vd_base dev) (vd_size dev) (vd_base dev + queue_block queue + DESC_OFF)
           (vd_base dev + queue_block queue + AVAIL_OFF) (vd_last_avail dev ! unat queue)
           (read16 dm (vd_base dev + queue_block queue + AVAIL_OFF + 2))))"
proof (cases "unat queue < 2 \<and> is_doorbell_ready (vd_transport dev) queue")
  case False
  then have "s' = s \<and> r = Inl BadQueue"
    using assms(1,2) by (auto simp: notify_def MAX_QUEUES_def not_less split: if_splits)
  then show ?thesis using False by auto
next
  case True
  define dd da to_idx where "dd = vd_base dev + queue_block queue + DESC_OFF"
    and "da = vd_base dev + queue_block queue + AVAIL_OFF" and "to_idx = view16 v 0 (da + 2)"
  obtain ok m where vs: "validate_and_shadow v (vd_base dev) (vd_size dev) dd da
      (block (vd_shadow dev) (unat queue) + DESC_OFF) (block (vd_shadow dev) (unat queue) + AVAIL_OFF)
      (vd_last_avail dev ! unat queue) to_idx LAYOUT_QSIZE 1 (vs_mem s) = (ok, m)"
    by (metis prod.exhaust)
  have e: "(r, s') = (if \<not> ok then (Inl DmaEscape, s\<lparr>vs_mem := m\<rparr>)
      else (Inr [Doorbell queue],
        (set_device s n (dev\<lparr>vd_last_avail := (vd_last_avail dev)[unat queue := to_idx]\<rparr>))\<lparr>vs_mem := m\<rparr>))"
    using assms(1,2) True vs
    by (auto simp: notify_def MAX_QUEUES_def Let_def block_of_queue notify_queue_def
        dd_def da_def to_idx_def split: if_splits)
  have p: "published m (block (vd_shadow dev) q) =
      (if ok \<and> q = unat queue then to_idx else published (vs_mem s) (block (vd_shadow dev) q))"
    using validated_shadow(2) [OF vs, of q] True assms(4) by simp
  have n: "n < length (vs_devices s)" using assms(2) by (simp add: get_device_def split: if_splits)
  have "ok = batch_ok dm (vd_base dev) (vd_size dev) dd da (vd_last_avail dev ! unat queue) (read16 dm (da + 2))"
    if "still v dm"
  proof -
    have "to_idx = read16 dm (da + 2)" using that by (simp add: still_def to_idx_def)
    with validate_accepts [OF that] vs show ?thesis by (metis fst_conv)
  qed
  then have "still v dm \<longrightarrow> (\<exists>evs. r = Inr evs) = (unat queue < 2 \<and> is_doorbell_ready (vd_transport dev) queue \<and>
      batch_ok dm (vd_base dev) (vd_size dev) dd da (vd_last_avail dev ! unat queue) (read16 dm (da + 2)))"
    using e True by auto
  moreover have "case r of
      Inl e \<Rightarrow> vs_devices s' = vs_devices s \<and>
        published (vs_mem s') (block (vd_shadow dev) q) = published (vs_mem s) (block (vd_shadow dev) q)
    | Inr evs \<Rightarrow> evs = [Doorbell queue] \<and> unat queue < 2 \<and>
        published (vs_mem s') (block (vd_shadow dev) q) =
          (if q = unat queue then to_idx else published (vs_mem s) (block (vd_shadow dev) q)) \<and>
        vd_last_avail (vs_devices s' ! n) ! unat queue = to_idx"
    using e p n True assms(3) by (cases ok) (simp_all add: set_device_def)
  ultimately show ?thesis unfolding dd_def da_def to_idx_def by blast
qed

text \<open>A driver publishes one buffer inside its region, and then one outside it.\<close>

definition ring_of :: "u64 \<Rightarrow> memory" where
  "ring_of buf = write16 (write64 (write64 (\<lambda>_. 0) 0x40000000 buf) 0x40000008 16) 0x40000082 1"

lemma ring_of_reads:
  "read16 (ring_of buf) 0x40000082 = 1" "driver_head (ring_of buf) 0x40000080 0 = 0"
  "driver_desc_at (ring_of buf) 0x40000000 0 = \<lparr>d_addr = buf, d_word = 16\<rparr>"
  by (simp_all add: ring_of_def driver_head_def driver_desc_at_def read16_write64_apart read16_write16_apart
      read64_write64_apart read64_write16_apart apart_def)
    (simp add: read16_def read_bytes_def eval_nat_numeral)

lemma ring_of_batch:
  "batch_ok (ring_of buf) 0x40000000 0x10000 0x40000000 0x40000080 0 1
    \<longleftrightarrow> check_descriptor 0x40000000 0x10000 LAYOUT_QSIZE \<lparr>d_addr = buf, d_word = 16\<rparr>"
proof -
  have "\<not> has_next \<lparr>d_addr = buf, d_word = 16\<rparr>" by (simp add: has_next_def flags_def F_NEXT_def)
  then have "visited (driver_desc_at (ring_of buf) 0x40000000) 8 0 = {0}"
    by (simp add: ring_of_reads eval_nat_numeral)
  then show ?thesis by (simp add: batch_ok_def ring_of_reads LAYOUT_QSIZE_def)
qed

theorem notify_outcomes_witness:
  "let view = \<lambda>dm. \<lparr>view16 = \<lambda>_. read16 dm, view64 = \<lambda>_. read64 dm\<rparr>
   in (\<exists>s'. notify (view (ring_of 0x40001000)) sample_registered 0 0 = (Inr [Doorbell 0], s')
         \<and> published (vs_mem s') (block 0x50000000 0) = 1)
    \<and> (\<exists>e s'. notify (view (ring_of 0x60000000)) sample_registered 0 0 = (Inl e, s')
         \<and> vs_devices s' = vs_devices sample_registered)"
proof -
  define view where "view = (\<lambda>dm. \<lparr>view16 = \<lambda>_ :: nat. read16 dm, view64 = \<lambda>_ :: nat. read64 dm\<rparr>)"
  have g: "get_device sample_registered 0 = Some sample_device" "length (vd_last_avail sample_device) = 2" "(0 :: nat) < 2"
    by (simp_all add: get_device_def sample_registered_def sample_device_def)
  have st: "still (view dm) dm" for dm by (simp add: still_def view_def)
  have ck: "check_descriptor 0x40000000 0x10000 LAYOUT_QSIZE \<lparr>d_addr = 0x40001000, d_word = 16\<rparr>"
    "\<not> check_descriptor 0x40000000 0x10000 LAYOUT_QSIZE \<lparr>d_addr = 0x60000000, d_word = 16\<rparr>"
    using sample_desc(1) by (simp_all add: LAYOUT_QSIZE_def check_descriptor_def is_in_region_iff buf_len_def)
  obtain r s' where 1: "notify (view (ring_of 0x40001000)) sample_registered 0 0 = (r, s')" by (metis prod.exhaust)
  obtain e t' where 2: "notify (view (ring_of 0x60000000)) sample_registered 0 0 = (e, t')" by (metis prod.exhaust)
  have "r = Inr [Doorbell 0] \<and> published (vs_mem s') (block 0x50000000 0) = 1"
    using notify_outcomes [OF 1 g, of "ring_of 0x40001000"] st [of "ring_of 0x40001000"] ck(1)
    by (auto simp: sample_device_def layout_defs is_doorbell_ready_def ring_of_reads ring_of_batch view_def split: sum.splits)
  moreover have "\<exists>x. e = Inl x" "vs_devices t' = vs_devices sample_registered"
    using notify_outcomes [OF 2 g, of "ring_of 0x60000000"] st [of "ring_of 0x60000000"] ck(2)
    by (auto simp: sample_device_def layout_defs is_doorbell_ready_def ring_of_reads ring_of_batch view_def split: sum.splits)
  ultimately show ?thesis using 1 2 unfolding Let_def view_def by auto
qed

text \<open>Whether a list of events ever gives the device a feature word with an unpoliced ring feature;
  the selector a device uses is the last one it was sent.\<close>

fun offers_unpoliced :: "u32 \<Rightarrow> hw_event list \<Rightarrow> bool" where
  "offers_unpoliced sel [] \<longleftrightarrow> False"
| "offers_unpoliced sel (Reg_write off v # evs) \<longleftrightarrow>
     off = REG_DRIVER_FEATURES \<and> (sel = 0 \<and> bit v 28 \<or> sel = 1 \<and> bit v 2) \<or>
     offers_unpoliced (if off = REG_DRIVER_FEATURES_SEL then v else sel) evs"
| "offers_unpoliced sel (_ # evs) \<longleftrightarrow> offers_unpoliced sel evs"

text \<open>A driver's register writes, one after another; a refused one changes nothing.\<close>

fun write_registers :: "vstate \<Rightarrow> nat \<Rightarrow> (u64 \<times> u32) list \<Rightarrow> hw_event list" where
  "write_registers s n [] = []"
| "write_registers s n ((off, v) # ws) =
     (case write_register s n off v of
        Inl e \<Rightarrow> write_registers s n ws
      | Inr (s', evs) \<Rightarrow> evs @ write_registers s' n ws)"

lemma sanitized: "\<not> (sel = 0 \<and> bit (sanitize_driver_features sel v) 28 \<or>
    sel = 1 \<and> bit (sanitize_driver_features sel v) 2)"
  by (auto simp: sanitize_driver_features_def bit_clear_bit)

lemma write_register_cases:
  assumes "get_device s n = Some dev" "write_register s n off v = Inr (s', evs)"
  shows "\<exists>dev'. get_device s' n = Some dev' \<and>
    (\<forall>rest. offers_unpoliced (vd_features_sel dev) (evs @ rest) \<longleftrightarrow>
       offers_unpoliced (vd_features_sel dev') rest)"
proof -
  have n: "n < length (vs_devices s)" using assms(1) by (simp add: get_device_def split: if_splits)
  consider "off = REG_DRIVER_FEATURES_SEL" | "off = REG_DRIVER_FEATURES" |
    "off \<noteq> REG_DRIVER_FEATURES_SEL" "off \<noteq> REG_DRIVER_FEATURES" by blast
  then show ?thesis
  proof cases
    case 1
    then have "s' = set_device s n (dev\<lparr>vd_features_sel := v\<rparr>)" "evs = [Reg_write off v]"
      using assms by (auto simp: write_register_def write_reg_def split: Transport.splits)
    then show ?thesis
      using n 1 by (simp add: get_device_def set_device_def reg_defs)
  next
    case 2
    then have "s' = s" "evs = [Reg_write off (sanitize_driver_features (vd_features_sel dev) v)]"
      using assms by (auto simp: write_register_def write_reg_def reg_defs split: Transport.splits)
    then show ?thesis
      using assms(1) 2 sanitized [of "vd_features_sel dev" v] by (auto simp: reg_defs)
  next
    case 3
    then have "s' = s" "(\<exists>w. evs = [Reg_write off w]) \<or> evs = []"
      using assms by (auto simp: write_register_def write_reg_def split: if_splits Transport.splits)
    then show ?thesis using assms(1) 3 by auto
  qed
qed

text \<open>C29. The ring features the validator cannot police never reach a device whose selector is the
  one the kernel remembers: no sequence of register writes delivers a feature word with indirect
  descriptors or the packed ring in it.  A freshly registered device is remembered with selector 0;
  one left at selector 1 by an earlier driver is offered the packed ring by a single write.\<close>

theorem unpoliced_features_stripped:
  assumes "get_device s n = Some dev"
  shows "\<not> offers_unpoliced (vd_features_sel dev) (write_registers s n ws) \<and>
    (vd_features_sel dev = 0 \<longrightarrow> offers_unpoliced 1 (write_registers s n [(REG_DRIVER_FEATURES, 4)]))"
proof
  show "\<not> offers_unpoliced (vd_features_sel dev) (write_registers s n ws)"
    using assms
  proof (induction ws arbitrary: s dev)
    case (Cons w ws)
    obtain off v where w: "w = (off, v)" by (cases w)
    show ?case
    proof (cases "write_register s n off v")
      case (Inl e)
      then show ?thesis using Cons w by simp
    next
      case (Inr p)
      obtain s' evs where p: "p = (s', evs)" by (cases p)
      from write_register_cases [OF Cons.prems, of off v s' evs] Inr p
      show ?thesis using Cons.IH w by auto
    qed
  qed simp
  show "vd_features_sel dev = 0 \<longrightarrow> offers_unpoliced 1 (write_registers s n [(REG_DRIVER_FEATURES, 4)])"
  proof
    assume z: "vd_features_sel dev = 0"
    have "bit (4 AND NOT (bit_mask 28) :: u32) 2" by (simp add: bit_clear_bit)
    then show "offers_unpoliced 1 (write_registers s n [(REG_DRIVER_FEATURES, 4)])"
      using assms z
      by (auto simp: write_register_def write_reg_def sanitize_driver_features_def reg_defs
          split: Transport.splits)
  qed
qed

theorem unpoliced_features_stripped_witness:
  "\<not> offers_unpoliced 0 (write_registers sample_registered 0
      [(REG_DRIVER_FEATURES_SEL, 1), (REG_DRIVER_FEATURES, 5), (REG_STATUS, 0)]) \<and>
   offers_unpoliced 1 (write_registers sample_registered 0 [(REG_DRIVER_FEATURES, 4)])"
proof -
  have g: "get_device sample_registered 0 = Some sample_device" "vd_features_sel sample_device = 0"
    by (simp_all add: get_device_def sample_registered_def sample_device_def)
  show ?thesis using unpoliced_features_stripped [OF g(1)] g(2) by (simp del: write_registers.simps)
qed

end
