(* ===== verification/Paging_Format.thy ===== *)
theory Paging_Format
  imports Prelude
begin

text \<open>
  The page-table formats of \<open>crates/paging\<close>: the portable access flags and page sizes of
  \<open>lib.rs\<close>, the trait \<open>PageFormat\<close> as a record of the operations a format supplies, and the
  four formats that implement it, \<open>aarch64.rs\<close> (\<open>Aarch64\<close>), \<open>sv39.rs\<close> (\<open>Sv39\<close>) and
  \<open>x86_64.rs\<close> (\<open>Ia32e\<close> for the processor, \<open>Vtd\<close> for the Intel IOMMU).

  The locale \<open>lawful_format\<close> is what the shared walk of the mapper relies on: an entry that
  points to a table reads back as one, a leaf reads back as a leaf, each with the address it was
  given.  It is interpreted on all four formats.
\<close>

section \<open>Page sizes\<close>

definition PAGE_SIZE :: u64 where "PAGE_SIZE = 4096"

definition ENTRIES :: nat where "ENTRIES = 512"

datatype PageSize = Size4KiB | Size2MiB | Size1GiB

fun levels_above_bottom :: "PageSize \<Rightarrow> nat" where
  "levels_above_bottom Size4KiB = 0"
| "levels_above_bottom Size2MiB = 1"
| "levels_above_bottom Size1GiB = 2"

definition ps_bytes :: "PageSize \<Rightarrow> u64" where
  "ps_bytes z = push_bit (9 * levels_above_bottom z) PAGE_SIZE"

definition fits :: "u64 \<Rightarrow> u64 \<Rightarrow> u64 \<Rightarrow> PageSize \<Rightarrow> bool" where
  "fits va pa remaining z \<longleftrightarrow>
     (va OR pa) AND (ps_bytes z - 1) = 0 \<and> remaining \<ge> ps_bytes z"

definition largest_fitting :: "u64 \<Rightarrow> u64 \<Rightarrow> u64 \<Rightarrow> PageSize \<Rightarrow> PageSize" where
  "largest_fitting va pa remaining largest =
     (let allowed = levels_above_bottom largest in
      if allowed \<ge> 2 \<and> fits va pa remaining Size1GiB then Size1GiB
      else if allowed \<ge> 1 \<and> fits va pa remaining Size2MiB then Size2MiB
      else Size4KiB)"


section \<open>Portable access flags\<close>

definition CAP_WRITE :: u64 where "CAP_WRITE = bit_mask 0"
definition CAP_USER :: u64 where "CAP_USER = bit_mask 1"
definition CAP_USER_EXEC :: u64 where "CAP_USER_EXEC = bit_mask 2"
definition CAP_KERNEL_EXEC :: u64 where "CAP_KERNEL_EXEC = bit_mask 3"
definition CAP_GLOBAL :: u64 where "CAP_GLOBAL = bit_mask 4"
definition CAP_DEVICE :: u64 where "CAP_DEVICE = bit_mask 5"

lemmas cap_defs = CAP_WRITE_def CAP_USER_def CAP_USER_EXEC_def CAP_KERNEL_EXEC_def CAP_GLOBAL_def
  CAP_DEVICE_def

datatype Flags = Flags (flag_bits: u64)

definition kernel_code :: Flags where "kernel_code = Flags (CAP_KERNEL_EXEC OR CAP_GLOBAL)"
definition kernel_rodata :: Flags where "kernel_rodata = Flags CAP_GLOBAL"
definition kernel_data :: Flags where "kernel_data = Flags (CAP_WRITE OR CAP_GLOBAL)"
definition device :: Flags where "device = Flags (CAP_WRITE OR CAP_GLOBAL OR CAP_DEVICE)"
definition user_code :: Flags where "user_code = Flags (CAP_USER OR CAP_USER_EXEC)"
definition user_rodata :: Flags where "user_rodata = Flags CAP_USER"
definition user_data :: Flags where "user_data = Flags (CAP_USER OR CAP_WRITE)"
definition user_device :: Flags where "user_device = Flags (CAP_USER OR CAP_WRITE OR CAP_DEVICE)"

lemmas flag_set_defs = kernel_code_def kernel_rodata_def kernel_data_def device_def user_code_def
  user_rodata_def user_data_def user_device_def

definition is_writable :: "Flags \<Rightarrow> bool" where
  "is_writable fl \<longleftrightarrow> flag_bits fl AND CAP_WRITE \<noteq> 0"
definition is_kernel_executable :: "Flags \<Rightarrow> bool" where
  "is_kernel_executable fl \<longleftrightarrow> flag_bits fl AND CAP_KERNEL_EXEC \<noteq> 0"
definition is_user_executable :: "Flags \<Rightarrow> bool" where
  "is_user_executable fl \<longleftrightarrow> flag_bits fl AND CAP_USER_EXEC \<noteq> 0"
definition is_user_accessible :: "Flags \<Rightarrow> bool" where
  "is_user_accessible fl \<longleftrightarrow> flag_bits fl AND CAP_USER \<noteq> 0"
definition is_device :: "Flags \<Rightarrow> bool" where
  "is_device fl \<longleftrightarrow> flag_bits fl AND CAP_DEVICE \<noteq> 0"
definition is_global :: "Flags \<Rightarrow> bool" where
  "is_global fl \<longleftrightarrow> flag_bits fl AND CAP_GLOBAL \<noteq> 0"

lemmas flag_tests = is_writable_def is_kernel_executable_def is_user_executable_def
  is_user_accessible_def is_device_def is_global_def

text \<open>Every set of rights the crate can build: the eight public constructors.\<close>

definition flag_sets :: "Flags list" where
  "flag_sets = [kernel_code, kernel_rodata, kernel_data, device,
                user_code, user_rodata, user_data, user_device]"


section \<open>The trait\<close>

datatype Half = Low | High

record PageFormat =
  LEVELS :: nat
  SPLIT_SHIFT :: nat
  is_present :: "u64 \<Rightarrow> bool"
  entry_pa :: "u64 \<Rightarrow> u64"
  table_entry :: "u64 \<Rightarrow> u64"
  leaf_entry :: "u64 \<Rightarrow> Flags \<Rightarrow> u64"
  leaf_flags :: "u64 \<Rightarrow> Flags"
  block_entry :: "u64 \<Rightarrow> Flags \<Rightarrow> PageSize \<Rightarrow> u64 option"
  is_block :: "u64 \<Rightarrow> bool"

definition index :: "PageFormat \<Rightarrow> u64 \<Rightarrow> nat \<Rightarrow> nat" where
  "index F va level =
     (let shift = 9 * (LEVELS F - 1 - level) + 12 in unat (drop_bit shift va AND 0x1ff))"

definition is_in_half :: "PageFormat \<Rightarrow> Half \<Rightarrow> u64 \<Rightarrow> bool" where
  "is_in_half F h va =
     (let upper = drop_bit (SPLIT_SHIFT F) va in
      case h of
        Low \<Rightarrow> upper = 0
      | High \<Rightarrow> upper = drop_bit (SPLIT_SHIFT F) (- 1))"

definition half_base :: "PageFormat \<Rightarrow> Half \<Rightarrow> u64" where
  "half_base F h =
     (case h of
        Low \<Rightarrow> 0
      | High \<Rightarrow> push_bit (SPLIT_SHIFT F) (drop_bit (SPLIT_SHIFT F) (- 1)))"

definition is_user_page_va :: "PageFormat \<Rightarrow> u64 \<Rightarrow> bool" where
  "is_user_page_va F va \<longleftrightarrow> is_in_half F Low va \<and> va mod PAGE_SIZE = 0"


section \<open>The aarch64 format\<close>

definition a64_VALID :: u64 where "a64_VALID = bit_mask 0"
definition a64_TABLE_OR_PAGE :: u64 where "a64_TABLE_OR_PAGE = bit_mask 1"
definition a64_AF :: u64 where "a64_AF = bit_mask 10"
definition a64_SH_INNER :: u64 where "a64_SH_INNER = push_bit 8 3"
definition a64_attr_index :: "u64 \<Rightarrow> u64" where "a64_attr_index slot = push_bit 2 (slot AND 7)"
definition a64_AP_RW_EL1 :: u64 where "a64_AP_RW_EL1 = push_bit 6 0"
definition a64_AP_RW_EL0 :: u64 where "a64_AP_RW_EL0 = push_bit 6 1"
definition a64_AP_RO_EL1 :: u64 where "a64_AP_RO_EL1 = push_bit 6 2"
definition a64_AP_RO_EL0 :: u64 where "a64_AP_RO_EL0 = push_bit 6 3"
definition a64_AP_RO :: u64 where "a64_AP_RO = bit_mask 7"
definition a64_AP_USER :: u64 where "a64_AP_USER = bit_mask 6"
definition a64_NG :: u64 where "a64_NG = bit_mask 11"
definition a64_PXN :: u64 where "a64_PXN = bit_mask 53"
definition a64_UXN :: u64 where "a64_UXN = bit_mask 54"
definition a64_ADDR_MASK :: u64 where "a64_ADDR_MASK = 0x0000fffffffff000"
definition mair_DEVICE :: u64 where "mair_DEVICE = 0"
definition mair_NORMAL :: u64 where "mair_NORMAL = 1"

definition a64_attrs :: "Flags \<Rightarrow> u64" where
  "a64_attrs fl =
     (let bits = a64_AF;
          bits = (if \<not> is_device fl then bits OR a64_SH_INNER else bits);
          bits = bits OR a64_attr_index (if is_device fl then mair_DEVICE else mair_NORMAL);
          bits = bits OR
            (if is_user_accessible fl
             then (if is_writable fl then a64_AP_RW_EL0 else a64_AP_RO_EL0)
             else (if is_writable fl then a64_AP_RW_EL1 else a64_AP_RO_EL1));
          bits = (if \<not> is_kernel_executable fl then bits OR a64_PXN else bits);
          bits = (if \<not> is_user_executable fl then bits OR a64_UXN else bits);
          bits = (if \<not> is_global fl then bits OR a64_NG else bits)
      in bits)"

definition a64_is_present :: "u64 \<Rightarrow> bool" where
  "a64_is_present e \<longleftrightarrow> e AND a64_VALID \<noteq> 0"

definition a64_entry_pa :: "u64 \<Rightarrow> u64" where
  "a64_entry_pa e = e AND a64_ADDR_MASK"

definition a64_table_entry :: "u64 \<Rightarrow> u64" where
  "a64_table_entry pa = (pa AND a64_ADDR_MASK) OR a64_TABLE_OR_PAGE OR a64_VALID"

definition a64_leaf_entry :: "u64 \<Rightarrow> Flags \<Rightarrow> u64" where
  "a64_leaf_entry pa fl =
     (pa AND a64_ADDR_MASK) OR a64_attrs fl OR a64_TABLE_OR_PAGE OR a64_VALID"

definition a64_leaf_flags :: "u64 \<Rightarrow> Flags" where
  "a64_leaf_flags e =
     (let caps = 0;
          caps = (if e AND a64_AP_RO = 0 then caps OR CAP_WRITE else caps);
          caps = (if e AND a64_AP_USER \<noteq> 0 then caps OR CAP_USER else caps);
          caps = (if e AND a64_UXN = 0 then caps OR CAP_USER_EXEC else caps);
          caps = (if e AND a64_PXN = 0 then caps OR CAP_KERNEL_EXEC else caps);
          caps = (if e AND a64_NG = 0 then caps OR CAP_GLOBAL else caps);
          caps = (if drop_bit 2 e AND 7 = mair_DEVICE then caps OR CAP_DEVICE else caps)
      in Flags caps)"

definition a64_block_entry :: "u64 \<Rightarrow> Flags \<Rightarrow> PageSize \<Rightarrow> u64 option" where
  "a64_block_entry pa fl z =
     (case z of
        Size4KiB \<Rightarrow> Some (a64_leaf_entry pa fl)
      | _ \<Rightarrow> Some ((pa AND a64_ADDR_MASK AND NOT (ps_bytes z - 1)) OR a64_attrs fl OR a64_VALID))"

definition a64_is_block :: "u64 \<Rightarrow> bool" where
  "a64_is_block e \<longleftrightarrow> e AND a64_TABLE_OR_PAGE = 0"

definition Aarch64 :: PageFormat where
  "Aarch64 = \<lparr> LEVELS = 4, SPLIT_SHIFT = 48, is_present = a64_is_present,
     entry_pa = a64_entry_pa, table_entry = a64_table_entry, leaf_entry = a64_leaf_entry,
     leaf_flags = a64_leaf_flags, block_entry = a64_block_entry, is_block = a64_is_block \<rparr>"


section \<open>The RISC-V Sv39 format\<close>

definition sv_V :: u64 where "sv_V = bit_mask 0"
definition sv_R :: u64 where "sv_R = bit_mask 1"
definition sv_W :: u64 where "sv_W = bit_mask 2"
definition sv_X :: u64 where "sv_X = bit_mask 3"
definition sv_U :: u64 where "sv_U = bit_mask 4"
definition sv_G :: u64 where "sv_G = bit_mask 5"
definition sv_A :: u64 where "sv_A = bit_mask 6"
definition sv_D :: u64 where "sv_D = bit_mask 7"
definition sv_SW_DEVICE :: u64 where "sv_SW_DEVICE = bit_mask 8"
definition sv_PPN_SHIFT :: nat where "sv_PPN_SHIFT = 10"
definition sv_PPN_MASK :: u64 where "sv_PPN_MASK = push_bit 44 1 - 1"

definition sv_attrs :: "Flags \<Rightarrow> u64" where
  "sv_attrs fl =
     (let bits = sv_R OR sv_A;
          bits = (if is_writable fl then bits OR (sv_W OR sv_D) else bits);
          bits = (if is_user_executable fl \<or> is_kernel_executable fl then bits OR sv_X else bits);
          bits = (if is_user_accessible fl then bits OR sv_U else bits);
          bits = (if is_global fl then bits OR sv_G else bits);
          bits = (if is_device fl then bits OR sv_SW_DEVICE else bits)
      in bits)"

definition sv_is_present :: "u64 \<Rightarrow> bool" where
  "sv_is_present e \<longleftrightarrow> e AND sv_V \<noteq> 0"

definition sv_entry_pa :: "u64 \<Rightarrow> u64" where
  "sv_entry_pa e = push_bit 12 (drop_bit sv_PPN_SHIFT e AND sv_PPN_MASK)"

definition sv_table_entry :: "u64 \<Rightarrow> u64" where
  "sv_table_entry pa = push_bit sv_PPN_SHIFT (drop_bit 12 pa AND sv_PPN_MASK) OR sv_V"

definition sv_leaf_entry :: "u64 \<Rightarrow> Flags \<Rightarrow> u64" where
  "sv_leaf_entry pa fl =
     push_bit sv_PPN_SHIFT (drop_bit 12 pa AND sv_PPN_MASK) OR sv_V OR sv_attrs fl"

definition sv_leaf_flags :: "u64 \<Rightarrow> Flags" where
  "sv_leaf_flags e =
     (let caps = 0;
          caps = (if e AND sv_W \<noteq> 0 then caps OR CAP_WRITE else caps);
          caps = (if e AND sv_U \<noteq> 0 then caps OR CAP_USER else caps);
          caps = (if e AND sv_X \<noteq> 0
                  then (if e AND sv_U \<noteq> 0 then caps OR CAP_USER_EXEC else caps OR CAP_KERNEL_EXEC)
                  else caps);
          caps = (if e AND sv_G \<noteq> 0 then caps OR CAP_GLOBAL else caps);
          caps = (if e AND sv_SW_DEVICE \<noteq> 0 then caps OR CAP_DEVICE else caps)
      in Flags caps)"

definition sv_block_entry :: "u64 \<Rightarrow> Flags \<Rightarrow> PageSize \<Rightarrow> u64 option" where
  "sv_block_entry pa fl z = Some (sv_leaf_entry (pa AND NOT (ps_bytes z - 1)) fl)"

definition sv_is_block :: "u64 \<Rightarrow> bool" where
  "sv_is_block e \<longleftrightarrow> e AND (sv_R OR sv_W OR sv_X) \<noteq> 0"

definition Sv39 :: PageFormat where
  "Sv39 = \<lparr> LEVELS = 3, SPLIT_SHIFT = 38, is_present = sv_is_present,
     entry_pa = sv_entry_pa, table_entry = sv_table_entry, leaf_entry = sv_leaf_entry,
     leaf_flags = sv_leaf_flags, block_entry = sv_block_entry, is_block = sv_is_block \<rparr>"


section \<open>The x86-64 format\<close>

definition ia_P :: u64 where "ia_P = bit_mask 0"
definition ia_RW :: u64 where "ia_RW = bit_mask 1"
definition ia_US :: u64 where "ia_US = bit_mask 2"
definition ia_PWT :: u64 where "ia_PWT = bit_mask 3"
definition ia_PCD :: u64 where "ia_PCD = bit_mask 4"
definition ia_A :: u64 where "ia_A = bit_mask 5"
definition ia_D :: u64 where "ia_D = bit_mask 6"
definition ia_G :: u64 where "ia_G = bit_mask 8"
definition ia_PS :: u64 where "ia_PS = bit_mask 7"
definition ia_XD :: u64 where "ia_XD = bit_mask 63"
definition ia_SW_KERNEL_EXEC :: u64 where "ia_SW_KERNEL_EXEC = bit_mask 9"
definition ia_SW_DEVICE :: u64 where "ia_SW_DEVICE = bit_mask 10"
definition ia_ADDR_MASK :: u64 where "ia_ADDR_MASK = 0x000ffffffffff000"

definition ia_attrs :: "Flags \<Rightarrow> u64" where
  "ia_attrs fl =
     (let bits = ia_A;
          bits = (if is_writable fl then bits OR (ia_RW OR ia_D) else bits);
          bits = (if is_user_accessible fl then bits OR ia_US else bits);
          bits = (if is_global fl then bits OR ia_G else bits);
          bits = (if is_device fl then bits OR (ia_PCD OR ia_PWT OR ia_SW_DEVICE) else bits);
          bits = (if is_kernel_executable fl then bits OR ia_SW_KERNEL_EXEC
                  else if \<not> is_user_executable fl then bits OR ia_XD else bits)
      in bits)"

definition ia_is_present :: "u64 \<Rightarrow> bool" where
  "ia_is_present e \<longleftrightarrow> e AND ia_P \<noteq> 0"

definition ia_entry_pa :: "u64 \<Rightarrow> u64" where
  "ia_entry_pa e = e AND ia_ADDR_MASK"

definition ia_table_entry :: "u64 \<Rightarrow> u64" where
  "ia_table_entry pa = (pa AND ia_ADDR_MASK) OR ia_P OR ia_RW OR ia_US"

definition ia_leaf_entry :: "u64 \<Rightarrow> Flags \<Rightarrow> u64" where
  "ia_leaf_entry pa fl = (pa AND ia_ADDR_MASK) OR ia_P OR ia_attrs fl"

definition ia_leaf_flags :: "u64 \<Rightarrow> Flags" where
  "ia_leaf_flags e =
     (let caps = 0;
          caps = (if e AND ia_RW \<noteq> 0 then caps OR CAP_WRITE else caps);
          caps = (if e AND ia_US \<noteq> 0 then caps OR CAP_USER else caps);
          caps = (if e AND ia_XD = 0
                  then (if e AND ia_US \<noteq> 0 then caps OR CAP_USER_EXEC
                        else if e AND ia_SW_KERNEL_EXEC \<noteq> 0 then caps OR CAP_KERNEL_EXEC else caps)
                  else caps);
          caps = (if e AND ia_G \<noteq> 0 then caps OR CAP_GLOBAL else caps);
          caps = (if e AND ia_SW_DEVICE \<noteq> 0 then caps OR CAP_DEVICE else caps)
      in Flags caps)"

definition ia_block_entry :: "u64 \<Rightarrow> Flags \<Rightarrow> PageSize \<Rightarrow> u64 option" where
  "ia_block_entry pa fl z =
     (case z of
        Size4KiB \<Rightarrow> Some (ia_leaf_entry pa fl)
      | _ \<Rightarrow> Some ((pa AND ia_ADDR_MASK AND NOT (ps_bytes z - 1)) OR ia_P OR ia_PS OR ia_attrs fl))"

definition ia_is_block :: "u64 \<Rightarrow> bool" where
  "ia_is_block e \<longleftrightarrow> e AND ia_PS \<noteq> 0"

definition Ia32e :: PageFormat where
  "Ia32e = \<lparr> LEVELS = 4, SPLIT_SHIFT = 47, is_present = ia_is_present,
     entry_pa = ia_entry_pa, table_entry = ia_table_entry, leaf_entry = ia_leaf_entry,
     leaf_flags = ia_leaf_flags, block_entry = ia_block_entry, is_block = ia_is_block \<rparr>"


section \<open>The VT-d second-level format\<close>

definition VTD_R :: u64 where "VTD_R = bit_mask 0"
definition VTD_W :: u64 where "VTD_W = bit_mask 1"
definition VTD_ADDR_MASK :: u64 where "VTD_ADDR_MASK = 0x000ffffffffff000"
definition VTD_PERMITTED_BITS :: u64 where "VTD_PERMITTED_BITS = 0x000ffffffffff003"

definition vtd_is_present :: "u64 \<Rightarrow> bool" where
  "vtd_is_present e \<longleftrightarrow> e AND (VTD_R OR VTD_W) \<noteq> 0"

definition vtd_entry_pa :: "u64 \<Rightarrow> u64" where
  "vtd_entry_pa e = e AND VTD_ADDR_MASK"

definition vtd_table_entry :: "u64 \<Rightarrow> u64" where
  "vtd_table_entry pa = (pa AND VTD_ADDR_MASK) OR VTD_R OR VTD_W"

definition vtd_leaf_entry :: "u64 \<Rightarrow> Flags \<Rightarrow> u64" where
  "vtd_leaf_entry pa fl =
     (let bits = VTD_R; bits = (if is_writable fl then bits OR VTD_W else bits)
      in (pa AND VTD_ADDR_MASK) OR bits)"

definition vtd_leaf_flags :: "u64 \<Rightarrow> Flags" where
  "vtd_leaf_flags e = (let caps = 0; caps = (if e AND VTD_W \<noteq> 0 then caps OR CAP_WRITE else caps) in Flags caps)"

definition vtd_block_entry :: "u64 \<Rightarrow> Flags \<Rightarrow> PageSize \<Rightarrow> u64 option" where
  "vtd_block_entry pa fl z = (case z of Size4KiB \<Rightarrow> Some (vtd_leaf_entry pa fl) | _ \<Rightarrow> None)"

definition vtd_is_block :: "u64 \<Rightarrow> bool" where
  "vtd_is_block e \<longleftrightarrow> e AND bit_mask 7 \<noteq> 0"

definition Vtd :: PageFormat where
  "Vtd = \<lparr> LEVELS = 4, SPLIT_SHIFT = 47, is_present = vtd_is_present,
     entry_pa = vtd_entry_pa, table_entry = vtd_table_entry, leaf_entry = vtd_leaf_entry,
     leaf_flags = vtd_leaf_flags, block_entry = vtd_block_entry, is_block = vtd_is_block \<rparr>"


section \<open>The bits of the constants\<close>

lemma and_bit_mask_eq_0 [bit_facts]:
  "i < LENGTH('a) \<Longrightarrow> (w :: 'a::len word) AND bit_mask i = 0 \<longleftrightarrow> \<not> bit w i"
  by (auto simp: word_eq_0_iff_bits bit_simps bit_bit_mask)

lemma bit_range_mask:
  "bit (push_bit a (mask b) :: 'a::len word) i \<longleftrightarrow> i < LENGTH('a) \<and> a \<le> i \<and> i < a + b"
  by (auto simp: bit_simps)

lemma bit_a64_ADDR_MASK [bit_facts]: "bit a64_ADDR_MASK i \<longleftrightarrow> 12 \<le> i \<and> i < 48"
proof -
  have e: "a64_ADDR_MASK = push_bit 12 (mask 36)" by (simp add: a64_ADDR_MASK_def mask_eq_exp_minus_1)
  show ?thesis unfolding e by (auto simp: bit_range_mask)
qed

lemma bit_ia_ADDR_MASK [bit_facts]: "bit ia_ADDR_MASK i \<longleftrightarrow> 12 \<le> i \<and> i < 52"
proof -
  have e: "ia_ADDR_MASK = push_bit 12 (mask 40)" by (simp add: ia_ADDR_MASK_def mask_eq_exp_minus_1)
  show ?thesis unfolding e by (auto simp: bit_range_mask)
qed

lemma vtd_mask_eq [bit_facts]: "VTD_ADDR_MASK = ia_ADDR_MASK"
  by (simp add: VTD_ADDR_MASK_def ia_ADDR_MASK_def)

lemma bit_sv_PPN_MASK [bit_facts]: "bit sv_PPN_MASK i \<longleftrightarrow> i < 44"
proof -
  have e: "sv_PPN_MASK = mask 44" by (simp add: sv_PPN_MASK_def mask_eq_exp_minus_1)
  show ?thesis unfolding e by (auto simp: bit_simps)
qed

lemma bit_3 [bit_facts]: "bit (3 :: int) i \<longleftrightarrow> i = 0 \<or> i = 1"
proof -
  have e: "(3 :: int) = mask 2" by (simp add: mask_eq_exp_minus_1)
  show ?thesis unfolding e by (auto simp: bit_simps)
qed

lemma bit_7 [bit_facts]: "bit (7 :: int) i \<longleftrightarrow> i < 3"
proof -
  have e: "(7 :: int) = mask 3" by (simp add: mask_eq_exp_minus_1)
  show ?thesis unfolding e by (auto simp: bit_simps)
qed

lemma ps_bytes_mask: "ps_bytes z - 1 = mask (12 + 9 * levels_above_bottom z)"
  by (cases z) (simp_all add: ps_bytes_def PAGE_SIZE_def mask_eq_exp_minus_1)

lemma bit_2 [bit_facts]: "bit (2 :: int) i \<longleftrightarrow> i = 1"
proof -
  have e: "(2 :: int) = push_bit 1 1" by simp
  show ?thesis unfolding e by (auto simp: bit_simps)
qed

text \<open>An encoder is a chain of conditional \<open>|=\<close>; its bits are a disjunction.\<close>

lemma bit_or_if: "bit (if c then w OR x else w) i \<longleftrightarrow> bit w i \<or> c \<and> bit (x :: u64) i"
  by (simp add: bit_or_iff)

lemma bit_or_if2:
  "bit (if c then if d then w OR x else w OR y else w) i \<longleftrightarrow>
     bit w i \<or> c \<and> d \<and> bit (x :: u64) i \<or> c \<and> \<not> d \<and> bit y i"
  "bit (if c then w OR x else if d then w OR y else w) i \<longleftrightarrow>
     bit w i \<or> c \<and> bit x i \<or> \<not> c \<and> d \<and> bit y i"
  "bit (if c then if d then w OR x else if d' then w OR y else w else w) i \<longleftrightarrow>
     bit w i \<or> c \<and> d \<and> bit x i \<or> c \<and> \<not> d \<and> d' \<and> bit y i"
  by (simp_all add: bit_or_iff)

lemma bit_mask64: "k < 64 \<Longrightarrow> bit (bit_mask k :: u64) i \<longleftrightarrow> i = k"
  by (auto simp: bit_bit_mask)

lemmas encoder_bits = bit_or_if bit_or_if2 bit_or_iff bit_mask64 and_bit_mask_eq_0

lemma flag_test_bits [simp]:
  "is_writable (Flags w) \<longleftrightarrow> bit w 0"
  "is_user_accessible (Flags w) \<longleftrightarrow> bit w 1"
  "is_user_executable (Flags w) \<longleftrightarrow> bit w 2"
  "is_kernel_executable (Flags w) \<longleftrightarrow> bit w 3"
  "is_global (Flags w) \<longleftrightarrow> bit w 4"
  "is_device (Flags w) \<longleftrightarrow> bit w 5"
  by (simp_all add: flag_tests cap_defs and_bit_mask_eq_0)

lemma no_device_slot: "drop_bit 2 (e :: u64) AND 7 = 0 \<longleftrightarrow> \<not> bit e 2 \<and> \<not> bit e 3 \<and> \<not> bit e 4"
proof -
  have e: "(7 :: u64) = mask 3" by (simp add: mask_eq_exp_minus_1)
  have "drop_bit 2 e AND 7 = 0 \<longleftrightarrow> (\<forall>i < 64. i < 3 \<longrightarrow> \<not> bit e (2 + i))"
    unfolding e bit_eq_iff
    by (auto simp: bit_and_iff bit_mask_iff bit_drop_bit_eq possible_bit_word simp del: add_2_eq_Suc)
  also have "\<dots> \<longleftrightarrow> (\<forall>i < 3. \<not> bit e (2 + i))"
    using less_le_trans [of _ 3 "64 :: nat"] by fastforce
  also have "\<dots> \<longleftrightarrow> (\<forall>i \<in> {0, 1, 2}. \<not> bit e (2 + i))"
    by (auto simp: eval_nat_numeral less_Suc_eq)
  finally show ?thesis by (simp add: eval_nat_numeral)
qed


section \<open>What an entry says\<close>

lemmas a64_consts = a64_VALID_def a64_TABLE_OR_PAGE_def a64_AF_def a64_AP_RO_def a64_AP_USER_def
  a64_NG_def a64_PXN_def a64_UXN_def
lemmas sv_consts = sv_V_def sv_R_def sv_W_def sv_X_def sv_U_def sv_G_def sv_A_def sv_D_def
  sv_SW_DEVICE_def
lemmas ia_consts = ia_P_def ia_RW_def ia_US_def ia_PWT_def ia_PCD_def ia_A_def ia_D_def ia_G_def
  ia_PS_def ia_XD_def ia_SW_KERNEL_EXEC_def ia_SW_DEVICE_def

lemma bit_a64_attrs [bit_facts]:
  "bit (a64_attrs fl) i \<longleftrightarrow> i = 10 \<or> \<not> is_device fl \<and> (i = 8 \<or> i = 9 \<or> i = 2) \<or>
     is_user_accessible fl \<and> i = 6 \<or> \<not> is_writable fl \<and> i = 7 \<or>
     \<not> is_kernel_executable fl \<and> i = 53 \<or> \<not> is_user_executable fl \<and> i = 54 \<or>
     \<not> is_global fl \<and> i = 11"
proof -
  have sh: "bit a64_SH_INNER i \<longleftrightarrow> i = 8 \<or> i = 9"
    unfolding a64_SH_INNER_def bit_push_bit_iff by (auto simp: bit_3)
  have slot: "bit (a64_attr_index (if d then mair_DEVICE else mair_NORMAL)) i \<longleftrightarrow> \<not> d \<and> i = 2" for d
    by (auto simp: a64_attr_index_def mair_DEVICE_def mair_NORMAL_def bit_push_bit_iff bit_and_iff
        bit_7 bit_1_iff)
  have ap: "\<not> bit a64_AP_RW_EL1 i" "bit a64_AP_RW_EL0 i \<longleftrightarrow> i = 6"
    "bit a64_AP_RO_EL1 i \<longleftrightarrow> i = 7" "bit a64_AP_RO_EL0 i \<longleftrightarrow> i = 6 \<or> i = 7"
    unfolding a64_AP_RW_EL1_def a64_AP_RW_EL0_def a64_AP_RO_EL1_def a64_AP_RO_EL0_def
      bit_push_bit_iff by (auto simp: bit_1_iff bit_2 bit_3)
  show ?thesis
    unfolding a64_attrs_def Let_def
    by (simp add: sh slot ap encoder_bits a64_consts) blast
qed

lemma bit_sv_attrs [bit_facts]:
  "bit (sv_attrs fl) i \<longleftrightarrow> i = 1 \<or> i = 6 \<or> is_writable fl \<and> (i = 2 \<or> i = 7) \<or>
     (is_user_executable fl \<or> is_kernel_executable fl) \<and> i = 3 \<or>
     is_user_accessible fl \<and> i = 4 \<or> is_global fl \<and> i = 5 \<or> is_device fl \<and> i = 8"
  unfolding sv_attrs_def Let_def by (auto simp: encoder_bits sv_consts)

lemma bit_ia_attrs [bit_facts]:
  "bit (ia_attrs fl) i \<longleftrightarrow> i = 5 \<or> is_writable fl \<and> (i = 1 \<or> i = 6) \<or>
     is_user_accessible fl \<and> i = 2 \<or> is_global fl \<and> i = 8 \<or>
     is_device fl \<and> (i = 3 \<or> i = 4 \<or> i = 10) \<or> is_kernel_executable fl \<and> i = 9 \<or>
     \<not> is_kernel_executable fl \<and> \<not> is_user_executable fl \<and> i = 63"
  unfolding ia_attrs_def Let_def by (simp add: encoder_bits ia_consts) blast

text \<open>What the decoder sees in any entry whatever, as tests of single bits.\<close>

lemma bit_a64_leaf_flags:
  "bit (flag_bits (a64_leaf_flags e)) i \<longleftrightarrow> i = 0 \<and> \<not> bit e 7 \<or> i = 1 \<and> bit e 6 \<or>
     i = 2 \<and> \<not> bit e 54 \<or> i = 3 \<and> \<not> bit e 53 \<or> i = 4 \<and> \<not> bit e 11 \<or>
     i = 5 \<and> \<not> bit e 2 \<and> \<not> bit e 3 \<and> \<not> bit e 4"
  unfolding a64_leaf_flags_def Let_def
  by (simp add: a64_consts cap_defs encoder_bits no_device_slot mair_DEVICE_def) blast

lemma bit_sv_leaf_flags:
  "bit (flag_bits (sv_leaf_flags e)) i \<longleftrightarrow> i = 0 \<and> bit e 2 \<or> i = 1 \<and> bit e 4 \<or>
     i = 2 \<and> bit e 3 \<and> bit e 4 \<or> i = 3 \<and> bit e 3 \<and> \<not> bit e 4 \<or> i = 4 \<and> bit e 5 \<or> i = 5 \<and> bit e 8"
  unfolding sv_leaf_flags_def Let_def
  by (simp add: sv_consts cap_defs encoder_bits) blast

lemma bit_ia_leaf_flags:
  "bit (flag_bits (ia_leaf_flags e)) i \<longleftrightarrow> i = 0 \<and> bit e 1 \<or> i = 1 \<and> bit e 2 \<or>
     i = 2 \<and> \<not> bit e 63 \<and> bit e 2 \<or> i = 3 \<and> \<not> bit e 63 \<and> \<not> bit e 2 \<and> bit e 9 \<or>
     i = 4 \<and> bit e 8 \<or> i = 5 \<and> bit e 10"
  unfolding ia_leaf_flags_def Let_def
  by (simp add: ia_consts cap_defs encoder_bits) blast


section \<open>The laws the walk relies on\<close>

text \<open>
  A physical address is addressable in a format when the address field of an entry holds it
  exactly: page aligned, and below 48 bits on aarch64, 56 on Sv39 and 52 on x86-64.
\<close>

definition addressable :: "PageFormat \<Rightarrow> u64 \<Rightarrow> bool" where
  "addressable F pa \<longleftrightarrow> entry_pa F (table_entry F pa) = pa"

locale lawful_format =
  fixes F :: PageFormat
  assumes levels: "3 \<le> LEVELS F"
    and split_in_reach: "SPLIT_SHIFT F \<le> 12 + 9 * LEVELS F"
    and split_above_blocks: "30 \<le> SPLIT_SHIFT F"
    and split_low: "SPLIT_SHIFT F \<le> 48"
    and zero_absent: "\<not> is_present F 0"
    and table_present: "is_present F (table_entry F pa)"
    and table_no_block: "\<not> is_block F (table_entry F pa)"
    and leaf_present: "is_present F (leaf_entry F pa fl)"
    and leaf_pa: "entry_pa F (leaf_entry F pa fl) = entry_pa F (table_entry F pa)"
    and block_is_block: "block_entry F pa fl z = Some e \<Longrightarrow> z \<noteq> Size4KiB \<Longrightarrow>
      is_present F e \<and> is_block F e"
    and block_pa: "block_entry F pa fl z = Some e \<Longrightarrow>
      entry_pa F e = entry_pa F (table_entry F pa) AND NOT (ps_bytes z - 1)"
    and block_flags: "block_entry F pa fl z = Some e \<Longrightarrow>
      leaf_flags F e = leaf_flags F (leaf_entry F pa fl)"
    and leaf_flags_any: "leaf_flags F (leaf_entry F pa fl) = leaf_flags F (leaf_entry F 0 fl)"
    and low_addressable: "pa mod PAGE_SIZE = 0 \<Longrightarrow> unat pa < 2 ^ 48 \<Longrightarrow> addressable F pa"

lemma a64_entry_tests:
  "a64_is_present e \<longleftrightarrow> bit e 0" "a64_is_block e \<longleftrightarrow> \<not> bit e 1"
  by (simp_all add: a64_is_present_def a64_is_block_def a64_consts and_bit_mask_eq_0)

lemma sv_entry_tests:
  "sv_is_present e \<longleftrightarrow> bit e 0" "sv_is_block e \<longleftrightarrow> bit e 1 \<or> bit e 2 \<or> bit e 3"
proof -
  show "sv_is_present e \<longleftrightarrow> bit e 0"
    by (simp add: sv_is_present_def sv_consts and_bit_mask_eq_0)
  have "e AND (sv_R OR sv_W OR sv_X) = (e AND sv_R) OR (e AND sv_W) OR (e AND sv_X)"
    by (simp add: bit.conj_disj_distrib)
  then show "sv_is_block e \<longleftrightarrow> bit e 1 \<or> bit e 2 \<or> bit e 3"
    by (simp add: sv_is_block_def sv_consts and_bit_mask_eq_0 or_eq_0_iff)
qed

lemma ia_entry_tests:
  "ia_is_present e \<longleftrightarrow> bit e 0" "ia_is_block e \<longleftrightarrow> bit e 7"
  by (simp_all add: ia_is_present_def ia_is_block_def ia_consts and_bit_mask_eq_0)

lemma vtd_entry_tests:
  "vtd_is_present e \<longleftrightarrow> bit e 0 \<or> bit e 1" "vtd_is_block e \<longleftrightarrow> bit e 7"
proof -
  have "e AND (VTD_R OR VTD_W) = (e AND VTD_R) OR (e AND VTD_W)"
    by (simp add: bit.conj_disj_distrib)
  then show "vtd_is_present e \<longleftrightarrow> bit e 0 \<or> bit e 1"
    by (simp add: vtd_is_present_def VTD_R_def VTD_W_def and_bit_mask_eq_0 or_eq_0_iff)
  show "vtd_is_block e \<longleftrightarrow> bit e 7"
    by (simp add: vtd_is_block_def and_bit_mask_eq_0)
qed

lemma bit_block_mask:
  "bit (NOT (ps_bytes z - 1)) i \<longleftrightarrow> i < 64 \<and> 12 + 9 * levels_above_bottom z \<le> i"
  by (auto simp: ps_bytes_mask bit_simps)

lemmas bit_consts = a64_consts sv_consts ia_consts VTD_R_def VTD_W_def
lemmas word_bits = bit_or_iff bit_and_iff bit_mask64 bit_push_bit_iff bit_drop_bit_eq bit_block_mask
  bit_a64_ADDR_MASK bit_ia_ADDR_MASK bit_sv_PPN_MASK vtd_mask_eq bit_a64_attrs bit_sv_attrs bit_ia_attrs

lemma bit_a64_leaf [bit_facts]:
  "bit (a64_leaf_entry pa fl) i \<longleftrightarrow>
     12 \<le> i \<and> i < 48 \<and> bit pa i \<or> bit (a64_attrs fl) i \<or> i = 0 \<or> i = 1"
  by (auto simp: a64_leaf_entry_def word_bits bit_consts)

lemma bit_a64_table [bit_facts]:
  "bit (a64_table_entry pa) i \<longleftrightarrow> 12 \<le> i \<and> i < 48 \<and> bit pa i \<or> i = 0 \<or> i = 1"
  by (auto simp: a64_table_entry_def word_bits bit_consts)

lemma bit_sv_leaf [bit_facts]:
  "bit (sv_leaf_entry pa fl) i \<longleftrightarrow>
     10 \<le> i \<and> i < 54 \<and> bit pa (i + 2) \<or> bit (sv_attrs fl) i \<or> i = 0"
proof (cases "10 \<le> i")
  case True
  then have "12 + (i - 10) = i + 2" by simp
  then show ?thesis
    by (auto simp: sv_leaf_entry_def sv_PPN_SHIFT_def bit_or_iff bit_push_bit_iff bit_and_iff
        bit_drop_bit_eq bit_sv_PPN_MASK bit_mask64 bit_consts dest: bit_u64_less)
qed (auto simp: sv_leaf_entry_def sv_PPN_SHIFT_def bit_or_iff bit_and_iff bit_push_bit_iff bit_mask64 bit_consts)

lemma bit_sv_table [bit_facts]:
  "bit (sv_table_entry pa) i \<longleftrightarrow> 10 \<le> i \<and> i < 54 \<and> bit pa (i + 2) \<or> i = 0"
proof (cases "10 \<le> i")
  case True
  then have "12 + (i - 10) = i + 2" by simp
  then show ?thesis
    by (auto simp: sv_table_entry_def sv_PPN_SHIFT_def bit_or_iff bit_push_bit_iff bit_and_iff
        bit_drop_bit_eq bit_sv_PPN_MASK bit_mask64 bit_consts dest: bit_u64_less)
qed (auto simp: sv_table_entry_def sv_PPN_SHIFT_def bit_or_iff bit_and_iff bit_push_bit_iff bit_mask64 bit_consts)

lemma bit_sv_entry_pa [bit_facts]: "bit (sv_entry_pa e) i \<longleftrightarrow> 12 \<le> i \<and> i < 56 \<and> bit e (i - 2)"
proof (cases "12 \<le> i")
  case True
  then have "10 + (i - 12) = i - 2" by simp
  then show ?thesis using True
    by (auto simp: sv_entry_pa_def sv_PPN_SHIFT_def bit_push_bit_iff bit_and_iff bit_drop_bit_eq
        bit_sv_PPN_MASK)
qed (simp add: sv_entry_pa_def bit_and_iff bit_push_bit_iff)

lemma sv_entry_pa_bits:
  "bit (sv_entry_pa (sv_leaf_entry pa fl)) i \<longleftrightarrow> 12 \<le> i \<and> i < 56 \<and> bit pa i"
  "bit (sv_entry_pa (sv_table_entry pa)) i \<longleftrightarrow> 12 \<le> i \<and> i < 56 \<and> bit pa i"
proof -
  have up: "i - 2 + 2 = i" if "12 \<le> i" using that by simp
  have "\<not> bit (sv_attrs fl) (i - 2)" if "12 \<le> i" using that by (auto simp: bit_sv_attrs)
  then show "bit (sv_entry_pa (sv_leaf_entry pa fl)) i \<longleftrightarrow> 12 \<le> i \<and> i < 56 \<and> bit pa i"
    by (auto simp: bit_sv_entry_pa bit_sv_leaf up simp del: add_2_eq_Suc')
  show "bit (sv_entry_pa (sv_table_entry pa)) i \<longleftrightarrow> 12 \<le> i \<and> i < 56 \<and> bit pa i"
    by (auto simp: bit_sv_entry_pa bit_sv_table up simp del: add_2_eq_Suc')
qed

lemma bit_ia_leaf [bit_facts]:
  "bit (ia_leaf_entry pa fl) i \<longleftrightarrow>
     12 \<le> i \<and> i < 52 \<and> bit pa i \<or> bit (ia_attrs fl) i \<or> i = 0"
  by (auto simp: ia_leaf_entry_def word_bits bit_consts)

lemma bit_ia_table [bit_facts]:
  "bit (ia_table_entry pa) i \<longleftrightarrow> 12 \<le> i \<and> i < 52 \<and> bit pa i \<or> i = 0 \<or> i = 1 \<or> i = 2"
  by (auto simp: ia_table_entry_def word_bits bit_consts)

lemma bit_vtd_leaf [bit_facts]:
  "bit (vtd_leaf_entry pa fl) i \<longleftrightarrow>
     12 \<le> i \<and> i < 52 \<and> bit pa i \<or> i = 0 \<or> is_writable fl \<and> i = 1"
  unfolding vtd_leaf_entry_def Let_def by (auto simp: word_bits bit_consts)

lemma bit_vtd_table [bit_facts]:
  "bit (vtd_table_entry pa) i \<longleftrightarrow> 12 \<le> i \<and> i < 52 \<and> bit pa i \<or> i = 0 \<or> i = 1"
  by (auto simp: vtd_table_entry_def word_bits bit_consts)


lemma a64_block_Some:
  assumes "a64_block_entry pa fl z = Some e"
  shows "bit e i \<longleftrightarrow> 12 + 9 * levels_above_bottom z \<le> i \<and> i < 48 \<and> bit pa i \<or>
    bit (a64_attrs fl) i \<or> i = 0 \<or> z = Size4KiB \<and> i = 1"
  using assms by (cases z)
    (auto simp: a64_block_entry_def bit_a64_leaf bit_or_iff bit_and_iff bit_block_mask
      bit_a64_ADDR_MASK bit_consts bit_mask64)

lemma ia_block_Some:
  assumes "ia_block_entry pa fl z = Some e"
  shows "bit e i \<longleftrightarrow> 12 + 9 * levels_above_bottom z \<le> i \<and> i < 52 \<and> bit pa i \<or>
    bit (ia_attrs fl) i \<or> i = 0 \<or> z \<noteq> Size4KiB \<and> i = 7"
  using assms by (cases z)
    (auto simp: ia_block_entry_def bit_ia_leaf bit_or_iff bit_and_iff bit_block_mask
      bit_ia_ADDR_MASK bit_consts bit_mask64)

lemma page_mod: "(a :: u64) mod PAGE_SIZE = a AND mask 12"
  by (simp add: PAGE_SIZE_def flip: take_bit_eq_mask)
     (simp add: take_bit_eq_mod)

lemma page_div: "(a :: u64) div PAGE_SIZE = drop_bit 12 a"
  by (simp add: PAGE_SIZE_def drop_bit_eq_div)

lemma mod_ps_bytes: "(a :: u64) mod ps_bytes z = a AND mask (12 + 9 * levels_above_bottom z)"
  by (cases z) (simp_all add: ps_bytes_def PAGE_SIZE_def take_bit_eq_mod flip: take_bit_eq_mask)

lemma aligned_bits: "a AND mask n = (0 :: u64) \<longleftrightarrow> (\<forall>i < n. \<not> bit a i)"
  by (auto simp: word_eq_0_iff_bits bit_and_iff bit_mask_iff dest: bit_u64_less)

lemma page_address_bits:
  assumes "pa mod PAGE_SIZE = 0" "unat pa < 2 ^ 48" "bit pa i"
  shows "12 \<le> i" "i < 48"
  using assms not_bit_above [OF assms(2), of i] by (auto simp: page_mod aligned_bits simp flip: not_le)

lemma field_addressable:
  assumes "pa mod PAGE_SIZE = 0" "unat pa < 2 ^ 48"
  shows "a64_entry_pa (a64_table_entry pa) = pa" "sv_entry_pa (sv_table_entry pa) = pa"
    "ia_entry_pa (ia_table_entry pa) = pa" "vtd_entry_pa (vtd_table_entry pa) = pa"
  by (rule bit_word_eqI,
      use page_address_bits [OF assms] in \<open>fastforce simp: a64_entry_pa_def ia_entry_pa_def
        vtd_entry_pa_def vtd_mask_eq sv_entry_pa_bits bit_and_iff bit_a64_ADDR_MASK
        bit_ia_ADDR_MASK bit_a64_table bit_ia_table bit_vtd_table\<close>)+

lemma flags_eqI: "(\<And>i. bit (flag_bits a) i \<longleftrightarrow> bit (flag_bits b) i) \<Longrightarrow> a = b"
  by (cases a; cases b) (simp add: bit_eq_iff)

interpretation a64: lawful_format Aarch64
proof
  fix pa fl z e assume e: "block_entry Aarch64 pa fl z = Some e"
  then have b: "bit e i \<longleftrightarrow> 12 + 9 * levels_above_bottom z \<le> i \<and> i < 48 \<and> bit pa i \<or>
    bit (a64_attrs fl) i \<or> i = 0 \<or> z = Size4KiB \<and> i = 1" for i
    by (simp add: Aarch64_def a64_block_Some)
  show "entry_pa Aarch64 e = entry_pa Aarch64 (table_entry Aarch64 pa) AND NOT (ps_bytes z - 1)"
    by (rule bit_word_eqI)
      (auto simp: Aarch64_def a64_entry_pa_def bit_and_iff bit_block_mask bit_a64_ADDR_MASK b
        bit_a64_table bit_a64_attrs)
  show "leaf_flags Aarch64 e = leaf_flags Aarch64 (leaf_entry Aarch64 pa fl)"
    by (rule flags_eqI) (simp add: Aarch64_def bit_a64_leaf_flags b bit_a64_leaf bit_a64_attrs)
  show "is_present Aarch64 e \<and> is_block Aarch64 e" if "z \<noteq> Size4KiB"
    using that by (simp add: Aarch64_def a64_entry_tests b bit_a64_attrs)
next
  fix pa fl
  show "leaf_flags Aarch64 (leaf_entry Aarch64 pa fl) = leaf_flags Aarch64 (leaf_entry Aarch64 0 fl)"
    by (rule flags_eqI) (simp add: Aarch64_def bit_a64_leaf_flags bit_a64_leaf bit_a64_attrs)
  show "entry_pa Aarch64 (leaf_entry Aarch64 pa fl) = entry_pa Aarch64 (table_entry Aarch64 pa)"
    by (rule bit_word_eqI)
      (auto simp: Aarch64_def a64_entry_pa_def bit_and_iff bit_a64_ADDR_MASK bit_a64_table
        bit_a64_leaf bit_a64_attrs)
qed (simp_all add: Aarch64_def addressable_def field_addressable a64_entry_tests bit_a64_leaf bit_a64_table)

interpretation sv: lawful_format Sv39
proof
  fix pa fl z e assume e: "block_entry Sv39 pa fl z = Some e"
  then have e: "e = sv_leaf_entry (pa AND NOT (ps_bytes z - 1)) fl"
    by (simp add: Sv39_def sv_block_entry_def)
  show "entry_pa Sv39 e = entry_pa Sv39 (table_entry Sv39 pa) AND NOT (ps_bytes z - 1)"
    by (rule bit_word_eqI)
      (auto simp: Sv39_def e sv_entry_pa_bits bit_and_iff bit_block_mask)
  show "leaf_flags Sv39 e = leaf_flags Sv39 (leaf_entry Sv39 pa fl)"
    by (rule flags_eqI) (simp add: Sv39_def e bit_sv_leaf_flags bit_sv_leaf bit_sv_attrs)
  show "is_present Sv39 e \<and> is_block Sv39 e"
    by (simp add: Sv39_def e sv_entry_tests bit_sv_leaf bit_sv_attrs)
next
  fix pa fl
  show "leaf_flags Sv39 (leaf_entry Sv39 pa fl) = leaf_flags Sv39 (leaf_entry Sv39 0 fl)"
    by (rule flags_eqI) (simp add: Sv39_def bit_sv_leaf_flags bit_sv_leaf bit_sv_attrs)
  show "entry_pa Sv39 (leaf_entry Sv39 pa fl) = entry_pa Sv39 (table_entry Sv39 pa)"
    by (rule bit_word_eqI) (simp add: Sv39_def sv_entry_pa_bits)
qed (simp_all add: Sv39_def addressable_def field_addressable sv_entry_tests bit_sv_leaf bit_sv_table)

interpretation ia: lawful_format Ia32e
proof
  fix pa fl z e assume e: "block_entry Ia32e pa fl z = Some e"
  then have b: "bit e i \<longleftrightarrow> 12 + 9 * levels_above_bottom z \<le> i \<and> i < 52 \<and> bit pa i \<or>
    bit (ia_attrs fl) i \<or> i = 0 \<or> z \<noteq> Size4KiB \<and> i = 7" for i
    by (simp add: Ia32e_def ia_block_Some)
  show "entry_pa Ia32e e = entry_pa Ia32e (table_entry Ia32e pa) AND NOT (ps_bytes z - 1)"
    by (rule bit_word_eqI)
      (auto simp: Ia32e_def ia_entry_pa_def bit_and_iff bit_block_mask bit_ia_ADDR_MASK b
        bit_ia_table bit_ia_attrs)
  show "leaf_flags Ia32e e = leaf_flags Ia32e (leaf_entry Ia32e pa fl)"
    by (rule flags_eqI) (simp add: Ia32e_def bit_ia_leaf_flags b bit_ia_leaf bit_ia_attrs)
  show "is_present Ia32e e \<and> is_block Ia32e e" if "z \<noteq> Size4KiB"
    using that by (simp add: Ia32e_def ia_entry_tests b bit_ia_attrs)
next
  fix pa fl
  show "leaf_flags Ia32e (leaf_entry Ia32e pa fl) = leaf_flags Ia32e (leaf_entry Ia32e 0 fl)"
    by (rule flags_eqI) (simp add: Ia32e_def bit_ia_leaf_flags bit_ia_leaf bit_ia_attrs)
  show "entry_pa Ia32e (leaf_entry Ia32e pa fl) = entry_pa Ia32e (table_entry Ia32e pa)"
    by (rule bit_word_eqI)
      (auto simp: Ia32e_def ia_entry_pa_def bit_and_iff bit_ia_ADDR_MASK bit_ia_table
        bit_ia_leaf bit_ia_attrs)
qed (simp_all add: Ia32e_def addressable_def field_addressable ia_entry_tests bit_ia_leaf bit_ia_table)

interpretation vtd: lawful_format Vtd
proof
  fix pa fl z e assume "block_entry Vtd pa fl z = Some e"
  then have e: "z = Size4KiB" "e = vtd_leaf_entry pa fl"
    by (cases z; simp add: Vtd_def vtd_block_entry_def)+
  show "entry_pa Vtd e = entry_pa Vtd (table_entry Vtd pa) AND NOT (ps_bytes z - 1)"
    by (rule bit_word_eqI)
      (auto simp: Vtd_def e vtd_entry_pa_def vtd_mask_eq bit_and_iff bit_block_mask bit_ia_ADDR_MASK
        bit_vtd_table bit_vtd_leaf)
  show "leaf_flags Vtd e = leaf_flags Vtd (leaf_entry Vtd pa fl)"
    by (simp add: Vtd_def e)
  show "is_present Vtd e \<and> is_block Vtd e" if "z \<noteq> Size4KiB"
    using that e by simp
next
  fix pa fl
  show "leaf_flags Vtd (leaf_entry Vtd pa fl) = leaf_flags Vtd (leaf_entry Vtd 0 fl)"
    by (simp add: Vtd_def vtd_leaf_flags_def VTD_W_def and_bit_mask_eq_0 bit_vtd_leaf)
  show "entry_pa Vtd (leaf_entry Vtd pa fl) = entry_pa Vtd (table_entry Vtd pa)"
    by (rule bit_word_eqI)
      (auto simp: Vtd_def vtd_entry_pa_def vtd_mask_eq bit_and_iff bit_ia_ADDR_MASK bit_vtd_table
        bit_vtd_leaf)
qed (simp_all add: Vtd_def addressable_def field_addressable vtd_entry_tests bit_vtd_leaf bit_vtd_table)


text \<open>The rights a leaf of the format grants when it is built with \<open>fl\<close>.\<close>

definition granted :: "PageFormat \<Rightarrow> Flags \<Rightarrow> Flags" where
  "granted F fl = leaf_flags F (leaf_entry F 0 fl)"

definition cpu_formats :: "PageFormat list" where
  "cpu_formats = [Aarch64, Sv39, Ia32e]"

definition formats :: "PageFormat list" where
  "formats = Vtd # cpu_formats"

lemma formats_lawful: "F \<in> set formats \<Longrightarrow> lawful_format F"
  by (auto simp: formats_def cpu_formats_def a64.lawful_format_axioms sv.lawful_format_axioms
      ia.lawful_format_axioms vtd.lawful_format_axioms)


section \<open>Addresses\<close>

text \<open>The indices of an address, one per level, and what they leave out.\<close>

definition va_path :: "PageFormat \<Rightarrow> u64 \<Rightarrow> nat list" where
  "va_path F va = map (index F va) [0..<LEVELS F]"

lemma length_va_path [simp]: "length (va_path F va) = LEVELS F"
  by (simp add: va_path_def)

lemma index_less: "index F va level < ENTRIES"
proof -
  have "drop_bit k va AND 0x1ff = take_bit 9 (drop_bit k va)" for k
    by (simp add: take_bit_eq_mask mask_eq_exp_minus_1)
  then have "unat (drop_bit k va AND 0x1ff) = take_bit 9 (unat (drop_bit k va))" for k
    by (simp add: unsigned_take_bit_eq)
  then show ?thesis by (simp add: index_def Let_def ENTRIES_def take_bit_eq_mod)
qed

lemma va_path_less: "i \<in> set (va_path F va) \<Longrightarrow> i < ENTRIES"
  by (auto simp: va_path_def index_less)

lemma index_eq_iff:
  "index F va l = index F va' l \<longleftrightarrow>
     (\<forall>j < 9. bit va (9 * (LEVELS F - 1 - l) + 12 + j) = bit va' (9 * (LEVELS F - 1 - l) + 12 + j))"
proof -
  define s where "s = 9 * (LEVELS F - 1 - l) + 12"
  have m: "(0x1ff :: u64) = mask 9" by (simp add: mask_eq_exp_minus_1)
  have "index F va l = index F va' l \<longleftrightarrow> drop_bit s va AND mask 9 = drop_bit s va' AND mask 9"
    by (simp add: index_def Let_def s_def m unsigned_word_eqI word_unat_eq_iff)
  also have "\<dots> \<longleftrightarrow> (\<forall>j < 9. bit va (s + j) = bit va' (s + j))"
  proof (rule iffI; (intro allI impI)?)
    fix j :: nat assume "drop_bit s va AND mask 9 = drop_bit s va' AND mask 9" "j < 9"
    then have "bit (drop_bit s va AND mask 9) j = bit (drop_bit s va' AND mask 9) j" by simp
    with \<open>j < 9\<close> show "bit va (s + j) = bit va' (s + j)"
      by (simp add: bit_and_iff bit_mask_iff bit_drop_bit_eq)
  qed (auto simp: bit_eq_iff bit_and_iff bit_mask_iff bit_drop_bit_eq)
  finally show ?thesis by (simp add: s_def)
qed

lemma drop_bit_eq_iff:
  "drop_bit n a = drop_bit n b \<longleftrightarrow> (\<forall>i \<ge> n. bit (a :: u64) i = bit b i)"
proof
  assume "drop_bit n a = drop_bit n b"
  then have "bit (drop_bit n a) (i - n) = bit (drop_bit n b) (i - n)" for i by simp
  then have "bit a (n + (i - n)) = bit b (n + (i - n))" for i by (simp add: bit_drop_bit_eq)
  then show "\<forall>i \<ge> n. bit a i = bit b i" by (metis le_add_diff_inverse)
qed (simp add: bit_eq_iff bit_drop_bit_eq)

lemma in_half_bits:
  "is_in_half F h va \<longleftrightarrow> (\<forall>i < 64. SPLIT_SHIFT F \<le> i \<longrightarrow> (bit va i \<longleftrightarrow> h = High))"
  using drop_bit_eq_iff [of "SPLIT_SHIFT F" va 0] drop_bit_eq_iff [of "SPLIT_SHIFT F" va "- 1"]
  by (cases h) (auto simp: is_in_half_def Let_def dest: bit_u64_less)

lemma take_va_path_eq_iff:
  assumes "SPLIT_SHIFT F \<le> 12 + 9 * LEVELS F" "is_in_half F h va" "is_in_half F h va'" "k \<le> LEVELS F"
  shows "take k (va_path F va) = take k (va_path F va') \<longleftrightarrow>
    drop_bit (12 + 9 * (LEVELS F - k)) va = drop_bit (12 + 9 * (LEVELS F - k)) va'"
proof -
  have "take k (va_path F va) = take k (va_path F va') \<longleftrightarrow> (\<forall>l < k. index F va l = index F va' l)"
    using assms(4) by (auto simp: va_path_def take_map)
  also have "\<dots> \<longleftrightarrow> (\<forall>i \<ge> 12 + 9 * (LEVELS F - k). bit va i = bit va' i)"
  proof (rule iffI; intro allI impI)
    fix i assume same: "\<forall>l < k. index F va l = index F va' l" and i: "12 + 9 * (LEVELS F - k) \<le> i"
    show "bit va i = bit va' i"
    proof (cases "i < 12 + 9 * LEVELS F")
      case True
      define q where "q = (i - 12) div 9"
      have q: "LEVELS F - k \<le> q" "q < LEVELS F" "i = 9 * q + 12 + (i - 12) mod 9"
        using i True unfolding q_def by (auto simp: less_mult_imp_div_less)
      then have "LEVELS F - 1 - q < k" "LEVELS F - 1 - (LEVELS F - 1 - q) = q" using assms(4) by auto
      with same q(3) show ?thesis by (metis index_eq_iff mod_less_divisor zero_less_numeral)
    next
      case False
      then have "SPLIT_SHIFT F \<le> i" using assms(1) by simp
      then show ?thesis
        using assms(2,3) by (metis in_half_bits bit_u64_less)
    qed
  next
    fix l assume "\<forall>i \<ge> 12 + 9 * (LEVELS F - k). bit va i = bit va' i" "l < k"
    then show "index F va l = index F va' l"
      using assms(4) by (simp add: index_eq_iff)
  qed
  finally show ?thesis by (simp add: drop_bit_eq_iff)
qed


section \<open>Encoding and decoding a leaf\<close>

lemma flag_sets_cases:
  assumes "fl \<in> set flag_sets"
  shows "fl = Flags (bit_mask 3 OR bit_mask 4) \<or> fl = Flags (bit_mask 4) \<or>
    fl = Flags (bit_mask 0 OR bit_mask 4) \<or> fl = Flags (bit_mask 0 OR bit_mask 4 OR bit_mask 5) \<or>
    fl = Flags (bit_mask 1 OR bit_mask 2) \<or> fl = Flags (bit_mask 1) \<or>
    fl = Flags (bit_mask 1 OR bit_mask 0) \<or> fl = Flags (bit_mask 1 OR bit_mask 0 OR bit_mask 5)"
  using assms by (simp add: flag_sets_def flag_set_defs cap_defs)

text \<open>The six rights of a constructor, and that execution is only for the level that has access.\<close>

lemma flag_sets_bits:
  assumes "fl \<in> set flag_sets"
  shows "bit (flag_bits fl) i \<longleftrightarrow> i = 0 \<and> is_writable fl \<or> i = 1 \<and> is_user_accessible fl \<or>
    i = 2 \<and> is_user_executable fl \<or> i = 3 \<and> is_kernel_executable fl \<or> i = 4 \<and> is_global fl \<or>
    i = 5 \<and> is_device fl"
  using flag_sets_cases [OF assms]
  by (elim disjE) (simp_all add: bit_or_iff bit_mask64, auto)

lemma flag_sets_execute:
  assumes "fl \<in> set flag_sets"
  shows "is_user_executable fl \<Longrightarrow> is_user_accessible fl \<and> \<not> is_kernel_executable fl"
    and "is_kernel_executable fl \<Longrightarrow> \<not> is_user_accessible fl"
    and "is_writable fl \<Longrightarrow> \<not> is_user_executable fl \<and> \<not> is_kernel_executable fl"
  using flag_sets_cases [OF assms] by (elim disjE; simp add: bit_or_iff bit_mask64)+

lemma a64_flags_back: "fl \<in> set flag_sets \<Longrightarrow> a64_leaf_flags (a64_leaf_entry pa fl) = fl"
  by (rule flags_eqI)
    (simp add: flag_sets_bits bit_a64_leaf_flags bit_a64_leaf bit_a64_attrs)

lemma sv_flags_back: "fl \<in> set flag_sets \<Longrightarrow> sv_leaf_flags (sv_leaf_entry pa fl) = fl"
  using flag_sets_execute [of fl] by (intro flags_eqI)
    (simp add: flag_sets_bits bit_sv_leaf_flags bit_sv_leaf bit_sv_attrs, blast)

lemma ia_flags_back: "fl \<in> set flag_sets \<Longrightarrow> ia_leaf_flags (ia_leaf_entry pa fl) = fl"
  using flag_sets_execute [of fl] by (intro flags_eqI)
    (simp add: flag_sets_bits bit_ia_leaf_flags bit_ia_leaf bit_ia_attrs, blast)

lemma cpu_flags_back:
  "F \<in> set cpu_formats \<Longrightarrow> fl \<in> set flag_sets \<Longrightarrow> leaf_flags F (leaf_entry F pa fl) = fl"
  by (auto simp: cpu_formats_def Aarch64_def Sv39_def Ia32e_def a64_flags_back sv_flags_back
      ia_flags_back)

lemma granted_cpu: "F \<in> set cpu_formats \<Longrightarrow> fl \<in> set flag_sets \<Longrightarrow> granted F fl = fl"
  by (simp add: granted_def cpu_flags_back)

lemma cpu_block_exists: "F \<in> set cpu_formats \<Longrightarrow> \<exists>e. block_entry F pa fl z = Some e"
  by (cases z) (auto simp: cpu_formats_def Aarch64_def Sv39_def Ia32e_def a64_block_entry_def
      sv_block_entry_def ia_block_entry_def)

lemma aligned_mask_off:
  assumes "pa mod ps_bytes z = 0"
  shows "pa AND NOT (ps_bytes z - 1) = pa" and "pa mod PAGE_SIZE = 0"
proof -
  have low: "\<not> bit pa i" if "i < 12 + 9 * levels_above_bottom z" for i
    using assms that by (simp add: mod_ps_bytes aligned_bits)
  show "pa AND NOT (ps_bytes z - 1) = pa"
    by (rule bit_word_eqI) (use low not_less in \<open>auto simp: bit_and_iff bit_block_mask\<close>)
  show "pa mod PAGE_SIZE = 0"
    by (simp add: page_mod aligned_bits low)
qed

text \<open>C28. On every processor format, every set of access rights the crate can build and every
  page size, an entry decodes to what it was built from: the same rights and the same physical
  address, for every address aligned to the size and below 48 bits.  The entry is present, and
  above the bottom level it reads as a block and not as a pointer to a table.  None of the rights
  is both writable and executable, so no leaf decodes as both.\<close>

theorem leaf_round_trip:
  assumes "F \<in> set cpu_formats" "fl \<in> set flag_sets" "pa mod ps_bytes z = 0" "unat pa < 2 ^ 48"
  shows "\<exists>e. block_entry F pa fl z = Some e \<and> leaf_flags F e = fl \<and> entry_pa F e = pa \<and>
    is_present F e \<and> (z \<noteq> Size4KiB \<longrightarrow> is_block F e) \<and> \<not> is_block F (table_entry F pa) \<and>
    \<not> (is_writable (leaf_flags F e) \<and>
       (is_user_executable (leaf_flags F e) \<or> is_kernel_executable (leaf_flags F e)))"
proof -
  have F: "F \<in> set formats" using assms(1) by (simp add: formats_def)
  note law = formats_lawful [OF F]
  obtain e where e: "block_entry F pa fl z = Some e" using cpu_block_exists [OF assms(1)] by blast
  have "leaf_flags F e = fl"
    using lawful_format.block_flags [OF law e] cpu_flags_back [OF assms(1,2)] by simp
  moreover have "entry_pa F e = pa"
    using lawful_format.block_pa [OF law e] lawful_format.low_addressable [OF law _ assms(4)]
      aligned_mask_off [OF assms(3)] by (simp add: addressable_def)
  moreover have "is_present F e"
  proof (cases "z = Size4KiB")
    case True
    then have "e = leaf_entry F pa fl"
      using e assms(1) aligned_mask_off(1) [OF assms(3)]
      by (auto simp: cpu_formats_def Aarch64_def Sv39_def Ia32e_def a64_block_entry_def
          sv_block_entry_def ia_block_entry_def)
    then show ?thesis using lawful_format.leaf_present [OF law] by simp
  qed (use lawful_format.block_is_block [OF law e] in simp)
  ultimately show ?thesis
    using e lawful_format.block_is_block [OF law e] lawful_format.table_no_block [OF law]
      flag_sets_execute(3) [OF assms(2)] by auto
qed

theorem leaf_round_trip_witness:
  "\<exists>e. block_entry Ia32e 0x40200000 user_data Size2MiB = Some e \<and> leaf_flags Ia32e e = user_data \<and>
     entry_pa Ia32e e = 0x40200000 \<and> is_block Ia32e e"
  using leaf_round_trip [of Ia32e user_data "0x40200000" Size2MiB]
  by (auto simp: cpu_formats_def flag_sets_def ps_bytes_def PAGE_SIZE_def)


section \<open>Choosing a leaf size\<close>

lemma unat_ps_bytes: "unat (ps_bytes z) = 2 ^ (12 + 9 * levels_above_bottom z)"
  by (cases z) (simp_all add: ps_bytes_def PAGE_SIZE_def)

lemma unat_mod_ps_bytes: "unat (a mod ps_bytes z) = unat a mod unat (ps_bytes z)"
  by (rule unat_mod)

lemma fits_iff:
  "fits va pa n z \<longleftrightarrow> va mod ps_bytes z = 0 \<and> pa mod ps_bytes z = 0 \<and> ps_bytes z \<le> n"
  by (auto simp: fits_def ps_bytes_mask mod_ps_bytes bit.conj_disj_distrib2 or_eq_0_iff)

lemma largest_fitting_level: "levels_above_bottom (largest_fitting va pa n m) \<le> levels_above_bottom m"
  by (cases m) (simp_all add: largest_fitting_def)

lemma largest_fitting_fits:
  assumes "fits va pa n Size4KiB"
  shows "fits va pa n (largest_fitting va pa n m)"
  using assms by (simp add: largest_fitting_def Let_def)

text \<open>The leaf chosen for the next step of mapping a span is aligned on both sides and lies
  inside what is left of the span, is no larger than the largest size allowed, and no allowed size
  that is aligned and fits is larger.\<close>

theorem largest_fitting_is_best:
  assumes "va mod PAGE_SIZE = 0" "pa mod PAGE_SIZE = 0" "PAGE_SIZE \<le> remaining"
  shows "let z = largest_fitting va pa remaining largest in
    va mod ps_bytes z = 0 \<and> pa mod ps_bytes z = 0 \<and> ps_bytes z \<le> remaining \<and>
    ps_bytes z \<le> ps_bytes largest \<and>
    (\<forall>z'. ps_bytes z' \<le> ps_bytes largest \<longrightarrow> ps_bytes z < ps_bytes z' \<longrightarrow>
       \<not> (va mod ps_bytes z' = 0 \<and> pa mod ps_bytes z' = 0 \<and> ps_bytes z' \<le> remaining))"
proof -
  have order: "ps_bytes a \<le> ps_bytes b \<longleftrightarrow> levels_above_bottom a \<le> levels_above_bottom b" for a b
    by (simp add: word_le_nat_alt unat_ps_bytes)
  have "fits va pa remaining Size4KiB"
    using assms by (simp add: fits_iff ps_bytes_def)
  from largest_fitting_fits [OF this, of largest]
  have "fits va pa remaining (largest_fitting va pa remaining largest)" .
  moreover have "\<not> fits va pa remaining z'"
    if "levels_above_bottom z' \<le> levels_above_bottom largest"
      "\<not> levels_above_bottom z' \<le> levels_above_bottom (largest_fitting va pa remaining largest)" for z'
    using that by (cases z'; cases largest) (auto simp: largest_fitting_def split: if_splits)
  ultimately show ?thesis
    using largest_fitting_level [of va pa remaining largest]
    by (auto simp: Let_def fits_iff order simp flip: not_le)
qed

theorem largest_fitting_is_best_witness:
  "largest_fitting 0x40200000 0x80200000 0x600000 Size1GiB = Size2MiB \<and>
   ps_bytes (largest_fitting 0x40200000 0x80200000 0x600000 Size1GiB) \<le> 0x600000"
  using largest_fitting_is_best [of "0x40200000" "0x80200000" "0x600000" Size1GiB]
  by (simp add: Let_def PAGE_SIZE_def) (simp add: largest_fitting_def fits_def ps_bytes_def PAGE_SIZE_def)

end
