(* ===== verification/Paging_Mapper.thy ===== *)
theory Paging_Mapper
  imports Paging_Format "HOL-Library.Sublist"
begin

text \<open>
  The page-table mapper of \<open>crates/paging/src/lib.rs\<close>: \<open>Mapper::map\<close>, \<open>map_block\<close>, \<open>map_span\<close>,
  \<open>map_range\<close>, \<open>unmap\<close> and \<open>translate\<close>, over any format.

  Physical memory is a map from the physical address of a table to its 512 entries: the object the
  raw pointer \<open>phys_to_ptr(pa)\<close> reaches.  The closure \<open>alloc_page_frame\<close> is a parameter: a function
  of a state of its own.  The locale \<open>frame_source\<close> says what its contract is: it never hands out a
  frame twice, nor one that is in use as a table.

  The locale \<open>mapper\<close> proves the operations correct against the table tree.  The walk by which the
  hardware reads the tables is \<open>entry_at\<close>; an operation is described by what it does to the result
  of \<open>entry_at\<close> on every path of indices, and so to the translation of every address.
\<close>

section \<open>State\<close>

datatype MapError = OutOfPageFrames | Misaligned | AlreadyMapped | WrongHalf | NotMapped
  | InsideBlock | UnsupportedSize | BadRegion

type_synonym PageTable = "nat \<Rightarrow> u64"

definition pt_new :: PageTable where "pt_new = (\<lambda>i. 0)"

record 's Mapper =
  mp_root :: u64
  mp_half :: Half
  mp_frames :: 's
  mp_tables :: "u64 \<Rightarrow> PageTable"

datatype TlbFlush = TlbFlush (flush_address: u64)

definition mp_new :: "u64 \<Rightarrow> Half \<Rightarrow> 's \<Rightarrow> (u64 \<Rightarrow> PageTable) \<Rightarrow> 's Mapper" where
  "mp_new root half src mem =
     \<lparr> mp_root = root, mp_half = half, mp_frames = src, mp_tables = mem \<rparr>"

definition set_entry :: "'s Mapper \<Rightarrow> u64 \<Rightarrow> nat \<Rightarrow> u64 \<Rightarrow> 's Mapper" where
  "set_entry m t i e = m\<lparr>mp_tables := (mp_tables m)(t := (mp_tables m t)(i := e))\<rparr>"

definition zero_table :: "'s Mapper \<Rightarrow> u64 \<Rightarrow> 's Mapper" where
  "zero_table m t = m\<lparr>mp_tables := (mp_tables m)(t := pt_new)\<rparr>"


section \<open>Operations\<close>

text \<open>The descent of \<open>map\<close> and \<open>map_block\<close> through the levels above the leaf.\<close>

fun descend ::
  "PageFormat \<Rightarrow> ('s \<Rightarrow> u64 option \<times> 's) \<Rightarrow> u64 \<Rightarrow> nat list \<Rightarrow> u64 \<Rightarrow> 's Mapper \<Rightarrow>
   (MapError + u64) \<times> 's Mapper" where
  "descend F alloc va [] table_pa m = (Inr table_pa, m)"
| "descend F alloc va (level # levels) table_pa m =
     (let i = index F va level; entry = mp_tables m table_pa i in
      if \<not> is_present F entry then
        (case alloc (mp_frames m) of
           (None, src) \<Rightarrow> (Inl OutOfPageFrames, m\<lparr>mp_frames := src\<rparr>)
         | (Some new, src) \<Rightarrow>
             let m = zero_table (m\<lparr>mp_frames := src\<rparr>) new;
                 entry = table_entry F new;
                 m = set_entry m table_pa i entry
             in descend F alloc va levels (entry_pa F entry) m)
      else if is_block F entry then (Inl AlreadyMapped, m)
      else descend F alloc va levels (entry_pa F entry) m)"

definition map_page ::
  "PageFormat \<Rightarrow> ('s \<Rightarrow> u64 option \<times> 's) \<Rightarrow> 's Mapper \<Rightarrow> u64 \<Rightarrow> u64 \<Rightarrow> Flags \<Rightarrow>
   (MapError + unit) \<times> 's Mapper" where
  "map_page F alloc m va pa flags =
     (if \<not> is_in_half F (mp_half m) va then (Inl WrongHalf, m)
      else if va mod PAGE_SIZE \<noteq> 0 \<or> pa mod PAGE_SIZE \<noteq> 0 then (Inl Misaligned, m)
      else case descend F alloc va [0..<LEVELS F - 1] (mp_root m) m of
        (Inl e, m) \<Rightarrow> (Inl e, m)
      | (Inr table_pa, m) \<Rightarrow>
          let i = index F va (LEVELS F - 1) in
          if is_present F (mp_tables m table_pa i) then (Inl AlreadyMapped, m)
          else (Inr (), set_entry m table_pa i (leaf_entry F pa flags)))"

definition map_block ::
  "PageFormat \<Rightarrow> ('s \<Rightarrow> u64 option \<times> 's) \<Rightarrow> 's Mapper \<Rightarrow> u64 \<Rightarrow> u64 \<Rightarrow> PageSize \<Rightarrow> Flags \<Rightarrow>
   (MapError + unit) \<times> 's Mapper" where
  "map_block F alloc m va pa z flags =
     (if z = Size4KiB then map_page F alloc m va pa flags
      else if \<not> is_in_half F (mp_half m) va then (Inl WrongHalf, m)
      else if va mod ps_bytes z \<noteq> 0 \<or> pa mod ps_bytes z \<noteq> 0 then (Inl Misaligned, m)
      else case block_entry F pa flags z of
        None \<Rightarrow> (Inl UnsupportedSize, m)
      | Some leaf \<Rightarrow>
          let leaf_level = LEVELS F - 1 - levels_above_bottom z in
          (case descend F alloc va [0..<leaf_level] (mp_root m) m of
             (Inl e, m) \<Rightarrow> (Inl e, m)
           | (Inr table_pa, m) \<Rightarrow>
               let i = index F va leaf_level in
               if is_present F (mp_tables m table_pa i) then (Inl AlreadyMapped, m)
               else (Inr (), set_entry m table_pa i leaf)))"

text \<open>The loop of \<open>map_span\<close>; \<open>None\<close> would be a loop that does not end.\<close>

partial_function (option) map_span_loop ::
  "PageFormat \<Rightarrow> ('s \<Rightarrow> u64 option \<times> 's) \<Rightarrow> u64 \<Rightarrow> u64 \<Rightarrow> u64 \<Rightarrow> Flags \<Rightarrow> PageSize \<Rightarrow> u64 \<Rightarrow>
   's Mapper \<Rightarrow> ((MapError + unit) \<times> 's Mapper) option" where
  "map_span_loop F alloc va pa len flags largest done m =
     (if done < len then
        (let z = largest_fitting (va + done) (pa + done) (len - done) largest in
         case map_block F alloc m (va + done) (pa + done) z flags of
           (Inl e, m) \<Rightarrow> Some (Inl e, m)
         | (Inr _, m) \<Rightarrow> map_span_loop F alloc va pa len flags largest (done + ps_bytes z) m)
      else Some (Inr (), m))"

declare map_span_loop.simps [code]

definition map_span ::
  "PageFormat \<Rightarrow> ('s \<Rightarrow> u64 option \<times> 's) \<Rightarrow> 's Mapper \<Rightarrow> u64 \<Rightarrow> u64 \<Rightarrow> u64 \<Rightarrow> Flags \<Rightarrow> PageSize \<Rightarrow>
   ((MapError + unit) \<times> 's Mapper) option" where
  "map_span F alloc m va pa len flags largest =
     (if len mod PAGE_SIZE \<noteq> 0 then Some (Inl Misaligned, m)
      else map_span_loop F alloc va pa len flags largest 0 m)"

fun map_range_loop ::
  "PageFormat \<Rightarrow> ('s \<Rightarrow> u64 option \<times> 's) \<Rightarrow> u64 \<Rightarrow> u64 \<Rightarrow> Flags \<Rightarrow> nat list \<Rightarrow> 's Mapper \<Rightarrow>
   (MapError + unit) \<times> 's Mapper" where
  "map_range_loop F alloc va pa flags [] m = (Inr (), m)"
| "map_range_loop F alloc va pa flags (i # is) m =
     (case map_page F alloc m (va + of_nat i * PAGE_SIZE) (pa + of_nat i * PAGE_SIZE) flags of
        (Inl e, m) \<Rightarrow> (Inl e, m)
      | (Inr _, m) \<Rightarrow> map_range_loop F alloc va pa flags is m)"

definition map_range ::
  "PageFormat \<Rightarrow> ('s \<Rightarrow> u64 option \<times> 's) \<Rightarrow> 's Mapper \<Rightarrow> u64 \<Rightarrow> u64 \<Rightarrow> u64 \<Rightarrow> Flags \<Rightarrow>
   (MapError + unit) \<times> 's Mapper" where
  "map_range F alloc m va pa count flags = map_range_loop F alloc va pa flags [0..<unat count] m"

fun find_leaf_table ::
  "PageFormat \<Rightarrow> u64 \<Rightarrow> nat list \<Rightarrow> u64 \<Rightarrow> (u64 \<Rightarrow> PageTable) \<Rightarrow> MapError + u64" where
  "find_leaf_table F va [] table_pa mem = Inr table_pa"
| "find_leaf_table F va (level # levels) table_pa mem =
     (let entry = mem table_pa (index F va level) in
      if \<not> is_present F entry then Inl NotMapped
      else if is_block F entry then Inl InsideBlock
      else find_leaf_table F va levels (entry_pa F entry) mem)"

definition unmap ::
  "PageFormat \<Rightarrow> 's Mapper \<Rightarrow> u64 \<Rightarrow> (MapError + (u64 \<times> TlbFlush)) \<times> 's Mapper" where
  "unmap F m va =
     (if \<not> is_in_half F (mp_half m) va then (Inl WrongHalf, m)
      else if va mod PAGE_SIZE \<noteq> 0 then (Inl Misaligned, m)
      else case find_leaf_table F va [0..<LEVELS F - 1] (mp_root m) (mp_tables m) of
        Inl e \<Rightarrow> (Inl e, m)
      | Inr table_pa \<Rightarrow>
          let i = index F va (LEVELS F - 1); entry = mp_tables m table_pa i in
          if \<not> is_present F entry then (Inl NotMapped, m)
          else (Inr (entry_pa F entry, TlbFlush va), set_entry m table_pa i 0))"

fun walk ::
  "PageFormat \<Rightarrow> u64 \<Rightarrow> nat list \<Rightarrow> u64 \<Rightarrow> (u64 \<Rightarrow> PageTable) \<Rightarrow> (u64 \<times> Flags) option" where
  "walk F va [] table_pa mem =
     (let entry = mem table_pa (index F va (LEVELS F - 1)) in
      if \<not> is_present F entry then None
      else Some (entry_pa F entry + va mod PAGE_SIZE, leaf_flags F entry))"
| "walk F va (level # levels) table_pa mem =
     (let entry = mem table_pa (index F va level) in
      if \<not> is_present F entry then None
      else if is_block F entry then
        (let span = push_bit (9 * (LEVELS F - 1 - level)) PAGE_SIZE;
             base = entry_pa F entry AND NOT (span - 1)
         in Some (base + (va AND (span - 1)), leaf_flags F entry))
      else walk F va levels (entry_pa F entry) mem)"

definition translate :: "PageFormat \<Rightarrow> 's Mapper \<Rightarrow> u64 \<Rightarrow> (u64 \<times> Flags) option" where
  "translate F m va =
     (if \<not> is_in_half F (mp_half m) va then None
      else walk F va [0..<LEVELS F - 1] (mp_root m) (mp_tables m))"


section \<open>The tree of tables\<close>

text \<open>\<open>follow\<close> is the table a path of indices leads to; \<open>entry_at\<close> is the leaf a full path ends at,
  with the number of levels below it.\<close>

fun follow :: "PageFormat \<Rightarrow> (u64 \<Rightarrow> PageTable) \<Rightarrow> u64 \<Rightarrow> nat list \<Rightarrow> u64 option" where
  "follow F mem t [] = Some t"
| "follow F mem t (i # p) =
     (if is_present F (mem t i) \<and> \<not> is_block F (mem t i)
      then follow F mem (entry_pa F (mem t i)) p else None)"

fun entry_at :: "PageFormat \<Rightarrow> (u64 \<Rightarrow> PageTable) \<Rightarrow> u64 \<Rightarrow> nat list \<Rightarrow> (nat \<times> u64) option" where
  "entry_at F mem t [] = None"
| "entry_at F mem t (i # p) =
     (if \<not> is_present F (mem t i) then None
      else if p = [] \<or> is_block F (mem t i) then Some (length p, mem t i)
      else entry_at F mem (entry_pa F (mem t i)) p)"

definition table_path :: "PageFormat \<Rightarrow> nat list \<Rightarrow> bool" where
  "table_path F p \<longleftrightarrow> length p < LEVELS F \<and> (\<forall>i \<in> set p. i < ENTRIES)"

definition leaf_path :: "PageFormat \<Rightarrow> nat list \<Rightarrow> bool" where
  "leaf_path F p \<longleftrightarrow> length p = LEVELS F \<and> (\<forall>i \<in> set p. i < ENTRIES)"

text \<open>The tables form a tree, no two paths lead to the same one, and none of them is a frame the
  allocator may still hand out.\<close>

definition tree_ok :: "PageFormat \<Rightarrow> (u64 \<Rightarrow> PageTable) \<Rightarrow> u64 \<Rightarrow> u64 set \<Rightarrow> bool" where
  "tree_ok F mem r S \<longleftrightarrow>
     (\<forall>p q t. table_path F p \<longrightarrow> table_path F q \<longrightarrow> follow F mem r p = Some t \<longrightarrow>
        follow F mem r q = Some t \<longrightarrow> p = q) \<and>
     (\<forall>p t. table_path F p \<longrightarrow> follow F mem r p = Some t \<longrightarrow> t \<notin> S)"

definition mapper_ok :: "PageFormat \<Rightarrow> ('s \<Rightarrow> bool) \<Rightarrow> ('s \<Rightarrow> u64 set) \<Rightarrow> 's Mapper \<Rightarrow> bool" where
  "mapper_ok F ok owned m \<longleftrightarrow> ok (mp_frames m) \<and> tree_ok F (mp_tables m) (mp_root m) (owned (mp_frames m))"

lemma follow_append:
  "follow F mem r (p @ q) = (case follow F mem r p of None \<Rightarrow> None | Some t \<Rightarrow> follow F mem t q)"
  by (induction p arbitrary: r) auto

lemma entry_at_append:
  "follow F mem r p = Some t \<Longrightarrow> q \<noteq> [] \<Longrightarrow> entry_at F mem r (p @ q) = entry_at F mem t q"
  by (induction p arbitrary: r) (auto split: if_splits)

lemma table_path_prefix: "table_path F (p @ q) \<Longrightarrow> table_path F p"
  by (auto simp: table_path_def)

lemma leaf_path_table: "leaf_path F (p @ q) \<Longrightarrow> q \<noteq> [] \<Longrightarrow> table_path F p"
  by (cases q) (auto simp: table_path_def leaf_path_def)

lemma leaf_path_va [simp]: "leaf_path F (va_path F va)"
  by (simp add: leaf_path_def va_path_less)

lemma tree_okD:
  assumes "tree_ok F mem r S"
  shows "table_path F p \<Longrightarrow> table_path F q \<Longrightarrow> follow F mem r p = Some t \<Longrightarrow>
      follow F mem r q = Some t \<Longrightarrow> p = q"
    and "table_path F p \<Longrightarrow> follow F mem r p = Some t \<Longrightarrow> t \<notin> S"
  using assms unfolding tree_ok_def by blast+

lemma tree_ok_sub:
  assumes "tree_ok F mem r S" "S' \<subseteq> S"
    and "\<And>p t. table_path F p \<Longrightarrow> follow F mem' r p = Some t \<Longrightarrow> follow F mem r p = Some t"
  shows "tree_ok F mem' r S'"
  unfolding tree_ok_def
proof (intro conjI allI impI)
  show "p = q" if "table_path F p" "table_path F q" "follow F mem' r p = Some t"
    "follow F mem' r q = Some t" for p q t
    using that assms(3) tree_okD(1) [OF assms(1)] by blast
  show "t \<notin> S'" if "table_path F p" "follow F mem' r p = Some t" for p t
    using that assms(2,3) tree_okD(2) [OF assms(1)] by blast
qed

text \<open>Memory that differs only in one entry of one table of the tree reads the same on every path
  that does not go through that entry.\<close>

definition same_but ::
  "PageFormat \<Rightarrow> (u64 \<Rightarrow> PageTable) \<Rightarrow> (u64 \<Rightarrow> PageTable) \<Rightarrow> u64 \<Rightarrow> u64 \<Rightarrow> nat \<Rightarrow> bool" where
  "same_but F mem mem' r t i \<longleftrightarrow>
     (\<forall>q u j. table_path F q \<longrightarrow> follow F mem r q = Some u \<longrightarrow> (u, j) \<noteq> (t, i) \<longrightarrow> mem' u j = mem u j)"

lemma same_but_entry:
  assumes "tree_ok F mem r S" "same_but F mem mem' r t i" "table_path F p" "follow F mem r p = Some t"
    "table_path F q" "follow F mem r q = Some u" "\<not> prefix (p @ [i]) (q @ j # s)"
  shows "mem' u j = mem u j"
proof -
  have "(u, j) \<noteq> (t, i)"
  proof
    assume "(u, j) = (t, i)"
    then have "q = p" "j = i" using tree_okD(1) [OF assms(1,5,3)] assms(4,6) by auto
    then show False using assms(7) by (simp add: prefix_def)
  qed
  then show ?thesis using assms(2,5,6) unfolding same_but_def by blast
qed

lemma follow_frame:
  assumes "tree_ok F mem r S" "same_but F mem mem' r t i" "table_path F p" "follow F mem r p = Some t"
  shows "follow F mem r q = Some u \<Longrightarrow> table_path F (q @ s) \<Longrightarrow> \<not> prefix (p @ [i]) (q @ s) \<Longrightarrow>
    follow F mem' u s = follow F mem u s"
proof (induction s arbitrary: q u)
  case (Cons j s)
  have "mem' u j = mem u j"
    using same_but_entry [OF assms table_path_prefix [OF Cons.prems(2)] Cons.prems(1,3)] .
  moreover have "follow F mem' (entry_pa F (mem u j)) s = follow F mem (entry_pa F (mem u j)) s"
    if "is_present F (mem u j)" "\<not> is_block F (mem u j)"
    using that Cons.prems by (intro Cons.IH [of "q @ [j]"]) (simp_all add: follow_append)
  ultimately show ?case by simp
qed simp

lemma entry_frame:
  assumes "tree_ok F mem r S" "same_but F mem mem' r t i" "table_path F p" "follow F mem r p = Some t"
  shows "follow F mem r q = Some u \<Longrightarrow> leaf_path F (q @ s) \<Longrightarrow> \<not> prefix (p @ [i]) (q @ s) \<Longrightarrow>
    entry_at F mem' u s = entry_at F mem u s"
proof (induction s arbitrary: q u)
  case (Cons j s)
  have "table_path F q" using leaf_path_table [OF Cons.prems(2)] by simp
  then have "mem' u j = mem u j"
    using same_but_entry [OF assms _ Cons.prems(1,3)] by blast
  moreover have "entry_at F mem' (entry_pa F (mem u j)) s = entry_at F mem (entry_pa F (mem u j)) s"
    if "is_present F (mem u j)" "\<not> is_block F (mem u j)"
    using that Cons.prems by (intro Cons.IH [of "q @ [j]"]) (simp_all add: follow_append)
  ultimately show ?case by simp
qed simp


section \<open>The interface of the frame source\<close>

locale frame_source =
  fixes alloc :: "'s \<Rightarrow> u64 option \<times> 's"
    and ok :: "'s \<Rightarrow> bool"
    and owned :: "'s \<Rightarrow> u64 set"
  assumes alloc_some: "ok s \<Longrightarrow> alloc s = (Some f, s') \<Longrightarrow>
      ok s' \<and> f \<in> owned s \<and> owned s' \<subseteq> owned s - {f}"
    and alloc_page: "ok s \<Longrightarrow> alloc s = (Some f, s') \<Longrightarrow> f mod PAGE_SIZE = 0 \<and> unat f < 2 ^ 48"
    and alloc_none: "ok s \<Longrightarrow> alloc s = (None, s') \<Longrightarrow> ok s' \<and> owned s' \<subseteq> owned s"

locale mapper = lawful_format F + frame_source alloc ok owned
  for F :: PageFormat and alloc :: "'s \<Rightarrow> u64 option \<times> 's" and ok :: "'s \<Rightarrow> bool"
    and owned :: "'s \<Rightarrow> u64 set"
begin

text \<open>A fresh empty table hung into an absent entry.\<close>

lemma alloc_addressable: "ok s \<Longrightarrow> alloc s = (Some f, s') \<Longrightarrow> addressable F f"
  using alloc_page [of s f s'] low_addressable [of f] by simp

lemma grow:
  assumes ok: "tree_ok F mem r S" and p: "table_path F (p @ [i])" and t: "follow F mem r p = Some t"
    and absent: "\<not> is_present F (mem t i)" and f: "f \<in> S" "addressable F f" and S': "S' \<subseteq> S - {f}"
    and mem': "mem' = mem(f := pt_new, t := (mem t)(i := table_entry F f))"
  shows "tree_ok F mem' r S'" and "follow F mem' r (p @ [i]) = Some f"
    and "leaf_path F q \<Longrightarrow> entry_at F mem' r q = entry_at F mem r q"
proof -
  note p0 = table_path_prefix [OF p]
  have "t \<noteq> f" using tree_okD(2) [OF ok p0 t] f by blast
  then have t_row: "mem' t = (mem t)(i := table_entry F f)" and f_row: "mem' f = pt_new"
    by (auto simp: mem')
  have same: "same_but F mem mem' r t i"
    using tree_okD(2) [OF ok] f(1) by (auto simp: same_but_def mem')
  note ff = follow_frame [OF ok same p0 t, of "[]" r]
  note ef = entry_frame [OF ok same p0 t, of "[]" r]
  have p': "follow F mem' r p = Some t"
    using ff [of p] p0 t by (simp add: prefix_def)
  have step: "follow F mem' r ((p @ [i]) @ s) = follow F mem' f s" for s
    using p' t_row f(2) by (simp add: follow_append table_present table_no_block addressable_def)
  have leafless: "follow F mem' f s = (if s = [] then Some f else None)" for s
    by (cases s) (simp_all add: f_row pt_new_def zero_absent)
  show "follow F mem' r (p @ [i]) = Some f"
    using step [of "[]"] by simp
  have cases: "follow F mem' r q = Some u \<Longrightarrow> table_path F q \<Longrightarrow>
      q = p @ [i] \<and> u = f \<or> follow F mem r q = Some u" for q u
    using ff [of q] step leafless by (cases "prefix (p @ [i]) q") (auto simp: prefix_def split: if_splits)
  show "tree_ok F mem' r S'"
    unfolding tree_ok_def
  proof (intro conjI allI impI)
    fix q q' u assume q: "table_path F q" "table_path F q'" "follow F mem' r q = Some u"
      "follow F mem' r q' = Some u"
    have old: "follow F mem r x = Some f \<Longrightarrow> table_path F x \<Longrightarrow> False" for x
      using tree_okD(2) [OF ok] f(1) by blast
    show "q = q'"
      using cases [OF q(3,1)] cases [OF q(4,2)] old q(1,2) tree_okD(1) [OF ok q(1,2)] by blast
  next
    fix q u assume "table_path F q" "follow F mem' r q = Some u"
    then show "u \<notin> S'" using cases [of q u] tree_okD(2) [OF ok] S' by blast
  qed
  show "entry_at F mem' r q = entry_at F mem r q" if q: "leaf_path F q" for q
  proof (cases "prefix (p @ [i]) q")
    case True
    then obtain s where s: "q = p @ i # s" by (auto simp: prefix_def)
    then have "s \<noteq> []" using q p by (auto simp: leaf_path_def table_path_def)
    moreover have "entry_at F mem' f s = None"
      by (cases s) (simp_all add: f_row pt_new_def zero_absent)
    ultimately show ?thesis
      using entry_at_append [OF p', of "i # s"] entry_at_append [OF t, of "i # s"] absent t_row f(2) s
      by (simp add: table_no_block addressable_def)
  qed (use ef [of q] q in simp)
qed

end

text \<open>What a descent to level \<open>n\<close> guarantees: the tree stays well formed, no translation changes,
  and it ends at the table of level \<open>n\<close> on the path of \<open>va\<close> or says why not.\<close>

definition descent_ok ::
  "PageFormat \<Rightarrow> ('s \<Rightarrow> bool) \<Rightarrow> ('s \<Rightarrow> u64 set) \<Rightarrow> u64 \<Rightarrow> nat \<Rightarrow> 's Mapper \<Rightarrow> MapError + u64 \<Rightarrow> 's Mapper \<Rightarrow> bool" where
  "descent_ok F ok owned va n m res m' \<longleftrightarrow>
     mapper_ok F ok owned m' \<and> mp_root m' = mp_root m \<and> mp_half m' = mp_half m \<and>
     owned (mp_frames m') \<subseteq> owned (mp_frames m) \<and>
     (\<forall>q. leaf_path F q \<longrightarrow>
        entry_at F (mp_tables m') (mp_root m) q = entry_at F (mp_tables m) (mp_root m) q) \<and>
     (case res of
        Inr u \<Rightarrow> follow F (mp_tables m') (mp_root m) (take n (va_path F va)) = Some u
      | Inl e \<Rightarrow> e = OutOfPageFrames \<or>
          e = AlreadyMapped \<and> entry_at F (mp_tables m) (mp_root m) (va_path F va) \<noteq> None)"

lemma descent_ok_trans:
  assumes "mp_root m2 = mp_root m" "mp_half m2 = mp_half m"
    and "owned (mp_frames m2) \<subseteq> owned (mp_frames m)"
    and "\<And>q. leaf_path F q \<Longrightarrow>
      entry_at F (mp_tables m2) (mp_root m) q = entry_at F (mp_tables m) (mp_root m) q"
    and "descent_ok F ok owned va n m2 res m'"
  shows "descent_ok F ok owned va n m res m'"
  using assms leaf_path_va [of F va] by (auto simp: descent_ok_def split: sum.splits)

lemma va_path_split:
  assumes "l < LEVELS F"
  shows "take (Suc l) (va_path F va) = take l (va_path F va) @ [index F va l]"
    and "va_path F va = take l (va_path F va) @ index F va l # drop (Suc l) (va_path F va)"
    and "table_path F (take l (va_path F va))"
proof -
  have nth: "va_path F va ! l = index F va l" using assms by (simp add: va_path_def)
  show "take (Suc l) (va_path F va) = take l (va_path F va) @ [index F va l]"
    using assms nth by (simp add: take_Suc_conv_app_nth)
  show "va_path F va = take l (va_path F va) @ index F va l # drop (Suc l) (va_path F va)"
    using assms nth id_take_nth_drop [of l "va_path F va"] by simp
  show "table_path F (take l (va_path F va))"
    using assms by (auto simp: table_path_def va_path_less dest: in_set_takeD)
qed

lemma descend_unroll:
  assumes "l < n"
  shows "descend F alloc va [l..<n] t m =
    (let i = index F va l; e = mp_tables m t i in
     if \<not> is_present F e then
       (case alloc (mp_frames m) of
          (None, src) \<Rightarrow> (Inl OutOfPageFrames, m\<lparr>mp_frames := src\<rparr>)
        | (Some new, src) \<Rightarrow> descend F alloc va [Suc l..<n] (entry_pa F (table_entry F new))
            (set_entry (zero_table (m\<lparr>mp_frames := src\<rparr>) new) t i (table_entry F new)))
     else if is_block F e then (Inl AlreadyMapped, m)
     else descend F alloc va [Suc l..<n] (entry_pa F e) m)"
  using assms by (simp add: upt_rec [of l] Let_def split: prod.splits option.splits)

context mapper
begin

lemma descend_grow:
  assumes ok: "mapper_ok F ok owned m" and l: "Suc l < LEVELS F"
    and t: "follow F (mp_tables m) (mp_root m) (take l (va_path F va)) = Some t"
    and absent: "\<not> is_present F (mp_tables m t (index F va l))"
    and a: "alloc (mp_frames m) = (Some new, src)"
    and m2: "m2 = set_entry (zero_table (m\<lparr>mp_frames := src\<rparr>) new) t (index F va l) (table_entry F new)"
  shows "mapper_ok F ok owned m2" and "entry_pa F (table_entry F new) = new"
    and "follow F (mp_tables m2) (mp_root m2) (take (Suc l) (va_path F va)) = Some new"
    and "descent_ok F ok owned va n m2 res m' \<Longrightarrow> descent_ok F ok owned va n m res m'"
proof -
  note path = va_path_split(1) [OF Suc_lessD [OF l]]
  have src: "ok (mp_frames m)" "ok src"
    using ok alloc_some [OF _ a] by (auto simp: mapper_ok_def)
  have new: "new \<in> owned (mp_frames m)" "owned src \<subseteq> owned (mp_frames m) - {new}"
    using alloc_some [OF src(1) a] by auto
  note ok' = ok [unfolded mapper_ok_def, THEN conjunct2]
  note tp = va_path_split(3) [OF l, of va, unfolded path]
  have "t \<noteq> new" using tree_okD(2) [OF ok' table_path_prefix [OF tp] t] new by blast
  then have mem2: "mp_tables m2 =
      (mp_tables m)(new := pt_new, t := (mp_tables m t)(index F va l := table_entry F new))"
    by (simp add: m2 set_entry_def zero_table_def)
  note g = grow [OF ok' tp t absent new(1) alloc_addressable [OF src(1) a] new(2) mem2]
  have m2_eq: "mp_root m2 = mp_root m" "mp_half m2 = mp_half m" "mp_frames m2 = src"
    by (simp_all add: m2 set_entry_def zero_table_def)
  show "mapper_ok F ok owned m2" using g(1) src(2) by (simp add: mapper_ok_def m2_eq)
  show "follow F (mp_tables m2) (mp_root m2) (take (Suc l) (va_path F va)) = Some new"
    using g(2) path by (simp add: m2_eq)
  show "entry_pa F (table_entry F new) = new"
    using alloc_addressable [OF src(1) a] by (simp add: addressable_def)
  show "descent_ok F ok owned va n m2 res m' \<Longrightarrow> descent_ok F ok owned va n m res m'"
    using g(3) m2_eq new(2) by (intro descent_ok_trans [of m2 m]) auto
qed

text \<open>The descent keeps the tree and every translation, and reaches the table it was asked for.\<close>

lemma descend_correct:
  assumes "mapper_ok F ok owned m" "n < LEVELS F" "l \<le> n"
    and "follow F (mp_tables m) (mp_root m) (take l (va_path F va)) = Some t"
    and "descend F alloc va [l..<n] t m = (res, m')"
  shows "descent_ok F ok owned va n m res m'"
  using assms
proof (induction "n - l" arbitrary: l t m)
  case 0
  then show ?case by (auto simp: descent_ok_def)
next
  case (Suc k)
  have l: "l < n" "Suc l \<le> n" "k = n - Suc l" "l < LEVELS F" "Suc l < LEVELS F" using Suc by auto
  let ?e = "mp_tables m t (index F va l)"
  note unroll = descend_unroll [OF l(1), of F alloc va t m, unfolded Let_def]
  consider "is_present F ?e" "is_block F ?e" | "is_present F ?e" "\<not> is_block F ?e"
    | src where "\<not> is_present F ?e" "alloc (mp_frames m) = (None, src)"
    | new src where "\<not> is_present F ?e" "alloc (mp_frames m) = (Some new, src)"
    by (metis surj_pair option.exhaust)
  then show ?case
  proof cases
    case 1
    then have "entry_at F (mp_tables m) (mp_root m) (va_path F va) \<noteq> None"
      using entry_at_append [OF Suc.prems(4), of "index F va l # drop (Suc l) (va_path F va)"]
        va_path_split(2) [OF l(4), of va] by auto
    then show ?thesis using 1 unroll Suc.prems(1,5) by (auto simp: descent_ok_def)
  next
    case 2
    then have "follow F (mp_tables m) (mp_root m) (take (Suc l) (va_path F va)) = Some (entry_pa F ?e)"
      using Suc.prems(4) va_path_split(1) [OF l(4)] by (simp add: follow_append)
    then show ?thesis
      using 2 unroll Suc.prems(5) Suc.hyps(1) [OF l(3) Suc.prems(1,2) l(2)] by simp
  next
    case (3 src)
    have src: "ok src" "owned src \<subseteq> owned (mp_frames m)"
      using Suc.prems(1) alloc_none [OF _ 3(2)] by (auto simp: mapper_ok_def)
    then have "mapper_ok F ok owned (m\<lparr>mp_frames := src\<rparr>)"
      using Suc.prems(1) by (auto simp: mapper_ok_def intro: tree_ok_sub)
    then show ?thesis
      using 3 unroll Suc.prems(5) src by (auto simp: descent_ok_def)
  next
    case (4 new src)
    note g = descend_grow [OF Suc.prems(1) l(5) Suc.prems(4) 4 refl]
    show ?thesis
      using 4 unroll Suc.prems(5) g(2) by (intro g(4) Suc.hyps(1) [OF l(3) g(1) Suc.prems(2) l(2) g(3)]) simp
  qed
qed

lemma put_leaf:
  assumes ok: "tree_ok F mem r S" and p: "table_path F p" and t: "follow F mem r p = Some t"
    and e: "length p = LEVELS F - 1 \<or> is_block F e"
    and mem': "mem' = mem(t := (mem t)(i := e))"
  shows "tree_ok F mem' r S"
    and "leaf_path F q \<Longrightarrow> entry_at F mem' r q =
      (if prefix (p @ [i]) q then (if is_present F e then Some (LEVELS F - 1 - length p, e) else None)
       else entry_at F mem r q)"
proof -
  have same: "same_but F mem mem' r t i" by (auto simp: same_but_def mem')
  note ff = follow_frame [OF ok same p t, of "[]" r] and ef = entry_frame [OF ok same p t, of "[]" r]
  have p': "follow F mem' r p = Some t"
    using ff [of p] p t by (simp add: prefix_def)
  have cell: "mem' t i = e" by (simp add: mem')
  show "tree_ok F mem' r S"
  proof (rule tree_ok_sub [OF ok subset_refl])
    fix q u assume q: "table_path F q" "follow F mem' r q = Some u"
    have "\<not> prefix (p @ [i]) q"
    proof
      assume "prefix (p @ [i]) q"
      then obtain s where s: "q = p @ i # s" by (auto simp: prefix_def)
      with q p' cell have "\<not> is_block F e" by (auto simp: follow_append split: if_splits)
      with e q(1) s show False by (auto simp: table_path_def)
    qed
    then show "follow F mem r q = Some u" using ff [of q] q by simp
  qed
  show "entry_at F mem' r q =
      (if prefix (p @ [i]) q then (if is_present F e then Some (LEVELS F - 1 - length p, e) else None)
       else entry_at F mem r q)" if q: "leaf_path F q"
  proof (cases "prefix (p @ [i]) q")
    case True
    then obtain s where s: "q = p @ i # s" by (auto simp: prefix_def)
    then have "length s = LEVELS F - 1 - length p" using q by (auto simp: leaf_path_def)
    then show ?thesis
      using True s e cell entry_at_append [OF p', of "i # s"] by auto
  qed (use ef [of q] q in simp)
qed

end

text \<open>Writing the leaf \<open>e\<close> at level \<open>n\<close> of the path of \<open>va\<close>: on success exactly the paths through
  that slot change, all of them absent before; on failure nothing changes.\<close>

definition write_leaf ::
  "PageFormat \<Rightarrow> ('s \<Rightarrow> u64 option \<times> 's) \<Rightarrow> u64 \<Rightarrow> nat \<Rightarrow> u64 \<Rightarrow> 's Mapper \<Rightarrow>
   (MapError + unit) \<times> 's Mapper" where
  "write_leaf F alloc va n e m =
     (case descend F alloc va [0..<n] (mp_root m) m of
        (Inl x, m) \<Rightarrow> (Inl x, m)
      | (Inr t, m) \<Rightarrow>
          if is_present F (mp_tables m t (index F va n)) then (Inl AlreadyMapped, m)
          else (Inr (), set_entry m t (index F va n) e))"

definition leaf_written ::
  "PageFormat \<Rightarrow> ('s \<Rightarrow> bool) \<Rightarrow> ('s \<Rightarrow> u64 set) \<Rightarrow> u64 \<Rightarrow> nat \<Rightarrow> u64 \<Rightarrow> 's Mapper \<Rightarrow> MapError + unit \<Rightarrow> 's Mapper \<Rightarrow> bool"
  where
  "leaf_written F ok owned va n e m res m' \<longleftrightarrow>
     mapper_ok F ok owned m' \<and> mp_root m' = mp_root m \<and> mp_half m' = mp_half m \<and>
     owned (mp_frames m') \<subseteq> owned (mp_frames m) \<and>
     (\<forall>q. leaf_path F q \<longrightarrow> entry_at F (mp_tables m') (mp_root m) q =
        (if res = Inr () \<and> take (Suc n) q = take (Suc n) (va_path F va) then Some (LEVELS F - 1 - n, e)
         else entry_at F (mp_tables m) (mp_root m) q)) \<and>
     (res = Inr () \<longrightarrow> (\<forall>q. leaf_path F q \<longrightarrow> take (Suc n) q = take (Suc n) (va_path F va) \<longrightarrow>
        entry_at F (mp_tables m) (mp_root m) q = None)) \<and>
     (\<forall>x. res = Inl x \<longrightarrow> x = OutOfPageFrames \<or> x = AlreadyMapped \<and>
        (n = LEVELS F - 1 \<longrightarrow> entry_at F (mp_tables m) (mp_root m) (va_path F va) \<noteq> None))"

lemma prefix_take_iff:
  "length p = n \<Longrightarrow> n < length q \<Longrightarrow> prefix (p @ [i]) q \<longleftrightarrow> take (Suc n) q = p @ [i]"
  by (metis append_eq_conv_conj append_take_drop_id length_append_singleton prefix_def take_is_prefix)

context mapper
begin

lemma write_leaf_correct:
  assumes ok: "mapper_ok F ok owned m" and n: "n < LEVELS F" and e: "is_present F e"
    "n = LEVELS F - 1 \<or> is_block F e" and w: "write_leaf F alloc va n e m = (res, m')"
  shows "leaf_written F ok owned va n e m res m'"
proof -
  obtain d m1 where d: "descend F alloc va [0..<n] (mp_root m) m = (d, m1)" by fastforce
  have D: "descent_ok F ok owned va n m d m1"
    using descend_correct [OF ok n _ _ d] by simp
  show ?thesis
  proof (cases d)
    case (Inl x)
    then show ?thesis using w d D by (auto simp: write_leaf_def leaf_written_def descent_ok_def)
  next
    case (Inr t)
    let ?p = "take n (va_path F va)" and ?i = "index F va n"
    have t: "follow F (mp_tables m1) (mp_root m1) ?p = Some t" and ok1: "mapper_ok F ok owned m1"
      and m1: "mp_root m1 = mp_root m" "mp_half m1 = mp_half m"
        "owned (mp_frames m1) \<subseteq> owned (mp_frames m)"
      and eq: "leaf_path F q \<Longrightarrow>
        entry_at F (mp_tables m1) (mp_root m) q = entry_at F (mp_tables m) (mp_root m) q" for q
      using D Inr by (auto simp: descent_ok_def)
    note sp = va_path_split [OF n, of va]
    have at: "entry_at F (mp_tables m1) (mp_root m1) (?p @ s) = entry_at F (mp_tables m1) t s"
      if "s \<noteq> []" for s using entry_at_append [OF t that] .
    have through: "prefix (?p @ [?i]) q \<longleftrightarrow> take (Suc n) q = take (Suc n) (va_path F va)"
      if "leaf_path F q" for q
      using prefix_take_iff [of ?p n q ?i] that n sp(1) by (simp add: leaf_path_def)
    show ?thesis
    proof (cases "is_present F (mp_tables m1 t ?i)")
      case True
      then have "entry_at F (mp_tables m1) (mp_root m1) (va_path F va) \<noteq> None" if "n = LEVELS F - 1"
        using at [of "?i # drop (Suc n) (va_path F va)"] sp(2) that n by simp
      then show ?thesis
        using True w d Inr ok1 m1 eq by (auto simp: write_leaf_def leaf_written_def)
    next
      case False
      have "entry_at F (mp_tables m1) (mp_root m1) q = None" if q: "leaf_path F q" "prefix (?p @ [?i]) q" for q
        using q(2) at False by (auto simp: prefix_def)
      moreover have "length ?p = n" using n by simp
      moreover note put_leaf [OF ok1 [unfolded mapper_ok_def, THEN conjunct2] sp(3) t, of e _ ?i, OF _ refl]
      ultimately show ?thesis
        using False w d Inr m1 eq e through ok1
        by (auto simp: write_leaf_def leaf_written_def set_entry_def mapper_ok_def)
    qed
  qed
qed

end


section \<open>What the tables translate\<close>

definition read_entry :: "PageFormat \<Rightarrow> u64 \<Rightarrow> nat \<times> u64 \<Rightarrow> u64 \<times> Flags" where
  "read_entry F va ne =
     (case ne of (n, e) \<Rightarrow>
        (let span = push_bit (9 * n) PAGE_SIZE in
         (if n = 0 then entry_pa F e + va mod PAGE_SIZE
          else (entry_pa F e AND NOT (span - 1)) + (va AND (span - 1)), leaf_flags F e)))"

lemma walk_entry_at:
  "l < LEVELS F \<Longrightarrow> walk F va [l..<LEVELS F - 1] t mem =
     map_option (read_entry F va) (entry_at F mem t (drop l (va_path F va)))"
proof (induction "LEVELS F - 1 - l" arbitrary: l t)
  case 0
  then have l: "l = LEVELS F - 1" "0 < LEVELS F" by auto
  then have "drop l (va_path F va) = [index F va l]"
    by (cases "LEVELS F") (simp_all add: va_path_def drop_map)
  then show ?case using l by (simp add: read_entry_def Let_def)
next
  case (Suc k)
  then have l: "l < LEVELS F - 1" "Suc l < LEVELS F" "k = LEVELS F - 1 - Suc l" by auto
  have path: "drop l (va_path F va) = index F va l # drop (Suc l) (va_path F va)"
    using l by (simp add: va_path_def flip: Cons_nth_drop_Suc)
  have "length (drop (Suc l) (va_path F va)) = LEVELS F - 1 - l" using l by simp
  then show ?case
    using Suc.hyps(1) [OF l(3,2)] l
    by (auto simp: path upt_rec [of l] Let_def read_entry_def)
qed

lemma translate_entry_at:
  "0 < LEVELS F \<Longrightarrow> translate F m va =
     (if is_in_half F (mp_half m) va
      then map_option (read_entry F va) (entry_at F (mp_tables m) (mp_root m) (va_path F va)) else None)"
  using walk_entry_at [of 0 F va "mp_root m" "mp_tables m"] by (simp add: translate_def)

lemma span_ps_bytes: "push_bit (9 * levels_above_bottom z) PAGE_SIZE = ps_bytes z"
  by (simp add: ps_bytes_def)

lemma div_ps_bytes: "(a :: u64) div ps_bytes z = drop_bit (12 + 9 * levels_above_bottom z) a"
  by (cases z) (simp_all add: ps_bytes_def PAGE_SIZE_def drop_bit_eq_div)

text \<open>\<open>in_leaf z va a\<close>: the address \<open>a\<close> lies in the page or block of size \<open>z\<close> that \<open>va\<close> is in.\<close>

definition in_leaf :: "PageSize \<Rightarrow> u64 \<Rightarrow> u64 \<Rightarrow> bool" where
  "in_leaf z va a \<longleftrightarrow> a div ps_bytes z = va div ps_bytes z"

lemma div_eq_aligned_iff:
  assumes "0 < b" "v mod b = 0"
  shows "a div b = v div b \<longleftrightarrow> v \<le> a \<and> a < v + (b :: nat)"
proof
  assume "a div b = v div b"
  then show "v \<le> a \<and> a < v + b"
    using assms mod_less_divisor [OF assms(1), of a] div_mult_mod_eq [of a b] div_mult_mod_eq [of v b]
    by simp
next
  assume "v \<le> a \<and> a < v + b"
  moreover have "v = b * (v div b)" using assms by auto
  ultimately show "a div b = v div b" by (intro div_nat_eqI) auto
qed

lemma in_leaf_range:
  assumes "va mod ps_bytes z = 0"
  shows "in_leaf z va a \<longleftrightarrow> unat va \<le> unat a \<and> unat a < unat va + unat (ps_bytes z)"
proof -
  have "unat va mod unat (ps_bytes z) = 0" using assms by (metis unat_0 unat_mod)
  then show ?thesis
    using div_eq_aligned_iff [of "unat (ps_bytes z)" "unat va" "unat a"]
    by (simp add: in_leaf_def word_unat_eq_iff unat_div unat_ps_bytes)
qed

lemma ps_bytes_4K [simp]: "ps_bytes Size4KiB = PAGE_SIZE"
  by (simp add: ps_bytes_def)

lemma and_ps_bytes: "a AND (ps_bytes z - 1) = a mod ps_bytes z"
  by (simp add: ps_bytes_mask mod_ps_bytes)

lemma read_leaf:
  assumes "entry_pa F e = pa" "pa mod ps_bytes z = 0"
  shows "read_entry F a (levels_above_bottom z, e) = (pa + a mod ps_bytes z, leaf_flags F e)"
proof (cases "z = Size4KiB")
  case False
  then have "levels_above_bottom z \<noteq> 0" by (cases z) simp_all
  then show ?thesis
    using assms(1) aligned_mask_off(1) [OF assms(2)]
    by (simp add: read_entry_def span_ps_bytes and_ps_bytes)
qed (simp add: read_entry_def assms(1))

text \<open>What mapping one leaf does to the translation of every address.\<close>

definition leaf_mapped ::
  "PageFormat \<Rightarrow> ('s \<Rightarrow> bool) \<Rightarrow> ('s \<Rightarrow> u64 set) \<Rightarrow> 's Mapper \<Rightarrow> u64 \<Rightarrow> u64 \<Rightarrow> PageSize \<Rightarrow> Flags \<Rightarrow>
   MapError + unit \<Rightarrow> 's Mapper \<Rightarrow> bool" where
  "leaf_mapped F ok owned m va pa z fl res m' \<longleftrightarrow>
     mapper_ok F ok owned m' \<and> mp_root m' = mp_root m \<and> mp_half m' = mp_half m \<and>
     (\<forall>a. translate F m' a =
        (if res = Inr () \<and> in_leaf z va a
         then Some (pa + a mod ps_bytes z, granted F fl) else translate F m a)) \<and>
     (res = Inr () \<longrightarrow> va mod ps_bytes z = 0 \<and> pa mod ps_bytes z = 0 \<and>
        (\<forall>a. in_leaf z va a \<longrightarrow> is_in_half F (mp_half m) a \<and> translate F m a = None))"

context mapper
begin

lemma levels_pos [simp]: "0 < LEVELS F"
  using levels by simp

lemma in_leaf_half:
  assumes "in_leaf z va a" "is_in_half F h va"
  shows "is_in_half F h a"
proof -
  have "12 + 9 * levels_above_bottom z \<le> 30" by (cases z) simp_all
  with split_above_blocks have le: "12 + 9 * levels_above_bottom z \<le> SPLIT_SHIFT F" by linarith
  have "\<forall>i \<ge> 12 + 9 * levels_above_bottom z. bit a i = bit va i"
    using assms(1) by (simp add: in_leaf_def div_ps_bytes drop_bit_eq_iff)
  then show ?thesis using assms(2) le by (simp add: in_half_bits)
qed

lemma same_slot_iff:
  assumes "is_in_half F h va" "is_in_half F h a"
  shows "take (Suc (LEVELS F - 1 - levels_above_bottom z)) (va_path F a) =
      take (Suc (LEVELS F - 1 - levels_above_bottom z)) (va_path F va) \<longleftrightarrow> in_leaf z va a"
proof -
  have "levels_above_bottom z \<le> 2" by (cases z) simp_all
  with levels have "Suc (LEVELS F - 1 - levels_above_bottom z) \<le> LEVELS F"
    "LEVELS F - Suc (LEVELS F - 1 - levels_above_bottom z) = levels_above_bottom z" by linarith+
  then show ?thesis
    using take_va_path_eq_iff [OF split_in_reach assms(2,1)]
    by (simp add: in_leaf_def div_ps_bytes)
qed

lemma leaf_written_mapped:
  assumes w: "leaf_written F ok owned va (LEVELS F - 1 - levels_above_bottom z) e m res m'"
    and half: "is_in_half F (mp_half m) va"
    and va: "va mod ps_bytes z = 0" and pa: "pa mod ps_bytes z = 0"
    and e: "entry_pa F e = pa" "leaf_flags F e = granted F fl"
  shows "leaf_mapped F ok owned m va pa z fl res m'"
proof -
  have le: "LEVELS F - Suc (LEVELS F - Suc (levels_above_bottom z)) = levels_above_bottom z"
    using levels by (cases z) simp_all
  have m': "mp_root m' = mp_root m" "mp_half m' = mp_half m" "mapper_ok F ok owned m'"
    using w by (simp_all add: leaf_written_def)
  have entry: "read_entry F a (levels_above_bottom z, e) =
      (pa + a mod ps_bytes z, granted F fl)" for a
    using read_leaf [OF e(1) pa] e(2) by simp
  have tr: "translate F m' a = (if res = Inr () \<and> in_leaf z va a
      then Some (pa + a mod ps_bytes z, granted F fl) else translate F m a)" for a
    using w m' le same_slot_iff [OF half, of a z] in_leaf_half [OF _ half, of z a] entry [of a]
    by (auto simp: translate_entry_at leaf_written_def)
  moreover have "is_in_half F (mp_half m) a \<and> translate F m a = None" if "res = Inr ()" "in_leaf z va a" for a
    using w that same_slot_iff [OF half, of a z] in_leaf_half [OF _ half, of z a]
    by (auto simp: translate_entry_at leaf_written_def)
  ultimately show ?thesis
    using m' va pa unfolding leaf_mapped_def by blast
qed

lemma leaf_mapped_refused:
  "mapper_ok F ok owned m \<Longrightarrow> leaf_mapped F ok owned m va pa z fl (Inl x) m"
  by (simp add: leaf_mapped_def)

lemma map_page_as_write_leaf:
  "map_page F alloc m va pa fl =
     (if \<not> is_in_half F (mp_half m) va then (Inl WrongHalf, m)
      else if va mod PAGE_SIZE \<noteq> 0 \<or> pa mod PAGE_SIZE \<noteq> 0 then (Inl Misaligned, m)
      else write_leaf F alloc va (LEVELS F - 1) (leaf_entry F pa fl) m)"
  by (simp add: map_page_def write_leaf_def Let_def split: prod.splits sum.splits)

lemma map_block_as_write_leaf:
  "z \<noteq> Size4KiB \<Longrightarrow> map_block F alloc m va pa z fl =
     (if \<not> is_in_half F (mp_half m) va then (Inl WrongHalf, m)
      else if va mod ps_bytes z \<noteq> 0 \<or> pa mod ps_bytes z \<noteq> 0 then (Inl Misaligned, m)
      else case block_entry F pa fl z of
        None \<Rightarrow> (Inl UnsupportedSize, m)
      | Some leaf \<Rightarrow> write_leaf F alloc va (LEVELS F - 1 - levels_above_bottom z) leaf m)"
  by (simp add: map_block_def write_leaf_def Let_def split: option.splits prod.splits sum.splits)

lemma map_page_correct:
  assumes ok: "mapper_ok F ok owned m" and pa: "unat pa < 2 ^ 48"
    and r: "map_page F alloc m va pa fl = (res, m')"
  shows "leaf_mapped F ok owned m va pa Size4KiB fl res m'"
proof (cases "is_in_half F (mp_half m) va \<and> va mod PAGE_SIZE = 0 \<and> pa mod PAGE_SIZE = 0")
  case True
  then have "leaf_written F ok owned va (LEVELS F - 1) (leaf_entry F pa fl) m res m'"
    using r by (intro write_leaf_correct [OF ok]) (simp_all add: map_page_as_write_leaf leaf_present)
  moreover have "addressable F pa" using True pa low_addressable [of pa] by simp
  ultimately show ?thesis
    using True leaf_flags_any [of pa fl] leaf_written_mapped [of va Size4KiB "leaf_entry F pa fl" m res m' pa fl]
    by (simp add: leaf_pa addressable_def ps_bytes_def granted_def)
next
  case False
  then show ?thesis
    using r leaf_mapped_refused [OF ok] by (auto simp: map_page_as_write_leaf split: if_splits)
qed

lemma map_block_correct:
  assumes ok: "mapper_ok F ok owned m" and pa: "unat pa < 2 ^ 48"
    and r: "map_block F alloc m va pa z fl = (res, m')"
  shows "leaf_mapped F ok owned m va pa z fl res m'"
proof (cases "z = Size4KiB")
  case True
  then show ?thesis using map_page_correct [OF ok pa] r by (simp add: map_block_def)
next
  case z: False
  note r = r [unfolded map_block_as_write_leaf [OF z]]
  show ?thesis
  proof (cases "is_in_half F (mp_half m) va \<and> va mod ps_bytes z = 0 \<and> pa mod ps_bytes z = 0 \<and>
      block_entry F pa fl z \<noteq> None")
    case True
    then obtain e where e: "block_entry F pa fl z = Some e" by auto
    have "addressable F pa" using True pa aligned_mask_off(2) [of pa z] low_addressable [of pa] by simp
    then have "entry_pa F e = pa"
      using block_pa [OF e] True aligned_mask_off(1) by (simp add: addressable_def)
    moreover have "leaf_written F ok owned va (LEVELS F - 1 - levels_above_bottom z) e m res m'"
      using r True e block_is_block [OF e z] by (intro write_leaf_correct [OF ok]) auto
    ultimately show ?thesis
      using True block_flags [OF e] leaf_flags_any [of pa fl]
      by (intro leaf_written_mapped [of va z e m res m' pa fl]) (auto simp: granted_def)
  next
    case False
    then show ?thesis
      using r leaf_mapped_refused [OF ok] by (auto split: if_splits)
  qed
qed

text \<open>A page that is mapped is refused and nothing happens, not even an allocation.\<close>

lemma descend_present:
  assumes "n < LEVELS F" "l \<le> n" "entry_at F (mp_tables m) t (drop l (va_path F va)) \<noteq> None"
  shows "descend F alloc va [l..<n] t m = (Inl AlreadyMapped, m) \<or>
    (\<exists>u. descend F alloc va [l..<n] t m = (Inr u, m) \<and>
       entry_at F (mp_tables m) u (drop n (va_path F va)) \<noteq> None)"
  using assms
proof (induction "n - l" arbitrary: l t)
  case (Suc k)
  then have l: "l < n" "Suc l \<le> n" "k = n - Suc l" "l < LEVELS F" "Suc l < LEVELS F" by auto
  have "drop l (va_path F va) = index F va l # drop (Suc l) (va_path F va)"
    using l by (simp add: va_path_def flip: Cons_nth_drop_Suc)
  then have "is_present F (mp_tables m t (index F va l)) \<and> (is_block F (mp_tables m t (index F va l)) \<or>
      entry_at F (mp_tables m) (entry_pa F (mp_tables m t (index F va l))) (drop (Suc l) (va_path F va)) \<noteq> None)"
    using Suc.prems(3) l by (auto split: if_splits)
  then show ?case
    using Suc.hyps(1) [OF l(3) Suc.prems(1) l(2)] by (auto simp: descend_unroll [OF l(1)] Let_def)
qed simp

lemma map_page_mapped:
  assumes "translate F m va \<noteq> None" "va mod PAGE_SIZE = 0" "pa mod PAGE_SIZE = 0"
  shows "map_page F alloc m va pa fl = (Inl AlreadyMapped, m)"
proof -
  have half: "is_in_half F (mp_half m) va"
    and at: "entry_at F (mp_tables m) (mp_root m) (va_path F va) \<noteq> None"
    using assms(1) by (auto simp: translate_entry_at split: if_splits)
  have "drop (LEVELS F - 1) (va_path F va) = [index F va (LEVELS F - 1)]"
    by (cases "LEVELS F") (use levels in \<open>simp_all add: va_path_def drop_map\<close>)
  moreover have "LEVELS F - 1 < LEVELS F" using levels by simp
  ultimately show ?thesis
    using descend_present [of "LEVELS F - 1" 0 m "mp_root m" va] at half assms(2,3)
    by (auto simp: map_page_def Let_def split: if_splits)
qed

lemma map_page_entry:
  assumes "mapper_ok F ok owned m" "map_page F alloc m va pa fl = (Inr (), m')"
  shows "entry_at F (mp_tables m') (mp_root m') (va_path F va) = Some (0, leaf_entry F pa fl)"
    and "is_in_half F (mp_half m') va" and "va mod PAGE_SIZE = 0"
proof -
  have c: "is_in_half F (mp_half m) va \<and> va mod PAGE_SIZE = 0 \<and> pa mod PAGE_SIZE = 0"
    using assms(2) by (auto simp: map_page_as_write_leaf split: if_splits)
  then have "leaf_written F ok owned va (LEVELS F - 1) (leaf_entry F pa fl) m (Inr ()) m'"
    using assms by (intro write_leaf_correct) (simp_all add: map_page_as_write_leaf leaf_present)
  then show "entry_at F (mp_tables m') (mp_root m') (va_path F va) = Some (0, leaf_entry F pa fl)"
    and "is_in_half F (mp_half m') va" and "va mod PAGE_SIZE = 0"
    using c by (simp_all add: leaf_written_def)
qed

lemma map_page_errors:
  assumes "mapper_ok F ok owned m" "map_page F alloc m va pa fl = (Inl x, m')"
  shows "x = WrongHalf \<and> \<not> is_in_half F (mp_half m) va \<or>
    x = Misaligned \<and> (va mod PAGE_SIZE \<noteq> 0 \<or> pa mod PAGE_SIZE \<noteq> 0) \<or>
    x = AlreadyMapped \<and> translate F m va \<noteq> None \<or> x = OutOfPageFrames"
proof (cases "is_in_half F (mp_half m) va \<and> va mod PAGE_SIZE = 0 \<and> pa mod PAGE_SIZE = 0")
  case True
  then have "leaf_written F ok owned va (LEVELS F - 1) (leaf_entry F pa fl) m (Inl x) m'"
    using assms by (intro write_leaf_correct) (simp_all add: map_page_as_write_leaf leaf_present)
  then show ?thesis
    using True by (auto simp: leaf_written_def translate_entry_at)
qed (use assms(2) in \<open>auto simp: map_page_as_write_leaf split: if_splits\<close>)

text \<open>Unmapping a page.\<close>

lemma find_leaf_table_correct:
  assumes "l < LEVELS F"
  shows "find_leaf_table F va [l..<LEVELS F - 1] t mem = Inr u \<Longrightarrow>
      follow F mem t (take (LEVELS F - 1 - l) (drop l (va_path F va))) = Some u"
    and "find_leaf_table F va [l..<LEVELS F - 1] t mem = Inl x \<Longrightarrow>
      x = NotMapped \<and> entry_at F mem t (drop l (va_path F va)) = None \<or>
      x = InsideBlock \<and> (\<exists>n e. entry_at F mem t (drop l (va_path F va)) = Some (Suc n, e))"
proof -
  have "(find_leaf_table F va [l..<LEVELS F - 1] t mem = Inr u \<longrightarrow>
      follow F mem t (take (LEVELS F - 1 - l) (drop l (va_path F va))) = Some u) \<and>
    (find_leaf_table F va [l..<LEVELS F - 1] t mem = Inl x \<longrightarrow>
      x = NotMapped \<and> entry_at F mem t (drop l (va_path F va)) = None \<or>
      x = InsideBlock \<and> (\<exists>n e. entry_at F mem t (drop l (va_path F va)) = Some (Suc n, e)))"
    using assms
  proof (induction "LEVELS F - 1 - l" arbitrary: l t)
    case (Suc k)
    then have l: "l < LEVELS F - 1" "Suc l < LEVELS F" "k = LEVELS F - 1 - Suc l"
      "LEVELS F - 1 - l = Suc (LEVELS F - 1 - Suc l)" by auto
    have path: "drop l (va_path F va) = index F va l # drop (Suc l) (va_path F va)"
      using l by (simp add: va_path_def flip: Cons_nth_drop_Suc)
    obtain n where "length (drop (Suc l) (va_path F va)) = Suc n" using l(2) by (cases "LEVELS F - Suc l") auto
    then show ?case
      using Suc.hyps(1) [OF l(3,2)] l(1) unfolding l(4) path
      by (auto simp: upt_rec [of l] Let_def)
  qed auto
  then show "find_leaf_table F va [l..<LEVELS F - 1] t mem = Inr u \<Longrightarrow>
      follow F mem t (take (LEVELS F - 1 - l) (drop l (va_path F va))) = Some u"
    and "find_leaf_table F va [l..<LEVELS F - 1] t mem = Inl x \<Longrightarrow>
      x = NotMapped \<and> entry_at F mem t (drop l (va_path F va)) = None \<or>
      x = InsideBlock \<and> (\<exists>n e. entry_at F mem t (drop l (va_path F va)) = Some (Suc n, e))"
    by blast+
qed

end

text \<open>What unmapping does to the translation of every address, and what a refusal means.\<close>

definition page_unmapped ::
  "PageFormat \<Rightarrow> ('s \<Rightarrow> bool) \<Rightarrow> ('s \<Rightarrow> u64 set) \<Rightarrow> 's Mapper \<Rightarrow> u64 \<Rightarrow>
   MapError + (u64 \<times> TlbFlush) \<Rightarrow> 's Mapper \<Rightarrow> bool" where
  "page_unmapped F ok owned m va res m' \<longleftrightarrow>
     (case res of
        Inr (pa, fl) \<Rightarrow>
          mapper_ok F ok owned m' \<and> mp_root m' = mp_root m \<and> mp_half m' = mp_half m \<and>
          mp_frames m' = mp_frames m \<and> fl = TlbFlush va \<and> (\<exists>r. translate F m va = Some (pa, r)) \<and>
          (\<forall>a. translate F m' a = (if in_leaf Size4KiB va a then None else translate F m a))
      | Inl x \<Rightarrow>
          m' = m \<and>
          (x = WrongHalf \<and> \<not> is_in_half F (mp_half m) va \<or>
           x = Misaligned \<and> va mod PAGE_SIZE \<noteq> 0 \<or>
           x = NotMapped \<and> translate F m va = None \<or>
           x = InsideBlock \<and>
             (\<exists>n e. entry_at F (mp_tables m) (mp_root m) (va_path F va) = Some (Suc n, e))))"

context mapper
begin

lemma clear_leaf:
  assumes ok: "mapper_ok F ok owned m" and half: "is_in_half F (mp_half m) va"
    and al: "va mod PAGE_SIZE = 0"
    and t: "follow F (mp_tables m) (mp_root m) (take (LEVELS F - 1) (va_path F va)) = Some t"
    and e: "is_present F (mp_tables m t (index F va (LEVELS F - 1)))"
  shows "page_unmapped F ok owned m va
    (Inr (entry_pa F (mp_tables m t (index F va (LEVELS F - 1))), TlbFlush va))
    (set_entry m t (index F va (LEVELS F - 1)) 0)"
proof -
  let ?i = "index F va (LEVELS F - 1)" and ?p = "take (LEVELS F - 1) (va_path F va)"
  let ?e = "mp_tables m t ?i"
  have L: "LEVELS F - 1 < LEVELS F" using levels by simp
  note sp = va_path_split [OF L, of va]
  have len: "length ?p = LEVELS F - 1" by simp
  have path: "va_path F va = ?p @ [?i]" using sp(2) L by simp
  have full: "Suc (LEVELS F - 1) = LEVELS F" using levels by simp
  have at: "entry_at F (mp_tables m) (mp_root m) (va_path F va) = Some (0, ?e)"
    using entry_at_append [OF t, of "[?i]"] e path by simp
  note put = put_leaf [OF ok [unfolded mapper_ok_def, THEN conjunct2] sp(3) t, of 0 _ ?i, OF _ refl]
  have through: "prefix (?p @ [?i]) (va_path F a) \<longleftrightarrow> in_leaf Size4KiB va a"
    if "is_in_half F (mp_half m) a" for a
    using prefix_take_iff [OF len, of "va_path F a" ?i] L path same_slot_iff [OF half that, of Size4KiB] full
    by simp
  have "translate F m va = Some (entry_pa F ?e, leaf_flags F ?e)"
    using at half al by (simp add: translate_entry_at read_entry_def)
  moreover have "translate F (set_entry m t ?i 0) a = (if in_leaf Size4KiB va a then None else translate F m a)" for a
    using put(2) [of "va_path F a"] through [of a] in_leaf_half [OF _ half, of Size4KiB a] zero_absent
    by (auto simp: translate_entry_at set_entry_def)
  moreover have "mapper_ok F ok owned (set_entry m t ?i 0)"
    using ok put(1) by (simp add: mapper_ok_def set_entry_def)
  ultimately show ?thesis by (simp add: page_unmapped_def set_entry_def)
qed

lemma unmap_correct:
  assumes ok: "mapper_ok F ok owned m" and r: "unmap F m va = (res, m')"
  shows "page_unmapped F ok owned m va res m'"
proof (cases "is_in_half F (mp_half m) va \<and> va mod PAGE_SIZE = 0")
  case True
  note find = find_leaf_table_correct [OF levels_pos, of va "mp_root m" "mp_tables m"]
  show ?thesis
  proof (cases "find_leaf_table F va [0..<LEVELS F - 1] (mp_root m) (mp_tables m)")
    case (Inl x)
    then show ?thesis
      using find(2) [OF Inl] True r by (auto simp: unmap_def page_unmapped_def translate_entry_at)
  next
    case (Inr t)
    note t = find(1) [OF Inr, simplified]
    show ?thesis
    proof (cases "is_present F (mp_tables m t (index F va (LEVELS F - 1)))")
      case present: True
      then show ?thesis
        using clear_leaf [OF ok _ _ _ present] t True r Inr by (auto simp: unmap_def Let_def)
    next
      case False
      have "LEVELS F - 1 < LEVELS F" using levels by simp
      then have "entry_at F (mp_tables m) (mp_root m) (va_path F va) = None"
        using entry_at_append [of F "mp_tables m" "mp_root m" _ t] t False
          va_path_split(2) [of "LEVELS F - 1" F va] by (metis One_nat_def entry_at.simps(2) list.distinct(1))
      then show ?thesis
        using True r Inr False by (auto simp: unmap_def Let_def page_unmapped_def translate_entry_at)
    qed
  qed
qed (use r in \<open>auto simp: unmap_def page_unmapped_def split: if_splits\<close>)

end


section \<open>Spans\<close>

text \<open>The translation after the first \<open>k\<close> bytes of a span have been mapped over \<open>tr\<close>.\<close>

definition span_view ::
  "u64 \<Rightarrow> u64 \<Rightarrow> u64 \<Rightarrow> Flags \<Rightarrow> (u64 \<Rightarrow> (u64 \<times> Flags) option) \<Rightarrow> u64 \<Rightarrow> (u64 \<times> Flags) option" where
  "span_view va pa k fl tr a =
     (if unat va \<le> unat a \<and> unat a < unat va + unat k then Some (pa + (a - va), fl) else tr a)"

lemma span_view_0 [simp]: "span_view va pa 0 fl tr = tr"
  by (auto simp: span_view_def fun_eq_iff)

lemma in_leaf_offset:
  assumes "va mod ps_bytes z = 0" "in_leaf z va a"
  shows "a mod ps_bytes z = a - va"
proof -
  have "a = a div ps_bytes z * ps_bytes z + a mod ps_bytes z" by (simp only: div_mult_mod_eq)
  moreover have "va = va div ps_bytes z * ps_bytes z" using assms(1) by (metis add.right_neutral div_mult_mod_eq)
  ultimately show ?thesis using assms(2) unfolding in_leaf_def by (metis add_diff_cancel_left')
qed

lemma span_view_step:
  assumes m: "leaf_mapped F ok owned m (va + k) (pa + k) z fl (Inr ()) m'"
    and view: "translate F m = span_view va pa k (granted F fl) tr"
    and room: "unat k + unat (ps_bytes z) \<le> unat (len :: u64)" "unat va + unat len \<le> 2 ^ 64"
  shows "unat (k + ps_bytes z) = unat k + unat (ps_bytes z)"
    and "translate F m' = span_view va pa (k + ps_bytes z) (granted F fl) tr"
proof -
  have pos: "0 < unat (ps_bytes z)" by (simp add: unat_ps_bytes)
  have u: "unat (va + k) = unat va + unat k"
    using room pos by (intro unat_add_no_wrap) simp
  show sum: "unat (k + ps_bytes z) = unat k + unat (ps_bytes z)"
    using room(1) unat_less_len [of len] by (intro unat_add_no_wrap) simp
  have al: "(va + k) mod ps_bytes z = 0" using m by (simp add: leaf_mapped_def)
  show "translate F m' = span_view va pa (k + ps_bytes z) (granted F fl) tr"
  proof
    fix a
    have leaf: "in_leaf z (va + k) a \<longleftrightarrow>
        unat va + unat k \<le> unat a \<and> unat a < unat va + unat k + unat (ps_bytes z)"
      by (simp add: in_leaf_range [OF al] u)
    have tr: "translate F m' a = (if in_leaf z (va + k) a
        then Some (pa + k + a mod ps_bytes z, granted F fl)
        else span_view va pa k (granted F fl) tr a)"
      using m view by (simp add: leaf_mapped_def)
    have off: "pa + k + a mod ps_bytes z = pa + (a - va)" if "in_leaf z (va + k) a"
      using in_leaf_offset [OF al that] by simp
    show "translate F m' a = span_view va pa (k + ps_bytes z) (granted F fl) tr a"
      using tr leaf off pos by (auto simp: span_view_def sum)
  qed
qed

text \<open>What a sequence of leaves from the start of a span leaves behind: a prefix of the span mapped,
  all of it on success.\<close>

definition span_mapped ::
  "PageFormat \<Rightarrow> ('s \<Rightarrow> bool) \<Rightarrow> ('s \<Rightarrow> u64 set) \<Rightarrow> (u64 \<Rightarrow> (u64 \<times> Flags) option) \<Rightarrow> Half \<Rightarrow> u64 \<Rightarrow> u64 \<Rightarrow>
   u64 \<Rightarrow> u64 \<Rightarrow> Flags \<Rightarrow> MapError + unit \<Rightarrow> 's Mapper \<Rightarrow> bool" where
  "span_mapped F ok owned tr h r va pa len fl res m' \<longleftrightarrow>
     mapper_ok F ok owned m' \<and> mp_half m' = h \<and> mp_root m' = r \<and>
     (\<exists>k. unat k \<le> unat len \<and> unat k mod 4096 = 0 \<and> (res = Inr () \<longrightarrow> k = len) \<and>
        translate F m' = span_view va pa k (granted F fl) tr)"

lemma unat_PAGE_SIZE [simp]: "unat PAGE_SIZE = 4096"
  by (simp add: PAGE_SIZE_def)

lemma mod_PAGE_SIZE_unat: "(a :: u64) mod PAGE_SIZE = 0 \<longleftrightarrow> unat a mod 4096 = 0"
  by (simp add: word_unat_eq_iff unat_mod)

lemma largest_fitting_room:
  assumes "PAGE_SIZE \<le> n"
  shows "ps_bytes (largest_fitting va pa n largest) \<le> n"
  using assms by (auto simp: largest_fitting_def Let_def fits_def)

lemma ps_bytes_pages: "unat (ps_bytes z) mod 4096 = 0"
  by (cases z) (simp_all add: unat_ps_bytes)

lemma next_leaf_room:
  assumes "unat len mod 4096 = 0" "unat k mod 4096 = 0" "unat k < unat (len :: u64)"
  shows "unat k + unat (ps_bytes (largest_fitting (va + k) (pa + k) (len - k) largest)) \<le> unat len"
proof -
  have sub: "unat (len - k) = unat len - unat k"
    using assms(3) by (simp add: unat_sub word_le_nat_alt)
  have "4096 dvd unat len - unat k" using assms by (auto intro: dvd_diff_nat)
  then have "4096 \<le> unat len - unat k" using assms(3) by (auto dest: dvd_imp_le)
  then have "PAGE_SIZE \<le> len - k" by (simp add: word_le_nat_alt sub)
  then have "unat (ps_bytes (largest_fitting (va + k) (pa + k) (len - k) largest)) \<le> unat (len - k)"
    using largest_fitting_room by (simp add: word_le_nat_alt)
  then show ?thesis using sub assms(3) by linarith
qed

context mapper
begin

lemma map_span_loop_correct:
  assumes "mapper_ok F ok owned m" "mp_half m = h" "mp_root m = r"
    and "unat len mod 4096 = 0" "unat k mod 4096 = 0" "unat k \<le> unat len"
    and "unat va + unat len \<le> 2 ^ 64" "unat pa + unat len \<le> 2 ^ 48"
    and "translate F m = span_view va pa k (granted F fl) tr"
  shows "\<exists>res m'. map_span_loop F alloc va pa len fl largest k m = Some (res, m') \<and>
    span_mapped F ok owned tr h r va pa len fl res m'"
  using assms
proof (induction "unat len - unat k" arbitrary: k m rule: less_induct)
  case less
  show ?case
  proof (cases "k < len")
    case False
    then have "k = len" using less.prems(6) by (simp add: word_unat_eq_iff word_less_nat_alt)
    then show ?thesis
      using less.prems by (subst map_span_loop.simps) (auto simp: span_mapped_def)
  next
    case True
    then have k: "unat k < unat len" by (simp add: word_less_nat_alt)
    let ?z = "largest_fitting (va + k) (pa + k) (len - k) largest"
    obtain res m1 where s: "map_block F alloc m (va + k) (pa + k) ?z fl = (res, m1)" by fastforce
    note room = next_leaf_room [OF less.prems(4,5) k, of va pa largest]
    have "unat (pa + k) < 2 ^ 48"
      using less.prems(8) k by (subst unat_add_no_wrap) simp_all
    note b = map_block_correct [OF less.prems(1) this s]
    have unroll: "map_span_loop F alloc va pa len fl largest k m =
      (case res of Inl e \<Rightarrow> Some (Inl e, m1)
       | Inr _ \<Rightarrow> map_span_loop F alloc va pa len fl largest (k + ps_bytes ?z) m1)"
      using True s by (subst map_span_loop.simps) (auto simp: Let_def split: sum.splits)
    show ?thesis
    proof (cases res)
      case (Inl e)
      then have "translate F m1 = translate F m" using b by (auto simp: leaf_mapped_def)
      then show ?thesis
        using Inl unroll b less.prems by (auto simp: span_mapped_def leaf_mapped_def)
    next
      case (Inr u)
      then have b: "leaf_mapped F ok owned m (va + k) (pa + k) ?z fl (Inr ()) m1" using b by simp
      note step = span_view_step [OF b less.prems(9) room less.prems(7)]
      have pos: "0 < unat (ps_bytes ?z)" by (simp add: unat_ps_bytes)
      have "\<exists>res m'. map_span_loop F alloc va pa len fl largest (k + ps_bytes ?z) m1 = Some (res, m') \<and>
        span_mapped F ok owned tr h r va pa len fl res m'"
      proof (rule less.hyps)
        show "unat len - unat (k + ps_bytes ?z) < unat len - unat k"
          using k pos by (simp add: step(1))
        show "unat (k + ps_bytes ?z) mod 4096 = 0"
          using less.prems(5) ps_bytes_pages [of ?z] by (simp add: step(1) mod_eq_0_iff_dvd)
        show "unat (k + ps_bytes ?z) \<le> unat len" using room by (simp add: step(1))
      qed (use b less.prems step(2) in \<open>simp_all add: leaf_mapped_def\<close>)
      then show ?thesis using Inr unroll by simp
    qed
  qed
qed

lemma map_range_loop_correct:
  assumes "mapper_ok F ok owned m" "mp_half m = h" "mp_root m = r"
    and "i \<le> n" "unat va + n * 4096 \<le> 2 ^ 64" "unat pa + n * 4096 \<le> 2 ^ 48"
    and "translate F m = span_view va pa (of_nat i * PAGE_SIZE) (granted F fl) tr"
  shows "span_mapped F ok owned tr h r va pa (of_nat n * PAGE_SIZE) fl
    (fst (map_range_loop F alloc va pa fl [i..<n] m)) (snd (map_range_loop F alloc va pa fl [i..<n] m))"
  using assms
proof (induction "n - i" arbitrary: i m)
  case 0
  have "n * 4096 < 2 ^ 64" using 0(7) by simp
  then have "unat (of_nat n * PAGE_SIZE) = n * 4096"
    by (simp add: PAGE_SIZE_def unat_word_ariths unat_of_nat)
  then show ?case using 0 by (auto simp: span_mapped_def)
next
  case (Suc d)
  then have i: "i < n" "d = n - Suc i" by auto
  have small: "n * 4096 < 2 ^ 64" using Suc.prems(6) by simp
  have off: "unat (of_nat j * PAGE_SIZE) = j * 4096" if "j \<le> n" for j
    using that small by (simp add: PAGE_SIZE_def unat_word_ariths unat_of_nat)
  let ?k = "of_nat i * PAGE_SIZE"
  obtain res m1 where s: "map_page F alloc m (va + ?k) (pa + ?k) fl = (res, m1)" by fastforce
  have "unat (pa + ?k) < 2 ^ 48"
    using Suc.prems(6) i(1) off [of i] by (subst unat_add_no_wrap) simp_all
  note b = map_page_correct [OF Suc.prems(1) this s]
  have unroll: "map_range_loop F alloc va pa fl [i..<n] m =
    (case res of Inl e \<Rightarrow> (Inl e, m1) | Inr _ \<Rightarrow> map_range_loop F alloc va pa fl [Suc i..<n] m1)"
    using i(1) s by (auto simp: upt_rec [of i] split: sum.splits)
  show ?case
  proof (cases res)
    case (Inl e)
    then have "translate F m1 = translate F m" using b by (auto simp: leaf_mapped_def)
    then show ?thesis
      using Inl unroll b Suc.prems off [of i] off [of n] i(1)
      by (auto simp: span_mapped_def leaf_mapped_def intro!: exI [of _ ?k])
  next
    case (Inr u)
    then have b: "leaf_mapped F ok owned m (va + ?k) (pa + ?k) Size4KiB fl (Inr ()) m1" using b by simp
    have "unat ?k + unat (ps_bytes Size4KiB) \<le> unat (of_nat n * PAGE_SIZE :: u64)"
      "unat va + unat (of_nat n * PAGE_SIZE :: u64) \<le> 2 ^ 64"
      using off [of i] off [of n] i(1) Suc.prems(5) by simp_all
    note step = span_view_step(2) [OF b Suc.prems(7) this]
    have "?k + ps_bytes Size4KiB = of_nat (Suc i) * PAGE_SIZE" by (simp add: algebra_simps)
    then show ?thesis
      using Inr unroll step Suc.hyps(1) [OF i(2), of m1] b Suc.prems i(1)
      by (simp add: leaf_mapped_def)
  qed
qed

end

end
