(* ===== verification/Frame_Source.thy ===== *)
theory Frame_Source
  imports Paging_Mapper Page_Frames
begin

text \<open>
  The page frame allocator as the mapper's source of tables: the interpretation below discharges the
  contract of \<open>frame_source\<close> for the allocator of \<open>Page_Frames\<close>.  With it come the properties of
  the mapper itself: what mapping a leaf of any size, unmapping a page and mapping a span do to the
  translation of every address.
\<close>

section \<open>The page frame allocator as a source of tables\<close>

definition frame_closure :: "PageFrameAllocator \<Rightarrow> u64 option \<times> PageFrameAllocator" where
  "frame_closure a = (case pf_alloc a of None \<Rightarrow> (None, a) | Some (f, b) \<Rightarrow> (Some f, b))"

definition free_frames :: "PageFrameAllocator \<Rightarrow> u64 set" where
  "free_frames a = frame_addr a ` {i. free_at a i}"

text \<open>An allocator of frames below 48 bits, none of whose free frames is in the set \<open>D\<close> of pages
  to keep the tables away from.\<close>

definition frames_ok :: "u64 set \<Rightarrow> PageFrameAllocator \<Rightarrow> bool" where
  "frames_ok D a \<longleftrightarrow> pf_inv a \<and> unat (pf_base a) + pf_total a * 4096 \<le> 2 ^ 48 \<and>
     D \<inter> free_frames a = {}"

definition off_limits :: "u64 set \<Rightarrow> PageFrameAllocator \<Rightarrow> u64 set" where
  "off_limits D a = free_frames a \<union> D"

lemma page_multiple: "b mod c = 0 \<Longrightarrow> (b + i * c) mod c = (0 :: nat)"
  by simp

lemma free_frames_page:
  assumes "pf_inv a" "unat (pf_base a) + pf_total a * 4096 \<le> 2 ^ 48" "f \<in> free_frames a"
  shows "f mod PAGE_SIZE = 0 \<and> unat f < 2 ^ 48"
proof -
  obtain i where i: "f = frame_addr a i" "i < pf_total a"
    using assms(3) by (auto simp: free_frames_def free_at_def)
  have u: "unat f = unat (pf_base a) + i * 4096" using unat_frame_addr [OF assms(1) i(2)] i(1) by simp
  have "unat (pf_base a) mod 4096 = 0" using assms(1) by (simp add: pf_inv_def)
  moreover have "i * 4096 + 4096 \<le> pf_total a * 4096" using i(2) by simp
  ultimately have "unat f < 2 ^ 48" using assms(2) u by linarith
  moreover have "unat f mod 4096 = 0"
    unfolding u by (rule page_multiple) fact
  ultimately show ?thesis unfolding mod_PAGE_SIZE_unat by blast
qed

lemma frame_closure_Some:
  assumes "pf_inv a" "frame_closure a = (Some f, b)"
  shows "pf_inv b \<and> same_ground a b \<and> f \<in> free_frames a \<and> free_frames b = free_frames a - {f}"
proof -
  have "pf_alloc a = Some (f, b)"
    using assms(2) by (auto simp: frame_closure_def split: option.splits)
  then obtain i where i: "free_at a i" "f = frame_addr a i" "used_set b = insert i (used_set a)"
    "same_ground a b" "pf_inv b"
    using pf_alloc_Some [OF assms(1)] by blast
  have addr: "frame_addr b = frame_addr a" using same_ground_addr [OF i(4)] .
  have tot: "pf_total b = pf_total a" using i(4) by (simp add: same_ground_def)
  have "free_at b j \<longleftrightarrow> free_at a j \<and> j \<noteq> i" for j
  proof -
    have "j \<in> used_set b \<longleftrightarrow> j = i \<or> j \<in> used_set a" by (simp add: i(3))
    then show ?thesis using i(1) tot unfolding free_at_def used_set_def by auto
  qed
  then have "free_frames b = frame_addr a ` ({j. free_at a j} - {i})"
    by (auto simp: free_frames_def addr)
  also have "\<dots> = free_frames a - {f}"
    unfolding free_frames_def i(2)
    using i(1) inj_frame_addr [OF assms(1)] by (auto simp: free_at_def)
  finally show ?thesis using i by (auto simp: free_frames_def)
qed

interpretation dma_frames: frame_source frame_closure "frames_ok D" "off_limits D" for D
proof
  fix s f s' assume ok: "frames_ok D s" and a: "frame_closure s = (Some f, s')"
  then have inv: "pf_inv s" by (simp add: frames_ok_def)
  note s = frame_closure_Some [OF inv a]
  moreover have "f \<notin> D" using ok s by (auto simp: frames_ok_def)
  ultimately show "frames_ok D s' \<and> f \<in> off_limits D s \<and> off_limits D s' \<subseteq> off_limits D s - {f}"
    using ok by (auto simp: frames_ok_def off_limits_def same_ground_def)
next
  fix s s' assume "frames_ok D s" "frame_closure s = (None, s')"
  then show "frames_ok D s' \<and> off_limits D s' \<subseteq> off_limits D s"
    by (auto simp: frame_closure_def split: option.splits)
next
  fix s f s' assume "frames_ok D s" "frame_closure s = (Some f, s')"
  then show "f mod PAGE_SIZE = 0 \<and> unat f < 2 ^ 48"
    using frame_closure_Some [of s f s'] free_frames_page [of s f] by (simp add: frames_ok_def)
qed

lemma mapper_of:
  "F \<in> set formats \<Longrightarrow> frame_source alloc ok owned \<Longrightarrow> mapper F alloc ok owned"
  by (simp add: mapper_def formats_lawful)

lemma mapper_ok_new:
  assumes "lawful_format F" "ok src" "root \<notin> owned src" "\<forall>i < ENTRIES. mem root i = 0"
  shows "mapper_ok F ok owned (mp_new root h src mem)" and "translate F (mp_new root h src mem) a = None"
proof -
  have zero: "\<not> is_present F (mem root i)" if "i < ENTRIES" for i
    using that assms(4) lawful_format.zero_absent [OF assms(1)] by simp
  have "p = [] \<and> t = root" if "table_path F p" "follow F mem root p = Some t" for p t
    using that zero by (cases p) (auto simp: table_path_def split: if_splits)
  then show "mapper_ok F ok owned (mp_new root h src mem)"
    using assms(2,3) by (auto simp: mapper_ok_def mp_new_def tree_ok_def)
  have "entry_at F mem root (va_path F a) = None"
    using leaf_path_va [of F a] zero by (cases "va_path F a") (auto simp: leaf_path_def)
  then show "translate F (mp_new root h src mem) a = None"
    using lawful_format.levels [OF assms(1)] by (simp add: translate_entry_at mp_new_def)
qed


section \<open>Properties of the mapper\<close>

definition sample_mapper :: "PageFrameAllocator Mapper" where
  "sample_mapper = mp_new 0x40000000 Low sample_frames (\<lambda>t. pt_new)"

lemma sample_frames_ok: "frames_ok {} sample_frames"
  using sample_frames_inv by (simp add: frames_ok_def) (simp add: sample_frames_def)

lemma sample_root_used: "0x40000000 \<notin> free_frames sample_frames"
proof
  assume "0x40000000 \<in> free_frames sample_frames"
  then obtain i where i: "0x40000000 = frame_addr sample_frames i" "free_at sample_frames i"
    by (auto simp: free_frames_def)
  have "i < pf_total sample_frames" using i(2) by (simp add: free_at_def)
  from unat_frame_addr [OF sample_frames_inv this] have "i = 0"
    unfolding i(1) [symmetric] by (simp add: sample_frames_def)
  then show False
    using i(2) sample_frames_used by (auto simp: free_at_def used_set_def)
qed

lemma sample_mapper_ok:
  assumes "F \<in> set formats"
  shows "mapper_ok F (frames_ok {}) (off_limits {}) sample_mapper"
  unfolding sample_mapper_def
  using sample_frames_ok sample_root_used
  by (intro mapper_ok_new formats_lawful [OF assms]) (simp_all add: off_limits_def pt_new_def)

text \<open>C11. Mapping a page or block does exactly that, in every format and for every frame source
  that keeps its contract: on success every address inside the leaf translates to the matching
  physical address with the rights asked for, every other address translates as before, and nothing
  was mapped in the leaf; on failure no translation changes.  A 4 KiB page is refused as already
  mapped exactly when the request is well formed and the address translates.\<close>

theorem map_block_effect:
  assumes "F \<in> set formats" "frame_source alloc ok owned" "mapper_ok F ok owned m"
    and "unat pa < 2 ^ 48" "map_block F alloc m va pa z fl = (res, m')"
  shows "mapper_ok F ok owned m' \<and>
    (\<forall>a. translate F m' a =
       (if res = Inr () \<and> a div ps_bytes z = va div ps_bytes z
        then Some (pa + a mod ps_bytes z, granted F fl) else translate F m a)) \<and>
    (res = Inr () \<longrightarrow> (\<forall>a. a div ps_bytes z = va div ps_bytes z \<longrightarrow> translate F m a = None)) \<and>
    (z = Size4KiB \<longrightarrow> (res = Inl AlreadyMapped \<longleftrightarrow>
       va mod PAGE_SIZE = 0 \<and> pa mod PAGE_SIZE = 0 \<and> translate F m va \<noteq> None))"
proof -
  note M = mapper_of [OF assms(1,2)]
  have "leaf_mapped F ok owned m va pa z fl res m'"
    by (rule mapper.map_block_correct [OF M assms(3-5)])
  moreover have "res = Inl AlreadyMapped \<longleftrightarrow>
      va mod PAGE_SIZE = 0 \<and> pa mod PAGE_SIZE = 0 \<and> translate F m va \<noteq> None" if "z = Size4KiB"
  proof
    have r: "map_page F alloc m va pa fl = (res, m')" using assms(5) that by (simp add: map_block_def)
    show "va mod PAGE_SIZE = 0 \<and> pa mod PAGE_SIZE = 0 \<and> translate F m va \<noteq> None"
      if "res = Inl AlreadyMapped"
    proof -
      have "va mod PAGE_SIZE = 0 \<and> pa mod PAGE_SIZE = 0"
        using r that by (auto simp: map_page_def split: if_splits)
      then show ?thesis
        using mapper.map_page_errors [OF M assms(3), of va pa fl AlreadyMapped m'] r that by simp
    qed
    show "res = Inl AlreadyMapped"
      if "va mod PAGE_SIZE = 0 \<and> pa mod PAGE_SIZE = 0 \<and> translate F m va \<noteq> None"
      using mapper.map_page_mapped [OF M] that r by simp
  qed
  ultimately show ?thesis by (simp add: leaf_mapped_def in_leaf_def)
qed

theorem map_block_effect_witness:
  "\<exists>m'. map_block Sv39 frame_closure sample_mapper 0x1000 0x80000000 Size4KiB user_data = (Inr (), m') \<and>
     mapper_ok Sv39 (frames_ok {}) (off_limits {}) m' \<and>
     translate Sv39 m' 0x1234 = Some (0x80000234, user_data)"
proof -
  have F: "Sv39 \<in> set formats" "Sv39 \<in> set cpu_formats" by (simp_all add: formats_def cpu_formats_def)
  have "user_data \<in> set flag_sets" by (simp add: flag_sets_def)
  then have g: "granted Sv39 user_data = user_data" using granted_cpu [OF F(2)] by simp
  obtain res m' where r: "map_block Sv39 frame_closure sample_mapper 0x1000 0x80000000 Size4KiB user_data = (res, m')"
    by fastforce
  have "fst (map_block Sv39 frame_closure sample_mapper 0x1000 0x80000000 Size4KiB user_data) = Inr ()"
    by code_simp
  then have "res = Inr ()" using r by simp
  then show ?thesis
    using map_block_effect [OF F(1) dma_frames.frame_source_axioms sample_mapper_ok [OF F(1)] _ r] r g
    by (simp add: PAGE_SIZE_def)
qed

text \<open>C27. Unmapping undoes mapping: after a page has been mapped, unmapping its address returns the
  physical address it was mapped to and the obligation to flush that address, and every address
  translates as it did before the page was mapped.\<close>

theorem map_unmap_round_trip:
  assumes "F \<in> set formats" "frame_source alloc ok owned" "mapper_ok F ok owned m"
    and "unat pa < 2 ^ 48" "map_page F alloc m va pa fl = (Inr (), m1)"
  shows "\<exists>m2. unmap F m1 va = (Inr (pa, TlbFlush va), m2) \<and> mapper_ok F ok owned m2 \<and>
    (\<forall>a. translate F m2 a = translate F m a)"
proof -
  note M = mapper_of [OF assms(1,2)]
  note e = mapper.map_page_entry [OF M assms(3,5)]
  have L: "leaf_mapped F ok owned m va pa Size4KiB fl (Inr ()) m1"
    by (rule mapper.map_page_correct [OF M assms(3-5)])
  then have ok1: "mapper_ok F ok owned m1" by (simp add: leaf_mapped_def)
  obtain res m2 where r: "unmap F m1 va = (res, m2)" by fastforce
  note u = mapper.unmap_correct [OF M ok1 r]
  have tr: "translate F m1 va = Some (pa, granted F fl)"
    using L e(3) by (simp add: leaf_mapped_def in_leaf_def)
  show ?thesis
  proof (cases res)
    case (Inl x)
    then show ?thesis using u e tr by (auto simp: page_unmapped_def)
  next
    case (Inr p)
    then show ?thesis using u tr L r
      by (auto simp: page_unmapped_def leaf_mapped_def in_leaf_def split: prod.splits)
  qed
qed

theorem map_unmap_round_trip_witness:
  "\<exists>m1 m2. map_page Sv39 frame_closure sample_mapper 0x1000 0x80000000 user_data = (Inr (), m1) \<and>
     unmap Sv39 m1 0x1000 = (Inr (0x80000000, TlbFlush 0x1000), m2) \<and>
     translate Sv39 m2 0x1234 = translate Sv39 sample_mapper 0x1234"
proof -
  have F: "Sv39 \<in> set formats" by (simp add: formats_def cpu_formats_def)
  have "fst (map_page Sv39 frame_closure sample_mapper 0x1000 0x80000000 user_data) = Inr ()"
    by code_simp
  then obtain m1 where r: "map_page Sv39 frame_closure sample_mapper 0x1000 0x80000000 user_data = (Inr (), m1)"
    by (metis prod.collapse)
  show ?thesis
    using map_unmap_round_trip [OF F dma_frames.frame_source_axioms sample_mapper_ok [OF F] _ r] r
    by auto
qed

text \<open>C26. Mapping a span in the largest leaves that fit is mapping it page by page: the loop always
  ends; whatever it returns, a prefix of the span is mapped and no address outside the span changes;
  and when it and the page-by-page \<open>map_range\<close> both succeed, every address translates the same after
  either, an address of the span to the byte at the same offset from the physical base.\<close>

theorem map_span_is_map_range:
  assumes "F \<in> set formats" "frame_source alloc ok owned" "mapper_ok F ok owned m"
    and "unat len = unat n * 4096" "unat va + unat len \<le> 2 ^ 64" "unat pa + unat len \<le> 2 ^ 48"
  shows "\<exists>res m'. map_span F alloc m va pa len fl largest = Some (res, m') \<and>
    (\<forall>a. \<not> (unat va \<le> unat a \<and> unat a < unat va + unat len) \<longrightarrow> translate F m' a = translate F m a) \<and>
    (res = Inr () \<longrightarrow> (\<forall>a. unat va \<le> unat a \<and> unat a < unat va + unat len \<longrightarrow>
       translate F m' a = Some (pa + (a - va), granted F fl))) \<and>
    (res = Inr () \<longrightarrow> fst (map_range F alloc m va pa n fl) = Inr () \<longrightarrow>
       (\<forall>a. translate F m' a = translate F (snd (map_range F alloc m va pa n fl)) a))"
proof -
  note M = mapper_of [OF assms(1,2)]
  have len: "unat len mod 4096 = 0" "len mod PAGE_SIZE = 0"
    using assms(4) by (simp_all add: mod_PAGE_SIZE_unat)
  obtain res m' where s: "map_span_loop F alloc va pa len fl largest 0 m = Some (res, m')"
    and v: "span_mapped F ok owned (translate F m) (mp_half m) (mp_root m) va pa len fl res m'"
    using mapper.map_span_loop_correct [OF M assms(3) refl refl len(1) _ _ assms(5,6), of 0 fl "translate F m" largest]
    by auto
  have of_n: "n * PAGE_SIZE = len"
    using assms(4) unat_less_len [of len] by (simp add: word_unat_eq_iff unat_word_ariths PAGE_SIZE_def)
  have rng: "span_mapped F ok owned (translate F m) (mp_half m) (mp_root m) va pa len fl
      (fst (map_range F alloc m va pa n fl)) (snd (map_range F alloc m va pa n fl))"
    using mapper.map_range_loop_correct [OF M assms(3) refl refl, of 0 "unat n" va pa fl "translate F m"]
      assms(4-6) by (simp add: map_range_def of_n)
  obtain k where k: "unat k \<le> unat len" "res = Inr () \<longrightarrow> k = len"
    "translate F m' = span_view va pa k (granted F fl) (translate F m)"
    using v by (auto simp: span_mapped_def)
  have "translate F (snd (map_range F alloc m va pa n fl)) = span_view va pa len (granted F fl) (translate F m)"
    if "fst (map_range F alloc m va pa n fl) = Inr ()"
    using rng that by (auto simp: span_mapped_def)
  then show ?thesis
    using s len(2) k by (auto simp: map_span_def span_view_def)
qed

theorem map_span_is_map_range_witness:
  "\<exists>m'. map_span Sv39 frame_closure sample_mapper 0x1000 0x80000000 0x3000 user_data Size1GiB =
       Some (Inr (), m') \<and>
     (\<forall>a. unat a < 0x1000 \<longrightarrow> translate Sv39 m' a = translate Sv39 sample_mapper a) \<and>
     translate Sv39 m' 0x3456 = Some (0x80002456, granted Sv39 user_data)"
proof -
  have F: "Sv39 \<in> set formats" by (simp add: formats_def cpu_formats_def)
  have "map_option fst (map_span Sv39 frame_closure sample_mapper 0x1000 0x80000000 0x3000 user_data Size1GiB) =
      Some (Inr ())"
    by code_simp
  then show ?thesis
    using map_span_is_map_range [OF F dma_frames.frame_source_axioms sample_mapper_ok [OF F],
        of "0x3000" "3" "0x1000" "0x80000000" user_data Size1GiB] by auto
qed

end
