(* ===== verification/Dma_Domain.thy ===== *)
theory Dma_Domain
  imports Frame_Source
begin

text \<open>
  The DMA domain of a device: \<open>crates/paging/src/domain.rs\<close>, which enumerates the whole pages of
  the regions a device is granted and maps them to themselves, and the kernel's \<open>iommu.rs\<close>, which
  collects the regions (the grant and what the firmware reserved), takes the tables from the page
  frame allocator and hands the root to the IOMMU.
\<close>

section \<open>Regions and their pages\<close>

definition checked_mul :: "u64 \<Rightarrow> u64 \<Rightarrow> u64 option" where
  "checked_mul a b = (if unat a * unat b < 2 ^ 64 then Some (a * b) else None)"

record DmaRegion =
  dr_base :: u64
  dr_size :: u64

definition grant_pages :: "DmaRegion \<Rightarrow> MapError + u64" where
  "grant_pages r =
     (if dr_base r mod PAGE_SIZE \<noteq> 0 then Inl Misaligned
      else if checked_add (dr_base r) (dr_size r) = None then Inl BadRegion
      else Inr (dr_size r div PAGE_SIZE))"

definition grant_page :: "DmaRegion \<Rightarrow> u64 \<Rightarrow> u64 option" where
  "grant_page r i =
     (case checked_mul i PAGE_SIZE of
        None \<Rightarrow> None
      | Some off \<Rightarrow>
          (case checked_add off PAGE_SIZE of
             None \<Rightarrow> None
           | Some e \<Rightarrow> if e > dr_size r then None else checked_add (dr_base r) off))"

fun map_grant ::
  "PageFormat \<Rightarrow> ('s \<Rightarrow> u64 option \<times> 's) \<Rightarrow> DmaRegion \<Rightarrow> nat list \<Rightarrow> 's Mapper \<Rightarrow>
   (MapError + unit) \<times> 's Mapper" where
  "map_grant F alloc r [] m = (Inr (), m)"
| "map_grant F alloc r (i # is) m =
     (case grant_page r (of_nat i) of
        None \<Rightarrow> (Inl BadRegion, m)
      | Some page \<Rightarrow>
          (case map_page F alloc m page page user_data of
             (Inl e, m) \<Rightarrow> (Inl e, m)
           | (Inr _, m) \<Rightarrow> map_grant F alloc r is m))"

fun map_grants ::
  "PageFormat \<Rightarrow> ('s \<Rightarrow> u64 option \<times> 's) \<Rightarrow> DmaRegion list \<Rightarrow> 's Mapper \<Rightarrow>
   (MapError + unit) \<times> 's Mapper" where
  "map_grants F alloc [] m = (Inr (), m)"
| "map_grants F alloc (r # rs) m =
     (case grant_pages r of
        Inl e \<Rightarrow> (Inl e, m)
      | Inr pages \<Rightarrow>
          (case map_grant F alloc r [0..<unat pages] m of
             (Inl e, m) \<Rightarrow> (Inl e, m)
           | (Inr _, m) \<Rightarrow> map_grants F alloc rs m))"

definition build_identity_domain ::
  "PageFormat \<Rightarrow> ('s \<Rightarrow> u64 option \<times> 's) \<Rightarrow> u64 \<Rightarrow> 's \<Rightarrow> (u64 \<Rightarrow> PageTable) \<Rightarrow> DmaRegion list \<Rightarrow>
   (MapError + unit) \<times> 's Mapper" where
  "build_identity_domain F alloc root src mem regions =
     map_grants F alloc regions (mp_new root Low src mem)"


section \<open>Confining a device\<close>

definition MAX_RMRRS :: nat where "MAX_RMRRS = 8"

definition MAX_CONFINED_REGIONS :: nat where
  "MAX_CONFINED_REGIONS = 4 + MAX_RMRRS"

definition regions_overlap :: "DmaRegion \<Rightarrow> DmaRegion \<Rightarrow> bool" where
  "regions_overlap r g \<longleftrightarrow>
     dr_base r < saturating_add (dr_base g) (dr_size g) \<and>
     dr_base g < saturating_add (dr_base r) (dr_size r)"

fun add_reserved :: "DmaRegion list \<Rightarrow> DmaRegion list \<Rightarrow> DmaRegion list" where
  "add_reserved [] all = all"
| "add_reserved (r # rs) all =
     add_reserved rs
       (if \<not> list_ex (regions_overlap r) all \<and> length all < MAX_CONFINED_REGIONS then all @ [r] else all)"

definition zeroed_page_frame ::
  "PageFrameAllocator \<Rightarrow> (u64 \<Rightarrow> PageTable) \<Rightarrow> (u64 \<times> PageFrameAllocator \<times> (u64 \<Rightarrow> PageTable)) option" where
  "zeroed_page_frame a mem =
     (case pf_alloc a of None \<Rightarrow> None | Some (f, b) \<Rightarrow> Some (f, b, mem(f := pt_new)))"

text \<open>The result is the call \<open>attach(rid, root, tag)\<close> and the state; \<open>None\<close> is a panic.
  \<open>reserved\<close> is what \<open>for_each_reserved_region(rid, ..)\<close> visits.\<close>

definition confine ::
  "PageFormat \<Rightarrow> DmaRegion list \<Rightarrow> PageFrameAllocator \<Rightarrow> (u64 \<Rightarrow> PageTable) \<Rightarrow> u32 \<Rightarrow> DmaRegion list \<Rightarrow>
   ((u32 \<times> u64 \<times> u16) \<times> PageFrameAllocator Mapper) option" where
  "confine F reserved a mem rid regions =
     (if length regions > MAX_CONFINED_REGIONS then None
      else
        let regions = add_reserved reserved regions in
        (case zeroed_page_frame a mem of
           None \<Rightarrow> None
         | Some (root, a, mem) \<Rightarrow>
             (case build_identity_domain F frame_closure root a mem regions of
                (Inl e, m) \<Rightarrow> None
              | (Inr _, m) \<Rightarrow> Some ((rid, root, ucast rid), m))))"

definition virtio_regions :: "u64 \<Rightarrow> u64 \<Rightarrow> u64 \<Rightarrow> DmaRegion list" where
  "virtio_regions dma_base dma_size shadow_base =
     [\<lparr>dr_base = dma_base, dr_size = dma_size\<rparr>, \<lparr>dr_base = shadow_base, dr_size = FRAME_SIZE\<rparr>]"


section \<open>The pages of a grant\<close>

text \<open>The page of \<open>a\<close> lies wholly inside the region.\<close>

definition whole_page :: "DmaRegion \<Rightarrow> u64 \<Rightarrow> bool" where
  "whole_page r a \<longleftrightarrow>
     (let p = unat a - unat a mod 4096 in
      unat (dr_base r) \<le> p \<and> p + 4096 \<le> unat (dr_base r) + unat (dr_size r))"

definition in_pages :: "DmaRegion \<Rightarrow> nat \<Rightarrow> u64 \<Rightarrow> bool" where
  "in_pages r k a \<longleftrightarrow> unat (dr_base r) \<le> unat a \<and> unat a < unat (dr_base r) + k * 4096"

lemma whole_pages_nat:
  assumes "0 < (c :: nat)"
  shows "c * q \<le> a - a mod c \<and> a - a mod c + c \<le> c * q + n \<longleftrightarrow> c * q \<le> a \<and> a < c * q + n div c * c"
proof -
  have down: "a - a mod c = c * (a div c)" by (simp add: minus_mod_eq_mult_div)
  have "c * q \<le> c * (a div c) \<longleftrightarrow> c * q \<le> a"
    using assms by (simp add: less_eq_div_iff_mult_less_eq mult.commute)
  moreover have "c * (a div c) + c \<le> c * q + n \<longleftrightarrow> Suc (a div c) \<le> (c * q + n) div c"
    using assms by (subst less_eq_div_iff_mult_less_eq) (simp_all add: algebra_simps)
  moreover have "(c * q + n) div c = q + n div c" using assms by simp
  moreover have "a < c * q + n div c * c \<longleftrightarrow> a div c < q + n div c"
    using assms by (subst div_less_iff_less_mult) (simp_all add: algebra_simps)
  ultimately show ?thesis unfolding down by auto
qed

lemma whole_page_iff:
  assumes "unat (dr_base r) mod 4096 = 0"
  shows "whole_page r a \<longleftrightarrow> in_pages r (unat (dr_size r) div 4096) a"
proof -
  have "4096 * (unat (dr_base r) div 4096) = unat (dr_base r)" using assms by auto
  with whole_pages_nat [of 4096 "unat (dr_base r) div 4096" "unat a" "unat (dr_size r)"]
  show ?thesis unfolding whole_page_def in_pages_def Let_def by simp
qed

lemma grant_pages_Inr:
  assumes "grant_pages r = Inr n"
  shows "unat (dr_base r) mod 4096 = 0" "unat (dr_base r) + unat (dr_size r) < 2 ^ 64"
    "unat n = unat (dr_size r) div 4096"
  using assms by (auto simp: grant_pages_def mod_PAGE_SIZE_unat unat_div split: if_splits)

lemma grant_page_Some:
  assumes "unat (dr_base r) mod 4096 = 0" "unat (dr_base r) + unat (dr_size r) < 2 ^ 64"
    and "i < unat (dr_size r) div 4096"
  shows "\<exists>p. grant_page r (of_nat i) = Some p \<and> unat p = unat (dr_base r) + i * 4096 \<and> p mod PAGE_SIZE = 0"
proof -
  have "Suc i * 4096 \<le> unat (dr_size r)"
    using assms(3) by (intro less_eq_div_iff_mult_less_eq [THEN iffD1]) simp_all
  then have le: "i * 4096 + 4096 \<le> unat (dr_size r)" by simp
  have i: "unat (of_nat i :: u64) = i" using le unat_less_len [of "dr_size r"] by (simp add: unat_of_nat)
  have off: "unat (of_nat i * PAGE_SIZE :: u64) = i * 4096"
    using le unat_less_len [of "dr_size r"] i by (simp add: unat_word_ariths)
  have e: "unat (of_nat i * PAGE_SIZE + PAGE_SIZE :: u64) = i * 4096 + 4096"
    using le unat_less_len [of "dr_size r"] off by (subst unat_add_no_wrap) simp_all
  have p: "unat (dr_base r + of_nat i * PAGE_SIZE) = unat (dr_base r) + i * 4096"
    using le assms(2) off by (subst unat_add_no_wrap) simp_all
  have "grant_page r (of_nat i) = Some (dr_base r + of_nat i * PAGE_SIZE)"
    using le assms(2) unat_less_len [of "dr_size r"]
    by (simp add: grant_page_def checked_mul_def checked_add_def i off e word_less_nat_alt)
  moreover have "(dr_base r + of_nat i * PAGE_SIZE) mod PAGE_SIZE = 0"
    unfolding mod_PAGE_SIZE_unat p by (rule page_multiple) (rule assms(1))
  ultimately show ?thesis using p by (intro exI conjI)
qed


section \<open>What the domain translates\<close>

definition domain_view :: "PageFormat \<Rightarrow> (u64 \<Rightarrow> bool) \<Rightarrow> u64 \<Rightarrow> (u64 \<times> Flags) option" where
  "domain_view F G a = (if G a then Some (a, granted F user_data) else None)"

text \<open>The state while the pages of a region are mapped over what is already there (\<open>G\<close>).\<close>

definition grant_mapped ::
  "PageFormat \<Rightarrow> ('s \<Rightarrow> bool) \<Rightarrow> ('s \<Rightarrow> u64 set) \<Rightarrow> 's Mapper \<Rightarrow> (u64 \<Rightarrow> bool) \<Rightarrow> DmaRegion \<Rightarrow>
   MapError + unit \<Rightarrow> 's Mapper \<Rightarrow> bool" where
  "grant_mapped F ok owned m G r res m' \<longleftrightarrow>
     mapper_ok F ok owned m' \<and> mp_half m' = mp_half m \<and> mp_root m' = mp_root m \<and>
     (\<exists>k \<le> unat (dr_size r) div 4096. (res = Inr () \<longrightarrow> k = unat (dr_size r) div 4096) \<and>
        translate F m' = domain_view F (\<lambda>a. G a \<or> in_pages r k a)) \<and>
     (\<forall>x. res = Inl x \<longrightarrow> x = OutOfPageFrames \<or>
        x = WrongHalf \<and> (\<exists>a. whole_page r a \<and> \<not> is_in_half F Low a) \<or>
        x = AlreadyMapped \<and> (\<exists>a. whole_page r a \<and> G a))"

context mapper
begin

lemma low_half_less:
  assumes "is_in_half F Low a"
  shows "unat a < 2 ^ 48"
proof -
  have "drop_bit (SPLIT_SHIFT F) a = 0" using assms by (simp add: is_in_half_def)
  then have "unat a < 2 ^ SPLIT_SHIFT F"
    by (metis div_eq_0_iff drop_bit_eq_div less_zeroE linorder_neqE_nat power_eq_0_iff unat_0
        unat_drop_bit_eq zero_neq_numeral)
  also have "\<dots> \<le> 2 ^ 48" using split_low by (intro power_increasing) auto
  finally show ?thesis .
qed

lemma map_identity_page:
  assumes ok: "mapper_ok F ok owned m" and half: "mp_half m = Low"
    and r: "map_page F alloc m p p fl = (res, m')"
  shows "leaf_mapped F ok owned m p p Size4KiB fl res m'"
proof (cases "is_in_half F Low p")
  case True
  then show ?thesis using map_page_correct [OF ok low_half_less r] by simp
next
  case False
  then show ?thesis using r half leaf_mapped_refused [OF ok] by (auto simp: map_page_def)
qed

lemma identity_view_step:
  assumes m: "leaf_mapped F ok owned m p p Size4KiB user_data (Inr ()) m'"
    and p: "unat p = unat (dr_base r) + i * 4096"
    and view: "translate F m = domain_view F (\<lambda>a. G a \<or> in_pages r i a)"
  shows "translate F m' = domain_view F (\<lambda>a. G a \<or> in_pages r (Suc i) a)"
proof
  fix a
  have al: "p mod ps_bytes Size4KiB = 0" using m by (simp add: leaf_mapped_def)
  have "in_leaf Size4KiB p a \<longleftrightarrow> unat (dr_base r) + i * 4096 \<le> unat a \<and> unat a < unat (dr_base r) + Suc i * 4096"
    using in_leaf_range [OF al, of a] p by (simp add: algebra_simps)
  moreover have "p + a mod ps_bytes Size4KiB = a" if "in_leaf Size4KiB p a"
    using in_leaf_offset [OF al that] by simp
  ultimately show "translate F m' a = domain_view F (\<lambda>a. G a \<or> in_pages r (Suc i) a) a"
    using m view by (auto simp: leaf_mapped_def domain_view_def in_pages_def)
qed

lemma map_grant_correct:
  assumes "mapper_ok F ok owned m" "mp_half m = Low"
    and r: "unat (dr_base r) mod 4096 = 0" "unat (dr_base r) + unat (dr_size r) < 2 ^ 64"
    and "n = unat (dr_size r) div 4096" "i \<le> n"
    and "translate F m = domain_view F (\<lambda>a. G a \<or> in_pages r i a)"
    and "map_grant F alloc r [i..<n] m = (res, m')"
  shows "grant_mapped F ok owned m G r res m'"
  using assms
proof (induction "n - i" arbitrary: i m)
  case 0
  then show ?case by (auto simp: grant_mapped_def)
next
  case (Suc d)
  then have i: "i < n" "d = n - Suc i" by auto
  obtain p where p: "grant_page r (of_nat i) = Some p" "unat p = unat (dr_base r) + i * 4096"
    "p mod PAGE_SIZE = 0"
    using grant_page_Some [OF r, of i] i(1) unfolding Suc.prems(5) by metis
  have whole: "whole_page r p"
    using i(1) Suc.prems(5) p(2) by (simp add: whole_page_iff [OF r(1)] in_pages_def)
  obtain res1 m1 where s: "map_page F alloc m p p user_data = (res1, m1)" by fastforce
  note b = map_identity_page [OF Suc.prems(1,2) s]
  have unroll: "map_grant F alloc r [i..<n] m =
    (case res1 of Inl e \<Rightarrow> (Inl e, m1) | Inr _ \<Rightarrow> map_grant F alloc r [Suc i..<n] m1)"
    using i(1) s p(1) by (auto simp: upt_rec [of i] split: sum.splits)
  show ?case
  proof (cases res1)
    case (Inl x)
    then have eq: "translate F m1 = translate F m" using b by (auto simp: leaf_mapped_def)
    have "\<not> in_pages r i p" by (simp add: in_pages_def p(2))
    then have "x = OutOfPageFrames \<or> x = WrongHalf \<and> \<not> is_in_half F Low p \<or> x = AlreadyMapped \<and> G p"
      using map_page_errors [OF Suc.prems(1), of p p user_data x m1] s Inl p(3) Suc.prems(2,7)
      by (auto simp: domain_view_def split: if_splits)
    then show ?thesis
      using Inl unroll b eq whole Suc.prems i(1)
      by (auto simp: grant_mapped_def leaf_mapped_def intro!: exI [of _ i])
  next
    case (Inr u)
    then have b: "leaf_mapped F ok owned m p p Size4KiB user_data (Inr ()) m1" using b by simp
    note step = identity_view_step [OF b p(2) Suc.prems(7)]
    have "grant_mapped F ok owned m1 G r res m'"
      using Suc.hyps(1) [OF i(2), of m1] Inr unroll step b Suc.prems i(1) by (simp add: leaf_mapped_def)
    then show ?thesis using b by (simp add: grant_mapped_def leaf_mapped_def)
  qed
qed

end

text \<open>A page of one region that is already there, or that an earlier region of the list has too.\<close>

fun clash :: "(u64 \<Rightarrow> bool) \<Rightarrow> DmaRegion list \<Rightarrow> bool" where
  "clash G [] \<longleftrightarrow> False"
| "clash G (r # rs) \<longleftrightarrow> (\<exists>a. whole_page r a \<and> G a) \<or> clash (\<lambda>a. G a \<or> whole_page r a) rs"

definition no_shared_page :: "DmaRegion \<Rightarrow> DmaRegion \<Rightarrow> bool" where
  "no_shared_page r q \<longleftrightarrow> (\<forall>a. \<not> (whole_page r a \<and> whole_page q a))"

lemma clash_disjoint:
  "clash G rs \<Longrightarrow> sorted_wrt no_shared_page rs \<Longrightarrow> \<exists>r \<in> set rs. \<exists>a. whole_page r a \<and> G a"
proof (induction rs arbitrary: G)
  case (Cons r rs)
  show ?case
  proof (cases "\<exists>a. whole_page r a \<and> G a")
    case False
    then obtain q a where "q \<in> set rs" "whole_page q a" "G a \<or> whole_page r a"
      using Cons.IH [of "\<lambda>a. G a \<or> whole_page r a"] Cons.prems by auto
    moreover have "no_shared_page r q" using Cons.prems(2) \<open>q \<in> set rs\<close> by simp
    ultimately show ?thesis by (auto simp: no_shared_page_def)
  qed auto
qed simp

text \<open>Why mapping the regions over what is already there can be refused.\<close>

definition grants_refused :: "PageFormat \<Rightarrow> (u64 \<Rightarrow> bool) \<Rightarrow> DmaRegion list \<Rightarrow> MapError \<Rightarrow> bool" where
  "grants_refused F G rs x \<longleftrightarrow>
     x = OutOfPageFrames \<or>
     x = Misaligned \<and> (\<exists>r \<in> set rs. unat (dr_base r) mod 4096 \<noteq> 0) \<or>
     x = BadRegion \<and> (\<exists>r \<in> set rs. 2 ^ 64 \<le> unat (dr_base r) + unat (dr_size r)) \<or>
     x = WrongHalf \<and> (\<exists>r \<in> set rs. \<exists>a. whole_page r a \<and> \<not> is_in_half F Low a) \<or>
     x = AlreadyMapped \<and> clash G rs"

text \<open>The state after the regions have been mapped over what is already there.\<close>

definition grants_mapped ::
  "PageFormat \<Rightarrow> ('s \<Rightarrow> bool) \<Rightarrow> ('s \<Rightarrow> u64 set) \<Rightarrow> 's Mapper \<Rightarrow> (u64 \<Rightarrow> bool) \<Rightarrow> DmaRegion list \<Rightarrow>
   MapError + unit \<Rightarrow> 's Mapper \<Rightarrow> bool" where
  "grants_mapped F ok owned m G rs res m' \<longleftrightarrow>
     mapper_ok F ok owned m' \<and> mp_half m' = mp_half m \<and> mp_root m' = mp_root m \<and>
     (\<exists>G'. translate F m' = domain_view F G' \<and>
        (\<forall>a. G' a \<longrightarrow> G a \<or> (\<exists>r \<in> set rs. whole_page r a)) \<and>
        (res = Inr () \<longrightarrow> G' = (\<lambda>a. G a \<or> (\<exists>r \<in> set rs. whole_page r a)))) \<and>
     (\<forall>x. res = Inl x \<longrightarrow> grants_refused F G rs x)"

lemma grant_pages_Inl:
  assumes "grant_pages r = Inl x"
  shows "grants_refused F G (r # rs) x"
  using assms by (auto simp: grant_pages_def mod_PAGE_SIZE_unat grants_refused_def split: if_splits)

lemma grants_refused_Cons:
  "grants_refused F (\<lambda>a. G a \<or> whole_page r a) rs x \<Longrightarrow> grants_refused F G (r # rs) x"
  by (auto simp: grants_refused_def)

lemma grants_refused_head:
  assumes "grant_mapped F ok owned m G r (Inl x) m'"
  shows "grants_refused F G (r # rs) x"
proof -
  have "x = OutOfPageFrames \<or> x = WrongHalf \<and> (\<exists>a. whole_page r a \<and> \<not> is_in_half F Low a) \<or>
      x = AlreadyMapped \<and> (\<exists>a. whole_page r a \<and> G a)"
    using assms by (simp add: grant_mapped_def)
  then show ?thesis by (elim disjE) (simp_all add: grants_refused_def)
qed

lemma grants_mapped_Cons:
  assumes g: "grant_mapped F ok owned m G r (Inr ()) m1"
    and rest: "grants_mapped F ok owned m1 (\<lambda>a. G a \<or> whole_page r a) rs res m'"
  shows "grants_mapped F ok owned m G (r # rs) res m'"
proof -
  have "\<exists>G'. translate F m' = domain_view F G' \<and>
      (\<forall>a. G' a \<longrightarrow> (G a \<or> whole_page r a) \<or> (\<exists>r \<in> set rs. whole_page r a)) \<and>
      (res = Inr () \<longrightarrow> G' = (\<lambda>a. (G a \<or> whole_page r a) \<or> (\<exists>r \<in> set rs. whole_page r a)))"
    using rest by (simp add: grants_mapped_def)
  then have "\<exists>G'. translate F m' = domain_view F G' \<and>
      (\<forall>a. G' a \<longrightarrow> G a \<or> (\<exists>r \<in> set (r # rs). whole_page r a)) \<and>
      (res = Inr () \<longrightarrow> G' = (\<lambda>a. G a \<or> (\<exists>r \<in> set (r # rs). whole_page r a)))"
    by (simp add: disj_assoc)
  moreover have "\<forall>x. res = Inl x \<longrightarrow> grants_refused F G (r # rs) x"
    using rest grants_refused_Cons by (simp add: grants_mapped_def)
  ultimately show ?thesis
    using rest g by (simp add: grants_mapped_def grant_mapped_def)
qed

context mapper
begin

lemma map_grants_correct:
  assumes "mapper_ok F ok owned m" "mp_half m = Low" "translate F m = domain_view F G"
    and "map_grants F alloc rs m = (res, m')"
  shows "grants_mapped F ok owned m G rs res m'"
  using assms
proof (induction rs arbitrary: m G)
  case Nil
  then show ?case by (auto simp: grants_mapped_def)
next
  case (Cons r rs)
  show ?case
  proof (cases "grant_pages r")
    case (Inl x)
    then show ?thesis
      using Cons.prems grant_pages_Inl [OF Inl] by (auto simp: grants_mapped_def)
  next
    case (Inr n)
    note n = grant_pages_Inr [OF Inr]
    obtain res1 m1 where s: "map_grant F alloc r [0..<unat n] m = (res1, m1)" by fastforce
    have "translate F m = domain_view F (\<lambda>a. G a \<or> in_pages r 0 a)"
      using Cons.prems(3) by (simp add: in_pages_def fun_eq_iff domain_view_def)
    then have g: "grant_mapped F ok owned m G r res1 m1"
      using map_grant_correct [OF Cons.prems(1,2) n(1,2) n(3) _ _ s] by simp
    note pages = whole_page_iff [OF n(1)]
    show ?thesis
    proof (cases res1)
      case (Inl x)
      have le: "in_pages r k a \<Longrightarrow> whole_page r a" if "k \<le> unat (dr_size r) div 4096" for k a
        using that mult_le_mono1 [OF that, of 4096] by (simp add: pages in_pages_def)
      obtain k where k: "k \<le> unat (dr_size r) div 4096"
        "translate F m1 = domain_view F (\<lambda>a. G a \<or> in_pages r k a)"
        using g by (auto simp: grant_mapped_def)
      have "m' = m1" "res = Inl x" using Inl Inr s Cons.prems(4) by simp_all
      then show ?thesis
        using g [unfolded Inl] k(2) le [OF k(1)] grants_refused_head [OF g [unfolded Inl]]
        by (auto simp: grants_mapped_def grant_mapped_def intro!: exI [of _ "\<lambda>a. G a \<or> in_pages r k a"])
    next
      case (Inr u)
      then have g: "grant_mapped F ok owned m G r (Inr ()) m1" using g by simp
      moreover have "map_grants F alloc rs m1 = (res, m')"
        using Cons.prems(4) Inr s \<open>grant_pages r = Inr n\<close> by simp
      ultimately show ?thesis
        using Cons.prems(2) pages
        by (intro grants_mapped_Cons [OF g] Cons.IH) (auto simp: grant_mapped_def)
    qed
  qed
qed

end


section \<open>Properties\<close>

lemma build_correct:
  assumes F: "F \<in> set formats" and src: "frames_ok D src" "root \<notin> off_limits D src"
    and mem: "\<forall>i < ENTRIES. mem root i = 0"
    and r: "build_identity_domain F frame_closure root src mem regions = (res, m)"
  shows "grants_mapped F (frames_ok D) (off_limits D) (mp_new root Low src mem) (\<lambda>a. False) regions res m"
proof (rule mapper.map_grants_correct [OF mapper_of [OF F dma_frames.frame_source_axioms]])
  note new = mapper_ok_new [OF formats_lawful [OF F], where ok = "frames_ok D" and owned = "off_limits D" and
        mem = mem and root = root, OF src mem]
  show "mapper_ok F (frames_ok D) (off_limits D) (mp_new root Low src mem)" by (rule new(1))
  show "translate F (mp_new root Low src mem) = domain_view F (\<lambda>a. False)"
    using new(2) by (simp add: domain_view_def fun_eq_iff)
  show "map_grants F frame_closure regions (mp_new root Low src mem) = (res, m)"
    using r by (simp add: build_identity_domain_def)
qed (simp add: mp_new_def)

definition well_formed_grant :: "PageFormat \<Rightarrow> DmaRegion list \<Rightarrow> bool" where
  "well_formed_grant F rs \<longleftrightarrow>
     (\<forall>r \<in> set rs. unat (dr_base r) mod 4096 = 0 \<and> unat (dr_base r) + unat (dr_size r) < 2 ^ 64 \<and>
        (\<forall>a. whole_page r a \<longrightarrow> is_in_half F Low a)) \<and>
     sorted_wrt no_shared_page rs"

lemma well_formed_refused:
  assumes "well_formed_grant F rs" "grants_refused F (\<lambda>a. False) rs x"
  shows "x = OutOfPageFrames"
  using assms clash_disjoint [of "\<lambda>a. False" rs]
  by (auto simp: well_formed_grant_def grants_refused_def)

text \<open>C13. The domain built for a device is exactly its grant.  Whatever the build returns, an
  address the tables translate lies in a page that is wholly inside one of the granted regions and
  translates to itself.  When the build succeeds, every address of every such page is translated, to
  itself and with the rights of a data window, and no other address is.  A grant whose regions are
  aligned, do not wrap, lie in the low half and share no page is refused only when page frames run
  out.  The tables come from the kernel's page frame allocator, in any of the four formats.\<close>

theorem domain_is_the_grant:
  assumes "F \<in> set formats" "frames_ok D src" "root \<notin> free_frames src \<union> D"
    and "\<forall>i < ENTRIES. mem root i = 0"
    and "build_identity_domain F frame_closure root src mem regions = (res, m)"
  shows "(\<forall>a pa fl. translate F m a = Some (pa, fl) \<longrightarrow>
       pa = a \<and> (\<exists>r \<in> set regions. whole_page r a)) \<and>
    (res = Inr () \<longrightarrow> (\<forall>a. translate F m a =
       (if \<exists>r \<in> set regions. whole_page r a then Some (a, granted F user_data) else None))) \<and>
    (well_formed_grant F regions \<longrightarrow> res = Inr () \<or> res = Inl OutOfPageFrames)"
proof -
  note b = build_correct [OF assms(1,2) _ assms(4,5)]
  have b: "grants_mapped F (frames_ok D) (off_limits D) (mp_new root Low src mem) (\<lambda>a. False) regions res m"
    using assms(3) b by (simp add: off_limits_def)
  have "\<exists>G. translate F m = domain_view F G \<and> (\<forall>a. G a \<longrightarrow> (\<exists>r \<in> set regions. whole_page r a)) \<and>
      (res = Inr () \<longrightarrow> G = (\<lambda>a. \<exists>r \<in> set regions. whole_page r a))"
    using b by (simp add: grants_mapped_def)
  then obtain G where G: "translate F m = domain_view F G"
    "\<forall>a. G a \<longrightarrow> (\<exists>r \<in> set regions. whole_page r a)"
    "res = Inr () \<longrightarrow> G = (\<lambda>a. \<exists>r \<in> set regions. whole_page r a)"
    by blast
  have "res = Inr () \<or> res = Inl OutOfPageFrames" if "well_formed_grant F regions"
    using b well_formed_refused [OF that] by (cases res) (auto simp: grants_mapped_def)
  moreover have "pa = a \<and> (\<exists>r \<in> set regions. whole_page r a)" if "translate F m a = Some (pa, fl)" for a pa fl
    using that G(1,2) by (auto simp: domain_view_def split: if_splits)
  moreover have "translate F m a =
      (if \<exists>r \<in> set regions. whole_page r a then Some (a, granted F user_data) else None)" if "res = Inr ()" for a
    using that G(1,3) by (simp add: domain_view_def)
  ultimately show ?thesis by blast
qed

lemma whole_page_same_page:
  "a div PAGE_SIZE = t div PAGE_SIZE \<Longrightarrow> whole_page r a \<longleftrightarrow> whole_page r t"
proof -
  assume "a div PAGE_SIZE = t div PAGE_SIZE"
  then have "unat a div 4096 = unat t div 4096" by (metis unat_div unat_PAGE_SIZE)
  then have "unat a - unat a mod 4096 = unat t - unat t mod 4096"
    by (simp add: minus_mod_eq_mult_div)
  then show ?thesis by (simp add: whole_page_def Let_def)
qed

lemma confine_Some:
  assumes "confine F reserved a mem rid regions = Some (att, m)"
  obtains root b where "frame_closure a = (Some root, b)" "att = (rid, root, ucast rid)"
    "build_identity_domain F frame_closure root b (mem(root := pt_new)) (add_reserved reserved regions) =
       (Inr (), m)"
  using assms by (auto simp: confine_def zeroed_page_frame_def frame_closure_def Let_def
      split: if_splits option.splits prod.splits sum.splits)

text \<open>C3. A confined device reaches its grant, what the firmware reserved for it, and nothing else.
  When confining does not panic, the root handed to the IOMMU is a frame that was free, tagged with
  the device's requester id; the domain translates an address exactly when its page lies wholly
  inside a region of the grant or a reserved region that was kept, and then to itself.  And when no
  free frame lies in those regions, as holds of memory that was allocated, no table of the domain
  is translated at any of its bytes: the device cannot rewrite its own confinement.\<close>

theorem confined_device:
  assumes "F \<in> set formats" "frames_ok {} a"
    and "\<forall>r \<in> set (add_reserved reserved regions). \<forall>f \<in> free_frames a. \<not> whole_page r f"
    and "confine F reserved a mem rid regions = Some ((rid', root, tag), m)"
  shows "rid' = rid \<and> tag = ucast rid \<and> root = mp_root m \<and> root \<in> free_frames a \<and>
    (\<forall>iova. translate F m iova =
       (if \<exists>r \<in> set (add_reserved reserved regions). whole_page r iova
        then Some (iova, granted F user_data) else None)) \<and>
    (\<forall>p t iova. table_path F p \<longrightarrow> follow F (mp_tables m) root p = Some t \<longrightarrow>
       iova div PAGE_SIZE = t div PAGE_SIZE \<longrightarrow> translate F m iova = None)"
proof -
  let ?rs = "add_reserved reserved regions"
  define D where "D = {f. \<exists>r \<in> set ?rs. whole_page r f}"
  obtain b where b: "frame_closure a = (Some root, b)" "rid' = rid" "tag = ucast rid"
    "build_identity_domain F frame_closure root b (mem(root := pt_new)) ?rs = (Inr (), m)"
    using confine_Some [OF assms(4)] by blast
  have inv: "pf_inv a" using assms(2) by (simp add: frames_ok_def)
  note taken = frame_closure_Some [OF inv b(1)]
  have "frames_ok D a" using assms(2,3) by (auto simp: frames_ok_def D_def)
  then have ok: "frames_ok D b" and fresh: "root \<notin> off_limits D b" and D: "root \<notin> D"
    using taken dma_frames.alloc_some [OF _ b(1)] assms(3) by (auto simp: off_limits_def D_def)
  have g: "grants_mapped F (frames_ok D) (off_limits D) (mp_new root Low b (mem(root := pt_new)))
      (\<lambda>a. False) ?rs (Inr ()) m"
    using build_correct [OF assms(1) ok fresh _ b(4)] by (simp add: pt_new_def)
  then have tr: "translate F m iova = (if \<exists>r \<in> set ?rs. whole_page r iova
      then Some (iova, granted F user_data) else None)" for iova
    by (auto simp: grants_mapped_def domain_view_def)
  have root: "mp_root m = root" and tree: "tree_ok F (mp_tables m) (mp_root m) (off_limits D (mp_frames m))"
    using g by (auto simp: grants_mapped_def mp_new_def mapper_ok_def)
  have "translate F m iova = None" if "table_path F p" "follow F (mp_tables m) root p = Some t"
    "iova div PAGE_SIZE = t div PAGE_SIZE" for p t iova
    using tree_okD(2) [OF tree that(1)] that(2) whole_page_same_page [OF that(3)]
    by (auto simp: root tr off_limits_def D_def)
  then show ?thesis using b taken tr root by blast
qed

text \<open>The checked operations by word comparisons, for evaluation.\<close>

lemma checked_add_code [code]:
  "checked_add a (b :: 'a::len word) = (if a \<le> a + b then Some (a + b) else None)"
  by (simp add: checked_add_def no_olen_add_nat)

lemma checked_mul_code [code]:
  "checked_mul a b = (if b = 0 \<or> a \<le> (- 1) div b then Some (a * b) else None)"
proof (cases "b = 0")
  case False
  then have b: "0 < unat b" by (simp add: unat_gt_0)
  have "unat (- 1 :: u64) = 2 ^ 64 - 1" by (simp add: unsigned_minus_1_eq_mask mask_eq_exp_minus_1)
  then have "a \<le> (- 1) div b \<longleftrightarrow> unat a * unat b \<le> 2 ^ 64 - 1"
    using b by (simp add: word_le_nat_alt unat_div less_eq_div_iff_mult_less_eq)
  then show ?thesis using False by (auto simp: checked_mul_def)
qed (simp add: checked_mul_def)

definition sample_grant :: "DmaRegion list" where
  "sample_grant = [\<lparr>dr_base = 0x80000000, dr_size = 0x2800\<rparr>]"

lemma sample_grant_whole:
  "(\<exists>r \<in> set sample_grant. whole_page r a) \<longleftrightarrow> 0x80000000 \<le> unat a \<and> unat a < 0x80002000"
  by (simp add: sample_grant_def whole_page_iff in_pages_def)

theorem domain_is_the_grant_witness:
  "\<exists>m. build_identity_domain Sv39 frame_closure 0x40000000 sample_frames (\<lambda>t. pt_new) sample_grant = (Inr (), m) \<and>
     translate Sv39 m 0x80001234 = Some (0x80001234, granted Sv39 user_data) \<and>
     translate Sv39 m 0x80002000 = None"
proof -
  have F: "Sv39 \<in> set formats" by (simp add: formats_def cpu_formats_def)
  let ?b = "build_identity_domain Sv39 frame_closure 0x40000000 sample_frames (\<lambda>t. pt_new) sample_grant"
  have "fst ?b = Inr ()" by code_simp
  then obtain m where r: "?b = (Inr (), m)" by (metis prod.collapse)
  have "0x40000000 \<notin> free_frames sample_frames \<union> {}" using sample_root_used by simp
  note d = domain_is_the_grant [OF F sample_frames_ok this _ r, THEN conjunct2, THEN conjunct1, rule_format]
  have zero: "pt_new i = 0" for i by (simp add: pt_new_def)
  have "\<forall>a. translate Sv39 m a = (if \<exists>r \<in> set sample_grant. whole_page r a
      then Some (a, granted Sv39 user_data) else None)"
    by (intro allI d) (simp_all only: zero)
  then have tr: "translate Sv39 m a = (if 0x80000000 \<le> unat a \<and> unat a < 0x80002000
      then Some (a, granted Sv39 user_data) else None)" for a
    unfolding sample_grant_whole by blast
  have "translate Sv39 m 0x80001234 = Some (0x80001234, granted Sv39 user_data)"
    "translate Sv39 m 0x80002000 = None" unfolding tr by simp_all
  with r show ?thesis by blast
qed

text \<open>An allocator with three free frames: a root and the two tables below it.\<close>

definition roomy_frames :: PageFrameAllocator where
  "roomy_frames =
     \<lparr>pf_bitmap = [0xf1], pf_base = 0x40000000, pf_total = 6, pf_used = 3, pf_hint = 0\<rparr>"

lemma roomy_frames_used: "used_set roomy_frames = {0, 4, 5}"
proof -
  have "used_set roomy_frames = set (filter (bm_get [0xf1]) [0..<6])"
    by (auto simp: used_set_def roomy_frames_def)
  also have "\<dots> = {0, 4, 5}" by code_simp
  finally show ?thesis .
qed

lemma roomy_frames_ok: "frames_ok {} roomy_frames"
  unfolding frames_ok_def pf_inv_def roomy_frames_used by (simp add: roomy_frames_def)

lemma roomy_frames_low:
  assumes "f \<in> free_frames roomy_frames"
  shows "unat f < 0x40006000"
proof -
  have inv: "pf_inv roomy_frames" using roomy_frames_ok by (simp add: frames_ok_def)
  obtain i where "f = frame_addr roomy_frames i" "i < 6"
    using assms by (auto simp: free_frames_def free_at_def roomy_frames_def)
  then show ?thesis
    using unat_frame_addr [OF inv, of i] by (simp add: roomy_frames_def)
qed

theorem confined_device_witness:
  "\<exists>root m. confine Sv39 [] roomy_frames (\<lambda>t. pt_new) 8 sample_grant = Some ((8, root, 8), m) \<and>
     translate Sv39 m 0x80001234 = Some (0x80001234, granted Sv39 user_data) \<and>
     translate Sv39 m 0x80002000 = None \<and> translate Sv39 m root = None"
proof -
  have F: "Sv39 \<in> set formats" by (simp add: formats_def cpu_formats_def)
  have "map_option fst (confine Sv39 [] roomy_frames (\<lambda>t. pt_new) 8 sample_grant) = Some (8, 0x40001000, 8)"
    by code_simp
  then obtain m where r: "confine Sv39 [] roomy_frames (\<lambda>t. pt_new) 8 sample_grant = Some ((8, 0x40001000, 8), m)"
    by (auto simp: map_option_case split: option.splits)
  have apart: "\<forall>r \<in> set (add_reserved [] sample_grant). \<forall>f \<in> free_frames roomy_frames. \<not> whole_page r f"
  proof (intro ballI notI)
    fix r f assume "r \<in> set (add_reserved [] sample_grant)" "f \<in> free_frames roomy_frames" "whole_page r f"
    then show False using sample_grant_whole [of f] roomy_frames_low [of f] by auto
  qed
  note c = confined_device [OF F roomy_frames_ok apart r]
  have tr: "translate Sv39 m a = (if 0x80000000 \<le> unat a \<and> unat a < 0x80002000
      then Some (a, granted Sv39 user_data) else None)" for a
    using c by (simp add: sample_grant_whole)
  have "translate Sv39 m 0x80001234 = Some (0x80001234, granted Sv39 user_data)"
    "translate Sv39 m 0x80002000 = None" "translate Sv39 m 0x40001000 = None" unfolding tr by simp_all
  with r show ?thesis by blast
qed

end
