(* ===== verification/Work_Steal.thy ===== *)
theory Work_Steal
  imports Prelude
begin

text \<open>The work-steal request slot of \<open>src/crates/work_steal_slot/src/lib.rs\<close>: one atomic word, zero when
  empty and the requesting core's number plus one otherwise.  Each operation is a single atomic access
  of that word, so every execution is an interleaving of whole operations.\<close>


section \<open>The slot\<close>

record Slot =
  inner :: u32

definition EMPTY :: u32 where "EMPTY = 0"

definition MAX_REQUESTER :: u32 where "MAX_REQUESTER = - 1 - 1"

definition new_slot :: Slot where "new_slot = \<lparr>inner = EMPTY\<rparr>"

definition claim :: "Slot \<Rightarrow> u32 \<Rightarrow> bool \<times> Slot" where
  "claim s requester =
     (case checked_add requester 1 of
        None \<Rightarrow> (False, s)
      | Some encoded \<Rightarrow> if inner s = EMPTY then (True, s\<lparr>inner := encoded\<rparr>) else (False, s))"

definition peek :: "Slot \<Rightarrow> u32 option" where
  "peek s = (if inner s = EMPTY then None else Some (inner s - 1))"

definition take_request :: "Slot \<Rightarrow> u32 option \<times> Slot" where
  "take_request s = (if inner s = EMPTY then None else Some (inner s - 1), s\<lparr>inner := EMPTY\<rparr>)"


section \<open>Every accepted request is delivered once\<close>

datatype slot_op = Claim u32 | Peek | Take

datatype slot_answer = Claimed bool | Peeked "u32 option" | Taken "u32 option"

fun slot_step :: "slot_op \<Rightarrow> Slot \<Rightarrow> slot_answer \<times> Slot" where
  "slot_step (Claim r) s = (case claim s r of (b, s) \<Rightarrow> (Claimed b, s))"
| "slot_step Peek s = (Peeked (peek s), s)"
| "slot_step Take s = (case take_request s of (r, s) \<Rightarrow> (Taken r, s))"

fun slot_run :: "slot_op list \<Rightarrow> Slot \<Rightarrow> slot_answer list \<times> Slot" where
  "slot_run [] s = ([], s)"
| "slot_run (x # xs) s = (let (a, s) = slot_step x s; (as, s) = slot_run xs s in (a # as, s))"

text \<open>The requests that were accepted and the requests that were delivered, in order.\<close>

fun slot_accepted :: "slot_op \<times> slot_answer \<Rightarrow> u32 list" where
  "slot_accepted (Claim r, Claimed True) = [r]"
| "slot_accepted _ = []"

fun slot_delivered :: "slot_op \<times> slot_answer \<Rightarrow> u32 list" where
  "slot_delivered (Take, Taken (Some r)) = [r]"
| "slot_delivered _ = []"

definition outstanding :: "Slot \<Rightarrow> u32 list" where
  "outstanding s = (case peek s of None \<Rightarrow> [] | Some r \<Rightarrow> [r])"

lemma bias_nonzero:
  assumes "checked_add r (1 :: u32) = Some e"
  shows "e \<noteq> 0" and "e - 1 = r"
  using checked_add_SomeD [OF assms] by auto

lemma slot_step_outstanding:
  assumes "slot_step x s = (a, s')"
  shows "outstanding s @ slot_accepted (x, a) = slot_delivered (x, a) @ outstanding s'"
  using assms
proof (cases x)
  case (Claim r)
  then show ?thesis
    using assms bias_nonzero [of r]
    by (cases "checked_add r 1")
       (auto simp: claim_def outstanding_def peek_def EMPTY_def split: if_splits)
qed (auto simp: take_request_def outstanding_def peek_def split: if_splits)

lemma slot_run_outstanding:
  "slot_run xs s = (as, s') \<Longrightarrow>
    outstanding s @ concat (map slot_accepted (zip xs as)) = concat (map slot_delivered (zip xs as)) @ outstanding s'"
proof (induction xs arbitrary: s as)
  case (Cons x xs)
  obtain a s1 where x: "slot_step x s = (a, s1)" by (cases "slot_step x s")
  obtain as1 where xs: "slot_run xs s1 = (as1, s')" "as = a # as1"
    using Cons.prems x by (auto split: prod.splits)
  have "outstanding s @ slot_accepted (x, a) @ concat (map slot_accepted (zip xs as1))
      = slot_delivered (x, a) @ outstanding s1 @ concat (map slot_accepted (zip xs as1))"
    using slot_step_outstanding [OF x] by (metis append_assoc)
  then show ?case using Cons.IH [OF xs(1)] xs(2) by simp
qed simp

text \<open>C40. A steal request is delivered exactly once, to one taker, in the order the requests were
  accepted, whatever the interleaving of claims, looks and takes by any number of cores: the
  delivered requests followed by the one still in the slot are the accepted requests.  A claim is
  accepted exactly when the slot is empty and the requester is not past \<open>MAX_REQUESTER\<close>, and a
  refused claim leaves the slot alone.\<close>

theorem steal_request_delivered_once:
  "case slot_run xs new_slot of (as, s) \<Rightarrow>
     concat (map slot_accepted (zip xs as)) = concat (map slot_delivered (zip xs as)) @ outstanding s
     \<and> (\<forall>r. claim s r = (if peek s = None \<and> r \<le> MAX_REQUESTER then (True, \<lparr>inner = r + 1\<rparr>) else (False, s)))"
proof -
  obtain as s where run: "slot_run xs new_slot = (as, s)" by (cases "slot_run xs new_slot")
  have "(unat r + unat (1 :: u32) < 2 ^ 32) = (r \<le> - 1 - 1)" for r :: u32
    using unat_less_len [of r] by (simp add: word_le_nat_alt) arith
  then have "claim s r = (if peek s = None \<and> r \<le> MAX_REQUESTER then (True, \<lparr>inner = r + 1\<rparr>) else (False, s))" for r
    by (auto simp: claim_def checked_add_def peek_def MAX_REQUESTER_def)
  with slot_run_outstanding [OF run] show ?thesis
    by (simp add: run) (simp add: outstanding_def new_slot_def peek_def)
qed

end
