(* ===== verification/Wake_Handshake.thy ===== *)
theory Wake_Handshake
  imports Prelude
begin

text \<open>The block and wake handshake of one thread, \<open>src/crates/thread_wake_handshake/src/lib.rs\<close>: its
  run state, whether a core still stands on its stack, a wake that arrived while it did, and what it
  waits on.  Every transition is one critical section of the scheduler's lock, so it is a function on
  the record.  A \<open>debug_assert!\<close> is part of a debug build only: the transitions that have one take the
  build as their first argument and answer \<open>None\<close> where the assertion panics.\<close>


section \<open>The state of the handshake\<close>

datatype RunState = Embryo | Ready | Running | Blocked | Finished | Dead

datatype WakeVerdict = NotBlocked | Refused | Deferred | Queue

datatype SwitchOutVerdict = SwitchReap | WakeCompleted | Cleared

record 'w Handshake =
  state :: RunState
  on_cpu :: bool
  wake_pending :: bool
  wait_on :: "'w option"
  ipc_served :: bool
  ipc_aborted :: bool

definition on_cpu_now :: "'w Handshake" where
  "on_cpu_now = \<lparr>state = Running, on_cpu = True, wake_pending = False, wait_on = None,
     ipc_served = False, ipc_aborted = False\<rparr>"

definition ready :: "'w Handshake" where
  "ready = \<lparr>state = Ready, on_cpu = False, wake_pending = False, wait_on = None,
     ipc_served = False, ipc_aborted = False\<rparr>"

definition embryo :: "'w Handshake" where
  "embryo = \<lparr>state = Embryo, on_cpu = False, wake_pending = False, wait_on = None,
     ipc_served = False, ipc_aborted = False\<rparr>"


section \<open>The transitions\<close>

definition debug_assert :: "bool \<Rightarrow> bool \<Rightarrow> bool" where
  "debug_assert debug_assertions b \<longleftrightarrow> (debug_assertions \<longrightarrow> b)"

definition park :: "bool \<Rightarrow> 'w \<Rightarrow> 'w Handshake \<Rightarrow> 'w Handshake option" where
  "park dbg w h =
     (if debug_assert dbg (state h = Running)
      then Some (h\<lparr>state := Blocked, wait_on := Some w, ipc_served := False\<rparr>)
      else None)"

definition serve :: "'w Handshake \<Rightarrow> 'w Handshake" where
  "serve h = h\<lparr>ipc_served := True\<rparr>"

definition abort :: "'w Handshake \<Rightarrow> 'w Handshake" where
  "abort h = h\<lparr>ipc_aborted := True\<rparr>"

definition is_delivered :: "'w Handshake \<Rightarrow> bool" where
  "is_delivered h \<longleftrightarrow> ipc_served h \<or> ipc_aborted h"

definition take_aborted :: "'w Handshake \<Rightarrow> bool \<times> 'w Handshake" where
  "take_aborted h = (ipc_aborted h, h\<lparr>ipc_aborted := False\<rparr>)"

definition try_wake :: "'w Handshake \<Rightarrow> WakeVerdict \<times> 'w Handshake" where
  "try_wake h =
     (if state h \<noteq> Blocked then (NotBlocked, h)
      else if wait_on h \<noteq> None \<and> \<not> is_delivered h then (Refused, h)
      else if on_cpu h then (Deferred, h\<lparr>wake_pending := True\<rparr>)
      else (Queue, h\<lparr>state := Ready, wait_on := None\<rparr>))"

definition switch_in :: "bool \<Rightarrow> 'w Handshake \<Rightarrow> 'w Handshake option" where
  "switch_in dbg h =
     (if debug_assert dbg (\<not> on_cpu h) \<and> debug_assert dbg (state h = Ready \<or> state h = Running)
      then Some (h\<lparr>state := Running, on_cpu := True\<rparr>)
      else None)"

definition preempt :: "bool \<Rightarrow> 'w Handshake \<Rightarrow> 'w Handshake option" where
  "preempt dbg h =
     (if debug_assert dbg (state h = Running) then Some (h\<lparr>state := Ready\<rparr>) else None)"

definition finish_switch_out :: "'w Handshake \<Rightarrow> SwitchOutVerdict \<times> 'w Handshake" where
  "finish_switch_out h =
     (if state h = Finished then (SwitchReap, h)
      else let h = h\<lparr>on_cpu := False\<rparr> in
        if wake_pending h then (WakeCompleted, h\<lparr>wake_pending := False, state := Ready, wait_on := None\<rparr>)
        else (Cleared, h))"

lemmas handshake_defs = park_def serve_def abort_def is_delivered_def take_aborted_def try_wake_def
  switch_in_def preempt_def finish_switch_out_def debug_assert_def

lemma is_delivered_upd [simp]:
  "is_delivered (h\<lparr>state := s\<rparr>) = is_delivered h" "is_delivered (h\<lparr>on_cpu := b\<rparr>) = is_delivered h"
  "is_delivered (h\<lparr>wake_pending := b\<rparr>) = is_delivered h" "is_delivered (h\<lparr>wait_on := w\<rparr>) = is_delivered h"
  "is_delivered (serve h)" "is_delivered (abort h)"
  by (simp_all add: is_delivered_def serve_def abort_def)

end
