(* ===== verification/Cpu_Set.thy ===== *)
theory Cpu_Set
  imports Prelude
begin

text \<open>The online set as mask arithmetic, \<open>src/crates/cpu_set/src/lib.rs\<close>: the iterator over the set bits
  of a mask, and the \<open>k\<close>-th cpu of it, wrapping.  A \<open>usize\<close> mask is a 64-bit word on the three
  targets.\<close>


section \<open>The iterator and the sampler\<close>

definition count_ones :: "'a::len word \<Rightarrow> nat" where
  "count_ones w = length (filter (bit w) [0..<LENGTH('a)])"

definition cpus_next :: "u64 \<Rightarrow> nat option \<times> u64" where
  "cpus_next m = (if m = 0 then (None, m) else (Some (trailing_zeros m), m AND (m - 1)))"

definition cpus_size_hint :: "u64 \<Rightarrow> nat \<times> nat option" where
  "cpus_size_hint m = (count_ones m, Some (count_ones m))"

text \<open>What a \<open>for\<close> loop over the iterator visits.\<close>

function cpus_in :: "u64 \<Rightarrow> nat list" where
  "cpus_in m = (case cpus_next m of (None, _) \<Rightarrow> [] | (Some i, m') \<Rightarrow> i # cpus_in m')"
  by pat_completeness auto
termination
  by (relation "measure unat")
     (auto simp: cpus_next_def word_less_nat_alt [symmetric] clear_lowest_less split: if_splits)

declare cpus_in.simps [simp del]

definition nth_in :: "u64 \<Rightarrow> nat \<Rightarrow> nat option" where
  "nth_in m k =
     (let n = count_ones m in
      if n = 0 then None
      else let xs = cpus_in m in if k mod n < length xs then Some (xs ! (k mod n)) else None)"


section \<open>What they return\<close>

lemma cpus_in_set_bits: "cpus_in m = set_bits_of m"
proof (induction m rule: cpus_in.induct)
  case (1 m)
  show ?case
  proof (cases "m = 0")
    case True
    then show ?thesis by (subst cpus_in.simps) (simp add: cpus_next_def)
  next
    case False
    then show ?thesis using 1 set_bits_of_step [OF False]
      by (subst cpus_in.simps) (simp add: cpus_next_def)
  qed
qed

lemma set_cpus_in [simp]: "set (cpus_in m) = {c. bit m c}"
  by (simp add: cpus_in_set_bits)

lemma length_cpus_in: "length (cpus_in m) = count_ones m"
  by (simp add: cpus_in_set_bits set_bits_of_def count_ones_def)

lemma count_ones_zero: "count_ones (m :: u64) = 0 \<longleftrightarrow> m = 0"
proof -
  have "count_ones m = 0 \<longleftrightarrow> set (cpus_in m) = {}" by (simp add: length_cpus_in [symmetric] del: set_cpus_in)
  also have "\<dots> \<longleftrightarrow> m = 0" by (auto simp: word_eq_0_iff_bits dest: bit_u64_less)
  finally show ?thesis .
qed

lemma mod_count_ones: "(m :: u64) \<noteq> 0 \<Longrightarrow> k mod count_ones m < count_ones m"
  using count_ones_zero [of m] by (intro mod_less_divisor) simp

lemma nth_in_eq: "nth_in m k = (if m = 0 then None else Some (cpus_in m ! (k mod count_ones m)))"
  by (simp add: nth_in_def Let_def length_cpus_in count_ones_zero mod_count_ones)

lemma nth_in_online:
  assumes "nth_in m k = Some c"
  shows "bit m c"
proof -
  have "m \<noteq> 0" and c: "c = cpus_in m ! (k mod count_ones m)"
    using assms by (auto simp: nth_in_eq split: if_splits)
  then have "k mod count_ones m < length (cpus_in m)" by (simp add: length_cpus_in mod_count_ones)
  then have "c \<in> set (cpus_in m)" unfolding c by (rule nth_mem)
  then show ?thesis by simp
qed

end
