(* ===== verification/Kernel_State.thy ===== *)
theory Kernel_State
  imports Capability Ipc_Rendezvous Ipc_Notification Generational_Table Wake_Handshake Work_Steal Cpu_Set
    "HOL-Library.Monad_Syntax"
begin

text \<open>The state of the scheduler and of the IPC tables, composed from the crates: the thread record of
  \<open>src/kernel/src/thread.rs\<close>, the per-CPU block of \<open>src/kernel/src/cpu.rs\<close>, and the tables
  \<open>src/kernel/src/sched.rs\<close> keeps under the \<open>IPC_TABLES\<close> lock.  The threads, the rendezvous and the
  notifications are named through generational tables; a thread's capability table is the crate's; and
  every queue of the machine (the run queues, the migration inboxes, the wait queues of every
  rendezvous and notification) is an intrusive queue over one link per thread, \<open>links\<close>.

  \<open>resuming\<close> stands for the position on a thread's kernel stack: it is set when the thread parks inside a
  blocking call and cleared when the call reads the delivery after its \<open>schedule\<close> returns.  \<open>replying\<close> does the
  same for a thread that has answered a call and still has to empty the slot it answered from.
  \<open>on_interrupt_stack\<close> says where a core's stack pointer stands: \<open>interrupt_stack::contains\<close> of it.

  A thread's control block is one page, so a pointer to it is written as its name.  A function runs on
  the core \<open>c\<close> it is given.  \<open>None\<close> is a panic.  What the hardware adds is the set \<open>sgis\<close> of cores with a
  reschedule interrupt pending; \<open>owed\<close> lists the interrupts a core has decided to send and will send once
  it has released the lock.\<close>

unbundle bit_operations_syntax


section \<open>Threads\<close>

type_synonym ThreadId = u64
type_synonym RendezvousId = u64
type_synonym NotificationId = u64

datatype WaitRole = RoleSender | RoleReceiver | RoleReply

datatype Waiting = WaitRendezvous RendezvousId WaitRole | WaitNotification NotificationId

datatype Object =
    ObRendezvous RendezvousId u64
  | ObMemoryRegion u64
  | ObIrq u32
  | ObPageFrame u64 u64
  | ObDeviceFrame u64
  | ObReply ThreadId
  | ObAddressSpace u64
  | ObThreadControlBlock ThreadId
  | ObNotification NotificationId
  | ObTimer u64
  | ObVirtio nat
  | ObPortRange u16 u16

definition CAPABILITY_TABLE_SLOTS :: nat where "CAPABILITY_TABLE_SLOTS = 32"

definition reply_cap :: "ThreadId \<Rightarrow> Object Cap" where
  "reply_cap tid = \<lparr>object = ObReply tid, rights = RIGHTS_WRITE\<rparr>"

record Thread =
  handshake :: "Waiting Handshake"
  placement :: u8
  space :: "u64 option"
  capability_table :: "Object CapabilityTable"
  mailbox :: "u64 list"
  outgoing_cap :: "Object Cap option"
  cap_delivered :: bool
  ipc_refused :: bool
  entry :: "u64 \<times> u64"
  start_args :: "u64 list"
  killed :: bool
  fault_ep :: "RendezvousId option"
  thread_control_block_region :: "u64 option"
  fault_msg :: "u64 list option"
  bound_notification :: "NotificationId option"
  thread_page :: u64
  resuming :: bool
  replying :: "u64 option"

definition new_thread :: "Waiting Handshake \<Rightarrow> u64 \<Rightarrow> Thread" where
  "new_thread h page =
     \<lparr>handshake = h, placement = - 1, space = None, capability_table = new_table CAPABILITY_TABLE_SLOTS,
      mailbox = [0, 0, 0, 0, 0], outgoing_cap = None, cap_delivered = False, ipc_refused = False,
      entry = (0, 0), start_args = [0, 0, 0], killed = False, fault_ep = None,
      thread_control_block_region = None, fault_msg = None, bound_notification = None, thread_page = page, resuming = False,
      replying = None\<rparr>"

definition boot_thread :: "u64 \<Rightarrow> Thread" where
  "boot_thread page = new_thread on_cpu_now page"

definition adopt_current :: "u64 \<Rightarrow> Thread" where
  "adopt_current page = new_thread on_cpu_now page"

definition write_kernel_thread :: "u64 \<Rightarrow> Thread" where
  "write_kernel_thread page = new_thread ready page"

definition embryo_thread :: "u64 \<Rightarrow> Thread" where
  "embryo_thread page = new_thread embryo page"


section \<open>The per-CPU block\<close>

definition NO_TID :: ThreadId where "NO_TID = - 1"

record PerCpu =
  current :: ThreadId
  idle :: ThreadId
  need_resched :: bool
  switched_from :: ThreadId
  runq :: "ThreadId Fifo"
  inbox :: "ThreadId Fifo"
  runq_len :: nat
  inbox_len :: nat
  steal_request :: Slot
  switches :: u64
  rng :: u32
  adopted :: u64
  on_interrupt_stack :: bool

definition new_percpu :: PerCpu where
  "new_percpu =
     \<lparr>current = NO_TID, idle = NO_TID, need_resched = False, switched_from = NO_TID,
      runq = new_fifo, inbox = new_fifo, runq_len = 0, inbox_len = 0, steal_request = new_slot,
      switches = 0, rng = 1, adopted = 0,
      on_interrupt_stack = False\<rparr>"

definition init_this_cpu :: "nat \<Rightarrow> PerCpu \<Rightarrow> PerCpu" where
  "init_this_cpu c p = p\<lparr>rng := (0x2545F491 XOR (of_nat c * 0x9E3779B9)) OR 1\<rparr>"

definition runnable :: "PerCpu \<Rightarrow> nat" where
  "runnable p = runq_len p + inbox_len p"

definition note_inbox_len :: "nat \<Rightarrow> PerCpu \<Rightarrow> PerCpu" where
  "note_inbox_len n p = p\<lparr>inbox_len := n\<rparr>"

definition note_adopted :: "u64 \<Rightarrow> PerCpu \<Rightarrow> PerCpu" where
  "note_adopted n p = p\<lparr>adopted := adopted p + n\<rparr>"

definition rng_next :: "PerCpu \<Rightarrow> u32 \<times> PerCpu" where
  "rng_next p =
     (let x = rng p;
          x = x XOR push_bit 13 x;
          x = x XOR drop_bit 17 x;
          x = x XOR push_bit 5 x
      in (x, p\<lparr>rng := x\<rparr>))"


section \<open>The tables\<close>

record NotificationPage =
  nt_phys :: u64
  nt_state :: "ThreadId Notification"
  nt_bound :: "ThreadId option"

record Kernel =
  debug_assertions :: bool
  links :: "ThreadId links"
  threads :: "Thread Table"
  rendezvous_table :: "(u64 \<times> ThreadId Rendezvous) Table"
  notification_table :: "NotificationPage Table"
  percpu :: "PerCpu list"
  online :: nat
  online_mask :: u64
  irq_routes :: "u32 \<Rightarrow> u64"
  cap_peak_seen :: u32
  sgis :: "nat set"
  owed :: "nat list"

definition get_thread :: "Kernel \<Rightarrow> ThreadId \<Rightarrow> Thread option" where
  "get_thread k tid = gt_get (threads k) tid"

text \<open>A write through \<open>get_mut\<close>, and the same where the source unwraps the lookup.\<close>

definition upd_thread :: "Kernel \<Rightarrow> ThreadId \<Rightarrow> (Thread \<Rightarrow> Thread) \<Rightarrow> Kernel" where
  "upd_thread k tid f = k\<lparr>threads := gt_update (threads k) tid f\<rparr>"

definition unwrap_thread :: "Kernel \<Rightarrow> ThreadId \<Rightarrow> (Thread \<Rightarrow> Thread option) \<Rightarrow> Kernel option" where
  "unwrap_thread k tid f =
     do { t \<leftarrow> get_thread k tid; t' \<leftarrow> f t; Some (upd_thread k tid (\<lambda>_. t')) }"

definition remove_thread :: "Kernel \<Rightarrow> ThreadId \<Rightarrow> Kernel" where
  "remove_thread k tid = k\<lparr>threads := snd (gt_remove (threads k) tid)\<rparr>"

definition cpu_of :: "Kernel \<Rightarrow> nat \<Rightarrow> PerCpu" where
  "cpu_of k c = percpu k ! c"

definition upd_cpu :: "Kernel \<Rightarrow> nat \<Rightarrow> (PerCpu \<Rightarrow> PerCpu) \<Rightarrow> Kernel" where
  "upd_cpu k c f = k\<lparr>percpu := (percpu k)[c := f (percpu k ! c)]\<rparr>"

definition current_thread_id :: "Kernel \<Rightarrow> nat \<Rightarrow> ThreadId" where
  "current_thread_id k c = current (cpu_of k c)"

text \<open>\<open>with_runq\<close>, and the push that is its most common body.\<close>

definition with_runq ::
    "(ThreadId links \<Rightarrow> ThreadId Fifo \<Rightarrow> 'r \<times> ThreadId links \<times> ThreadId Fifo) \<Rightarrow> Kernel \<Rightarrow> nat
      \<Rightarrow> 'r \<times> Kernel" where
  "with_runq f k c =
     (case f (links k) (runq (cpu_of k c)) of
        (r, h, q) \<Rightarrow> (r, upd_cpu (k\<lparr>links := h\<rparr>) c (\<lambda>p. p\<lparr>runq := q, runq_len := fifo_len q\<rparr>)))"

definition runq_push :: "Kernel \<Rightarrow> nat \<Rightarrow> ThreadId \<Rightarrow> Kernel" where
  "runq_push k c tid =
     snd (with_runq (\<lambda>h q. case push_back h q tid of (h, q) \<Rightarrow> ((), h, q)) k c)"

text \<open>The push into a locked inbox, with its length mirror.\<close>

definition inbox_push :: "Kernel \<Rightarrow> nat \<Rightarrow> ThreadId \<Rightarrow> Kernel option" where
  "inbox_push k target tid =
     (if target < length (percpu k)
      then (case push_back (links k) (inbox (cpu_of k target)) tid of
              (h, q) \<Rightarrow> Some (upd_cpu (k\<lparr>links := h\<rparr>) target
                          (\<lambda>p. note_inbox_len (fifo_len q) (p\<lparr>inbox := q\<rparr>))))
      else None)"

definition send_reschedule :: "Kernel \<Rightarrow> nat \<Rightarrow> Kernel" where
  "send_reschedule k target = k\<lparr>sgis := insert target (sgis k)\<rparr>"

definition rendezvous_of :: "Kernel \<Rightarrow> RendezvousId \<Rightarrow> ThreadId Rendezvous option" where
  "rendezvous_of k ep = map_option snd (gt_get (rendezvous_table k) ep)"

definition put_rendezvous :: "Kernel \<Rightarrow> RendezvousId \<Rightarrow> ThreadId links \<Rightarrow> ThreadId Rendezvous \<Rightarrow> Kernel" where
  "put_rendezvous k ep h r =
     k\<lparr>links := h, rendezvous_table := gt_update (rendezvous_table k) ep (\<lambda>(phys, _). (phys, r))\<rparr>"

definition notification_of :: "Kernel \<Rightarrow> NotificationId \<Rightarrow> NotificationPage option" where
  "notification_of k n = gt_get (notification_table k) n"

definition put_notification ::
    "Kernel \<Rightarrow> NotificationId \<Rightarrow> ThreadId links \<Rightarrow> ThreadId Notification \<Rightarrow> Kernel" where
  "put_notification k n h s =
     k\<lparr>links := h, notification_table := gt_update (notification_table k) n (\<lambda>p. p\<lparr>nt_state := s\<rparr>)\<rparr>"

end
