(* ===== verification/Kernel_Sched.thy ===== *)
theory Kernel_Sched
  imports Kernel_State
begin

text \<open>The scheduler of \<open>src/kernel/src/sched.rs\<close>: bring-up, placement and work stealing between cores,
  waking a blocked thread, and the two halves of a context switch.  Each definition is one critical
  section of the source.  Between \<open>schedule\<close> and the \<open>finish_switch\<close> of the thread it switched to, the
  core runs with interrupts masked: that window is \<open>switched_from\<close> holding a thread.\<close>

unbundle bit_operations_syntax


section \<open>Placement\<close>

definition place_on :: "Kernel \<Rightarrow> nat \<Rightarrow> nat \<Rightarrow> ThreadId \<Rightarrow> (nat option \<times> Kernel) option" where
  "place_on k c target tid =
     (if \<not> debug_assert (debug_assertions k) (target = c \<or> bit (online_mask k) target) then None
      else if target = c then Some (None, runq_push k c tid)
      else do { k \<leftarrow> inbox_push k target tid; Some (Some target, k) })"

text \<open>The reschedule interrupt a placement owes is sent by its caller once the lock is released.\<close>

definition owe :: "nat option \<Rightarrow> Kernel \<Rightarrow> Kernel" where
  "owe remote k = (case remote of None \<Rightarrow> k | Some target \<Rightarrow> k\<lparr>owed := target # owed k\<rparr>)"

definition send_owed :: "Kernel \<Rightarrow> nat \<Rightarrow> Kernel" where
  "send_owed k target = send_reschedule (k\<lparr>owed := remove1 target (owed k)\<rparr>) target"

definition online_count :: "Kernel \<Rightarrow> nat" where
  "online_count k = online k + 1"

definition online_cpus :: "Kernel \<Rightarrow> nat list" where
  "online_cpus k = cpus_in (online_mask k)"

definition nth_online :: "Kernel \<Rightarrow> nat \<Rightarrow> nat \<Rightarrow> nat" where
  "nth_online k c n = (case nth_in (online_mask k) n of None \<Rightarrow> c | Some i \<Rightarrow> i)"

definition pick_spawn_target :: "Kernel \<Rightarrow> nat \<Rightarrow> nat \<times> Kernel" where
  "pick_spawn_target k c =
     (if online_count k \<le> 1 then (c, k)
      else let (r, p) = rng_next (cpu_of k c);
               a = nth_online k c (unat r);
               k = upd_cpu k c (\<lambda>_. p);
               (r, p) = rng_next (cpu_of k c);
               b = nth_online k c (unat r);
               k = upd_cpu k c (\<lambda>_. p)
           in (if runnable (cpu_of k a) \<le> runnable (cpu_of k b) then a else b, k))"

definition pick_wake_target :: "Kernel \<Rightarrow> nat \<Rightarrow> nat" where
  "pick_wake_target k here =
     fst (fold (\<lambda>c (best, best_load).
                  if c = here then (best, best_load)
                  else let load = runnable (cpu_of k c)
                       in if load < best_load then (c, load) else (best, best_load))
            (online_cpus k) (here, runnable (cpu_of k here)))"

text \<open>\<open>Threads::insert_in_place\<close>: the page may not be had, the table may be full, and the builder may
  decline for want of a kernel stack, in which case the fresh name is taken back out.\<close>

definition insert_in_place :: "Kernel \<Rightarrow> u64 option \<Rightarrow> bool \<Rightarrow> (u64 \<Rightarrow> Thread) \<Rightarrow> ThreadId option \<times> Kernel" where
  "insert_in_place k page stack build =
     (case page of
        None \<Rightarrow> (None, k)
      | Some page \<Rightarrow>
          (case insert_with (threads k) (\<lambda>_. build page) of
             (None, _) \<Rightarrow> (None, k)
           | (Some name, t) \<Rightarrow>
               if stack then (Some name, k\<lparr>threads := t\<rparr>)
               else (None, k\<lparr>threads := snd (gt_remove t name)\<rparr>)))"

definition spawn_on ::
    "Kernel \<Rightarrow> nat \<Rightarrow> nat \<Rightarrow> u64 option \<Rightarrow> bool \<Rightarrow> (ThreadId option \<times> Kernel) option" where
  "spawn_on k c target page stack =
     (case insert_in_place k page stack write_kernel_thread of
        (None, k) \<Rightarrow> Some (None, k)
      | (Some tid, k) \<Rightarrow>
          let k = upd_thread k tid (\<lambda>t. t\<lparr>placement := of_nat target\<rparr>)
          in do { (remote, k) \<leftarrow> place_on k c target tid; Some (Some tid, owe remote k) })"

definition spawn :: "Kernel \<Rightarrow> nat \<Rightarrow> u64 option \<Rightarrow> bool \<Rightarrow> (ThreadId option \<times> Kernel) option" where
  "spawn k c page stack = (case pick_spawn_target k c of (target, k) \<Rightarrow> spawn_on k c target page stack)"


section \<open>Migration and work stealing\<close>

definition drain_inbox :: "Kernel \<Rightarrow> nat \<Rightarrow> Kernel option" where
  "drain_inbox k c =
     do {
       (h, q, k, moved) \<leftarrow>
         drain_with pop_front
           (\<lambda>tid h (k, moved). let k = runq_push (k\<lparr>links := h\<rparr>) c tid in (links k, k, moved + 1))
           (links k) (inbox (cpu_of k c)) (k, 0 :: u64);
       let k = upd_cpu (k\<lparr>links := h\<rparr>) c (\<lambda>p. note_adopted moved (note_inbox_len (fifo_len q) (p\<lparr>inbox := q\<rparr>)));
       Some (if moved > 0 then upd_cpu k c (\<lambda>p. p\<lparr>need_resched := True\<rparr>) else k)
     }"

definition serve_steal_request :: "Kernel \<Rightarrow> nat \<Rightarrow> Kernel option" where
  "serve_steal_request k c =
     (case take_request (steal_request (cpu_of k c)) of
        (request, s) \<Rightarrow>
          let k = upd_cpu k c (\<lambda>p. p\<lparr>steal_request := s\<rparr>)
          in (case request of
                None \<Rightarrow> Some k
              | Some requester \<Rightarrow>
                  (case with_runq pop_front k c of
                     (None, k) \<Rightarrow> Some k
                   | (Some tid, k) \<Rightarrow>
                       do { k \<leftarrow> inbox_push k (unat requester) tid;
                            Some (send_reschedule k (unat requester)) })))"

text \<open>The handler of the reschedule interrupt.\<close>

definition resched_interrupt :: "Kernel \<Rightarrow> nat \<Rightarrow> Kernel option" where
  "resched_interrupt k c =
     do { k \<leftarrow> drain_inbox (k\<lparr>sgis := sgis k - {c}\<rparr>) c; serve_steal_request k c }"

definition try_initiate_steal :: "Kernel \<Rightarrow> nat \<Rightarrow> Kernel" where
  "try_initiate_steal k me =
     (if runnable (cpu_of k me) > 0 then k
      else
        let (victim, _) =
              fold (\<lambda>c (victim, best).
                      if c \<noteq> me then
                        let r = runq_len (cpu_of k c) in if r > best then (Some c, r) else (victim, best)
                      else (victim, best))
                (online_cpus k) (None, 0)
        in (case victim of
              None \<Rightarrow> k
            | Some v \<Rightarrow>
                (case claim (steal_request (cpu_of k v)) (of_nat me) of
                   (claimed, s) \<Rightarrow>
                     let k = upd_cpu k v (\<lambda>p. p\<lparr>steal_request := s\<rparr>)
                     in if claimed then send_reschedule k v else k)))"


section \<open>Waking\<close>

definition wake :: "Kernel \<Rightarrow> nat \<Rightarrow> ThreadId \<Rightarrow> Kernel" where
  "wake k c tid =
     (case get_thread k tid of
        None \<Rightarrow> k
      | Some t \<Rightarrow>
          (case try_wake (handshake t) of
             (verdict, h) \<Rightarrow>
               let k = upd_thread k tid (\<lambda>t. t\<lparr>handshake := h\<rparr>)
               in if verdict = Queue then runq_push k c tid else k))"

definition wake_load_aware :: "Kernel \<Rightarrow> nat \<Rightarrow> ThreadId \<Rightarrow> (nat option \<times> Kernel) option" where
  "wake_load_aware k c tid =
     (case get_thread k tid of
        None \<Rightarrow> Some (None, k)
      | Some t \<Rightarrow>
          (case try_wake (handshake t) of
             (verdict, h) \<Rightarrow>
               let k = upd_thread k tid (\<lambda>t. t\<lparr>handshake := h\<rparr>)
               in if verdict = Queue then place_on k c (pick_wake_target k c) tid else Some (None, k)))"

datatype WakePlacement = PlaceLocal | PlaceLoadAware

fun wake_placed :: "Kernel \<Rightarrow> nat \<Rightarrow> ThreadId \<Rightarrow> WakePlacement \<Rightarrow> (nat option \<times> Kernel) option" where
  "wake_placed k c tid PlaceLocal = Some (None, wake k c tid)"
| "wake_placed k c tid PlaceLoadAware = wake_load_aware k c tid"

definition set_ipc_aborted :: "Kernel \<Rightarrow> ThreadId \<Rightarrow> Kernel" where
  "set_ipc_aborted k tid =
     upd_thread k tid (\<lambda>t. t\<lparr>handshake := abort (handshake t), outgoing_cap := None\<rparr>)"

definition set_ipc_refused :: "Kernel \<Rightarrow> ThreadId \<Rightarrow> Kernel" where
  "set_ipc_refused k tid =
     upd_thread k tid (\<lambda>t. t\<lparr>handshake := abort (handshake t), ipc_refused := True\<rparr>)"

definition take_ipc_aborted :: "Kernel \<Rightarrow> nat \<Rightarrow> bool \<times> Kernel" where
  "take_ipc_aborted k c =
     (let tid = current_thread_id k c in
      case get_thread k tid of
        None \<Rightarrow> (False, k)
      | Some t \<Rightarrow> (case take_aborted (handshake t) of
                     (b, h) \<Rightarrow> (b, upd_thread k tid (\<lambda>t. t\<lparr>handshake := h\<rparr>))))"

definition take_ipc_refused :: "Kernel \<Rightarrow> nat \<Rightarrow> bool \<times> Kernel" where
  "take_ipc_refused k c =
     (let tid = current_thread_id k c in
      case get_thread k tid of
        None \<Rightarrow> (False, k)
      | Some t \<Rightarrow> (ipc_refused t, upd_thread k tid (\<lambda>t. t\<lparr>ipc_refused := False\<rparr>)))"


section \<open>The callers a thread will never answer\<close>

definition awaits_reply :: "Thread \<Rightarrow> bool" where
  "awaits_reply t = (case wait_on (handshake t) of Some (WaitRendezvous _ RoleReply) \<Rightarrow> True | _ \<Rightarrow> False)"

definition drop_reply_caps :: "ThreadId \<Rightarrow> Thread \<Rightarrow> Thread" where
  "drop_reply_caps caller t =
     (let t = t\<lparr>capability_table := fst (delete_matching (capability_table t, 0) (\<lambda>ob. ob = ObReply caller))\<rparr>
      in if map_option object (outgoing_cap t) = Some (ObReply caller) then t\<lparr>outgoing_cap := None\<rparr> else t)"

definition delete_reply_caps_naming :: "Kernel \<Rightarrow> ThreadId \<Rightarrow> Kernel" where
  "delete_reply_caps_naming k caller =
     k\<lparr>threads := (threads k)\<lparr>gt_slots :=
        map (map_option (drop_reply_caps caller)) (take (gt_top (threads k)) (gt_slots (threads k)))
        @ drop (gt_top (threads k)) (gt_slots (threads k))\<rparr>\<rparr>"

definition strand_reply_caller :: "Kernel \<Rightarrow> nat \<Rightarrow> ThreadId \<Rightarrow> bool \<times> Kernel" where
  "strand_reply_caller k c caller =
     (let parked = (case get_thread k caller of None \<Rightarrow> False | Some t \<Rightarrow> awaits_reply t) in
      if \<not> parked then (False, k)
      else let k = delete_reply_caps_naming k caller;
               k = set_ipc_aborted k caller
           in (True, wake k c caller))"

definition reply_victims :: "Object CapabilityTable \<Rightarrow> ThreadId list" where
  "reply_victims cs =
     List.map_filter
       (\<lambda>i. case get cs (of_nat i) of
              Inr cap \<Rightarrow> (case object cap of ObReply caller \<Rightarrow> Some caller | _ \<Rightarrow> None)
            | Inl _ \<Rightarrow> None)
       [0..<capacity cs]"

definition strand_callers_of :: "Kernel \<Rightarrow> nat \<Rightarrow> ThreadId \<Rightarrow> Kernel" where
  "strand_callers_of k c tid =
     (case get_thread k tid of
        None \<Rightarrow> k
      | Some t \<Rightarrow>
          if cap_used (capability_table t) = 0 then k
          else fold (\<lambda>caller k. snd (strand_reply_caller k c caller)) (reply_victims (capability_table t)) k)"


section \<open>The context switch\<close>

definition finish_killed_current :: "Kernel \<Rightarrow> nat \<Rightarrow> ThreadId \<Rightarrow> Kernel" where
  "finish_killed_current k c tid =
     (let k = upd_thread k tid (\<lambda>t. t\<lparr>handshake := (handshake t)\<lparr>state := Finished\<rparr>\<rparr>)
      in strand_callers_of k c tid)"

definition heal_self_pop :: "Kernel \<Rightarrow> ThreadId \<Rightarrow> Kernel option" where
  "heal_self_pop k tid =
     (if debug_assertions k then None
      else Some (upd_thread k tid (\<lambda>t. t\<lparr>handshake := (handshake t)\<lparr>state := Running\<rparr>\<rparr>)))"

definition upd_handshake ::
    "(Waiting Handshake \<Rightarrow> Waiting Handshake option) \<Rightarrow> Thread \<Rightarrow> Thread option" where
  "upd_handshake f t = map_option (\<lambda>h. t\<lparr>handshake := h\<rparr>) (f (handshake t))"

text \<open>The tail of the decision, once the next thread is chosen.\<close>

definition switch_threads :: "Kernel \<Rightarrow> nat \<Rightarrow> ThreadId \<Rightarrow> bool \<Rightarrow> ThreadId \<Rightarrow> ThreadId \<Rightarrow> Kernel option" where
  "switch_threads k c cur runs idle_tid nxt =
     (if nxt = cur then heal_self_pop k cur
      else do {
        k \<leftarrow> (if runs \<and> cur \<noteq> idle_tid
              then do { k \<leftarrow> unwrap_thread k cur (upd_handshake (preempt (debug_assertions k)));
                        Some (runq_push k c cur) }
              else Some k);
        k \<leftarrow> unwrap_thread k nxt (upd_handshake (switch_in (debug_assertions k)));
        Some (upd_cpu k c (\<lambda>p. p\<lparr>current := nxt, switched_from := cur, switches := switches p + 1\<rparr>))
      })"

definition schedule :: "Kernel \<Rightarrow> nat \<Rightarrow> Kernel option" where
  "schedule k c =
     (if debug_assertions k \<and> on_interrupt_stack (cpu_of k c) then None
      else let cur = current_thread_id k c;
          k = (case get_thread k cur of
                 Some t \<Rightarrow> if killed t \<and> state (handshake t) = Running then finish_killed_current k c cur else k
               | None \<Rightarrow> k);
          runs = (map_option (\<lambda>t. state (handshake t)) (get_thread k cur) = Some Running);
          idle_tid = idle (cpu_of k c)
      in (case with_runq pop_front k c of
            (Some nxt, k) \<Rightarrow> switch_threads k c cur runs idle_tid nxt
          | (None, k) \<Rightarrow>
              if runs then Some k
              else if idle_tid = NO_TID \<or> cur = idle_tid then None
              else switch_threads k c cur runs idle_tid idle_tid))"

definition finish_switch :: "Kernel \<Rightarrow> nat \<Rightarrow> Kernel" where
  "finish_switch k c =
     (let prev = switched_from (cpu_of k c);
          k = upd_cpu k c (\<lambda>p. p\<lparr>switched_from := NO_TID\<rparr>)
      in if prev = NO_TID then k
         else (case get_thread k prev of
                 None \<Rightarrow> k
               | Some t \<Rightarrow>
                   (case finish_switch_out (handshake t) of
                      (verdict, h) \<Rightarrow>
                        let k = upd_thread k prev (\<lambda>t. t\<lparr>handshake := h\<rparr>)
                        in (case verdict of
                              SwitchReap \<Rightarrow> remove_thread k prev
                            | WakeCompleted \<Rightarrow> runq_push k c prev
                            | Cleared \<Rightarrow> k))))"

text \<open>The first line of \<open>on_tick\<close>.\<close>

definition set_need_resched :: "Kernel \<Rightarrow> nat \<Rightarrow> Kernel" where
  "set_need_resched k c = upd_cpu k c (\<lambda>p. p\<lparr>need_resched := True\<rparr>)"

definition preempt_if_needed :: "Kernel \<Rightarrow> nat \<Rightarrow> Kernel option" where
  "preempt_if_needed k c =
     (let wanted = need_resched (cpu_of k c);
          k = upd_cpu k c (\<lambda>p. p\<lparr>need_resched := False\<rparr>)
      in if wanted then schedule k c else Some k)"


section \<open>Bring-up\<close>

definition sched_init :: "bool \<Rightarrow> nat \<Rightarrow> nat \<Rightarrow> nat \<Rightarrow> nat \<Rightarrow> nat \<Rightarrow> u64 \<Rightarrow> u64 \<Rightarrow> Kernel option" where
  "sched_init dbg max_cpus max_threads max_rendezvous max_notifications c boot_page idle_page =
     (let k = \<lparr>debug_assertions = dbg, links = (\<lambda>_. None), threads = new_gt max_threads,
               rendezvous_table = new_gt max_rendezvous, notification_table = new_gt max_notifications,
               percpu = replicate max_cpus new_percpu, online = 0, online_mask = bit_mask c,
               irq_routes = (\<lambda>_. 0), cap_peak_seen = 0, sgis = {}, owed = []\<rparr>;
          k = upd_cpu k c (init_this_cpu c)
      in (case insert_with (threads k) (\<lambda>_. boot_thread boot_page) of
            (None, _) \<Rightarrow> None
          | (Some boot_tid, t) \<Rightarrow>
              let k = upd_cpu (k\<lparr>threads := t\<rparr>) c (\<lambda>p. p\<lparr>current := boot_tid\<rparr>)
              in (case insert_in_place k (Some idle_page) True write_kernel_thread of
                    (None, _) \<Rightarrow> None
                  | (Some idle_id, k) \<Rightarrow> Some (upd_cpu k c (\<lambda>p. p\<lparr>idle := idle_id\<rparr>)))))"

definition adopt_secondary_idle :: "Kernel \<Rightarrow> nat \<Rightarrow> u64 option \<Rightarrow> Kernel option" where
  "adopt_secondary_idle k c page =
     (case page of
        None \<Rightarrow> None
      | Some page \<Rightarrow>
          (case insert_with (threads k) (\<lambda>_. adopt_current page) of
             (None, _) \<Rightarrow> None
           | (Some tid, t) \<Rightarrow> Some (upd_cpu (k\<lparr>threads := t\<rparr>) c (\<lambda>p. p\<lparr>current := tid, idle := tid\<rparr>))))"

definition come_online :: "Kernel \<Rightarrow> nat \<Rightarrow> Kernel" where
  "come_online k c = k\<lparr>online := online k + 1, online_mask := online_mask k OR bit_mask c\<rparr>"

end
