(* ===== verification/Kernel_Ipc.thy ===== *)
theory Kernel_Ipc
  imports Kernel_Sched
begin

text \<open>The blocking calls of \<open>src/kernel/src/sched.rs\<close>: send, receive, their capability-carrying forms, call
  and reply, the interrupt's delivery, and the notification calls.  A definition is the critical section
  up to the \<open>schedule\<close> a blocking call makes: it tells whether the call parked the thread.  What the call
  does when that \<open>schedule\<close> returns is a definition of its own, named after the call with \<open>_resume\<close>.\<close>

unbundle bit_operations_syntax


section \<open>Shared pieces\<close>

definition thread_control_block_ptr :: "Kernel \<Rightarrow> ThreadId \<Rightarrow> ThreadId option" where
  "thread_control_block_ptr k tid = map_option (\<lambda>_. tid) (get_thread k tid)"

definition NO_CAP :: u64 where "NO_CAP = - 1"

definition BOUND :: u64 where "BOUND = 2"

definition REPLY_DELIVERED :: u64 where "REPLY_DELIVERED = 1"

definition reply_tag :: "u64 \<Rightarrow> u64" where
  "reply_tag s = (if s = NO_CAP then 0 else REPLY_DELIVERED)"

definition wide :: "u64 list \<Rightarrow> u64 \<Rightarrow> u64 list" where
  "wide m badge = [m ! 0, m ! 1, m ! 2, badge, 0]"

definition bound_delivery :: "u64 \<Rightarrow> u64 list" where
  "bound_delivery w = [BOUND, w, 0, 0, BOUND]"

definition carries_reply :: "Object Cap option \<Rightarrow> bool" where
  "carries_reply cap = (case map_option object cap of Some (ObReply _) \<Rightarrow> True | _ \<Rightarrow> False)"

text \<open>The current thread parks, and will resume inside the call.\<close>

definition park_current :: "Kernel \<Rightarrow> ThreadId \<Rightarrow> Waiting \<Rightarrow> (Thread \<Rightarrow> Thread) \<Rightarrow> Kernel option" where
  "park_current k tid w f =
     unwrap_thread k tid
       (\<lambda>t. do { h \<leftarrow> park (debug_assertions k) w (handshake t); Some ((f t)\<lparr>handshake := h, resuming := True\<rparr>) })"

text \<open>A delivery: the mailbox is filled and the wait is over.\<close>

definition deliver :: "Kernel \<Rightarrow> ThreadId \<Rightarrow> (Thread \<Rightarrow> Thread) \<Rightarrow> Kernel option" where
  "deliver k tid f = unwrap_thread k tid (\<lambda>t. Some ((f t)\<lparr>handshake := serve (handshake t)\<rparr>))"

text \<open>\<open>capability_table.insert(cap).unwrap_or(NO_CAP)\<close> on a thread the source unwraps.\<close>

definition insert_into :: "Kernel \<Rightarrow> ThreadId \<Rightarrow> Object Cap \<Rightarrow> (u64 \<times> Kernel) option" where
  "insert_into k tid cap =
     do { t \<leftarrow> get_thread k tid;
          Some (case insert_cap (capability_table t, cap_peak_seen k) cap of
                  (r, cs, seen) \<Rightarrow>
                    (case r of Inl _ \<Rightarrow> NO_CAP | Inr s \<Rightarrow> s,
                     upd_thread (k\<lparr>cap_peak_seen := seen\<rparr>) tid (\<lambda>t. t\<lparr>capability_table := cs\<rparr>))) }"


section \<open>Rendezvous and interrupts\<close>

definition MAX_INTID :: nat where
  "MAX_INTID = 256"

text \<open>The marking under the lock, and after it the store that publishes the route: nothing under the lock
  reads the routes.\<close>

definition mark_bound :: "Kernel \<Rightarrow> RendezvousId \<Rightarrow> Kernel" where
  "mark_bound k ep =
     (case rendezvous_of k ep of
        None \<Rightarrow> k
      | Some r \<Rightarrow> put_rendezvous k ep (links k) (bind_to_interrupt r))"

definition bind_irq :: "Kernel \<Rightarrow> u32 \<Rightarrow> RendezvousId \<Rightarrow> Kernel option" where
  "bind_irq k intid ep =
     (if \<not> unat intid < MAX_INTID then None
      else let k = mark_bound k ep
           in Some (k\<lparr>irq_routes := (irq_routes k)(intid := ep + 1)\<rparr>))"

definition irq_route :: "Kernel \<Rightarrow> u32 \<Rightarrow> RendezvousId option" where
  "irq_route k intid =
     (if unat intid \<ge> MAX_INTID then None
      else if irq_routes k intid = 0 then None
      else Some (irq_routes k intid - 1))"

lemma intid_in_range [code_unfold]: "unat (intid :: u32) < MAX_INTID \<longleftrightarrow> intid < 256"
  by (simp add: MAX_INTID_def word_less_nat_alt)

text \<open>A bound interrupt is routed to its rendezvous, and no other route moves.\<close>

lemma irq_route_bind:
  assumes "bind_irq k intid ep = Some k'" and "ep + 1 \<noteq> 0"
  shows "irq_route k' i = (if i = intid then Some ep else irq_route (mark_bound k ep) i)"
  using assms by (auto simp: bind_irq_def irq_route_def Let_def split: if_splits)

definition irq_notify :: "Kernel \<Rightarrow> nat \<Rightarrow> RendezvousId \<Rightarrow> Kernel option" where
  "irq_notify k c ep =
     (case rendezvous_of k ep of
        None \<Rightarrow> Some k
      | Some r \<Rightarrow>
          (case rv_signal (links k) r of
             (woken, h, r) \<Rightarrow>
               let k = put_rendezvous k ep h r
               in (case woken of
                     None \<Rightarrow> Some k
                   | Some waiter \<Rightarrow>
                       do { k \<leftarrow> deliver k waiter (\<lambda>t. t\<lparr>mailbox := [1, 0, 0, 0, 0]\<rparr>);
                            (remote, k) \<leftarrow> wake_load_aware k c waiter;
                            Some (owe remote k) })))"

definition ipc_send_badged ::
    "Kernel \<Rightarrow> nat \<Rightarrow> RendezvousId \<Rightarrow> u64 list \<Rightarrow> u64 \<Rightarrow> (bool \<times> Kernel) option" where
  "ipc_send_badged k c ep msg badge =
     (let msg = wide msg badge; cur = current_thread_id k c
      in do {
        me \<leftarrow> thread_control_block_ptr k cur;
        (case rendezvous_of k ep of
           None \<Rightarrow> Some (False, set_ipc_aborted k cur)
         | Some r \<Rightarrow>
             (case send (links k) r me of
                (verdict, h, r) \<Rightarrow>
                  let k = put_rendezvous k ep h r
                  in (case verdict of
                        Send_Rendezvous receiver \<Rightarrow>
                          do { k \<leftarrow> deliver k receiver (\<lambda>t. t\<lparr>mailbox := msg\<rparr>);
                               Some (False, wake k c receiver) }
                      | Send_Blocked \<Rightarrow>
                          do { k \<leftarrow> park_current k cur (WaitRendezvous ep RoleSender) (\<lambda>t. t\<lparr>mailbox := msg\<rparr>);
                               Some (True, k) }
                      | Send_Refused \<Rightarrow> Some (False, set_ipc_refused k cur)))) })"

definition take_bound_signal :: "Kernel \<Rightarrow> ThreadId \<Rightarrow> u64 option \<times> Kernel" where
  "take_bound_signal k tid =
     (case Option.bind (get_thread k tid) bound_notification of
        None \<Rightarrow> (None, k)
      | Some n \<Rightarrow>
          (case notification_of k n of
             None \<Rightarrow> (None, k)
           | Some page \<Rightarrow>
               (case poll (nt_state page) of
                  (w, s) \<Rightarrow> (if w = 0 then None else Some w, put_notification k n (links k) s))))"

text \<open>The sender a plain receive collects: a caller is left waiting for a reply it cannot be given here, and
  a corpse waits for nothing any more.\<close>

definition collect_sender :: "Kernel \<Rightarrow> nat \<Rightarrow> ThreadId \<Rightarrow> (u64 list \<times> Kernel) option" where
  "collect_sender k c sender =
     do {
       s \<leftarrow> get_thread k sender;
       let leave_blocked = carries_reply (outgoing_cap s) \<or> state (handshake s) = Dead;
       let k = (if \<not> leave_blocked
                then wake (upd_thread k sender (\<lambda>t. t\<lparr>outgoing_cap := None, handshake := serve (handshake t)\<rparr>)) c sender
                else if state (handshake s) = Dead
                then upd_thread k sender (\<lambda>t. t\<lparr>handshake := (handshake t)\<lparr>wait_on := None\<rparr>\<rparr>)
                else k);
       Some (mailbox s, k)
     }"

definition ipc_receive :: "Kernel \<Rightarrow> nat \<Rightarrow> RendezvousId \<Rightarrow> (u64 list option \<times> Kernel) option" where
  "ipc_receive k c ep =
     (let cur = current_thread_id k c
      in do {
        me \<leftarrow> thread_control_block_ptr k cur;
        (case rendezvous_of k ep of
           None \<Rightarrow> Some (Some [0, 0, 0, 0, 0], set_ipc_aborted k cur)
         | Some r \<Rightarrow>
             (case take_bound_signal k cur of
                (Some w, k) \<Rightarrow> Some (Some (bound_delivery w), k)
              | (None, k) \<Rightarrow>
                  (case receive (links k) r me of
                     (verdict, h, r) \<Rightarrow>
                       let k = put_rendezvous k ep h r
                       in (case verdict of
                             Receive_Signal \<Rightarrow> Some (Some [1, 0, 0, 0, 0], k)
                           | Receive_FromSender sender \<Rightarrow>
                               do { (msg, k) \<leftarrow> collect_sender k c sender; Some (Some msg, k) }
                           | Receive_Blocked \<Rightarrow>
                               do { k \<leftarrow> park_current k cur (WaitRendezvous ep RoleReceiver) (\<lambda>t. t);
                                    Some (None, k) })))) })"

text \<open>After the \<open>schedule\<close>: the current thread has been delivered to, and returns its mailbox.\<close>

definition resume_with :: "(Thread \<Rightarrow> 'r) \<Rightarrow> Kernel \<Rightarrow> nat \<Rightarrow> ('r \<times> Kernel) option" where
  "resume_with f k c =
     (let cur = current_thread_id k c
      in do {
        t \<leftarrow> get_thread k cur;
        if \<not> debug_assert (debug_assertions k) (is_delivered (handshake t)) then None
        else Some (f t, upd_thread k cur (\<lambda>t. t\<lparr>resuming := False\<rparr>)) })"

definition ipc_receive_resume :: "Kernel \<Rightarrow> nat \<Rightarrow> (u64 list \<times> Kernel) option" where
  "ipc_receive_resume k c = resume_with mailbox k c"

text \<open>A parked send returns without looking at its delivery.\<close>

definition ipc_send_resume :: "Kernel \<Rightarrow> nat \<Rightarrow> Kernel" where
  "ipc_send_resume k c = upd_thread k (current_thread_id k c) (\<lambda>t. t\<lparr>resuming := False\<rparr>)"


section \<open>Delegation\<close>

definition ipc_send_cap ::
    "Kernel \<Rightarrow> nat \<Rightarrow> RendezvousId \<Rightarrow> u64 \<Rightarrow> Object Cap \<Rightarrow> u64 \<Rightarrow> (bool \<times> Kernel) option" where
  "ipc_send_cap k c ep dat cap badge =
     (let cur = current_thread_id k c
      in do {
        me \<leftarrow> thread_control_block_ptr k cur;
        (case rendezvous_of k ep of
           None \<Rightarrow> Some (False, set_ipc_aborted k cur)
         | Some r \<Rightarrow>
             (case send (links k) r me of
                (verdict, h, r) \<Rightarrow>
                  let k = put_rendezvous k ep h r
                  in (case verdict of
                        Send_Rendezvous receiver \<Rightarrow>
                          do { (s, k) \<leftarrow> insert_into k receiver cap;
                               k \<leftarrow> deliver k receiver (\<lambda>t. t\<lparr>mailbox := [dat, s, 0, badge, 0], cap_delivered := True\<rparr>);
                               Some (False, wake k c receiver) }
                      | Send_Blocked \<Rightarrow>
                          do { k \<leftarrow> park_current k cur (WaitRendezvous ep RoleSender)
                                     (\<lambda>t. t\<lparr>mailbox := [dat, 0, 0, badge, 0], outgoing_cap := Some cap\<rparr>);
                               Some (True, k) }
                      | Send_Refused \<Rightarrow> Some (False, set_ipc_refused k cur)))) })"

text \<open>The sender a \<open>RECEIVE_CAP\<close> collects: its capability moves to the receiver, and a caller stays blocked.\<close>

definition collect_sender_cap :: "Kernel \<Rightarrow> nat \<Rightarrow> ThreadId \<Rightarrow> ThreadId \<Rightarrow> (u64 list \<times> Kernel) option" where
  "collect_sender_cap k c cur sender =
     do {
       s \<leftarrow> get_thread k sender;
       let msg = mailbox s;
       let cap = outgoing_cap s;
       let k = upd_thread k sender (\<lambda>t. t\<lparr>outgoing_cap := None\<rparr>);
       let is_reply = carries_reply cap;
       (slot, k) \<leftarrow> (case cap of Some cap \<Rightarrow> insert_into k cur cap | None \<Rightarrow> Some (NO_CAP, k));
       k \<leftarrow> (if is_reply then Some k
             else do { k \<leftarrow> deliver k sender (\<lambda>t. t); Some (wake k c sender) });
       Some ([msg ! 0, slot, msg ! 1, msg ! 3, if is_reply then reply_tag slot else 0], k)
     }"

definition ipc_receive_cap :: "Kernel \<Rightarrow> nat \<Rightarrow> RendezvousId \<Rightarrow> (u64 list option \<times> Kernel) option" where
  "ipc_receive_cap k c ep =
     (let cur = current_thread_id k c
      in do {
        me \<leftarrow> thread_control_block_ptr k cur;
        (case rendezvous_of k ep of
           None \<Rightarrow> Some (Some [0, 0, 0, 0, 0], set_ipc_aborted k cur)
         | Some r \<Rightarrow>
             (case take_bound_signal k cur of
                (Some w, k) \<Rightarrow> Some (Some (bound_delivery w), k)
              | (None, k) \<Rightarrow>
                  (case receive (links k) r me of
                     (verdict, h, r) \<Rightarrow>
                       let k = put_rendezvous k ep h r
                       in (case verdict of
                             Receive_Signal \<Rightarrow> Some (Some [1, NO_CAP, 0, 0, 0], k)
                           | Receive_FromSender sender \<Rightarrow>
                               do { (msg, k) \<leftarrow> collect_sender_cap k c cur sender; Some (Some msg, k) }
                           | Receive_Blocked \<Rightarrow>
                               do { k \<leftarrow> park_current k cur (WaitRendezvous ep RoleReceiver)
                                          (\<lambda>t. t\<lparr>cap_delivered := False\<rparr>);
                                    Some (None, k) })))) })"

definition ipc_receive_cap_resume :: "Kernel \<Rightarrow> nat \<Rightarrow> (u64 list \<times> Kernel) option" where
  "ipc_receive_cap_resume k c =
     resume_with
       (\<lambda>t. let m = mailbox t
            in if cap_delivered t \<or> m ! 4 = BOUND then m else [m ! 0, NO_CAP, m ! 1, m ! 3, 0]) k c"


section \<open>Call and reply\<close>

definition ipc_call_badged ::
    "Kernel \<Rightarrow> nat \<Rightarrow> RendezvousId \<Rightarrow> u64 list \<Rightarrow> u64 \<Rightarrow> (bool \<times> Kernel) option" where
  "ipc_call_badged k c ep msg badge =
     (let cur = current_thread_id k c; reply = reply_cap cur
      in do {
        me \<leftarrow> thread_control_block_ptr k cur;
        (case rendezvous_of k ep of
           None \<Rightarrow> Some (False, set_ipc_aborted k cur)
         | Some r \<Rightarrow>
             (case send (links k) r me of
                (verdict, h, r) \<Rightarrow>
                  let k = put_rendezvous k ep h r
                  in (case verdict of
                        Send_Rendezvous receiver \<Rightarrow>
                          do { (s, k) \<leftarrow> insert_into k receiver reply;
                               k \<leftarrow> deliver k receiver
                                      (\<lambda>t. t\<lparr>mailbox := [msg ! 0, s, msg ! 1, badge, reply_tag s], cap_delivered := True\<rparr>);
                               let k = wake k c receiver;
                               k \<leftarrow> park_current k cur (WaitRendezvous ep RoleReply) (\<lambda>t. t);
                               Some (True, k) }
                      | Send_Blocked \<Rightarrow>
                          do { k \<leftarrow> park_current k cur (WaitRendezvous ep RoleReply)
                                     (\<lambda>t. t\<lparr>mailbox := [msg ! 0, msg ! 1, 0, badge, 0], outgoing_cap := Some reply\<rparr>);
                               Some (True, k) }
                      | Send_Refused \<Rightarrow> Some (False, set_ipc_refused k cur)))) })"

definition ipc_call_resume :: "Kernel \<Rightarrow> nat \<Rightarrow> (u64 list \<times> Kernel) option" where
  "ipc_call_resume k c = resume_with (\<lambda>t. [mailbox t ! 0, mailbox t ! 1, mailbox t ! 2]) k c"

definition ipc_reply :: "Kernel \<Rightarrow> nat \<Rightarrow> ThreadId \<Rightarrow> u64 list \<Rightarrow> Kernel" where
  "ipc_reply k c caller msg =
     (case get_thread k caller of
        None \<Rightarrow> k
      | Some t \<Rightarrow>
          if \<not> awaits_reply t then k
          else wake (upd_thread k caller
                       (\<lambda>t. t\<lparr>mailbox := [msg ! 0, msg ! 1, 0, 0, 0], handshake := serve (handshake t)\<rparr>)) c caller)"

definition current_cap :: "Kernel \<Rightarrow> nat \<Rightarrow> u64 \<Rightarrow> Error + Object Cap" where
  "current_cap k c s =
     (case get_thread k (current_thread_id k c) of
        None \<Rightarrow> Inl NoSuchSlot
      | Some t \<Rightarrow> get (capability_table t) s)"

definition delete_current_cap :: "Kernel \<Rightarrow> nat \<Rightarrow> u64 \<Rightarrow> (Error + unit) \<times> Kernel" where
  "delete_current_cap k c s =
     (let cur = current_thread_id k c
      in case get_thread k cur of
           None \<Rightarrow> (Inl NoSuchSlot, k)
         | Some t \<Rightarrow>
             (case delete (capability_table t, cap_peak_seen k) s of
                (r, cs, seen) \<Rightarrow>
                  (r, upd_thread (k\<lparr>cap_peak_seen := seen\<rparr>) cur (\<lambda>t. t\<lparr>capability_table := cs, replying := None\<rparr>))))"


section \<open>The method checks of the system call\<close>

text \<open>The error word of a system call.\<close>

datatype Invoke_Error =
    IeNoSuchSlot
  | IeWrongObject
  | IeNotPermitted
  | IeBadPointer
  | IeBadMethod
  | IeBadSyscall
  | IeOutOfMemory
  | IeDeviceRefused
  | IeStillAlive
  | IeNotSupervised
  | IeGone

text \<open>\<open>Rendezvous::SEND_CAP\<close>: what may be delegated.\<close>

definition delegated_cap :: "Kernel \<Rightarrow> nat \<Rightarrow> u64 \<Rightarrow> u64 \<Rightarrow> Invoke_Error + Object Cap" where
  "delegated_cap k c s new_rights =
     (case current_cap k c s of
        Inl _ \<Rightarrow> Inl IeNoSuchSlot
      | Inr src \<Rightarrow>
          if \<not> allows (rights src) RIGHTS_GRANT then Inl IeNotPermitted
          else let narrowed = from_bits (ucast new_rights)
               in if \<not> is_subset_of narrowed (rights src) then Inl IeNotPermitted
                  else Inr \<lparr>object = object src, rights = narrowed\<rparr>)"

text \<open>\<open>Reply::REPLY\<close>, first half: the answer.  The second half is \<open>delete_current_cap\<close> on the same slot, before
  the core can be interrupted.\<close>

definition reply_invoke :: "Kernel \<Rightarrow> nat \<Rightarrow> u64 \<Rightarrow> u64 list \<Rightarrow> (Invoke_Error + unit) \<times> Kernel" where
  "reply_invoke k c s msg =
     (case current_cap k c s of
        Inl _ \<Rightarrow> (Inl IeNoSuchSlot, k)
      | Inr cap \<Rightarrow>
          (case object cap of
             ObReply tid \<Rightarrow>
               if \<not> allows (rights cap) RIGHTS_WRITE then (Inl IeNotPermitted, k)
               else (Inr (),
                     ipc_reply (upd_thread k (current_thread_id k c) (\<lambda>t. t\<lparr>replying := Some s\<rparr>)) c tid msg)
           | _ \<Rightarrow> (Inl IeWrongObject, k)))"


section \<open>Notifications\<close>

definition bound_receiver :: "Kernel \<Rightarrow> NotificationPage \<Rightarrow> (ThreadId \<times> RendezvousId) option" where
  "bound_receiver k page =
     do {
       tid \<leftarrow> nt_bound page;
       t \<leftarrow> get_thread k tid;
       (case wait_on (handshake t) of
          Some (WaitRendezvous ep RoleReceiver) \<Rightarrow>
            if state (handshake t) = Blocked \<and> \<not> is_delivered (handshake t) then Some (tid, ep) else None
        | _ \<Rightarrow> None)
     }"

definition deliver_bound :: "Kernel \<Rightarrow> ThreadId \<Rightarrow> RendezvousId \<Rightarrow> u64 \<Rightarrow> Kernel option" where
  "deliver_bound k tid ep w =
     do {
       ptr \<leftarrow> thread_control_block_ptr k tid;
       (unlinked, k) \<leftarrow>
         (case rendezvous_of k ep of
            None \<Rightarrow> Some (False, k)
          | Some r \<Rightarrow> do { (found, h, r) \<leftarrow> remove_receiver (links k) r ptr; Some (found, put_rendezvous k ep h r) });
       if \<not> debug_assert (debug_assertions k) unlinked then None
       else deliver k tid (\<lambda>t. t\<lparr>mailbox := bound_delivery w\<rparr>)
     }"

definition signal_locked ::
    "Kernel \<Rightarrow> nat \<Rightarrow> NotificationId \<Rightarrow> u64 \<Rightarrow> WakePlacement \<Rightarrow> ((Invoke_Error + nat option) \<times> Kernel) option" where
  "signal_locked k c n new_bits how =
     (case notification_of k n of
        None \<Rightarrow> Some (Inl IeGone, k)
      | Some page \<Rightarrow>
          let bound = bound_receiver k page
          in (case nt_signal (links k) (nt_state page) new_bits (bound \<noteq> None) of
                (verdict, h, s) \<Rightarrow>
                  let k = put_notification k n h s
                  in (case verdict of
                        Woke tid w \<Rightarrow>
                          do { k \<leftarrow> deliver k tid (\<lambda>t. t\<lparr>mailbox := [w, 0, 0, 0, 0]\<rparr>);
                               (remote, k) \<leftarrow> wake_placed k c tid how;
                               Some (Inr remote, k) }
                      | ToBound w \<Rightarrow>
                          do { (tid, ep) \<leftarrow> bound;
                               k \<leftarrow> deliver_bound k tid ep w;
                               (remote, k) \<leftarrow> wake_placed k c tid how;
                               Some (Inr remote, k) }
                      | Counted \<Rightarrow> Some (Inr None, k)
                      | Empty_Signal \<Rightarrow> Some (Inr None, k))))"

definition notification_signal ::
    "Kernel \<Rightarrow> nat \<Rightarrow> NotificationId \<Rightarrow> u64 \<Rightarrow> ((Invoke_Error + unit) \<times> Kernel) option" where
  "notification_signal k c n new_bits =
     do { (r, k) \<leftarrow> signal_locked k c n new_bits PlaceLocal; Some (map_sum id (\<lambda>_. ()) r, k) }"

definition signal_notification_from_interrupt :: "Kernel \<Rightarrow> nat \<Rightarrow> NotificationId \<Rightarrow> u64 \<Rightarrow> Kernel option" where
  "signal_notification_from_interrupt k c n new_bits =
     do { (r, k) \<leftarrow> signal_locked k c n new_bits PlaceLoadAware;
          Some (owe (case r of Inl _ \<Rightarrow> None | Inr remote \<Rightarrow> remote) k) }"

definition notification_wait ::
    "Kernel \<Rightarrow> nat \<Rightarrow> NotificationId \<Rightarrow> ((Invoke_Error + u64 option) \<times> Kernel) option" where
  "notification_wait k c n =
     (let cur = current_thread_id k c
      in do {
        me \<leftarrow> thread_control_block_ptr k cur;
        (case notification_of k n of
           None \<Rightarrow> Some (Inl IeGone, k)
         | Some page \<Rightarrow>
             (case wait (links k) (nt_state page) me of
                (verdict, h, s) \<Rightarrow>
                  let k = put_notification k n h s
                  in (case verdict of
                        Wait_Word w \<Rightarrow> Some (Inr (Some w), k)
                      | Wait_Blocked \<Rightarrow>
                          do { k \<leftarrow> park_current k cur (WaitNotification n) (\<lambda>t. t);
                               Some (Inr None, k) }))) })"

definition notification_wait_resume :: "Kernel \<Rightarrow> nat \<Rightarrow> ((Invoke_Error + u64) \<times> Kernel) option" where
  "notification_wait_resume k c =
     do { (w, k) \<leftarrow> resume_with (\<lambda>t. mailbox t ! 0) k c;
          Some (case take_ipc_aborted k c of (aborted, k) \<Rightarrow> (if aborted then Inl IeGone else Inr w, k)) }"

definition notification_poll :: "Kernel \<Rightarrow> NotificationId \<Rightarrow> (Invoke_Error + u64) \<times> Kernel" where
  "notification_poll k n =
     (case notification_of k n of
        None \<Rightarrow> (Inl IeGone, k)
      | Some page \<Rightarrow> (case poll (nt_state page) of (w, s) \<Rightarrow> (Inr w, put_notification k n (links k) s)))"

definition notification_bind ::
    "Kernel \<Rightarrow> nat \<Rightarrow> NotificationId \<Rightarrow> ThreadId \<Rightarrow> ((Invoke_Error + unit) \<times> Kernel) option" where
  "notification_bind k c n tid =
     (case notification_of k n of
        None \<Rightarrow> Some (Inl IeGone, k)
      | Some page \<Rightarrow>
          if (case nt_bound page of None \<Rightarrow> False | Some b \<Rightarrow> get_thread k b \<noteq> None) then Some (Inl IeNotPermitted, k)
          else (case get_thread k tid of
                  None \<Rightarrow> Some (Inl IeGone, k)
                | Some t \<Rightarrow>
                    if state (handshake t) = Finished \<or> state (handshake t) = Dead then Some (Inl IeGone, k)
                    else if (case bound_notification t of None \<Rightarrow> False | Some m \<Rightarrow> notification_of k m \<noteq> None)
                    then Some (Inl IeNotPermitted, k)
                    else
                      let page = page\<lparr>nt_bound := Some tid\<rparr>;
                          k = k\<lparr>notification_table := gt_update (notification_table k) n (\<lambda>_. page)\<rparr>;
                          k = upd_thread k tid (\<lambda>t. t\<lparr>bound_notification := Some n\<rparr>)
                      in (case (if note_word (nt_state page) \<noteq> 0 then bound_receiver k page else None) of
                            None \<Rightarrow> Some (Inr (), k)
                          | Some (tid, ep) \<Rightarrow>
                              (case poll (nt_state page) of
                                 (w, s) \<Rightarrow>
                                   do { k \<leftarrow> deliver_bound (put_notification k n (links k) s) tid ep w;
                                        Some (Inr (), wake k c tid) }))))"


section \<open>Fresh objects\<close>

text \<open>The page comes from the region the caller names, or not at all.\<close>

definition create_rendezvous :: "Kernel \<Rightarrow> u64 option \<Rightarrow> RendezvousId option \<times> Kernel" where
  "create_rendezvous k page =
     (if gt_len (rendezvous_table k) \<ge> length (gt_slots (rendezvous_table k)) then (None, k)
      else case page of
        None \<Rightarrow> (None, k)
      | Some phys \<Rightarrow>
          (case insert_with (rendezvous_table k) (\<lambda>_. (phys, new_rendezvous)) of
             (n, T) \<Rightarrow> (n, k\<lparr>rendezvous_table := T\<rparr>)))"

definition create_notification :: "Kernel \<Rightarrow> u64 option \<Rightarrow> NotificationId option \<times> Kernel" where
  "create_notification k page =
     (if gt_len (notification_table k) \<ge> length (gt_slots (notification_table k)) then (None, k)
      else case page of
        None \<Rightarrow> (None, k)
      | Some phys \<Rightarrow>
          (case insert_with (notification_table k)
                  (\<lambda>_. \<lparr>nt_phys = phys, nt_state = new_notification, nt_bound = None\<rparr>) of
             (n, T) \<Rightarrow> (n, k\<lparr>notification_table := T\<rparr>)))"

end
