(* ===== verification/Kernel_Inv.thy ===== *)
theory Kernel_Inv
  imports Kernel_Sched
begin

text \<open>The invariant of the scheduler and the IPC tables, and the rules its preservation proofs are built
  from.  The invariant is local to a thread: it relates the thread's record to the queues it is on, the
  cores that name it as running, as just switched out, or as their idle thread, and the reply
  capabilities that name it.  \<open>ok_but A R k Q\<close> is the invariant with the threads \<open>A\<close> left out and with
  the interrupts \<open>R\<close> still to be recorded, so that an operation can be followed write by write.\<close>


section \<open>The queues of the machine\<close>

datatype queue_name =
  RunQ nat | Inbox nat | SendersOf RendezvousId | ReceiversOf RendezvousId | WaitersOf NotificationId

fun the_queue :: "Kernel \<Rightarrow> queue_name \<Rightarrow> ThreadId Fifo" where
  "the_queue k (RunQ c) = (if c < length (percpu k) then runq (percpu k ! c) else new_fifo)"
| "the_queue k (Inbox c) = (if c < length (percpu k) then inbox (percpu k ! c) else new_fifo)"
| "the_queue k (SendersOf ep) = (case rendezvous_of k ep of None \<Rightarrow> new_fifo | Some r \<Rightarrow> senders r)"
| "the_queue k (ReceiversOf ep) = (case rendezvous_of k ep of None \<Rightarrow> new_fifo | Some r \<Rightarrow> receivers r)"
| "the_queue k (WaitersOf n) = (case notification_of k n of None \<Rightarrow> new_fifo | Some p \<Rightarrow> waiters (nt_state p))"

type_synonym queues = "queue_name \<Rightarrow> ThreadId list"

definition queues_rep :: "ThreadId links \<Rightarrow> (queue_name \<Rightarrow> ThreadId Fifo) \<Rightarrow> queues \<Rightarrow> bool" where
  "queues_rep h F Q \<longleftrightarrow> (\<forall>q. fifo_rep h (F q) (Q q)) \<and> (\<forall>p q. p \<noteq> q \<longrightarrow> set (Q p) \<inter> set (Q q) = {})"

definition places :: "queues \<Rightarrow> ThreadId \<Rightarrow> queue_name set" where
  "places Q t = {q. t \<in> set (Q q)}"

lemma queues_rep_disjoint: "queues_rep h F Q \<Longrightarrow> p \<noteq> q \<Longrightarrow> set (Q p) \<inter> set (Q q) = {}"
  by (simp add: queues_rep_def)

lemma places_empty: "places Q t = {} \<longleftrightarrow> (\<forall>q. t \<notin> set (Q q))"
  by (auto simp: places_def)

lemma places_push: "places (Q(q := Q q @ [t])) u = (if u = t then insert q (places Q u) else places Q u)"
  by (auto simp: places_def)

lemma places_member: "queues_rep h F Q \<Longrightarrow> t \<in> set (Q q) \<Longrightarrow> places Q t = {q}"
  by (auto simp: places_def queues_rep_def)

lemma places_pop:
  assumes "queues_rep h F Q" and "Q q = t # ts"
  shows "places (Q(q := ts)) u = (if u = t then {} else places Q u)"
proof -
  have "distinct (Q q)" using assms(1) by (auto simp: queues_rep_def dest: fifo_rep_distinct)
  then have "t \<notin> set ts" using assms(2) by simp
  moreover have "t \<notin> set (Q p)" if "p \<noteq> q" for p
    using queues_rep_disjoint [OF assms(1) that] assms(2) by auto
  ultimately show ?thesis using assms(2) by (auto simp: places_def)
qed

lemma places_remove:
  assumes "queues_rep h F Q"
  shows "places (Q(q := filter (\<lambda>n. n \<noteq> t) (Q q))) u = (if u = t then places Q u - {q} else places Q u)"
  by (auto simp: places_def)

lemma queues_rep_fifo: "queues_rep h F Q \<Longrightarrow> fifo_rep h (F q) (Q q)"
  by (simp add: queues_rep_def)

lemma queues_repI:
  assumes "fifo_rep h (F q) xs" and "\<And>p. p \<noteq> q \<Longrightarrow> fifo_rep h (F p) (Q p)"
    and "\<And>p. p \<noteq> q \<Longrightarrow> set (Q p) \<inter> set xs = {}"
    and "\<And>p p'. p \<noteq> q \<Longrightarrow> p' \<noteq> q \<Longrightarrow> p \<noteq> p' \<Longrightarrow> set (Q p) \<inter> set (Q p') = {}"
  shows "queues_rep h F (Q(q := xs))"
  unfolding queues_rep_def
proof (intro conjI allI impI)
  show "fifo_rep h (F p) ((Q(q := xs)) p)" for p using assms(1,2) by (cases "p = q") auto
  show "set ((Q(q := xs)) p) \<inter> set ((Q(q := xs)) p') = {}" if "p \<noteq> p'" for p p'
    using assms(3) [of p] assms(3) [of p'] assms(4) [of p p'] that by (cases "p = q"; cases "p' = q") auto
qed

lemma queues_push:
  assumes rep: "queues_rep h F Q" and fresh: "places Q t = {}" and push: "push_back h (F q) t = (h', f)"
  shows "queues_rep h' (F(q := f)) (Q(q := Q q @ [t]))"
proof (rule queues_repI)
  note q = queues_rep_fifo [OF rep, of q]
  show "fifo_rep h' ((F(q := f)) q) (Q q @ [t])"
    using fifo_rep_push [OF q _ push] fresh by (simp add: places_empty)
  show "fifo_rep h' ((F(q := f)) p) (Q p)" if "p \<noteq> q" for p
    using fifo.rep_push_other [OF q push queues_rep_fifo [OF rep, of p]] that fresh
      queues_rep_disjoint [OF rep that] by (simp add: places_empty)
qed (use fresh queues_rep_disjoint [OF rep] in \<open>auto simp: places_empty\<close>)

lemma queues_pop_Nil: "queues_rep h F Q \<Longrightarrow> Q q = [] \<Longrightarrow> pop_front h (F q) = (None, h, F q)"
  using queues_rep_fifo [of h F Q q] by (simp add: fifo_rep_pop_Nil)

lemma queues_pop_Cons:
  assumes rep: "queues_rep h F Q" and q: "Q q = t # ts"
  obtains f where "pop_front h (F q) = (Some t, h(t := None), f)"
    and "queues_rep (h(t := None)) (F(q := f)) (Q(q := ts))"
proof -
  obtain f where f: "pop_front h (F q) = (Some t, h(t := None), f)" "fifo_rep (h(t := None)) f ts"
    using fifo_rep_pop_Cons queues_rep_fifo [OF rep, of q] q by metis
  have t: "t \<notin> set (Q p)" if "p \<noteq> q" for p using queues_rep_disjoint [OF rep that] q by auto
  have "queues_rep (h(t := None)) (F(q := f)) (Q(q := ts))"
  proof (rule queues_repI)
    show "fifo_rep (h(t := None)) ((F(q := f)) p) (Q p)" if "p \<noteq> q" for p
      using fifo.rep_pop_other [OF queues_rep_fifo [OF rep, of p] t [OF that]] that by simp
    show "set (Q p) \<inter> set ts = {}" if "p \<noteq> q" for p using queues_rep_disjoint [OF rep that] q by auto
  qed (use f(2) queues_rep_disjoint [OF rep] in auto)
  with f(1) show ?thesis by (rule that)
qed

lemma queues_remove:
  assumes rep: "queues_rep h F Q"
  obtains h' q' f where "drain_with pop_front (repush_unless push_back t) h (F q) (new_fifo, False)
      = Some (h', q', f, t \<in> set (Q q))"
    and "queues_rep h' (F(q := f)) (Q(q := filter (\<lambda>n. n \<noteq> t) (Q q)))"
proof -
  obtain h' q' f where f: "drain_with pop_front (repush_unless push_back t) h (F q) (new_fifo, False)
      = Some (h', q', f, t \<in> set (Q q))" "fifo_rep h' f (filter (\<lambda>n. n \<noteq> t) (Q q))"
    "\<forall>x. x \<notin> set (Q q) \<longrightarrow> h' x = h x"
    using fifo.repush_removes [OF queues_rep_fifo [OF rep, of q], of t] by blast
  have "queues_rep h' (F(q := f)) (Q(q := filter (\<lambda>n. n \<noteq> t) (Q q)))"
  proof (rule queues_repI)
    show "fifo_rep h' ((F(q := f)) p) (Q p)" if "p \<noteq> q" for p
    proof -
      have "h' x = h x" if "x \<in> set (Q p)" for x
        using f(3) queues_rep_disjoint [OF rep \<open>p \<noteq> q\<close>] that by blast
      then have "fifo_rep h' (F p) (Q p)" by (rule fifo.rep_local [OF queues_rep_fifo [OF rep]])
      with that show ?thesis by simp
    qed
    show "set (Q p) \<inter> set (filter (\<lambda>n. n \<noteq> t) (Q q)) = {}" if "p \<noteq> q" for p
      using queues_rep_disjoint [OF rep that] by auto
  qed (use f(2) queues_rep_disjoint [OF rep] in auto)
  with f(1) show ?thesis by (rule that)
qed


section \<open>What the rest of the machine says about a thread\<close>

definition cur_on :: "Kernel \<Rightarrow> ThreadId \<Rightarrow> nat set" where
  "cur_on k t = {c. c < length (percpu k) \<and> current (percpu k ! c) = t}"

definition out_on :: "Kernel \<Rightarrow> ThreadId \<Rightarrow> nat set" where
  "out_on k t = {c. c < length (percpu k) \<and> switched_from (percpu k ! c) = t}"

definition idle_on :: "Kernel \<Rightarrow> ThreadId \<Rightarrow> nat set" where
  "idle_on k t = {c. c < length (percpu k) \<and> idle (percpu k ! c) = t}"

definition reply_slots :: "Object CapabilityTable \<Rightarrow> ThreadId \<Rightarrow> nat set" where
  "reply_slots cs t = {i. \<exists>cap. slot cs i = Some cap \<and> object cap = ObReply t}"

text \<open>The slot a thread is about to empty holds a reply capability that can no longer be used.\<close>

definition live_replies :: "Thread \<Rightarrow> ThreadId \<Rightarrow> nat set" where
  "live_replies th t = reply_slots (capability_table th) t - set_option (map_option unat (replying th))"

definition holders :: "Kernel \<Rightarrow> ThreadId \<Rightarrow> (ThreadId \<times> nat) set" where
  "holders k t = {(s, i). \<exists>th. get_thread k s = Some th \<and> i \<in> live_replies th t}"


text \<open>The slot the thread on a core has answered from and not yet emptied.\<close>

definition replying_on :: "Kernel \<Rightarrow> nat \<Rightarrow> u64 option" where
  "replying_on k c = Option.bind (get_thread k (current (percpu k ! c))) replying"


section \<open>The invariant of one thread\<close>

definition stands_ok :: "Thread \<Rightarrow> nat set \<Rightarrow> nat set \<Rightarrow> nat set \<Rightarrow> bool" where
  "stands_ok th C S I \<longleftrightarrow>
     (on_cpu (handshake th) \<longleftrightarrow> C \<union> S \<noteq> {}) \<and> (\<exists>c. C \<union> S \<union> I \<subseteq> {c}) \<and> C \<inter> S = {}"

definition wait_ok :: "Waiting Handshake \<Rightarrow> bool" where
  "wait_ok h \<longleftrightarrow>
     (wake_pending h \<longrightarrow> state h = Blocked \<and> on_cpu h \<and> is_delivered h)
     \<and> (state h = Blocked \<longrightarrow> wait_on h \<noteq> None \<and> (is_delivered h \<longrightarrow> wake_pending h))
     \<and> (wait_on h \<noteq> None \<longrightarrow> state h = Blocked \<or> state h = Dead)"

fun wait_queue :: "Waiting \<Rightarrow> queue_name" where
  "wait_queue (WaitRendezvous ep RoleReceiver) = ReceiversOf ep"
| "wait_queue (WaitRendezvous ep _) = SendersOf ep"
| "wait_queue (WaitNotification n) = WaitersOf n"

fun wait_reply :: "Waiting \<Rightarrow> bool" where
  "wait_reply (WaitRendezvous _ RoleReply) = True"
| "wait_reply _ = False"

definition waits_ok :: "Waiting Handshake \<Rightarrow> queue_name set \<Rightarrow> bool" where
  "waits_ok h P \<longleftrightarrow>
     (if is_delivered h then P = {}
      else (case wait_on h of
              None \<Rightarrow> False
            | Some w \<Rightarrow> if wait_reply w then P \<subseteq> {wait_queue w} else P = {wait_queue w}))"

definition place_ok :: "Thread \<Rightarrow> queue_name set \<Rightarrow> nat set \<Rightarrow> nat set \<Rightarrow> nat set \<Rightarrow> bool" where
  "place_ok th P C S I \<longleftrightarrow>
     (I \<noteq> {} \<longrightarrow> \<not> killed th)
     \<and> (case state (handshake th) of
          Embryo \<Rightarrow> P = {} \<and> C = {} \<and> S = {} \<and> I = {}
        | Ready \<Rightarrow> C = {} \<and> (if I = {} then \<exists>c. P = {RunQ c} \<and> S \<subseteq> {c} \<or> P = {Inbox c} \<and> S = {}
                             else P = {} \<and> S = {})
        | Running \<Rightarrow> P = {} \<and> (I = {} \<longrightarrow> C \<noteq> {})
        | Blocked \<Rightarrow> I = {} \<and> waits_ok (handshake th) P
        | Finished \<Rightarrow> P = {} \<and> I = {}
        | Dead \<Rightarrow> I = {} \<and> (\<forall>q \<in> P. \<exists>ep. q = SendersOf ep \<and> fault_ep th = Some ep))"

definition sends_ok :: "ThreadId \<Rightarrow> Thread \<Rightarrow> queue_name set \<Rightarrow> bool" where
  "sends_ok t th P \<longleftrightarrow>
     (case outgoing_cap th of
        None \<Rightarrow> \<not> (state (handshake th) = Blocked \<and> awaits_reply th \<and> P \<noteq> {})
      | Some cap \<Rightarrow>
          state (handshake th) = Finished
          \<or> state (handshake th) = Blocked \<and> \<not> is_delivered (handshake th)
            \<and> (if awaits_reply th then cap = reply_cap t
               else (\<exists>ep. wait_on (handshake th) = Some (WaitRendezvous ep RoleSender))
                 \<and> (\<forall>u. object cap \<noteq> ObReply u)))"

definition table_ok :: "Thread \<Rightarrow> bool" where
  "table_ok th \<longleftrightarrow> table_wf (capability_table th) \<and> length (mailbox th) = 5
     \<and> (\<forall>i cap u. slot (capability_table th) i = Some cap \<and> object cap = ObReply u \<longrightarrow> rights cap = RIGHTS_WRITE)"

definition caps_ok :: "Thread \<Rightarrow> bool" where
  "caps_ok th \<longleftrightarrow> table_ok th
     \<and> (state (handshake th) = Finished \<and> on_cpu (handshake th)
          \<longrightarrow> (\<forall>u. reply_slots (capability_table th) u = {}))"

definition held_ok :: "Thread \<Rightarrow> queue_name set \<Rightarrow> (ThreadId \<times> nat) set \<Rightarrow> bool" where
  "held_ok th P H \<longleftrightarrow> (\<exists>x. H \<subseteq> {x})
     \<and> (H \<noteq> {} \<longrightarrow> state (handshake th) = Blocked \<and> awaits_reply th \<and> \<not> is_delivered (handshake th)
          \<and> P = {} \<and> outgoing_cap th = None)"

text \<open>A thread that comes back from a blocking call has been served or aborted; one that is between the two
  halves of a reply has not left its core.\<close>

definition resume_ok :: "Thread \<Rightarrow> bool" where
  "resume_ok th \<longleftrightarrow>
     (resuming th \<and> (state (handshake th) = Ready \<or> state (handshake th) = Running) \<longrightarrow> is_delivered (handshake th))
     \<and> (replying th \<noteq> None \<longrightarrow> state (handshake th) = Running \<and> \<not> resuming th)
     \<and> (state (handshake th) = Embryo \<longrightarrow> \<not> resuming th)"

definition thread_ok ::
    "ThreadId \<Rightarrow> Thread \<Rightarrow> queue_name set \<Rightarrow> nat set \<Rightarrow> nat set \<Rightarrow> nat set \<Rightarrow> (ThreadId \<times> nat) set \<Rightarrow> bool" where
  "thread_ok t th P C S I H \<longleftrightarrow>
     stands_ok th C S I \<and> wait_ok (handshake th) \<and> place_ok th P C S I \<and> sends_ok t th P
     \<and> caps_ok th \<and> held_ok th P H \<and> resume_ok th"

definition absent_ok ::
    "ThreadId \<Rightarrow> queue_name set \<Rightarrow> nat set \<Rightarrow> nat set \<Rightarrow> nat set \<Rightarrow> (ThreadId \<times> nat) set \<Rightarrow> bool" where
  "absent_ok t P C S I H \<longleftrightarrow> P = {} \<and> H = {} \<and> (t \<noteq> NO_TID \<longrightarrow> C = {} \<and> S = {} \<and> I = {})"

definition good :: "Kernel \<Rightarrow> queues \<Rightarrow> ThreadId \<Rightarrow> bool" where
  "good k Q t \<longleftrightarrow>
     (case get_thread k t of
        None \<Rightarrow> absent_ok t (places Q t) (cur_on k t) (out_on k t) (idle_on k t) (holders k t)
      | Some th \<Rightarrow> thread_ok t th (places Q t) (cur_on k t) (out_on k t) (idle_on k t) (holders k t))"


section \<open>The invariant of one core, and of the machine\<close>

definition core_ok :: "Kernel \<Rightarrow> nat \<Rightarrow> bool" where
  "core_ok k c \<longleftrightarrow>
     (let p = percpu k ! c in
      runq_len p = fifo_len (runq p) \<and> inbox_len p = fifo_len (inbox p)
      \<and> (current p = NO_TID \<longrightarrow> idle p = NO_TID \<and> switched_from p = NO_TID \<and> fifo_len (runq p) = 0)
      \<and> (current p \<noteq> NO_TID \<longrightarrow> idle p \<noteq> NO_TID)
      \<and> (bit (online_mask k) c \<longrightarrow> current p \<noteq> NO_TID)
      \<and> (\<forall>r. peek (steal_request p) = Some r \<longrightarrow>
            unat r < length (percpu k) \<and> current (percpu k ! unat r) \<noteq> NO_TID))"

definition tables_ok :: "Kernel \<Rightarrow> bool" where
  "tables_ok k \<longleftrightarrow> gt_wf (threads k) \<and> gt_wf (rendezvous_table k) \<and> gt_wf (notification_table k)
     \<and> length (percpu k) \<le> 64 \<and> (\<forall>c. bit (online_mask k) c \<longrightarrow> c < length (percpu k))"

definition inboxes_ok :: "nat set \<Rightarrow> Kernel \<Rightarrow> queues \<Rightarrow> bool" where
  "inboxes_ok R k Q \<longleftrightarrow>
     (\<forall>c. Q (Inbox c) \<noteq> [] \<longrightarrow> c \<in> sgis k \<union> set (owed k) \<union> R \<and> current (percpu k ! c) \<noteq> NO_TID)"

definition ok_but :: "ThreadId set \<Rightarrow> nat set \<Rightarrow> Kernel \<Rightarrow> queues \<Rightarrow> bool" where
  "ok_but A R k Q \<longleftrightarrow>
     tables_ok k \<and> queues_rep (links k) (the_queue k) Q \<and> inboxes_ok R k Q
     \<and> (\<forall>c < length (percpu k). core_ok k c) \<and> (\<forall>t. t \<notin> A \<longrightarrow> good k Q t)"

abbreviation kernel_ok :: "Kernel \<Rightarrow> queues \<Rightarrow> bool" where
  "kernel_ok \<equiv> ok_but {} {}"

lemma ok_butD:
  assumes "ok_but A R k Q"
  shows "tables_ok k" "queues_rep (links k) (the_queue k) Q" "inboxes_ok R k Q"
    "c < length (percpu k) \<Longrightarrow> core_ok k c" "t \<notin> A \<Longrightarrow> good k Q t"
    "gt_wf (threads k)" "gt_wf (rendezvous_table k)" "gt_wf (notification_table k)"
  using assms by (auto simp: ok_but_def tables_ok_def)

lemma ok_but_mono: "ok_but A R k Q \<Longrightarrow> A \<subseteq> B \<Longrightarrow> R \<subseteq> R' \<Longrightarrow> ok_but B R' k Q"
  by (auto simp: ok_but_def inboxes_ok_def)

lemma ok_but_close: "ok_but A R k Q \<Longrightarrow> (\<And>t. t \<in> A \<Longrightarrow> t \<notin> B \<Longrightarrow> good k Q t) \<Longrightarrow> ok_but B R k Q"
  by (auto simp: ok_but_def)

lemma ok_but_good:
  assumes "ok_but A R k Q" and "t \<notin> A" and "get_thread k t = Some th"
  shows "thread_ok t th (places Q t) (cur_on k t) (out_on k t) (idle_on k t) (holders k t)"
  using ok_butD(5) [OF assms(1,2)] assms(3) by (simp add: good_def)

lemma ok_but_absent:
  assumes "ok_but A R k Q" and "t \<notin> A" and "get_thread k t = None"
  shows "absent_ok t (places Q t) (cur_on k t) (out_on k t) (idle_on k t) (holders k t)"
  using ok_butD(5) [OF assms(1,2)] assms(3) by (simp add: good_def)

end
