(* ===== verification/Kernel_Frame.thy ===== *)
theory Kernel_Frame
  imports Kernel_Inv
begin

text \<open>What each write of the kernel leaves alone, and the rules for following one through the invariant:
  a write to a thread's record, a push to or a pop from a queue, a change of the thread a core runs.
  Each rule needs only that the threads it touches are left out of the invariant meanwhile.\<close>


section \<open>Fields\<close>

lemma good_cong:
  assumes "get_thread k' t = get_thread k t" and "places Q' t = places Q t" and "cur_on k' t = cur_on k t"
    and "out_on k' t = out_on k t" and "idle_on k' t = idle_on k t" and "holders k' t = holders k t"
  shows "good k' Q' t = good k Q t"
  unfolding good_def assms ..

lemma table_ok_cong:
  "capability_table th' = capability_table th \<Longrightarrow> mailbox th' = mailbox th \<Longrightarrow> table_ok th' = table_ok th"
  by (simp add: table_ok_def)

lemma table_okD: "table_ok th \<Longrightarrow> table_wf (capability_table th)" "caps_ok th \<Longrightarrow> table_ok th"
  by (auto simp: table_ok_def caps_ok_def)

lemma caps_ok_cong:
  assumes "caps_ok th" and "capability_table th' = capability_table th" and "mailbox th' = mailbox th"
    and "state (handshake th') = Finished \<Longrightarrow> on_cpu (handshake th') \<Longrightarrow>
      state (handshake th) = Finished \<and> on_cpu (handshake th)"
  shows "caps_ok th'"
  using assms table_ok_cong [of th' th] unfolding caps_ok_def by auto

lemma get_thread_NO_TID: "gt_wf (threads k) \<Longrightarrow> get_thread k NO_TID = None"
proof (rule ccontr)
  assume wf: "gt_wf (threads k)" and "get_thread k NO_TID \<noteq> None"
  then obtain i where "i < length (gt_slots (threads k))" "NO_TID = mk_name i (gt_gens (threads k) ! i)"
    by (auto simp: get_thread_def gt_get_Some_iff)
  then show False using mk_name_not_max gt_wfD(5) [OF wf] by (metis NO_TID_def)
qed

lemma upd_thread_fields [simp]:
  "links (upd_thread k t f) = links k" "percpu (upd_thread k t f) = percpu k"
  "rendezvous_table (upd_thread k t f) = rendezvous_table k"
  "notification_table (upd_thread k t f) = notification_table k"
  "debug_assertions (upd_thread k t f) = debug_assertions k" "online_mask (upd_thread k t f) = online_mask k"
  "sgis (upd_thread k t f) = sgis k" "owed (upd_thread k t f) = owed k"
  "online (upd_thread k t f) = online k"
  by (simp_all add: upd_thread_def)

lemma upd_thread_wf [simp]: "gt_wf (threads k) \<Longrightarrow> gt_wf (threads (upd_thread k t f))"
  by (simp add: upd_thread_def gt.upd_wf)

lemma get_upd_thread [simp]:
  "gt_wf (threads k) \<Longrightarrow> get_thread (upd_thread k t f) = (get_thread k)(t := map_option f (get_thread k t))"
  by (simp add: get_thread_def fun_eq_iff upd_thread_def gt.upd_lookup)

lemma remove_thread_fields [simp]:
  "links (remove_thread k t) = links k" "percpu (remove_thread k t) = percpu k"
  "rendezvous_table (remove_thread k t) = rendezvous_table k"
  "notification_table (remove_thread k t) = notification_table k"
  "debug_assertions (remove_thread k t) = debug_assertions k" "online_mask (remove_thread k t) = online_mask k"
  "sgis (remove_thread k t) = sgis k" "owed (remove_thread k t) = owed k"
  "online (remove_thread k t) = online k"
  by (simp_all add: remove_thread_def)

lemma remove_thread_wf [simp]: "gt_wf (threads k) \<Longrightarrow> gt_wf (threads (remove_thread k t))"
  by (metis (no_types, lifting) Kernel.select_convs(3) Kernel.surjective Kernel.update_convs(3) gt.del_wf
      remove_thread_def prod.collapse)

lemma get_remove_thread [simp]:
  "gt_wf (threads k) \<Longrightarrow> get_thread (remove_thread k t) = (get_thread k)(t := None)"
  using gt.del_lookup [of "threads k" t "fst (gt_remove (threads k) t)" "snd (gt_remove (threads k) t)"]
  by (simp add: get_thread_def fun_eq_iff remove_thread_def)

lemma upd_cpu_fields [simp]:
  "links (upd_cpu k c f) = links k" "threads (upd_cpu k c f) = threads k"
  "length (percpu (upd_cpu k c f)) = length (percpu k)"
  "rendezvous_table (upd_cpu k c f) = rendezvous_table k"
  "notification_table (upd_cpu k c f) = notification_table k"
  "debug_assertions (upd_cpu k c f) = debug_assertions k" "online_mask (upd_cpu k c f) = online_mask k"
  "sgis (upd_cpu k c f) = sgis k" "owed (upd_cpu k c f) = owed k"
  "online (upd_cpu k c f) = online k"
  by (simp_all add: upd_cpu_def)

lemma percpu_upd_cpu:
  "c < length (percpu k) \<Longrightarrow> percpu (upd_cpu k c f) ! d = (if d = c then f (percpu k ! c) else percpu k ! d)"
  by (simp add: upd_cpu_def)

lemma upd_cpu_beyond: "\<not> c < length (percpu k) \<Longrightarrow> upd_cpu k c f = k"
  by (cases k) (simp add: upd_cpu_def list_update_beyond)

lemma cpu_of_upd_cpu [simp]:
  "c < length (percpu k) \<Longrightarrow> cpu_of (upd_cpu k c f) d = (if d = c then f (cpu_of k c) else cpu_of k d)"
  by (simp add: cpu_of_def percpu_upd_cpu)

lemma get_thread_cong: "threads k' = threads k \<Longrightarrow> get_thread k' = get_thread k"
  by (rule ext) (simp add: get_thread_def)

lemma get_thread_upd_cpu [simp]: "get_thread (upd_cpu k c f) = get_thread k"
  by (rule get_thread_cong) simp

lemma the_queue_cong:
  "percpu k' = percpu k \<Longrightarrow> rendezvous_table k' = rendezvous_table k \<Longrightarrow> notification_table k' = notification_table k
    \<Longrightarrow> the_queue k' = the_queue k"
proof
  fix q
  assume "percpu k' = percpu k" "rendezvous_table k' = rendezvous_table k"
    "notification_table k' = notification_table k"
  then show "the_queue k' q = the_queue k q"
    by (cases q) (simp_all add: rendezvous_of_def notification_of_def)
qed

lemma on_cong:
  assumes "percpu k' = percpu k"
  shows "cur_on k' = cur_on k" "out_on k' = out_on k" "idle_on k' = idle_on k"
  using assms by (simp_all add: fun_eq_iff cur_on_def out_on_def idle_on_def)

lemma live_replies_cong: "capability_table th' = capability_table th \<Longrightarrow> replying th' = replying th \<Longrightarrow> live_replies th' = live_replies th"
  by (simp add: live_replies_def fun_eq_iff)

lemma live_replies_upd [simp]:
  "live_replies (handshake_update f th) = live_replies th" "live_replies (placement_update p th) = live_replies th"
  "live_replies (mailbox_update m th) = live_replies th" "live_replies (outgoing_cap_update g th) = live_replies th"
  "live_replies (cap_delivered_update d th) = live_replies th" "live_replies (ipc_refused_update d th) = live_replies th"
  "live_replies (killed_update d th) = live_replies th" "live_replies (resuming_update d th) = live_replies th"
  "live_replies (fault_msg_update e th) = live_replies th" "live_replies (bound_notification_update n th) = live_replies th"
  by (rule live_replies_cong; simp)+

lemma holders_cong:
  assumes "\<And>s. map_option live_replies (get_thread k' s) = map_option live_replies (get_thread k s)"
  shows "holders k' = holders k"
proof -
  have "(\<exists>th. get_thread k' s = Some th \<and> i \<in> live_replies th t)
      = (\<exists>th. get_thread k s = Some th \<and> i \<in> live_replies th t)" for s i t
    using assms [of s] by (cases "get_thread k s"; cases "get_thread k' s") auto
  then show ?thesis by (simp add: holders_def fun_eq_iff)
qed

lemma views_upd_thread [simp]:
  "the_queue (upd_thread k t f) = the_queue k" "cur_on (upd_thread k t f) = cur_on k"
  "out_on (upd_thread k t f) = out_on k" "idle_on (upd_thread k t f) = idle_on k"
  "cpu_of (upd_thread k t f) c = cpu_of k c"
  by (auto intro!: the_queue_cong on_cong simp: cpu_of_def)

lemma holders_upd_thread:
  assumes "gt_wf (threads k)" and "\<And>th. get_thread k t = Some th \<Longrightarrow> live_replies (f th) = live_replies th"
  shows "holders (upd_thread k t f) = holders k"
  by (rule holders_cong) (use assms in \<open>auto simp: option.map_comp comp_def split: option.splits intro!: option.map_cong\<close>)

lemma views_upd_cpu:
  "(\<And>p. current (f p) = current p) \<Longrightarrow> cur_on (upd_cpu k c f) = cur_on k"
  "(\<And>p. switched_from (f p) = switched_from p) \<Longrightarrow> out_on (upd_cpu k c f) = out_on k"
  "(\<And>p. idle (f p) = idle p) \<Longrightarrow> idle_on (upd_cpu k c f) = idle_on k"
proof -
  note n = upd_cpu_beyond [of c k f]
  show "(\<And>p. current (f p) = current p) \<Longrightarrow> cur_on (upd_cpu k c f) = cur_on k"
    by (cases "c < length (percpu k)") (auto simp: fun_eq_iff cur_on_def percpu_upd_cpu n)
  show "(\<And>p. switched_from (f p) = switched_from p) \<Longrightarrow> out_on (upd_cpu k c f) = out_on k"
    by (cases "c < length (percpu k)") (auto simp: fun_eq_iff out_on_def percpu_upd_cpu n)
  show "(\<And>p. idle (f p) = idle p) \<Longrightarrow> idle_on (upd_cpu k c f) = idle_on k"
    by (cases "c < length (percpu k)") (auto simp: fun_eq_iff idle_on_def percpu_upd_cpu n)
qed

lemma holders_upd_cpu [simp]: "holders (upd_cpu k c f) = holders k"
  by (rule holders_cong) simp


section \<open>Writing a thread's record\<close>

lemma core_ok_cong:
  assumes "percpu k' = percpu k"  and "online_mask k' = online_mask k"
  shows "core_ok k' c = core_ok k c"
  by (simp add: core_ok_def assms)

lemma inboxes_ok_cong:
  assumes "percpu k' = percpu k" and "sgis k' = sgis k" and "owed k' = owed k"
  shows "inboxes_ok R k' Q = inboxes_ok R k Q"
  by (simp add: inboxes_ok_def assms)

text \<open>The general rule for a change that leaves the processors and the queues alone.\<close>

lemma ok_but_cong:
  assumes ok: "ok_but A R k Q" and wf: "gt_wf (threads k')"
    and same: "percpu k' = percpu k" "rendezvous_table k' = rendezvous_table k"
      "notification_table k' = notification_table k" "online_mask k' = online_mask k"
      "links k' = links k" "sgis k' = sgis k" "owed k' = owed k"
    and others: "\<And>t. t \<notin> A \<Longrightarrow> get_thread k' t = get_thread k t \<and> holders k' t = holders k t"
  shows "ok_but A R k' Q"
  unfolding ok_but_def
proof (intro conjI allI impI)
  show "tables_ok k'" using ok_butD(1) [OF ok] wf by (simp add: tables_ok_def same)
  show "queues_rep (links k') (the_queue k') Q"
    using ok_butD(2) [OF ok] the_queue_cong [of k' k] by (simp add: same)
  show "inboxes_ok R k' Q" using ok_butD(3) [OF ok] inboxes_ok_cong [of k' k] by (simp add: same)
  show "core_ok k' c" if "c < length (percpu k')" for c
    using ok_butD(4) [OF ok] that core_ok_cong [of k' k] by (simp add: same)
  show "good k' Q t" if "t \<notin> A" for t
    using ok_butD(5) [OF ok that] good_cong [of k' t k Q Q] others [OF that] on_cong [of k' k]
    by (simp add: same)
qed

lemma ok_upd_thread:
  assumes "ok_but A R k Q" and "t \<in> A"
    and "\<And>th. get_thread k t = Some th \<Longrightarrow> live_replies (f th) = live_replies th"
  shows "ok_but A R (upd_thread k t f) Q"
proof (rule ok_but_cong [OF assms(1)])
  note wf = ok_butD(6) [OF assms(1)]
  then show "gt_wf (threads (upd_thread k t f))" by simp
  show "get_thread (upd_thread k t f) u = get_thread k u \<and> holders (upd_thread k t f) u = holders k u"
    if "u \<notin> A" for u using holders_upd_thread [OF wf assms(3)] that assms(2) wf by auto
qed simp_all


section \<open>Pushing on and popping off a core's queues\<close>

definition set_runq :: "ThreadId Fifo \<Rightarrow> PerCpu \<Rightarrow> PerCpu" where
  "set_runq q p = p\<lparr>runq := q, runq_len := fifo_len q\<rparr>"

definition set_inbox :: "ThreadId Fifo \<Rightarrow> PerCpu \<Rightarrow> PerCpu" where
  "set_inbox q p = note_inbox_len (fifo_len q) (p\<lparr>inbox := q\<rparr>)"

lemma set_queue_fields [simp]:
  "current (set_runq q p) = current p" "current (set_inbox q p) = current p"
  "idle (set_runq q p) = idle p" "idle (set_inbox q p) = idle p"
  "switched_from (set_runq q p) = switched_from p" "switched_from (set_inbox q p) = switched_from p"
  "steal_request (set_runq q p) = steal_request p" "steal_request (set_inbox q p) = steal_request p"
  "runq (set_runq q p) = q" "runq (set_inbox q p) = runq p"
  "inbox (set_runq q p) = inbox p" "inbox (set_inbox q p) = q"
  "runq_len (set_runq q p) = fifo_len q" "runq_len (set_inbox q p) = runq_len p"
  "inbox_len (set_runq q p) = inbox_len p" "inbox_len (set_inbox q p) = fifo_len q"
  by (simp_all add: set_runq_def set_inbox_def note_inbox_len_def)

lemma the_queue_upd_cpu:
  assumes c: "c < length (percpu k)"
  shows "the_queue (upd_cpu (k\<lparr>links := h\<rparr>) c (set_runq f)) = (the_queue k)(RunQ c := f)"
    and "the_queue (upd_cpu (k\<lparr>links := h\<rparr>) c (set_inbox f)) = (the_queue k)(Inbox c := f)"
proof -
  show "the_queue (upd_cpu (k\<lparr>links := h\<rparr>) c (set_runq f)) = (the_queue k)(RunQ c := f)"
  proof
    fix q
    show "the_queue (upd_cpu (k\<lparr>links := h\<rparr>) c (set_runq f)) q = ((the_queue k)(RunQ c := f)) q"
      using c by (cases q) (auto simp: percpu_upd_cpu rendezvous_of_def notification_of_def)
  qed
  show "the_queue (upd_cpu (k\<lparr>links := h\<rparr>) c (set_inbox f)) = (the_queue k)(Inbox c := f)"
  proof
    fix q
    show "the_queue (upd_cpu (k\<lparr>links := h\<rparr>) c (set_inbox f)) q = ((the_queue k)(Inbox c := f)) q"
      using c by (cases q) (auto simp: percpu_upd_cpu rendezvous_of_def notification_of_def)
  qed
qed

lemma links_fields [simp]:
  "get_thread (k\<lparr>links := h\<rparr>) = get_thread k" "cpu_of (k\<lparr>links := h\<rparr>) c = cpu_of k c"
  "cur_on (k\<lparr>links := h\<rparr>) = cur_on k" "out_on (k\<lparr>links := h\<rparr>) = out_on k"
  "idle_on (k\<lparr>links := h\<rparr>) = idle_on k"
  "holders (k\<lparr>links := h\<rparr>) = holders k"
proof -
  show g: "get_thread (k\<lparr>links := h\<rparr>) = get_thread k" by (rule get_thread_cong) simp
  show "holders (k\<lparr>links := h\<rparr>) = holders k" by (rule holders_cong) (simp add: g)
qed (auto intro!: on_cong simp: cpu_of_def)

lemma ok_upd_cpu:
  assumes ok: "ok_but A R k Q" and c: "c < length (percpu k)"
    and keeps: "\<And>p. current (f p) = current p" "\<And>p. switched_from (f p) = switched_from p"
      "\<And>p. idle (f p) = idle p" "\<And>p. steal_request (f p) = steal_request p"
    and mirrors: "runq_len (f (percpu k ! c)) = fifo_len (runq (f (percpu k ! c)))"
      "inbox_len (f (percpu k ! c)) = fifo_len (inbox (f (percpu k ! c)))"
    and stopped: "current (percpu k ! c) = NO_TID \<Longrightarrow> fifo_len (runq (f (percpu k ! c))) = 0"
    and rep: "queues_rep h (the_queue (upd_cpu (k\<lparr>links := h\<rparr>) c f)) Q'"
    and inb: "inboxes_ok R' k Q'"
    and others: "\<And>t. t \<notin> A \<Longrightarrow> places Q' t = places Q t"
  shows "ok_but A R' (upd_cpu (k\<lparr>links := h\<rparr>) c f) Q'"
  unfolding ok_but_def
proof (intro conjI allI impI)
  let ?k = "upd_cpu (k\<lparr>links := h\<rparr>) c f"
  have cur: "current (percpu ?k ! d) = current (percpu k ! d)" for d
    using c keeps(1) by (simp add: percpu_upd_cpu)
  show "tables_ok ?k" using ok_butD(1) [OF ok] by (simp add: tables_ok_def)
  show "queues_rep (links ?k) (the_queue ?k) Q'" using rep by simp
  show "inboxes_ok R' ?k Q'" using inb by (simp add: inboxes_ok_def cur)
  show "core_ok ?k d" if "d < length (percpu ?k)" for d
    using ok_butD(4) [OF ok, of d] that c keeps mirrors stopped
    by (auto simp: core_ok_def Let_def cur percpu_upd_cpu)
  show "good ?k Q' t" if "t \<notin> A" for t
    using ok_butD(5) [OF ok that] good_cong [of ?k t k Q' Q] others [OF that]
    by (simp add: views_upd_cpu holders_upd_cpu keeps)
qed

lemma runq_push_eq:
  assumes "c < length (percpu k)" and "push_back (links k) (the_queue k (RunQ c)) t = (h, q)"
  shows "runq_push k c t = upd_cpu (k\<lparr>links := h\<rparr>) c (set_runq q)"
  using assms by (simp add: runq_push_def with_runq_def cpu_of_def set_runq_def [abs_def])

lemma inbox_push_eq:
  assumes "c < length (percpu k)" and "push_back (links k) (the_queue k (Inbox c)) t = (h, q)"
  shows "inbox_push k c t = Some (upd_cpu (k\<lparr>links := h\<rparr>) c (set_inbox q))"
  using assms by (simp add: inbox_push_def cpu_of_def set_inbox_def [abs_def])

lemma runq_push_fields [simp]:
  "threads (runq_push k c t) = threads k" "length (percpu (runq_push k c t)) = length (percpu k)"
  "rendezvous_table (runq_push k c t) = rendezvous_table k"
  "notification_table (runq_push k c t) = notification_table k"
  "debug_assertions (runq_push k c t) = debug_assertions k" "online_mask (runq_push k c t) = online_mask k"
  "sgis (runq_push k c t) = sgis k" "owed (runq_push k c t) = owed k"
  "get_thread (runq_push k c t) = get_thread k" "cur_on (runq_push k c t) = cur_on k"
  "out_on (runq_push k c t) = out_on k" "idle_on (runq_push k c t) = idle_on k"
  "holders (runq_push k c t) = holders k"
  by (simp_all add: runq_push_def with_runq_def views_upd_cpu holders_upd_cpu split: prod.splits)

lemma ok_runq_push:
  assumes ok: "ok_but A R k Q" and c: "c < length (percpu k)" and t: "t \<in> A" "places Q t = {}"
    and run: "current (percpu k ! c) \<noteq> NO_TID"
  shows "ok_but A R (runq_push k c t) (Q(RunQ c := Q (RunQ c) @ [t]))"
proof -
  obtain h q where p: "push_back (links k) (the_queue k (RunQ c)) t = (h, q)"
    by (cases "push_back (links k) (the_queue k (RunQ c)) t")
  have "core_ok k c" using ok_butD(4) [OF ok c] .
  moreover have "inboxes_ok R k (Q(RunQ c := Q (RunQ c) @ [t]))"
    using ok_butD(3) [OF ok] by (simp add: inboxes_ok_def)
  moreover have "places (Q(RunQ c := Q (RunQ c) @ [t])) u = places Q u" if "u \<notin> A" for u
    using that t places_push [where u = u and Q = Q and t = t] by auto
  ultimately show ?thesis
    unfolding runq_push_eq [OF c p]
    using queues_push [OF ok_butD(2) [OF ok] t(2) p] run
    by (intro ok_upd_cpu [OF ok c]) (auto simp: the_queue_upd_cpu [OF c] core_ok_def Let_def)
qed

lemma ok_inbox_push:
  assumes ok: "ok_but A R k Q" and c: "c < length (percpu k)" and t: "t \<in> A" "places Q t = {}"
    and run: "current (percpu k ! c) \<noteq> NO_TID"
  obtains k' where "inbox_push k c t = Some k'"
    and "ok_but A (insert c R) k' (Q(Inbox c := Q (Inbox c) @ [t]))"
    and "threads k' = threads k" "length (percpu k') = length (percpu k)" "debug_assertions k' = debug_assertions k"
      "sgis k' = sgis k" "owed k' = owed k" "online_mask k' = online_mask k"
      "get_thread k' = get_thread k" "cur_on k' = cur_on k" "out_on k' = out_on k" "idle_on k' = idle_on k"
      "holders k' = holders k" "rendezvous_table k' = rendezvous_table k"
      "notification_table k' = notification_table k"
      "\<And>d. current (percpu k' ! d) = current (percpu k ! d)"
proof -
  obtain h q where p: "push_back (links k) (the_queue k (Inbox c)) t = (h, q)"
    by (cases "push_back (links k) (the_queue k (Inbox c)) t")
  have "core_ok k c" using ok_butD(4) [OF ok c] .
  moreover have "inboxes_ok (insert c R) k (Q(Inbox c := Q (Inbox c) @ [t]))"
    using ok_butD(3) [OF ok] run by (auto simp: inboxes_ok_def)
  moreover have "places (Q(Inbox c := Q (Inbox c) @ [t])) u = places Q u" if "u \<notin> A" for u
    using that t places_push [where u = u and Q = Q and t = t] by auto
  ultimately have ok': "ok_but A (insert c R) (upd_cpu (k\<lparr>links := h\<rparr>) c (set_inbox q)) (Q(Inbox c := Q (Inbox c) @ [t]))"
    using queues_push [OF ok_butD(2) [OF ok] t(2) p] run
    by (intro ok_upd_cpu [OF ok c]) (auto simp: the_queue_upd_cpu [OF c] core_ok_def Let_def)
  show ?thesis
    by (rule that [OF inbox_push_eq [OF c p] ok']) (use c in \<open>simp_all add: views_upd_cpu holders_upd_cpu percpu_upd_cpu\<close>)
qed

text \<open>Taking the next thread off a run queue.\<close>

lemma ok_runq_pop:
  assumes ok: "ok_but A R k Q" and c: "c < length (percpu k)" and pop: "with_runq pop_front k c = (r, k')"
  shows "case Q (RunQ c) of
      [] \<Rightarrow> r = None \<and> ok_but A R k' Q
    | t # ts \<Rightarrow> r = Some t \<and> ok_but (insert t A) R k' (Q(RunQ c := ts))"
    and "threads k' = threads k" "length (percpu k') = length (percpu k)" "debug_assertions k' = debug_assertions k"
      "sgis k' = sgis k" "owed k' = owed k" "online_mask k' = online_mask k"
      "get_thread k' = get_thread k" "cur_on k' = cur_on k" "out_on k' = out_on k" "idle_on k' = idle_on k"
      "holders k' = holders k"
      "\<And>d. current (percpu k' ! d) = current (percpu k ! d)" "\<And>d. idle (percpu k' ! d) = idle (percpu k ! d)"
proof -
  obtain r0 h q where p: "pop_front (links k) (the_queue k (RunQ c)) = (r0, h, q)"
    by (cases "pop_front (links k) (the_queue k (RunQ c))") auto
  then have r: "r = r0" and k': "k' = upd_cpu (k\<lparr>links := h\<rparr>) c (set_runq q)"
    using pop c by (auto simp: with_runq_def cpu_of_def set_runq_def [abs_def])
  note core = ok_butD(4) [OF ok c, unfolded core_ok_def Let_def]
  note rep = ok_butD(2) [OF ok]
  have len: "fifo_len (the_queue k (RunQ c)) = length (Q (RunQ c))"
    using queues_rep_fifo [OF rep] by (rule fifo_rep_len)
  show "case Q (RunQ c) of [] \<Rightarrow> r = None \<and> ok_but A R k' Q
    | t # ts \<Rightarrow> r = Some t \<and> ok_but (insert t A) R k' (Q(RunQ c := ts))"
  proof (cases "Q (RunQ c)")
    case Nil
    then have eq: "r0 = None" "h = links k" "q = the_queue k (RunQ c)"
      using p queues_pop_Nil [OF rep Nil] by simp_all
    have "(the_queue k)(RunQ c := q) = the_queue k" by (simp add: eq(3) fun_eq_iff)
    then have "queues_rep h (the_queue (upd_cpu (k\<lparr>links := h\<rparr>) c (set_runq q))) Q"
      using rep eq(2) unfolding the_queue_upd_cpu(1) [OF c] by simp
    then have "ok_but A R k' Q"
      unfolding k' using core ok_butD(3) [OF ok] eq(3) len Nil
      by (intro ok_upd_cpu [OF ok c]) auto
    with Nil eq(1) r show ?thesis by simp
  next
    case (Cons t ts)
    obtain f where f: "pop_front (links k) (the_queue k (RunQ c)) = (Some t, (links k)(t := None), f)"
      "queues_rep ((links k)(t := None)) ((the_queue k)(RunQ c := f)) (Q(RunQ c := ts))"
      using queues_pop_Cons [OF rep Cons] .
    have "ok_but (insert t A) R k' (Q(RunQ c := ts))"
      unfolding k'
    proof (rule ok_upd_cpu [where Q = Q, OF ok_but_mono [OF ok] c])
      show "current (percpu k ! c) = NO_TID \<Longrightarrow> fifo_len (runq (set_runq q (percpu k ! c))) = 0"
        using core len Cons c by simp
      show "places (Q(RunQ c := ts)) u = places Q u" if "u \<notin> insert t A" for u
        using places_pop [OF rep Cons, of u] that by simp
    qed (use p f core ok_butD(3) [OF ok] in \<open>auto simp: the_queue_upd_cpu [OF c] inboxes_ok_def\<close>)
    with Cons f p r show ?thesis by simp
  qed
qed (use pop c in \<open>auto simp: with_runq_def views_upd_cpu holders_upd_cpu percpu_upd_cpu split: prod.splits\<close>)


section \<open>Interrupts\<close>

lemma ok_interrupts:
  assumes ok: "ok_but A R k Q" and inb: "inboxes_ok R' (k\<lparr>sgis := S, owed := W\<rparr>) Q"
  shows "ok_but A R' (k\<lparr>sgis := S, owed := W\<rparr>) Q"
  unfolding ok_but_def
proof (intro conjI allI impI)
  let ?k = "k\<lparr>sgis := S, owed := W\<rparr>"
  have get: "get_thread ?k = get_thread k" by (rule get_thread_cong) simp
  show "tables_ok ?k" using ok_butD(1) [OF ok] by (simp add: tables_ok_def)
  show "queues_rep (links ?k) (the_queue ?k) Q" using ok_butD(2) [OF ok] the_queue_cong [of ?k k] by simp
  show "inboxes_ok R' ?k Q" by (rule inb)
  show "core_ok ?k c" if "c < length (percpu ?k)" for c
    using ok_butD(4) [OF ok, of c] that core_ok_cong [of ?k k] by simp
  show "good ?k Q t" if "t \<notin> A" for t
    using ok_butD(5) [OF ok that] good_cong [of ?k t k Q Q] on_cong [of ?k k] holders_cong [of ?k k]
    by (simp add: get)
qed

lemma ok_send_reschedule: "ok_but A (insert c R) k Q \<Longrightarrow> ok_but A R (send_reschedule k c) Q"
  using ok_interrupts [where A = A and R = "insert c R" and k = k and Q = Q and R' = R
      and S = "insert c (sgis k)" and W = "owed k"] ok_butD(3) [of A "insert c R" k Q]
  by (auto simp: send_reschedule_def inboxes_ok_def)

lemma ok_owe: "ok_but A (set_option remote \<union> R) k Q \<Longrightarrow> ok_but A R (owe remote k) Q"
  using ok_interrupts [where A = A and R = "set_option remote \<union> R" and k = k and Q = Q and R' = R
      and S = "sgis k" and W = "the remote # owed k"]
    ok_butD(3) [of A "set_option remote \<union> R" k Q]
  by (cases remote) (auto simp: owe_def inboxes_ok_def)

lemma ok_send_owed:
  assumes "ok_but A R k Q"
  shows "ok_but A R (send_owed k c) Q"
proof -
  have "send_owed k c = k\<lparr>sgis := insert c (sgis k), owed := remove1 c (owed k)\<rparr>"
    by (cases k) (simp add: send_owed_def send_reschedule_def)
  moreover have "inboxes_ok R (k\<lparr>sgis := insert c (sgis k), owed := remove1 c (owed k)\<rparr>) Q"
    using ok_butD(3) [OF assms] by (auto simp: inboxes_ok_def in_set_remove1)
  ultimately show ?thesis using ok_interrupts [OF assms] by simp
qed

lemma ok_take_interrupt: "ok_but A R k Q \<Longrightarrow> ok_but A (insert c R) (k\<lparr>sgis := sgis k - {c}\<rparr>) Q"
  using ok_interrupts [where A = A and R = R and k = k and Q = Q and R' = "insert c R"
      and S = "sgis k - {c}" and W = "owed k"] ok_butD(3) [of A R k Q]
  by (auto simp: inboxes_ok_def)

lemma ok_inbox_empty: "ok_but A (insert c R) k Q \<Longrightarrow> Q (Inbox c) = [] \<Longrightarrow> ok_but A R k Q"
  unfolding ok_but_def inboxes_ok_def by (metis Un_iff insertE)


section \<open>Changing what a core runs\<close>

lemma ok_core:
  assumes ok: "ok_but A R k Q" and c: "c < length (percpu k)"
    and p: "p = percpu k ! c"
    and keeps: "runq (f p) = runq p" "inbox (f p) = inbox p" "runq_len (f p) = runq_len p"
      "inbox_len (f p) = inbox_len p" "steal_request (f p) = steal_request p"
    and new: "current (f p) \<noteq> NO_TID" "PerCpu.idle (f p) \<noteq> NO_TID"
    and others: "\<And>u. u \<notin> A \<Longrightarrow> u \<noteq> NO_TID \<Longrightarrow> (current (f p) = u) = (current p = u)
      \<and> (switched_from (f p) = u) = (switched_from p = u) \<and> (PerCpu.idle (f p) = u) = (PerCpu.idle p = u)"
  shows "ok_but A R (upd_cpu k c f) Q"
  unfolding ok_but_def
proof (intro conjI allI impI)
  let ?k = "upd_cpu k c f"
  show "tables_ok ?k" using ok_butD(1) [OF ok] by (simp add: tables_ok_def)
  have "the_queue ?k q = the_queue k q" for q
    using c p keeps by (cases q) (auto simp: percpu_upd_cpu rendezvous_of_def notification_of_def)
  then have "the_queue ?k = the_queue k" by blast
  then show "queues_rep (links ?k) (the_queue ?k) Q" using ok_butD(2) [OF ok] by simp
  show "inboxes_ok R ?k Q"
    using ok_butD(3) [OF ok] new(1) p c by (auto simp: inboxes_ok_def percpu_upd_cpu)
  show "core_ok ?k d" if "d < length (percpu ?k)" for d
    using ok_butD(4) [OF ok, of d] that c keeps new p
    by (auto simp: core_ok_def Let_def percpu_upd_cpu)
  have h: "holders ?k = holders k" by simp
  show "good ?k Q u" if u: "u \<notin> A" for u
  proof (cases "u = NO_TID")
    case True
    then show ?thesis
      using ok_butD(5) [OF ok u] get_thread_NO_TID [OF ok_butD(6) [OF ok]] h by (simp add: good_def absent_ok_def)
  next
    case False
    have "cur_on ?k u = cur_on k u \<and> out_on ?k u = out_on k u \<and> idle_on ?k u = idle_on k u"
      using others [OF u False] c p by (simp add: cur_on_def out_on_def idle_on_def percpu_upd_cpu set_eq_iff)
    then show ?thesis using ok_butD(5) [OF ok u] h good_cong [of ?k u k Q Q] by simp
  qed
qed


section \<open>Threads come and go\<close>

lemma ok_remove_thread:
  assumes ok: "ok_but A R k Q" and t: "t \<in> A"
    and no_caps: "\<And>th u. get_thread k t = Some th \<Longrightarrow> live_replies th u = {}"
  shows "ok_but A R (remove_thread k t) Q"
proof (rule ok_but_cong [OF ok])
  note wf = ok_butD(6) [OF ok]
  then show "gt_wf (threads (remove_thread k t))" by simp
  have "holders (remove_thread k t) u = holders k u" for u
    using no_caps wf unfolding holders_def by (auto split: if_splits)
  then show "get_thread (remove_thread k t) u = get_thread k u \<and> holders (remove_thread k t) u = holders k u"
    if "u \<notin> A" for u using that t wf by auto
qed simp_all

lemma holders_remove_thread: "gt_wf (threads k) \<Longrightarrow> holders (remove_thread k t) u \<subseteq> holders k u"
proof -
  assume "gt_wf (threads k)"
  then show ?thesis unfolding holders_def by (auto split: if_splits)
qed

lemma ok_insert_thread:
  assumes ok: "ok_but A R k Q" and ins: "insert_with (threads k) b = (Some t, T)" and t: "t \<in> A"
    and no_caps: "\<And>u. live_replies (b t) u = {}"
  shows "ok_but A R (k\<lparr>threads := T\<rparr>) Q"
    and "get_thread (k\<lparr>threads := T\<rparr>) = (get_thread k)(t \<mapsto> b t)" "get_thread k t = None" "t \<noteq> NO_TID"
    and "holders (k\<lparr>threads := T\<rparr>) = holders k"
proof -
  note wf = ok_butD(6) [OF ok]
  let ?k = "k\<lparr>threads := T\<rparr>"
  show get: "get_thread ?k = (get_thread k)(t \<mapsto> b t)"
    using gt.ins_lookup [OF wf ins] by (simp add: get_thread_def fun_eq_iff)
  show fresh: "get_thread k t = None" "t \<noteq> NO_TID"
    using gt.ins_fresh [OF wf ins] by (simp_all add: get_thread_def NO_TID_def)
  show h: "holders ?k = holders k"
    using no_caps fresh unfolding holders_def by (auto simp: get fun_eq_iff split: if_splits)
  show "ok_but A R ?k Q"
    by (rule ok_but_cong [OF ok]) (use gt.ins_wf [OF wf ins] get h t in auto)
qed

end
