(* ===== verification/Kernel_Wake.thy ===== *)
theory Kernel_Wake
  imports Kernel_Frame
begin

text \<open>Waking keeps the invariant: a thread that has been served or aborted and stands on no queue is
  queued on this core, queued on the core the load chooses, or left to the \<open>finish_switch\<close> of the core
  that is still on its stack.  On top of that, cutting loose the callers a thread will never answer.\<close>


section \<open>What a wake leaves alone\<close>

definition same_cores :: "Kernel \<Rightarrow> Kernel \<Rightarrow> bool" where
  "same_cores k k' \<longleftrightarrow>
     length (percpu k') = length (percpu k) \<and> online_mask k' = online_mask k
     \<and> debug_assertions k' = debug_assertions k
     \<and> (\<forall>c. current (percpu k' ! c) = current (percpu k ! c)
          \<and> switched_from (percpu k' ! c) = switched_from (percpu k ! c)
          \<and> idle (percpu k' ! c) = idle (percpu k ! c))"

lemma same_cores_refl [simp]: "same_cores k k"
  by (simp add: same_cores_def)

lemma same_cores_trans: "same_cores k k' \<Longrightarrow> same_cores k' k'' \<Longrightarrow> same_cores k k''"
  by (simp add: same_cores_def)

lemma same_coresD:
  assumes "same_cores k k'"
  shows "length (percpu k') = length (percpu k)" "online_mask k' = online_mask k"
    "debug_assertions k' = debug_assertions k" "current (percpu k' ! c) = current (percpu k ! c)"
    "switched_from (percpu k' ! c) = switched_from (percpu k ! c)" "idle (percpu k' ! c) = idle (percpu k ! c)"
    "cur_on k' = cur_on k" "out_on k' = out_on k" "idle_on k' = idle_on k"
  using assms by (simp_all add: same_cores_def cur_on_def out_on_def idle_on_def fun_eq_iff)

lemma same_cores_upd_thread [simp]: "same_cores k (upd_thread k t f)"
  by (simp add: same_cores_def)

lemma same_cores_upd_cpu:
  "(\<And>p. current (f p) = current p) \<Longrightarrow> (\<And>p. switched_from (f p) = switched_from p)
    \<Longrightarrow> (\<And>p. idle (f p) = idle p) \<Longrightarrow> same_cores k (upd_cpu k c f)"
  by (cases "c < length (percpu k)") (simp_all add: same_cores_def percpu_upd_cpu upd_cpu_beyond)

lemma same_cores_links [simp]: "same_cores k (k\<lparr>links := h\<rparr>)"
  by (simp add: same_cores_def)

lemma same_cores_with_runq: "with_runq f k c = (r, k') \<Longrightarrow> same_cores k k'"
  by (auto simp: with_runq_def split: prod.splits intro: same_cores_trans [OF same_cores_links same_cores_upd_cpu])

lemma same_cores_runq_push [simp]: "same_cores k (runq_push k c t)"
  unfolding runq_push_def by (rule same_cores_with_runq [OF surjective_pairing])


section \<open>Placing a ready thread\<close>

lemma ok_place_on:
  assumes ok: "ok_but A R k Q" and t: "t \<in> A" "places Q t = {}" and c: "c < length (percpu k)"
    and run: "current (percpu k ! c) \<noteq> NO_TID" and target: "target = c \<or> bit (online_mask k) target"
  obtains remote k' Q' where "place_on k c target t = Some (remote, k')"
    and "ok_but A (set_option remote \<union> R) k' Q'" "same_cores k k'" "get_thread k' = get_thread k"
      "holders k' = holders k" "places Q' t = {if target = c then RunQ c else Inbox target}"
      "\<forall>u. u \<noteq> t \<longrightarrow> places Q' u = places Q u"
      "\<forall>q. (\<forall>d. q \<noteq> RunQ d \<and> q \<noteq> Inbox d) \<longrightarrow> Q' q = Q q"
proof (cases "target = c")
  case True
  let ?Q = "Q(RunQ c := Q (RunQ c) @ [t])"
  show ?thesis
  proof (rule that [of None "runq_push k c t" ?Q])
    show "place_on k c target t = Some (None, runq_push k c t)" using True by (simp add: place_on_def debug_assert_def)
    show "ok_but A (set_option None \<union> R) (runq_push k c t) ?Q" using ok_runq_push [OF ok c t run] by simp
    show "places ?Q t = {if target = c then RunQ c else Inbox target}" using t True by (simp add: places_push)
  qed (simp_all add: places_push)
next
  case False
  let ?Q = "Q(Inbox target := Q (Inbox target) @ [t])"
  from False target have on: "bit (online_mask k) target" by simp
  then have l: "target < length (percpu k)" using ok_butD(1) [OF ok] by (simp add: tables_ok_def)
  have "current (percpu k ! target) \<noteq> NO_TID" using ok_butD(4) [OF ok l] on by (simp add: core_ok_def Let_def)
  from ok_inbox_push [OF ok l t this] obtain k' where k': "inbox_push k target t = Some k'"
    "ok_but A (insert target R) k' ?Q" "threads k' = threads k" "get_thread k' = get_thread k" "holders k' = holders k" .
  obtain h q where "push_back (links k) (the_queue k (Inbox target)) t = (h, q)"
    by (cases "push_back (links k) (the_queue k (Inbox target)) t")
  from inbox_push_eq [OF l this] k'(1) have "k' = upd_cpu (k\<lparr>links := h\<rparr>) target (set_inbox q)" by simp
  then have same: "same_cores k k'" using same_cores_trans [OF same_cores_links same_cores_upd_cpu] by simp
  show ?thesis
  proof (rule that [of "Some target" k' ?Q])
    show "place_on k c target t = Some (Some target, k')" using False on k'(1) by (simp add: place_on_def debug_assert_def)
    show "places ?Q t = {if target = c then RunQ c else Inbox target}" using t False by (simp add: places_push)
  qed (use k' same in \<open>simp_all add: places_push\<close>)
qed


section \<open>Waking\<close>

text \<open>What the invariant asks of a thread that has just been served or aborted, and taken off its
  queue, before it is woken.\<close>

definition wakeable :: "Thread \<Rightarrow> nat set \<Rightarrow> nat set \<Rightarrow> nat set \<Rightarrow> (ThreadId \<times> nat) set \<Rightarrow> bool" where
  "wakeable th C S I H \<longleftrightarrow>
     stands_ok th C S I \<and> state (handshake th) = Blocked \<and> is_delivered (handshake th)
     \<and> wait_on (handshake th) \<noteq> None \<and> (wake_pending (handshake th) \<longrightarrow> on_cpu (handshake th))
     \<and> outgoing_cap th = None \<and> replying th = None \<and> caps_ok th \<and> H = {} \<and> I = {}"

lemma wakeable_caps: "wakeable th C S I H \<Longrightarrow> state h \<noteq> Finished \<Longrightarrow> caps_ok (th\<lparr>handshake := h\<rparr>)"
  by (rule caps_ok_cong [of th]) (simp_all add: wakeable_def)

lemma wakeable_delivered:
  assumes "thread_ok t th P C S I H" and "state (handshake th) = Blocked"
    and "handshake th' = abort (handshake th) \<or> handshake th' = serve (handshake th)"
    and "outgoing_cap th' = None" "replying th' = replying th" "caps_ok th'"
  shows "wakeable th' C S I {}"
proof -
  have "stands_ok th C S I" "wait_ok (handshake th)" "place_ok th P C S I" "resume_ok th"
    using assms(1) by (auto simp: thread_ok_def)
  moreover have "state (handshake th') = Blocked" "on_cpu (handshake th') = on_cpu (handshake th)" "is_delivered (handshake th')"
    "wait_on (handshake th') = wait_on (handshake th)" "wake_pending (handshake th') = wake_pending (handshake th)"
    using assms(2,3) by (auto simp: handshake_defs)
  ultimately show ?thesis
    using assms(2,4,5,6) by (auto simp: wakeable_def stands_ok_def wait_ok_def place_ok_def resume_ok_def)
qed

lemma wakeable_queue:
  assumes "wakeable th C S I H" and "try_wake (handshake th) = (Queue, h)"
  shows "thread_ok t (th\<lparr>handshake := h\<rparr>) {RunQ c} C S I H" "thread_ok t (th\<lparr>handshake := h\<rparr>) {Inbox c} C S I H"
proof -
  have "h = (handshake th)\<lparr>state := Ready, wait_on := None\<rparr>" "\<not> on_cpu (handshake th)"
    using assms(2) by (auto simp: try_wake_def split: if_splits)
  then show "thread_ok t (th\<lparr>handshake := h\<rparr>) {RunQ c} C S I H" "thread_ok t (th\<lparr>handshake := h\<rparr>) {Inbox c} C S I H"
    using assms(1) wakeable_caps [OF assms(1), of h]
    by (auto simp: wakeable_def thread_ok_def stands_ok_def wait_ok_def place_ok_def sends_ok_def held_ok_def resume_ok_def)
qed

lemma wakeable_defer:
  assumes "wakeable th C S I H" and "try_wake (handshake th) = (v, h)" and "v \<noteq> Queue"
  shows "thread_ok t (th\<lparr>handshake := h\<rparr>) {} C S I H"
proof -
  have "h = (handshake th)\<lparr>wake_pending := True\<rparr>" "on_cpu (handshake th)"
    using assms by (auto simp: try_wake_def wakeable_def split: if_splits)
  then show ?thesis
    using assms(1) wakeable_caps [OF assms(1), of h]
    by (auto simp: wakeable_def thread_ok_def stands_ok_def wait_ok_def place_ok_def sends_ok_def held_ok_def resume_ok_def
        waits_ok_def is_delivered_def)
qed

lemma ok_wake:
  assumes ok: "ok_but A R k Q" and t: "t \<in> A" "places Q t = {}" and th: "get_thread k t = Some th"
    and w: "wakeable th (cur_on k t) (out_on k t) (idle_on k t) (holders k t)"
    and c: "c < length (percpu k)" "current (percpu k ! c) \<noteq> NO_TID"
  obtains Q' where "ok_but (A - {t}) R (wake k c t) Q'" and "same_cores k (wake k c t)"
    and "\<forall>u. u \<noteq> t \<longrightarrow> get_thread (wake k c t) u = get_thread k u" "holders (wake k c t) = holders k"
      "\<forall>u. u \<noteq> t \<longrightarrow> places Q' u = places Q u"
      "get_thread (wake k c t) t = Some (th\<lparr>handshake := snd (try_wake (handshake th))\<rparr>)"
      "fst (try_wake (handshake th)) \<noteq> Queue \<longrightarrow> Q' = Q"
proof -
  obtain v h where v: "try_wake (handshake th) = (v, h)" by (cases "try_wake (handshake th)")
  let ?k = "upd_thread k t (\<lambda>t. t\<lparr>handshake := h\<rparr>)"
  note wf = ok_butD(6) [OF ok]
  have ok1: "ok_but A R ?k Q" by (rule ok_upd_thread [OF ok t(1)]) simp
  have get: "get_thread ?k = (get_thread k)(t \<mapsto> th\<lparr>handshake := h\<rparr>)" using wf th by simp
  have hold: "holders ?k = holders k" by (rule holders_upd_thread [OF wf]) simp
  show ?thesis
  proof (cases "v = Queue")
    case True
    then have eq: "wake k c t = runq_push ?k c t" using th v by (simp add: wake_def)
    have run: "c < length (percpu ?k)" "current (percpu ?k ! c) \<noteq> NO_TID" using c by simp_all
    let ?Q = "Q(RunQ c := Q (RunQ c) @ [t])"
    show ?thesis
    proof (rule that [of ?Q])
      show "ok_but (A - {t}) R (wake k c t) ?Q"
        unfolding eq
      proof (rule ok_but_close [OF ok_runq_push [OF ok1 run(1) t run(2)]])
        fix u assume "u \<in> A" "u \<notin> A - {t}"
        then show "good (runq_push ?k c t) ?Q u"
          using wakeable_queue(1) [OF w v [unfolded True]] t(2) by (simp add: good_def get hold places_push)
      qed
      show "same_cores k (wake k c t)"
        unfolding eq by (rule same_cores_trans [OF same_cores_upd_thread same_cores_runq_push])
    qed (simp_all add: eq get hold places_push v True)
  next
    case False
    then have eq: "wake k c t = ?k" using th v by (simp add: wake_def)
    show ?thesis
    proof (rule that [of Q])
      show "ok_but (A - {t}) R (wake k c t) Q"
        unfolding eq by (rule ok_but_close [OF ok1])
          (use wakeable_defer [OF w v False, of t] t(2) in \<open>auto simp: good_def get hold\<close>)
    qed (simp_all add: eq get hold v)
  qed
qed

lemma pick_wake_target_online:
  "pick_wake_target k c = c \<or> bit (online_mask k) (pick_wake_target k c)"
proof -
  have "fst (fold (\<lambda>c (best, best_load). if c = here then (best, best_load)
      else let load = runnable (cpu_of k c) in if load < best_load then (c, load) else (best, best_load)) cs (b, l))
      \<in> insert b (set cs)" for here cs b l
  proof (induction cs arbitrary: b l)
    case (Cons d cs)
    show ?case using Cons [of b l] Cons [of d "runnable (cpu_of k d)"] by (auto simp: Let_def)
  qed simp
  from this [of c "online_cpus k" c "runnable (cpu_of k c)"] show ?thesis
    by (auto simp: pick_wake_target_def online_cpus_def)
qed

lemma ok_wake_load_aware:
  assumes ok: "ok_but A R k Q" and t: "t \<in> A" "places Q t = {}" and th: "get_thread k t = Some th"
    and w: "wakeable th (cur_on k t) (out_on k t) (idle_on k t) (holders k t)"
    and c: "c < length (percpu k)" "current (percpu k ! c) \<noteq> NO_TID"
  obtains remote k' Q' where "wake_load_aware k c t = Some (remote, k')"
    and "ok_but (A - {t}) (set_option remote \<union> R) k' Q'" "same_cores k k'"
      "\<forall>u. u \<noteq> t \<longrightarrow> get_thread k' u = get_thread k u" "holders k' = holders k"
proof -
  obtain v h where v: "try_wake (handshake th) = (v, h)" by (cases "try_wake (handshake th)")
  let ?k = "upd_thread k t (\<lambda>t. t\<lparr>handshake := h\<rparr>)"
  note wf = ok_butD(6) [OF ok]
  have ok1: "ok_but A R ?k Q" by (rule ok_upd_thread [OF ok t(1)]) simp
  have get: "get_thread ?k = (get_thread k)(t \<mapsto> th\<lparr>handshake := h\<rparr>)" using wf th by simp
  have hold: "holders ?k = holders k" by (rule holders_upd_thread [OF wf]) simp
  show ?thesis
  proof (cases "v = Queue")
    case True
    have run: "c < length (percpu ?k)" "current (percpu ?k ! c) \<noteq> NO_TID" using c by simp_all
    let ?target = "pick_wake_target ?k c"
    obtain remote k' Q' where p: "place_on ?k c ?target t = Some (remote, k')"
      "ok_but A (set_option remote \<union> R) k' Q'" "same_cores ?k k'" "get_thread k' = get_thread ?k"
      "holders k' = holders ?k" "places Q' t = {if ?target = c then RunQ c else Inbox ?target}"
      using ok_place_on [OF ok1 t run pick_wake_target_online] .
    show ?thesis
    proof (rule that [of remote k' Q'])
      show "wake_load_aware k c t = Some (remote, k')" using th v True p(1) by (simp add: wake_load_aware_def Let_def)
      show "ok_but (A - {t}) (set_option remote \<union> R) k' Q'"
        by (rule ok_but_close [OF p(2)])
           (use wakeable_queue [OF w v [unfolded True]] p(6) in \<open>auto simp: good_def p(4,5) get hold same_coresD [OF p(3)]\<close>)
      show "same_cores k k'" by (rule same_cores_trans [OF same_cores_upd_thread p(3)])
    qed (simp_all add: p(4,5) get hold)
  next
    case False
    show ?thesis
    proof (rule that [of None ?k Q])
      show "wake_load_aware k c t = Some (None, ?k)" using th v False by (simp add: wake_load_aware_def Let_def)
      show "ok_but (A - {t}) (set_option None \<union> R) ?k Q"
        using ok_but_close [OF ok1, of "A - {t}"] wakeable_defer [OF w v False, of t] t(2)
        by (auto simp: good_def get hold)
    qed (simp_all add: get hold)
  qed
qed


section \<open>Dropping the reply capabilities that name a thread\<close>

lemma drop_reply_caps_fields [simp]:
  "handshake (drop_reply_caps u th) = handshake th" "killed (drop_reply_caps u th) = killed th"
  "fault_ep (drop_reply_caps u th) = fault_ep th" "resuming (drop_reply_caps u th) = resuming th"
  "replying (drop_reply_caps u th) = replying th" "mailbox (drop_reply_caps u th) = mailbox th"
  "outgoing_cap (drop_reply_caps u th)
    = (if map_option object (outgoing_cap th) = Some (ObReply u) then None else outgoing_cap th)"
  by (auto simp: drop_reply_caps_def Let_def)

lemma drop_reply_caps_table:
  "capability_table (drop_reply_caps u th)
    = fst (delete_matching (capability_table th, 0) (\<lambda>ob. ob = ObReply u))"
  by (simp add: drop_reply_caps_def Let_def)

lemma awaits_drop_reply_caps [simp]: "awaits_reply (drop_reply_caps u th) = awaits_reply th"
  by (simp add: awaits_reply_def)

lemma reply_slots_drop:
  assumes "table_wf (capability_table th)"
  shows "reply_slots (capability_table (drop_reply_caps u th)) v
    = (if v = u then {} else reply_slots (capability_table th) v)"
  using slot_delete_matching [of "(capability_table th, 0)" "\<lambda>ob. ob = ObReply u"] assms
  by (auto simp: reply_slots_def drop_reply_caps_table split: option.splits if_splits)

lemma table_ok_drop:
  assumes "table_ok th"
  shows "table_ok (drop_reply_caps u th)"
proof -
  note wf = table_okD(1) [OF assms]
  note sl = slot_delete_matching [of "(capability_table th, 0)" "\<lambda>ob. ob = ObReply u", simplified, OF wf]
  have "rights cap = RIGHTS_WRITE"
    if "slot (capability_table (drop_reply_caps u th)) i = Some cap" "object cap = ObReply v" for i cap v
    using assms that by (auto simp: table_ok_def drop_reply_caps_table sl split: option.splits if_splits)
  moreover have "table_wf (capability_table (drop_reply_caps u th))"
    using table_wf_delete_matching [of "(capability_table th, 0)"] wf by (simp add: drop_reply_caps_table)
  ultimately show ?thesis using assms by (auto simp: table_ok_def)
qed

lemma caps_ok_drop: "caps_ok th \<Longrightarrow> caps_ok (drop_reply_caps u th)"
  using table_ok_drop [of th u] reply_slots_drop [of th u] table_okD(1) [of th] by (simp add: caps_ok_def)

lemma thread_ok_drop:
  assumes "thread_ok s th P C S I H" and "s \<noteq> u"
  shows "thread_ok s (drop_reply_caps u th) P C S I H"
  using assms caps_ok_drop [of th u]
  by (auto simp: thread_ok_def stands_ok_def place_ok_def sends_ok_def held_ok_def resume_ok_def reply_cap_def
      split: option.splits if_splits RunState.splits)

lemma gt_map_slots:
  fixes t :: "'v Table" and f :: "'v \<Rightarrow> 'v"
  assumes wf: "gt_wf t"
  defines "t' \<equiv> t\<lparr>gt_slots := map (map_option f) (take (gt_top t) (gt_slots t)) @ drop (gt_top t) (gt_slots t)\<rparr>"
  shows "gt_wf t'" and "gt_get t' n = map_option f (gt_get t n)"
proof -
  have "map (map_option f) (drop (gt_top t) (gt_slots t)) = drop (gt_top t) (gt_slots t)"
    using gt_wfD(8) [OF wf] by (intro nth_equalityI) simp_all
  then have slots: "gt_slots t' = map (map_option f) (gt_slots t)"
    using map_append [of "map_option f" "take (gt_top t) (gt_slots t)" "drop (gt_top t) (gt_slots t)"]
    unfolding t'_def by simp
  have same: "gt_gens t' = gt_gens t" "gt_live t' = gt_live t" "gt_top t' = gt_top t" by (simp_all add: t'_def)
  have at: "i < length (gt_slots t) \<Longrightarrow> gt_slots t' ! i = map_option f (gt_slots t ! i)" for i by (simp add: slots)
  have "length (filter (\<lambda>s. s \<noteq> None) (map (map_option f) xs)) = length (filter (\<lambda>s. s \<noteq> None) xs)" for xs
    by (induction xs) simp_all
  moreover have "gt_top t = 0 \<or> gt_slots t' ! (gt_top t - 1) \<noteq> None"
    using gt_wfD(2,7,9) [OF wf] at [of "gt_top t - 1"] by (cases "gt_top t") simp_all
  ultimately show "gt_wf t'" using wf at unfolding gt_wf_def same by (simp add: slots)
  have "slot_of t' n = slot_of t n"
    using gt_wfD(1) [OF wf] at [of "fst (unpack n)"]
    by (cases "unpack n") (simp add: slot_of_def same split: option.split)
  moreover have "a < length (gt_slots t)" if "slot_of t n = Some a" for a
    using that slot_of_Some_iff [OF wf, of n] by simp
  ultimately show "gt_get t' n = map_option f (gt_get t n)"
    using at by (cases "slot_of t n") (simp_all add: gt_get_def)
qed

lemma delete_reply_caps_fields [simp]:
  "links (delete_reply_caps_naming k u) = links k" "percpu (delete_reply_caps_naming k u) = percpu k"
  "rendezvous_table (delete_reply_caps_naming k u) = rendezvous_table k"
  "notification_table (delete_reply_caps_naming k u) = notification_table k"
  "debug_assertions (delete_reply_caps_naming k u) = debug_assertions k"
  "online_mask (delete_reply_caps_naming k u) = online_mask k"
  "sgis (delete_reply_caps_naming k u) = sgis k" "owed (delete_reply_caps_naming k u) = owed k"
  by (simp_all add: delete_reply_caps_naming_def)

lemma get_delete_reply_caps:
  "gt_wf (threads k) \<Longrightarrow> get_thread (delete_reply_caps_naming k u) s = map_option (drop_reply_caps u) (get_thread k s)"
  using gt_map_slots(2) [of "threads k"] by (simp add: get_thread_def delete_reply_caps_naming_def)

lemma holders_delete_reply_caps:
  assumes "gt_wf (threads k)" and "\<And>s th. get_thread k s = Some th \<Longrightarrow> table_wf (capability_table th)"
  shows "holders (delete_reply_caps_naming k u) v = (if v = u then {} else holders k v)"
proof -
  have "(\<exists>th. get_thread (delete_reply_caps_naming k u) s = Some th \<and> i \<in> live_replies th v)
      \<longleftrightarrow> v \<noteq> u \<and> (\<exists>th. get_thread k s = Some th \<and> i \<in> live_replies th v)" for s i
    using assms(2) [of s] reply_slots_drop [of _ u v]
    by (cases "get_thread k s") (simp_all add: get_delete_reply_caps [OF assms(1)] live_replies_def)
  then show ?thesis by (simp add: holders_def)
qed

lemma ok_tables_wf:
  assumes "ok_but A R k Q" and "\<And>t th. t \<in> A \<Longrightarrow> get_thread k t = Some th \<Longrightarrow> table_wf (capability_table th)"
    and "get_thread k t = Some th"
  shows "table_wf (capability_table th)"
  using assms ok_but_good [OF assms(1) _ assms(3)] by (cases "t \<in> A") (auto simp: thread_ok_def dest: table_okD)

lemma ok_delete_reply_caps:
  assumes ok: "ok_but A R k Q" and u: "u \<in> A"
    and wf: "\<And>t th. t \<in> A \<Longrightarrow> get_thread k t = Some th \<Longrightarrow> table_wf (capability_table th)"
  shows "ok_but A R (delete_reply_caps_naming k u) Q"
  unfolding ok_but_def
proof (intro conjI allI impI)
  let ?k = "delete_reply_caps_naming k u"
  note h = holders_delete_reply_caps [OF ok_butD(6) [OF ok] ok_tables_wf [OF ok wf]]
  show "tables_ok ?k"
    using ok_butD(1) [OF ok] gt_map_slots(1) [of "threads k"]
    by (simp add: tables_ok_def) (simp add: delete_reply_caps_naming_def)
  show "queues_rep (links ?k) (the_queue ?k) Q" using ok_butD(2) [OF ok] the_queue_cong [of ?k k] by simp
  show "inboxes_ok R ?k Q" using ok_butD(3) [OF ok] inboxes_ok_cong [of ?k k] by simp
  show "core_ok ?k c" if "c < length (percpu ?k)" for c
    using ok_butD(4) [OF ok] that core_ok_cong [of ?k k] by simp
  show "good ?k Q t" if t: "t \<notin> A" for t
  proof -
    have "t \<noteq> u" using u t by blast
    then show ?thesis
      using ok_butD(5) [OF ok t] thread_ok_drop [of t _ _ _ _ _ _ u] on_cong [of ?k k] h
      by (auto simp: good_def get_delete_reply_caps [OF ok_butD(6) [OF ok]] split: option.splits)
  qed
qed


section \<open>Cutting a caller loose\<close>

definition awaiting :: "Kernel \<Rightarrow> ThreadId \<Rightarrow> bool" where
  "awaiting k u \<longleftrightarrow> (\<exists>th. get_thread k u = Some th \<and> awaits_reply th)"

lemma awaits_waits: "awaits_reply th \<Longrightarrow> wait_on (handshake th) \<noteq> None"
  by (cases "wait_on (handshake th)") (simp_all add: awaits_reply_def)

lemma strand_eq:
  "strand_reply_caller k c u = (if awaiting k u
    then (True, wake (set_ipc_aborted (delete_reply_caps_naming k u) u) c u) else (False, k))"
  by (auto simp: strand_reply_caller_def awaiting_def Let_def split: option.splits)

lemma ok_strand:
  assumes ok: "ok_but A R k Q" and u: "u \<notin> A" and unqueued: "awaiting k u \<Longrightarrow> places Q u = {}"
    and wf: "\<And>t th. t \<in> A \<Longrightarrow> get_thread k t = Some th \<Longrightarrow> table_wf (capability_table th)"
    and c: "c < length (percpu k)" "current (percpu k ! c) \<noteq> NO_TID"
  defines "k' \<equiv> snd (strand_reply_caller k c u)"
  obtains Q' where "ok_but A R k' Q'" and "same_cores k k'"
    and "\<forall>s. s \<noteq> u \<longrightarrow> get_thread k' s = map_option (if awaiting k u then drop_reply_caps u else id) (get_thread k s)"
      "\<forall>s. s \<noteq> u \<longrightarrow> places Q' s = places Q s" "awaiting k' u \<longrightarrow> places Q' u = {}"
      "\<forall>v. holders k' v \<subseteq> holders k v"
proof (cases "awaiting k u")
  case False
  then show ?thesis using that [of Q] ok by (simp add: k'_def strand_eq option.map_id)
next
  case True
  then obtain th where th: "get_thread k u = Some th" "awaits_reply th" by (auto simp: awaiting_def)
  note P = unqueued [OF True] and wfk = ok_butD(6) [OF ok] and tok = ok_but_good [OF ok u th(1)]
  let ?k1 = "delete_reply_caps_naming k u" and ?A = "insert u A"
  let ?f = "\<lambda>t :: Thread. t\<lparr>handshake := abort (handshake t), outgoing_cap := None\<rparr>"
  let ?k2 = "upd_thread ?k1 u ?f" and ?th = "?f (drop_reply_caps u th)"
  have wf': "table_wf (capability_table th)" if "t \<in> ?A" "get_thread k t = Some th" for t th
    using ok_tables_wf [OF ok wf that(2)] .
  have ok1: "ok_but ?A R ?k1 Q"
    by (rule ok_delete_reply_caps [OF ok_but_mono [OF ok] _ wf']) auto
  note wf1 = ok_butD(6) [OF ok1]
  have ok2: "ok_but ?A R ?k2 Q" by (rule ok_upd_thread [OF ok1]) simp_all
  have get: "get_thread ?k2 s = (if s = u then Some ?th else map_option (drop_reply_caps u) (get_thread k s))" for s
    using th(1) wf1 by (simp add: get_delete_reply_caps [OF wfk])
  have get_u: "get_thread ?k2 u = Some ?th" by (simp add: get)
  have H: "holders ?k2 u = {}"
    using holders_upd_thread [OF wf1, of u ?f] holders_delete_reply_caps [OF wfk ok_tables_wf [OF ok wf], where u = u and v = u] by simp
  have shed: "holders ?k2 v \<subseteq> holders k v" for v
    using holders_upd_thread [OF wf1, of u ?f] holders_delete_reply_caps [OF wfk ok_tables_wf [OF ok wf], where u = u and v = v]
    by simp
  have same: "same_cores k ?k2" by (simp add: same_cores_def)
  note views = same_coresD(7-9) [OF same]
  have k': "k' = wake ?k2 c u" using True by (simp add: k'_def strand_eq set_ipc_aborted_def)
  have "caps_ok (drop_reply_caps u th)" using caps_ok_drop [of th u] tok by (simp add: thread_ok_def)
  then have caps: "caps_ok ?th" by (rule caps_ok_cong) (simp_all add: abort_def)
  show ?thesis
  proof (cases "state (handshake th) = Blocked")
    case True
    have w: "wakeable ?th (cur_on ?k2 u) (out_on ?k2 u) (idle_on ?k2 u) (holders ?k2 u)"
      unfolding H views by (rule wakeable_delivered [OF tok True _ _ _ caps]) simp_all
    have c2: "c < length (percpu ?k2)" "current (percpu ?k2 ! c) \<noteq> NO_TID" using c by simp_all
    obtain Q' where q: "ok_but (?A - {u}) R (wake ?k2 c u) Q'" "same_cores ?k2 (wake ?k2 c u)"
      "\<forall>s. s \<noteq> u \<longrightarrow> get_thread (wake ?k2 c u) s = get_thread ?k2 s" "holders (wake ?k2 c u) = holders ?k2"
      "\<forall>s. s \<noteq> u \<longrightarrow> places Q' s = places Q s"
      "get_thread (wake ?k2 c u) u = Some (?th\<lparr>handshake := snd (try_wake (handshake ?th))\<rparr>)"
      "fst (try_wake (handshake ?th)) \<noteq> Queue \<longrightarrow> Q' = Q"
      using ok_wake [OF ok2 insertI1 P get_u w c2] .
    show ?thesis
    proof (rule that [of Q'])
      show "ok_but A R k' Q'" using q(1) u by (simp add: k')
      show "same_cores k k'" unfolding k' by (rule same_cores_trans [OF same q(2)])
      show "\<forall>s. s \<noteq> u \<longrightarrow> get_thread k' s = map_option (if awaiting k u then drop_reply_caps u else id) (get_thread k s)"
        using q(3) get \<open>awaiting k u\<close> by (simp add: k')
      show "awaiting k' u \<longrightarrow> places Q' u = {}"
      proof
        assume that: "awaiting k' u"
        have "awaits_reply (?th\<lparr>handshake := snd (try_wake (handshake ?th))\<rparr>)"
          using that unfolding awaiting_def k' q(6) by blast
        from awaits_waits [OF this] have "wait_on (snd (try_wake (handshake ?th))) \<noteq> None" by simp
        then have "fst (try_wake (handshake ?th)) \<noteq> Queue" by (auto simp: try_wake_def split: if_splits)
        then show "places Q' u = {}" using q(7) P by simp
      qed
    qed (use q(4,5) shed in \<open>simp_all add: k'\<close>)
  next
    case False
    then have "k' = upd_thread ?k2 u (\<lambda>t. t\<lparr>handshake := handshake ?th\<rparr>)"
      using get [of u] by (simp add: k' wake_def try_wake_def abort_def)
    then have k'': "k' = upd_thread ?k2 u (\<lambda>t. t\<lparr>handshake := handshake ?th\<rparr>)" .
    show ?thesis
    proof (rule that [of Q])
      have "state (handshake th) = Dead" using tok False awaits_waits [OF th(2)] by (auto simp: thread_ok_def wait_ok_def)
      then have "thread_ok u ?th {} (cur_on k u) (out_on k u) (idle_on k u) {}"
        using tok caps P
        by (auto simp: thread_ok_def stands_ok_def wait_ok_def place_ok_def sends_ok_def held_ok_def resume_ok_def handshake_defs)
      moreover have "ok_but ?A R k' Q" unfolding k'' by (rule ok_upd_thread [OF ok2]) simp_all
      moreover have "get_thread k' u = Some ?th" using get [of u] ok_butD(6) [OF ok2] by (simp add: k'')
      moreover have hold: "holders k' = holders ?k2" using holders_upd_thread [OF ok_butD(6) [OF ok2]] by (simp add: k'')
      moreover show same': "same_cores k k'" unfolding k'' by (rule same_cores_trans [OF same]) simp
      ultimately have "good k' Q u" using H by (simp add: good_def P same_coresD(7-9) [OF same'])
      show "\<forall>v. holders k' v \<subseteq> holders k v" using shed hold by simp
      show "ok_but A R k' Q" using \<open>good k' Q u\<close> by (intro ok_but_close [OF \<open>ok_but ?A R k' Q\<close>]) blast
      show "\<forall>s. s \<noteq> u \<longrightarrow> get_thread k' s = map_option (if awaiting k u then drop_reply_caps u else id) (get_thread k s)"
        using get \<open>awaiting k u\<close> ok_butD(6) [OF ok2] by (simp add: k'')
    qed (use P in simp_all)
  qed
qed

text \<open>Several callers at once.  The threads left out of the invariant only lose capabilities.\<close>

lemma fold_drop_fields:
  "replying (fold drop_reply_caps us th) = replying th"
  "handshake (fold drop_reply_caps us th) = handshake th" "killed (fold drop_reply_caps us th) = killed th"
  "fault_ep (fold drop_reply_caps us th) = fault_ep th" "awaits_reply (fold drop_reply_caps us th) = awaits_reply th"
  by (induction us arbitrary: th) simp_all

lemma table_ok_fold_drop: "table_ok th \<Longrightarrow> table_ok (fold drop_reply_caps us th)"
  by (induction us arbitrary: th) (simp_all add: table_ok_drop)

lemma reply_slots_fold_drop:
  "table_ok th \<Longrightarrow> reply_slots (capability_table (fold drop_reply_caps us th)) v
    = (if v \<in> set us then {} else reply_slots (capability_table th) v)"
proof (induction us arbitrary: th)
  case (Cons u us)
  have "table_wf (capability_table th)" using Cons.prems by (rule table_okD)
  then show ?case using Cons.IH [OF table_ok_drop [OF Cons.prems], of u] reply_slots_drop [of th u v]
    by (cases "v = u") simp_all
qed simp

definition strand_all :: "nat \<Rightarrow> ThreadId list \<Rightarrow> Kernel \<Rightarrow> Kernel" where
  "strand_all c us k = fold (\<lambda>u k. snd (strand_reply_caller k c u)) us k"

lemma ok_strand_all:
  assumes "ok_but A R k Q" and "\<forall>u \<in> set us. u \<notin> A \<and> (awaiting k u \<longrightarrow> places Q u = {})"
    and "\<forall>t th. t \<in> A \<and> get_thread k t = Some th \<longrightarrow> table_ok th"
    and "c < length (percpu k)" "current (percpu k ! c) \<noteq> NO_TID"
  shows "\<exists>Q' vs. ok_but A R (strand_all c us k) Q' \<and> same_cores k (strand_all c us k)
    \<and> {u \<in> set us. awaiting k u} \<subseteq> set vs \<and> set vs \<subseteq> set us
    \<and> (\<forall>s. s \<notin> set us \<longrightarrow> get_thread (strand_all c us k) s = map_option (fold drop_reply_caps vs) (get_thread k s)
        \<and> places Q' s = places Q s)
    \<and> (\<forall>v. holders (strand_all c us k) v \<subseteq> holders k v)"
  using assms
proof (induction us arbitrary: k Q)
  case Nil
  then show ?case by (intro exI [of _ Q] exI [of _ "[]"]) (simp add: strand_all_def option.map_ident)
next
  case (Cons u us)
  let ?k = "snd (strand_reply_caller k c u)"
  let ?vs = "if awaiting k u then [u] else []"
  have wf: "table_wf (capability_table th)" if "t \<in> A" "get_thread k t = Some th" for t th
    using Cons.prems(3) that by (auto dest: table_okD)
  have un: "u \<notin> A" "awaiting k u \<Longrightarrow> places Q u = {}" using Cons.prems(2) by auto
  obtain Q1 where s: "ok_but A R ?k Q1" "same_cores k ?k"
    "\<forall>s. s \<noteq> u \<longrightarrow> get_thread ?k s = map_option (if awaiting k u then drop_reply_caps u else id) (get_thread k s)"
    "\<forall>s. s \<noteq> u \<longrightarrow> places Q1 s = places Q s" "awaiting ?k u \<longrightarrow> places Q1 u = {}"
    "\<forall>v. holders ?k v \<subseteq> holders k v"
    using ok_strand [OF Cons.prems(1) un wf Cons.prems(4,5)] .
  have get: "get_thread ?k s = map_option (fold drop_reply_caps ?vs) (get_thread k s)" if "s \<noteq> u" for s
    using s(3) that by (cases "get_thread k s") simp_all
  have aw: "awaiting ?k s = awaiting k s" if "s \<noteq> u" for s
    using get [OF that] by (cases "get_thread k s") (auto simp: awaiting_def)
  have 1: "\<forall>v \<in> set us. v \<notin> A \<and> (awaiting ?k v \<longrightarrow> places Q1 v = {})"
  proof
    fix v assume "v \<in> set us"
    with Cons.prems(2) s(4,5) aw [of v] show "v \<notin> A \<and> (awaiting ?k v \<longrightarrow> places Q1 v = {})" by (cases "v = u") auto
  qed
  have 2: "\<forall>t th. t \<in> A \<and> get_thread ?k t = Some th \<longrightarrow> table_ok th"
  proof (intro allI impI)
    fix t th assume t: "t \<in> A \<and> get_thread ?k t = Some th"
    then have "t \<noteq> u" using un(1) by blast
    then obtain th0 where "get_thread k t = Some th0" "th = fold drop_reply_caps ?vs th0"
      using get [of t] t by (cases "get_thread k t") auto
    then show "table_ok th" using Cons.prems(3) t table_ok_fold_drop by blast
  qed
  have 3: "c < length (percpu ?k)" "current (percpu ?k ! c) \<noteq> NO_TID"
    using Cons.prems(4,5) same_coresD [OF s(2)] by simp_all
  from Cons.IH [OF s(1) 1 2 3] obtain Q' vs where q: "ok_but A R (strand_all c us ?k) Q'" "same_cores ?k (strand_all c us ?k)"
    "{u \<in> set us. awaiting ?k u} \<subseteq> set vs" "set vs \<subseteq> set us"
    "\<forall>s. s \<notin> set us \<longrightarrow> get_thread (strand_all c us ?k) s = map_option (fold drop_reply_caps vs) (get_thread ?k s)
        \<and> places Q' s = places Q1 s" "\<forall>v. holders (strand_all c us ?k) v \<subseteq> holders ?k v" by blast
  have eq: "strand_all c (u # us) k = strand_all c us ?k" by (simp add: strand_all_def)
  show ?case
    unfolding eq
  proof (intro exI [of _ Q'] exI [of _ "?vs @ vs"] conjI q(1))
    show "same_cores k (strand_all c us ?k)" by (rule same_cores_trans [OF s(2) q(2)])
    show "{v \<in> set (u # us). awaiting k v} \<subseteq> set (?vs @ vs)" using q(3) aw by fastforce
    show "set (?vs @ vs) \<subseteq> set (u # us)" using q(4) by auto
    show "\<forall>v. holders (strand_all c us ?k) v \<subseteq> holders k v" using q(6) s(6) by blast
    show "\<forall>s. s \<notin> set (u # us) \<longrightarrow> get_thread (strand_all c us ?k) s = map_option (fold drop_reply_caps (?vs @ vs)) (get_thread k s)
        \<and> places Q' s = places Q s"
      using q(5) get s(4) by (simp add: option.map_comp comp_def)
  qed
qed

lemma occupancy_zero: "occupancy xs = 0 \<Longrightarrow> i < length xs \<Longrightarrow> xs ! i = None"
  by (simp add: occupancy_def filter_empty_conv)

lemma set_reply_victims:
  assumes "table_wf cs"
  shows "set (reply_victims cs) = {u. reply_slots cs u \<noteq> {}}"
proof -
  define f where "f i = (case get cs (of_nat i) of
      Inr cap \<Rightarrow> (case object cap of ObReply caller \<Rightarrow> Some caller | _ \<Rightarrow> None) | Inl _ \<Rightarrow> None)" for i
  have f: "f i = Some u \<longleftrightarrow> i \<in> reply_slots cs u" if "i < capacity cs" for i u
  proof -
    have "get cs (of_nat i) = (case slot cs i of None \<Rightarrow> Inl NoSuchSlot | Some c \<Rightarrow> Inr c)"
      using that table_wfD(1) [OF assms] by (simp add: get_def unat_of_nat take_bit_nat_eq_self)
    then show ?thesis by (cases "slot cs i") (auto simp: f_def reply_slots_def split: Object.splits)
  qed
  have "i < capacity cs" if "i \<in> reply_slots cs u" for i u
    using that by (auto simp: reply_slots_def slot_def split: if_splits)
  moreover have "set (reply_victims cs) = {u. \<exists>i < capacity cs. f i = Some u}"
    unfolding reply_victims_def f_def [symmetric] by (auto simp: List.map_filter_def image_iff) (metis option.sel)+
  ultimately show ?thesis using f by blast
qed

text \<open>A thread that will answer nobody: every caller it held a reply capability for is cut loose, and it
  holds no reply capability afterwards.\<close>

lemma ok_strand_callers_of:
  assumes ok: "ok_but {t} R k Q" and th: "get_thread k t = Some th" "table_ok th"
    and own: "reply_slots (capability_table th) t = {}" and unspent: "replying th = None"
    and c: "c < length (percpu k)" "current (percpu k ! c) \<noteq> NO_TID"
  obtains Q' vs where "ok_but {t} R (strand_callers_of k c t) Q'" and "same_cores k (strand_callers_of k c t)"
    and "get_thread (strand_callers_of k c t) t = Some (fold drop_reply_caps vs th)" "places Q' t = places Q t"
      "\<forall>u. reply_slots (capability_table (fold drop_reply_caps vs th)) u = {}"
      "\<forall>v. holders (strand_callers_of k c t) v \<subseteq> holders k v"
proof -
  let ?us = "reply_victims (capability_table th)"
  have wf: "table_wf (capability_table th)" using th(2) by (rule table_okD)
  note us = set_reply_victims [OF wf]
  have held: "awaiting k u \<and> places Q u = {} \<and> u \<noteq> t" if "u \<in> set ?us" for u
  proof -
    from that obtain i where i: "i \<in> reply_slots (capability_table th) u" using us by auto
    then have ut: "u \<noteq> t" using own by auto
    have "(t, i) \<in> holders k u" using i th(1) unspent by (simp add: holders_def live_replies_def)
    then show ?thesis
      using ok_butD(5) [OF ok, of u] ut
      by (cases "get_thread k u") (auto simp: good_def absent_ok_def thread_ok_def held_ok_def awaiting_def)
  qed
  show ?thesis
  proof (cases "cap_used (capability_table th) = 0")
    case True
    have "slot (capability_table th) i = None" for i
      using True table_wfD(3) [OF wf] occupancy_zero [of "cap_slots (capability_table th)" i]
      by (simp add: slot_def capacity_def)
    then have "reply_slots (capability_table th) u = {}" for u by (simp add: reply_slots_def)
    moreover have "strand_callers_of k c t = k" using th(1) True by (simp add: strand_callers_of_def)
    ultimately show ?thesis using that [of Q "[]"] ok th(1) by simp
  next
    case False
    then have eq: "strand_callers_of k c t = strand_all c ?us k"
      using th(1) by (simp add: strand_callers_of_def strand_all_def)
    have 1: "\<forall>u \<in> set ?us. u \<notin> {t} \<and> (awaiting k u \<longrightarrow> places Q u = {})" using held by auto
    have 2: "\<forall>s th'. s \<in> {t} \<and> get_thread k s = Some th' \<longrightarrow> table_ok th'" using th by simp
    obtain Q' vs where q: "ok_but {t} R (strand_all c ?us k) Q'" "same_cores k (strand_all c ?us k)"
      "{u \<in> set ?us. awaiting k u} \<subseteq> set vs" "set vs \<subseteq> set ?us"
      "\<forall>s. s \<notin> set ?us \<longrightarrow> get_thread (strand_all c ?us k) s = map_option (fold drop_reply_caps vs) (get_thread k s)
        \<and> places Q' s = places Q s" "\<forall>v. holders (strand_all c ?us k) v \<subseteq> holders k v"
      using ok_strand_all [OF ok 1 2 c] by blast
    have t: "t \<notin> set ?us" using us own by simp
    have "set vs = set ?us" using q(3,4) held by auto
    then have "\<forall>u. reply_slots (capability_table (fold drop_reply_caps vs th)) u = {}"
      using reply_slots_fold_drop [OF th(2), of vs] us by auto
    then show ?thesis using that [of Q' vs] q(1,2,5,6) t th(1) by (simp add: eq)
  qed
qed

end
