(* ===== verification/Kernel_Switch.thy ===== *)
theory Kernel_Switch
  imports Kernel_Wake
begin

text \<open>The two halves of a context switch, placement, and migration between cores keep the invariant and
  never panic, in a debug build as in a release build.\<close>


section \<open>Who stands where\<close>

lemma sole_place:
  assumes "\<exists>d. X \<union> Y \<union> Z \<subseteq> {d :: nat}" and "X \<inter> Y = {}" and "c \<in> X"
  shows "X = {c}" "Y = {}" "Z \<subseteq> {c}"
proof -
  obtain d where d: "X \<subseteq> {d}" "Y \<subseteq> {d}" "Z \<subseteq> {d}" using assms(1) by blast
  with assms(3) have "d = c" by blast
  with d assms(2,3) show "X = {c}" "Y = {}" "Z \<subseteq> {c}" by auto
qed

lemma current_thread:
  assumes ok: "ok_but A R k Q" and c: "c < length (percpu k)" "current (percpu k ! c) \<noteq> NO_TID"
    and A: "current (percpu k ! c) \<notin> A"
  obtains th where "get_thread k (current (percpu k ! c)) = Some th"
    and "thread_ok (current (percpu k ! c)) th (places Q (current (percpu k ! c))) {c}
      {} (idle_on k (current (percpu k ! c))) (holders k (current (percpu k ! c)))"
    and "cur_on k (current (percpu k ! c)) = {c}" "out_on k (current (percpu k ! c)) = {}"
      "idle_on k (current (percpu k ! c)) \<subseteq> {c}"
proof -
  let ?t = "current (percpu k ! c)"
  have C: "c \<in> cur_on k ?t" using c by (simp add: cur_on_def)
  then have "get_thread k ?t \<noteq> None"
    using ok_but_absent [OF ok A] c(2) by (auto simp: absent_ok_def)
  then obtain th where th: "get_thread k ?t = Some th" by auto
  have tok: "thread_ok ?t th (places Q ?t) (cur_on k ?t) (out_on k ?t) (idle_on k ?t) (holders k ?t)"
    using ok_but_good [OF ok A th] .
  then have "cur_on k ?t = {c}" "out_on k ?t = {}" "idle_on k ?t \<subseteq> {c}"
    using sole_place [OF _ _ C, of "out_on k ?t" "idle_on k ?t"] by (auto simp: thread_ok_def stands_ok_def)
  with tok th show ?thesis using that by simp
qed

lemma switched_thread:
  assumes ok: "ok_but A R k Q" and c: "c < length (percpu k)" "switched_from (percpu k ! c) \<noteq> NO_TID"
    and A: "switched_from (percpu k ! c) \<notin> A"
  obtains th where "get_thread k (switched_from (percpu k ! c)) = Some th"
    and "thread_ok (switched_from (percpu k ! c)) th (places Q (switched_from (percpu k ! c))) {}
      {c} (idle_on k (switched_from (percpu k ! c))) (holders k (switched_from (percpu k ! c)))"
    and "cur_on k (switched_from (percpu k ! c)) = {}" "out_on k (switched_from (percpu k ! c)) = {c}"
proof -
  let ?t = "switched_from (percpu k ! c)"
  have S: "c \<in> out_on k ?t" using c by (simp add: out_on_def)
  then have "get_thread k ?t \<noteq> None"
    using ok_but_absent [OF ok A] c(2) by (auto simp: absent_ok_def)
  then obtain th where th: "get_thread k ?t = Some th" by auto
  have tok: "thread_ok ?t th (places Q ?t) (cur_on k ?t) (out_on k ?t) (idle_on k ?t) (holders k ?t)"
    using ok_but_good [OF ok A th] .
  then have "out_on k ?t = {c}" "cur_on k ?t = {}"
    using sole_place [OF _ _ S, of "cur_on k ?t" "idle_on k ?t"]
    by (auto simp: thread_ok_def stands_ok_def Un_commute Int_commute)
  with tok th show ?thesis using that by simp
qed

lemma queued_thread:
  assumes ok: "ok_but A R k Q" and q: "t \<in> set (Q q)" and A: "t \<notin> A"
  obtains th where "get_thread k t = Some th"
    and "thread_ok t th {q} (cur_on k t) (out_on k t) (idle_on k t) (holders k t)" "t \<noteq> NO_TID"
proof -
  have P: "places Q t = {q}" by (rule places_member [OF ok_butD(2) [OF ok] q])
  then have "get_thread k t \<noteq> None" using ok_but_absent [OF ok A] by (auto simp: absent_ok_def)
  then obtain th where th: "get_thread k t = Some th" by auto
  moreover have "t \<noteq> NO_TID" using th get_thread_NO_TID [OF ok_butD(6) [OF ok]] by auto
  ultimately show ?thesis using that ok_but_good [OF ok A th] P by simp
qed


lemma waits_ok_runnable: "\<not> waits_ok h {RunQ c}" "\<not> waits_ok h {Inbox c}"
proof -
  have "wait_queue w \<noteq> RunQ c \<and> wait_queue w \<noteq> Inbox c" for w by (cases w rule: wait_queue.cases) simp_all
  then show "\<not> waits_ok h {RunQ c}" "\<not> waits_ok h {Inbox c}"
    by (simp_all add: waits_ok_def eq_commute split: option.split)
qed

lemma runnable_thread:
  "thread_ok t th {RunQ c} C S I H \<Longrightarrow> state (handshake th) = Ready \<and> C = {} \<and> I = {} \<and> S \<subseteq> {c}"
  "thread_ok t th {Inbox c} C S I H \<Longrightarrow> state (handshake th) = Ready \<and> C = {} \<and> I = {} \<and> S = {}"
  by (cases "state (handshake th)"; simp add: thread_ok_def place_ok_def waits_ok_runnable split: if_splits)+

lemma idle_thread:
  assumes ok: "ok_but A R k Q" and c: "c < length (percpu k)" "idle (percpu k ! c) \<noteq> NO_TID"
    and A: "idle (percpu k ! c) \<notin> A"
  obtains th where "get_thread k (idle (percpu k ! c)) = Some th"
    and "thread_ok (idle (percpu k ! c)) th {} (cur_on k (idle (percpu k ! c)))
      (out_on k (idle (percpu k ! c))) {c} (holders k (idle (percpu k ! c)))"
    and "idle_on k (idle (percpu k ! c)) = {c}" "places Q (idle (percpu k ! c)) = {}"
      "cur_on k (idle (percpu k ! c)) \<subseteq> {c}" "out_on k (idle (percpu k ! c)) \<subseteq> {c}"
      "state (handshake th) = Ready \<or> state (handshake th) = Running"
proof -
  let ?t = "idle (percpu k ! c)"
  have I: "c \<in> idle_on k ?t" using c by (simp add: idle_on_def)
  then have "get_thread k ?t \<noteq> None"
    using ok_but_absent [OF ok A] c(2) by (auto simp: absent_ok_def)
  then obtain th where th: "get_thread k ?t = Some th" by auto
  have tok: "thread_ok ?t th (places Q ?t) (cur_on k ?t) (out_on k ?t) (idle_on k ?t) (holders k ?t)"
    using ok_but_good [OF ok A th] .
  then obtain d where "cur_on k ?t \<union> out_on k ?t \<union> idle_on k ?t \<subseteq> {d}" by (auto simp: thread_ok_def stands_ok_def)
  moreover from this I have "d = c" by blast
  ultimately have sub: "idle_on k ?t = {c}" "cur_on k ?t \<subseteq> {c}" "out_on k ?t \<subseteq> {c}" using I by auto
  have "places Q ?t = {}" "state (handshake th) = Ready \<or> state (handshake th) = Running"
    using tok sub(1) by (cases "state (handshake th)"; auto simp: thread_ok_def place_ok_def)+
  with tok th sub show ?thesis using that by simp
qed


section \<open>The thread switched out\<close>

lemmas thread_ok_defs = thread_ok_def stands_ok_def wait_ok_def place_ok_def sends_ok_def held_ok_def waits_ok_def resume_ok_def

lemma finish_reap:
  assumes "thread_ok t th P {} {c} I H" and "finish_switch_out (handshake th) = (SwitchReap, h)"
  shows "P = {} \<and> I = {} \<and> H = {} \<and> (\<forall>u. reply_slots (capability_table th) u = {})"
proof -
  have "state (handshake th) = Finished" using assms(2) by (auto simp: finish_switch_out_def Let_def split: if_splits)
  moreover have "on_cpu (handshake th)" using assms(1) by (auto simp: thread_ok_def stands_ok_def)
  ultimately show ?thesis using assms(1) by (auto simp: thread_ok_def place_ok_def held_ok_def caps_ok_def)
qed

lemma finish_woken:
  assumes "thread_ok t th P {} {c} I H" and "finish_switch_out (handshake th) = (WakeCompleted, h)"
  shows "P = {} \<and> thread_ok t (th\<lparr>handshake := h\<rparr>) {RunQ c} {} {} I H"
proof -
  have h: "h = (handshake th)\<lparr>on_cpu := False, wake_pending := False, state := Ready, wait_on := None\<rparr>"
    and w: "wake_pending (handshake th)"
    using assms(2) by (auto simp: finish_switch_out_def Let_def split: if_splits)
  then have b: "state (handshake th) = Blocked" "is_delivered (handshake th)"
    using assms(1) by (auto simp: thread_ok_defs)
  have "caps_ok (th\<lparr>handshake := h\<rparr>)" by (rule caps_ok_cong [of th]) (use assms(1) h in \<open>auto simp: thread_ok_def\<close>)
  then show ?thesis using assms(1) b h
    by (auto simp: thread_ok_defs is_delivered_def split: option.splits)
qed

lemma finish_cleared:
  assumes "thread_ok t th P {} {c} I H" and "finish_switch_out (handshake th) = (Cleared, h)"
  shows "thread_ok t (th\<lparr>handshake := h\<rparr>) P {} {} I H"
proof -
  have h: "h = (handshake th)\<lparr>on_cpu := False\<rparr>" and w: "\<not> wake_pending (handshake th)" "state (handshake th) \<noteq> Finished"
    using assms(2) by (auto simp: finish_switch_out_def Let_def split: if_splits)
  have caps: "caps_ok (th\<lparr>handshake := h\<rparr>)"
    by (rule caps_ok_cong [of th]) (use assms(1) h in \<open>auto simp: thread_ok_def\<close>)
  moreover have "is_delivered h = is_delivered (handshake th)" "awaits_reply (th\<lparr>handshake := h\<rparr>) = awaits_reply th"
    by (simp_all add: h is_delivered_def awaits_reply_def)
  ultimately have "sends_ok t (th\<lparr>handshake := h\<rparr>) P = sends_ok t th P" "held_ok (th\<lparr>handshake := h\<rparr>) P H = held_ok th P H"
    "waits_ok h P = waits_ok (handshake th) P"
    by (simp_all add: h sends_ok_def held_ok_def resume_ok_def waits_ok_def split: option.split)
  then show ?thesis using assms(1) w caps
    by (cases "state (handshake th)") (auto simp: thread_ok_def stands_ok_def wait_ok_def place_ok_def resume_ok_def h split: if_splits)
qed

lemma ok_finish_switch:
  assumes ok: "kernel_ok k Q" and c: "c < length (percpu k)"
  shows "\<exists>Q'. kernel_ok (finish_switch k c) Q'"
proof (cases "switched_from (percpu k ! c) = NO_TID")
  case True
  then have "(percpu k ! c)\<lparr>switched_from := NO_TID\<rparr> = percpu k ! c" by (cases "percpu k ! c") simp
  then have "upd_cpu k c (\<lambda>p. p\<lparr>switched_from := NO_TID\<rparr>) = k" by (simp add: upd_cpu_def)
  then show ?thesis using ok True by (auto simp: finish_switch_def cpu_of_def Let_def)
next
  case False
  let ?t = "switched_from (percpu k ! c)" and ?f = "\<lambda>p :: PerCpu. p\<lparr>switched_from := NO_TID\<rparr>"
  let ?k = "upd_cpu k c ?f"
  obtain th where th: "get_thread k ?t = Some th"
    "thread_ok ?t th (places Q ?t) {} {c} (idle_on k ?t) (holders k ?t)" "cur_on k ?t = {}" "out_on k ?t = {c}"
    using switched_thread [OF ok c False] by auto
  note core = ok_butD(4) [OF ok c, unfolded core_ok_def Let_def]
  have run: "current (percpu k ! c) \<noteq> NO_TID" using core False by auto
  have ok1: "ok_but {?t} {} ?k Q"
    by (rule ok_core [OF ok_but_mono [OF ok] c refl]) (use core run in auto)
  have views: "cur_on ?k ?t = {}" "out_on ?k ?t = {}" "idle_on ?k = idle_on k" "holders ?k = holders k"
    "get_thread ?k = get_thread k" "current (percpu ?k ! c) = current (percpu k ! c)"
    using th(3,4) c False by (auto simp: views_upd_cpu holders_upd_cpu percpu_upd_cpu out_on_def split: if_splits)
  obtain v h where v: "finish_switch_out (handshake th) = (v, h)" by (cases "finish_switch_out (handshake th)")
  let ?k2 = "upd_thread ?k ?t (\<lambda>t. t\<lparr>handshake := h\<rparr>)"
  have ok2: "ok_but {?t} {} ?k2 Q" by (rule ok_upd_thread [OF ok1]) simp_all
  have get: "get_thread ?k2 ?t = Some (th\<lparr>handshake := h\<rparr>)" using th(1) ok_butD(6) [OF ok1] by (simp add: views)
  have hold: "holders ?k2 = holders k" using holders_upd_thread [OF ok_butD(6) [OF ok1]] views(4) by simp
  have eq: "finish_switch k c = (case v of SwitchReap \<Rightarrow> remove_thread ?k2 ?t | WakeCompleted \<Rightarrow> runq_push ?k2 c ?t | Cleared \<Rightarrow> ?k2)"
    using False th(1) v by (simp add: finish_switch_def cpu_of_def Let_def)
  show ?thesis
  proof (cases v)
    case SwitchReap
    note r = finish_reap [OF th(2) v [unfolded SwitchReap]]
    have ok3: "ok_but {?t} {} (remove_thread ?k2 ?t) Q" by (rule ok_remove_thread [OF ok2]) (use r get in \<open>auto simp: live_replies_def\<close>)
    have "good (remove_thread ?k2 ?t) Q ?t"
      using r hold views ok_butD(6) [OF ok2] on_cong [of "remove_thread ?k2 ?t" ?k2]
        holders_remove_thread [OF ok_butD(6) [OF ok2], of ?t ?t]
      by (simp add: good_def absent_ok_def del: get_upd_thread)
    then show ?thesis using ok_but_close [OF ok3, of "{}"] by (auto simp: eq SwitchReap)
  next
    case WakeCompleted
    note w = finish_woken [OF th(2) v [unfolded WakeCompleted]]
    let ?Q = "Q(RunQ c := Q (RunQ c) @ [?t])"
    have ok3: "ok_but {?t} {} (runq_push ?k2 c ?t) ?Q"
      by (rule ok_runq_push [OF ok2]) (use c w run views(6) in simp_all)
    have "good (runq_push ?k2 c ?t) ?Q ?t"
      using w get hold views by (simp add: good_def places_push del: get_upd_thread)
    then show ?thesis using ok_but_close [OF ok3, of "{}"] by (auto simp: eq WakeCompleted)
  next
    case Cleared
    have "good ?k2 Q ?t"
      using finish_cleared [OF th(2) v [unfolded Cleared]] get hold views by (simp add: good_def del: get_upd_thread)
    then show ?thesis using ok_but_close [OF ok2, of "{}"] by (auto simp: eq Cleared)
  qed
qed


section \<open>The thread switched in\<close>

lemma thread_enters:
  assumes "thread_ok t th P {} {} I H" and "state (handshake th) = Ready \<or> state (handshake th) = Running" and "I \<subseteq> {c}"
  shows "thread_ok t (th\<lparr>handshake := (handshake th)\<lparr>state := Running, on_cpu := True\<rparr>\<rparr>) {} {c} {} I H"
proof -
  let ?th = "th\<lparr>handshake := (handshake th)\<lparr>state := Running, on_cpu := True\<rparr>\<rparr>"
  have "caps_ok ?th" by (rule caps_ok_cong [of th]) (use assms(1) in \<open>auto simp: thread_ok_def\<close>)
  moreover have "outgoing_cap th = None" "wait_on (handshake th) = None" "\<not> wake_pending (handshake th)" "H = {}"
  proof -
    have "sends_ok t th P" "wait_ok (handshake th)" "held_ok th P H" using assms(1) by (simp_all add: thread_ok_def)
    moreover have "state (handshake th) \<noteq> Blocked" "state (handshake th) \<noteq> Finished" "state (handshake th) \<noteq> Dead"
      using assms(2) by auto
    ultimately show "outgoing_cap th = None" "wait_on (handshake th) = None" "\<not> wake_pending (handshake th)" "H = {}"
      by (cases "outgoing_cap th"; simp add: sends_ok_def wait_ok_def held_ok_def)+
  qed
  moreover have "I \<noteq> {} \<longrightarrow> \<not> killed th" "resuming th \<longrightarrow> is_delivered (handshake th)"
    using assms(1,2) by (auto simp: thread_ok_def place_ok_def resume_ok_def)
  moreover have "replying th \<noteq> None \<longrightarrow> \<not> resuming th" using assms(1) by (auto simp: thread_ok_def resume_ok_def)
  moreover have "stands_ok ?th {c} {} I" using assms(3) by (auto simp: stands_ok_def)
  ultimately show ?thesis
    by (simp add: thread_ok_def wait_ok_def place_ok_def sends_ok_def held_ok_def resume_ok_def)
qed

lemma thread_leaves:
  assumes "thread_ok t th P {c} {} I H" and "state (handshake th) = Running" and "I = {}" and "replying th = None"
  shows "thread_ok t (th\<lparr>handshake := (handshake th)\<lparr>state := Ready\<rparr>\<rparr>) {RunQ c} {} {c} I H"
proof -
  let ?th = "th\<lparr>handshake := (handshake th)\<lparr>state := Ready\<rparr>\<rparr>"
  have "caps_ok ?th" by (rule caps_ok_cong [of th]) (use assms(1) in \<open>auto simp: thread_ok_def\<close>)
  then show ?thesis
    using assms by (auto simp: thread_ok_defs is_delivered_def split: option.splits)
qed

lemma thread_stays:
  assumes "thread_ok t th P {c} {} I H" and "state (handshake th) = Running \<Longrightarrow> I \<noteq> {}"
  shows "thread_ok t th P {} {c} I H"
  using assms by (cases "state (handshake th)") (auto simp: thread_ok_def stands_ok_def place_ok_def)

lemma unwrap_thread_eq:
  "get_thread k t = Some th \<Longrightarrow> f th = Some th' \<Longrightarrow> unwrap_thread k t f = Some (upd_thread k t (\<lambda>_. th'))"
  by (simp add: unwrap_thread_def)

text \<open>The tail of \<open>schedule\<close>, first half: a current thread that is preempted goes to the back of the run
  queue, and any other keeps its place; the thread \<open>nxt\<close> is on no queue meanwhile.\<close>

lemma ok_step_off:
  fixes k c
  defines "cur \<equiv> current (percpu k ! c)" and "idl \<equiv> idle (percpu k ! c)"
  assumes ok: "ok_but {nxt} {} k Q" and c: "c < length (percpu k)" "cur \<noteq> NO_TID"
    and free: "replying_on k c = None" and nxt: "nxt \<noteq> cur" "places Q nxt = {}"
    and runs: "runs = (map_option (\<lambda>t. state (handshake t)) (get_thread k cur) = Some Running)"
  obtains k1 Q1 tc where "(if runs \<and> cur \<noteq> idl then do { k \<leftarrow> unwrap_thread k cur (upd_handshake (preempt (debug_assertions k)));
        Some (runq_push k c cur) } else Some k) = Some k1"
    and "ok_but {nxt, cur} {} k1 Q1" "same_cores k k1" "get_thread k1 = (get_thread k)(cur := Some tc)"
      "holders k1 = holders k" "thread_ok cur tc (places Q1 cur) {} {c} (idle_on k cur) (holders k cur)"
      "places Q1 nxt = {}" "cur_on k cur = {c}" "out_on k cur = {}"
proof -
  obtain tc where tc: "get_thread k cur = Some tc"
    "thread_ok cur tc (places Q cur) {c} {} (idle_on k cur) (holders k cur)"
    "cur_on k cur = {c}" "out_on k cur = {}" "idle_on k cur \<subseteq> {c}"
    using current_thread [OF ok c(1)] c(2) nxt(1) unfolding cur_def by auto
  have r: "runs = (state (handshake tc) = Running)" using runs tc(1) by simp
  have rep: "replying tc = None" using free tc(1) by (simp add: replying_on_def cur_def)
  have I: "idle_on k cur = {} \<longleftrightarrow> cur \<noteq> idl" using tc(5) c(1) by (auto simp: idle_on_def idl_def)
  have ok0: "ok_but {nxt, cur} {} k Q" by (rule ok_but_mono [OF ok]) auto
  note wf = ok_butD(6) [OF ok]
  show ?thesis
  proof (cases "runs \<and> cur \<noteq> idl")
    case True
    let ?tc = "tc\<lparr>handshake := (handshake tc)\<lparr>state := Ready\<rparr>\<rparr>"
    let ?k = "upd_thread k cur (\<lambda>_. ?tc)" and ?Q = "Q(RunQ c := Q (RunQ c) @ [cur])"
    have P: "places Q cur = {}" using tc(2) r True by (auto simp: thread_ok_def place_ok_def)
    have ok1: "ok_but {nxt, cur} {} ?k Q" by (rule ok_upd_thread [OF ok0]) (use tc(1) in simp_all)
    show ?thesis
    proof (rule that [of "runq_push ?k c cur" ?Q ?tc])
      show "(if runs \<and> cur \<noteq> idl then do { k \<leftarrow> unwrap_thread k cur (upd_handshake (preempt (debug_assertions k)));
        Some (runq_push k c cur) } else Some k) = Some (runq_push ?k c cur)"
        using tc(1) r True by (simp add: unwrap_thread_def upd_handshake_def preempt_def debug_assert_def)
      show "ok_but {nxt, cur} {} (runq_push ?k c cur) ?Q"
        using ok1 by (rule ok_runq_push) (use c P in \<open>simp_all add: cur_def\<close>)
      show "same_cores k (runq_push ?k c cur)" using same_cores_trans [OF same_cores_upd_thread same_cores_runq_push] .
      show "get_thread (runq_push ?k c cur) = (get_thread k)(cur := Some ?tc)" using wf tc(1) by simp
      show "holders (runq_push ?k c cur) = holders k"
        using holders_upd_thread [OF wf, of cur "\<lambda>_. ?tc"] tc(1) by simp
      show "thread_ok cur ?tc (places ?Q cur) {} {c} (idle_on k cur) (holders k cur)"
        using thread_leaves [OF tc(2)] True r I P rep by (simp add: places_push)
    qed (use nxt tc in \<open>auto simp: places_push\<close>)
  next
    case False
    show ?thesis
    proof (rule that [of k Q tc])
      show "(if runs \<and> cur \<noteq> idl then do { k \<leftarrow> unwrap_thread k cur (upd_handshake (preempt (debug_assertions k)));
        Some (runq_push k c cur) } else Some k) = Some k" unfolding if_not_P [OF False] ..
      show "thread_ok cur tc (places Q cur) {} {c} (idle_on k cur) (holders k cur)"
        by (rule thread_stays [OF tc(2)]) (use False r I in auto)
    qed (use ok0 nxt tc in \<open>auto simp: fun_upd_idem\<close>)
  qed
qed

text \<open>Second half: a thread that stands nowhere and is on no queue steps on.\<close>

lemma ok_switch_threads:
  fixes k c
  defines "cur \<equiv> current (percpu k ! c)" and "idl \<equiv> idle (percpu k ! c)"
  assumes ok: "ok_but {nxt} {} k Q" and c: "c < length (percpu k)" "cur \<noteq> NO_TID"
    and free: "switched_from (percpu k ! c) = NO_TID" "replying_on k c = None"
    and nxt: "nxt \<noteq> cur" "nxt \<noteq> NO_TID" "get_thread k nxt = Some tn" "places Q nxt = {}"
      "thread_ok nxt tn P {} {} (idle_on k nxt) (holders k nxt)" "cur_on k nxt = {}" "out_on k nxt = {}"
      "state (handshake tn) = Ready \<or> state (handshake tn) = Running" "idle_on k nxt \<subseteq> {c}"
    and runs: "runs = (map_option (\<lambda>t. state (handshake t)) (get_thread k cur) = Some Running)"
  shows "\<exists>k' Q'. switch_threads k c cur runs idl nxt = Some k' \<and> kernel_ok k' Q'"
proof -
  obtain k1 Q1 tc where o: "(if runs \<and> cur \<noteq> idl
      then do { k \<leftarrow> unwrap_thread k cur (upd_handshake (preempt (debug_assertions k))); Some (runq_push k c cur) }
      else Some k) = Some k1"
    "ok_but {nxt, cur} {} k1 Q1" "same_cores k k1" "get_thread k1 = (get_thread k)(cur := Some tc)"
    "holders k1 = holders k" "thread_ok cur tc (places Q1 cur) {} {c} (idle_on k cur) (holders k cur)"
    "places Q1 nxt = {}" "cur_on k cur = {c}" "out_on k cur = {}"
    using ok_step_off [OF ok c(1), folded cur_def idl_def, OF c(2) free(2) nxt(1,4) runs] .
  note s = same_coresD [OF o(3)] and wf1 = ok_butD(6) [OF o(2)]
  let ?tn = "tn\<lparr>handshake := (handshake tn)\<lparr>state := Running, on_cpu := True\<rparr>\<rparr>"
  let ?f = "\<lambda>p :: PerCpu. p\<lparr>current := nxt, switched_from := cur, switches := switches p + 1\<rparr>"
  let ?k2 = "upd_thread k1 nxt (\<lambda>_. ?tn)" let ?k3 = "upd_cpu ?k2 c ?f"
  have ok2: "ok_but {nxt, cur} {} ?k2 Q1" by (rule ok_upd_thread [OF o(2)]) (use o(4) nxt in simp_all)
  have get2: "get_thread ?k2 = (get_thread k)(cur := Some tc, nxt := Some ?tn)" using o(4) nxt(1,3) wf1 by simp
  have hold2: "holders ?k2 = holders k" using holders_upd_thread [OF wf1, of nxt "\<lambda>_. ?tn"] o(4,5) nxt(1,3) by simp
  have core: "idle (percpu k ! c) \<noteq> NO_TID"
    using ok_butD(4) [OF ok c(1)] c(2) by (simp add: core_ok_def Let_def cur_def)
  have ok3: "ok_but {nxt, cur} {} ?k3 Q1"
    by (rule ok_core [OF ok2 _ refl]) (use c free nxt(2) core s in \<open>auto simp: cur_def\<close>)
  have hold3: "holders ?k3 = holders k" unfolding holders_upd_cpu by (rule hold2)
  have views: "cur_on ?k3 nxt = {c}" "cur_on ?k3 cur = {}" "out_on ?k3 nxt = {}" "out_on ?k3 cur = {c}"
    "idle_on ?k3 = idle_on k"
    using c s nxt(1,6,7) o(8,9) unfolding cur_on_def out_on_def idle_on_def
    by (auto simp: percpu_upd_cpu cur_def split: if_splits)
  have "thread_ok nxt ?tn {} {c} {} (idle_on k nxt) (holders k nxt)" by (rule thread_enters [OF nxt(5,8,9)])
  then have "good ?k3 Q1 u" if "u \<in> {nxt, cur}" for u
    using that o(6,7) nxt(1) by (auto simp: good_def get2 hold3 views simp del: get_upd_thread holders_upd_cpu)
  then have "kernel_ok ?k3 Q1" using ok_but_close [OF ok3] by blast
  moreover have "\<not> on_cpu (handshake tn)" using nxt(5) by (auto simp: thread_ok_def stands_ok_def)
  then have "upd_handshake (switch_in (debug_assertions k1)) tn = Some ?tn"
    using nxt(8) by (simp add: upd_handshake_def switch_in_def debug_assert_def)
  then have "unwrap_thread k1 nxt (upd_handshake (switch_in (debug_assertions k1))) = Some ?k2"
    by (rule unwrap_thread_eq [rotated]) (use o(4) nxt in simp)
  then have "switch_threads k c cur runs idl nxt = Some ?k3"
    using nxt(1) unfolding switch_threads_def o(1) by simp
  ultimately show ?thesis by blast
qed


section \<open>The scheduling decision\<close>

definition convert_kill :: "Kernel \<Rightarrow> nat \<Rightarrow> Kernel" where
  "convert_kill k c =
     (case get_thread k (current_thread_id k c) of
        Some t \<Rightarrow> if killed t \<and> state (handshake t) = Running then finish_killed_current k c (current_thread_id k c) else k
      | None \<Rightarrow> k)"

lemma ok_convert_kill:
  assumes ok: "kernel_ok k Q" and c: "c < length (percpu k)" "current (percpu k ! c) \<noteq> NO_TID"
    and free: "replying_on k c = None"
  shows "\<exists>Q'. kernel_ok (convert_kill k c) Q' \<and> same_cores k (convert_kill k c) \<and> replying_on (convert_kill k c) c = None"
proof -
  let ?t = "current (percpu k ! c)"
  obtain th where th: "get_thread k ?t = Some th"
    "thread_ok ?t th (places Q ?t) {c} {} (idle_on k ?t) (holders k ?t)" "cur_on k ?t = {c}" "out_on k ?t = {}"
    using current_thread [OF ok c empty_iff [THEN iffD1, THEN notI]] .
  show ?thesis
  proof (cases "killed th \<and> state (handshake th) = Running")
    case False
    then show ?thesis using ok th(1) free by (auto simp: convert_kill_def current_thread_id_def cpu_of_def)
  next
    case True
    let ?th = "th\<lparr>handshake := (handshake th)\<lparr>state := Finished\<rparr>\<rparr>"
    let ?k = "upd_thread k ?t (\<lambda>t. t\<lparr>handshake := (handshake t)\<lparr>state := Finished\<rparr>\<rparr>)"
    note wf = ok_butD(6) [OF ok]
    have ok1: "ok_but {?t} {} ?k Q" by (rule ok_upd_thread [OF ok_but_mono [OF ok]]) auto
    have get: "get_thread ?k ?t = Some ?th" using th(1) wf by simp
    have hold: "holders ?k = holders k" using holders_upd_thread [OF wf] by simp
    have P: "places Q ?t = {}" "idle_on k ?t = {}" "holders k ?t = {}"
      using th(2) True by (auto simp: thread_ok_def place_ok_def held_ok_def)
    have H: "\<not> wake_pending (handshake th)" "wait_on (handshake th) = None" "on_cpu (handshake th)"
      using th(2) True by (auto simp: thread_ok_def wait_ok_def stands_ok_def)
    have unspent: "replying ?th = None" using free th(1) by (simp add: replying_on_def)
    have own: "reply_slots (capability_table ?th) ?t = {}"
      using P(3) th(1) unspent by (fastforce simp: holders_def live_replies_def)
    have tab: "table_ok ?th" using th(2) table_ok_cong [of ?th th] by (simp add: thread_ok_def caps_ok_def)
    have c': "c < length (percpu ?k)" "current (percpu ?k ! c) \<noteq> NO_TID" using c by simp_all
    obtain Q' vs where q: "ok_but {?t} {} (strand_callers_of ?k c ?t) Q'" "same_cores ?k (strand_callers_of ?k c ?t)"
      "get_thread (strand_callers_of ?k c ?t) ?t = Some (fold drop_reply_caps vs ?th)" "places Q' ?t = places Q ?t"
      "\<forall>u. reply_slots (capability_table (fold drop_reply_caps vs ?th)) u = {}"
      "\<forall>v. holders (strand_callers_of ?k c ?t) v \<subseteq> holders ?k v"
      using ok_strand_callers_of [OF ok1 get tab own unspent c'] .
    have "thread_ok ?t (fold drop_reply_caps vs ?th) {} {c} {} {} {}"
      using H q(5) unspent table_ok_fold_drop [OF tab, of vs]
      by (auto simp: thread_ok_def stands_ok_def wait_ok_def place_ok_def sends_ok_def held_ok_def resume_ok_def caps_ok_def fold_drop_fields
          split: option.split)
    moreover have "holders (strand_callers_of ?k c ?t) ?t = {}" using q(6) P(3) hold by auto
    ultimately have "good (strand_callers_of ?k c ?t) Q' ?t"
      using q(3,4) P th(3,4) same_coresD(7-9) [OF q(2)] by (simp add: good_def)
    then have "kernel_ok (strand_callers_of ?k c ?t) Q'" using ok_but_close [OF q(1), of "{}"] by blast
    moreover have "convert_kill k c = strand_callers_of ?k c ?t"
      using th(1) True by (simp add: convert_kill_def finish_killed_current_def current_thread_id_def cpu_of_def)
    moreover have "replying_on (strand_callers_of ?k c ?t) c = None"
      using q(3) unspent same_coresD(4) [OF q(2)] by (simp add: replying_on_def fold_drop_fields)
    ultimately show ?thesis using same_cores_trans [OF same_cores_upd_thread q(2)] by auto
  qed
qed

lemma schedule_eq:
  assumes "\<not> on_interrupt_stack (percpu k ! c)"
  shows "schedule k c =
     (let k1 = convert_kill k c;
          cur = current_thread_id k c;
          runs = (map_option (\<lambda>t. state (handshake t)) (get_thread k1 cur) = Some Running);
          idle_tid = idle (cpu_of k1 c)
      in (case with_runq pop_front k1 c of
            (Some nxt, k) \<Rightarrow> switch_threads k c cur runs idle_tid nxt
          | (None, k) \<Rightarrow>
              if runs then Some k
              else if idle_tid = NO_TID \<or> cur = idle_tid then None
              else switch_threads k c cur runs idle_tid idle_tid))"
  using assms unfolding schedule_def convert_kill_def Let_def cpu_of_def by simp

text \<open>Scheduling from a core that is not already between threads: a decision is always made, no
  assertion fails, and the invariant holds with the outgoing thread standing on the core until its
  \<open>finish_switch\<close>.\<close>

lemma ok_schedule:
  assumes ok0: "kernel_ok k0 Q0" and c0: "c < length (percpu k0)" "current (percpu k0 ! c) \<noteq> NO_TID"
    and free0: "switched_from (percpu k0 ! c) = NO_TID" "replying_on k0 c = None"
    and stack: "\<not> on_interrupt_stack (percpu k0 ! c)"
  shows "\<exists>k' Q'. schedule k0 c = Some k' \<and> kernel_ok k' Q'"
proof -
  obtain Q where ok: "kernel_ok (convert_kill k0 c) Q" and same: "same_cores k0 (convert_kill k0 c)"
    and rep: "replying_on (convert_kill k0 c) c = None"
    using ok_convert_kill [OF ok0 c0 free0(2)] by blast
  define k where "k = convert_kill k0 c"
  note ok = ok [folded k_def] and s = same_coresD [OF same [folded k_def]]
  define cur where "cur = current (percpu k ! c)"
  define runs where "runs = (map_option (\<lambda>t. state (handshake t)) (get_thread k cur) = Some Running)"
  have c: "c < length (percpu k)" "current (percpu k ! c) \<noteq> NO_TID" and
    free: "switched_from (percpu k ! c) = NO_TID" "replying_on k c = None" using c0 free0 s rep by (simp_all add: k_def)
  have cur0: "current_thread_id k0 c = cur" using s by (simp add: current_thread_id_def cpu_of_def cur_def)
  obtain r k1 where pop: "with_runq pop_front k c = (r, k1)" by (cases "with_runq pop_front k c")
  note pops = ok_runq_pop [OF ok c(1) pop]
  obtain tc where tc: "get_thread k cur = Some tc"
    "thread_ok cur tc (places Q cur) {c} {} (idle_on k cur) (holders k cur)" "cur_on k cur = {c}" "out_on k cur = {}"
    using current_thread [OF ok c empty_iff [THEN iffD1, THEN notI]] unfolding cur_def .
  have out: "out_on k t = {}" if "t \<noteq> NO_TID" "out_on k t \<subseteq> {c}" for t using free(1) that by (auto simp: out_on_def)
  note s1 = same_coresD [OF same_cores_with_runq [OF pop]]
  have c1: "c < length (percpu k1)" "current (percpu k1 ! c) \<noteq> NO_TID"
    and free1: "switched_from (percpu k1 ! c) = NO_TID" "replying_on k1 c = None" using c free s1 by (simp_all add: replying_on_def pops(8))
  have runs1: "runs = (map_option (\<lambda>t. state (handshake t)) (get_thread k1 cur) = Some Running)"
    by (simp add: runs_def pops(8))
  have sched: "schedule k0 c = (case with_runq pop_front k c of
      (Some nxt, k') \<Rightarrow> switch_threads k' c cur runs (idle (percpu k ! c)) nxt
    | (None, k') \<Rightarrow> if runs then Some k' else if idle (percpu k ! c) = NO_TID \<or> cur = idle (percpu k ! c) then None
        else switch_threads k' c cur runs (idle (percpu k ! c)) (idle (percpu k ! c)))"
    unfolding schedule_eq [OF stack] Let_def k_def [symmetric] cur0 runs_def cpu_of_def ..
  show ?thesis
  proof (cases "Q (RunQ c)")
    case (Cons nxt ts)
    then have pq: "r = Some nxt" "ok_but {nxt} {} k1 (Q(RunQ c := ts))" using pops(1) by simp_all
    have nxt: "nxt \<in> set (Q (RunQ c))" "nxt \<notin> {}" using Cons by simp_all
    obtain tn where tn: "get_thread k nxt = Some tn"
      "thread_ok nxt tn {RunQ c} (cur_on k nxt) (out_on k nxt) (idle_on k nxt) (holders k nxt)" "nxt \<noteq> NO_TID"
      using queued_thread [OF ok nxt] .
    note ready = runnable_thread(1) [OF tn(2)]
    have "nxt \<noteq> cur" using ready tc(3) by auto
    moreover have "out_on k nxt = {}" using out tn(3) ready by blast
    moreover have "places (Q(RunQ c := ts)) nxt = {}" using places_pop [OF ok_butD(2) [OF ok] Cons] by simp
    ultimately have "\<exists>k' Q'. switch_threads k1 c cur runs (idle (percpu k1 ! c)) nxt = Some k' \<and> kernel_ok k' Q'"
      using ok_switch_threads [OF pq(2) c1 free1, of tn "{RunQ c}" runs] tn ready runs1 s1 pops(8,12)
      by (simp add: cur_def)
    then show ?thesis unfolding sched using pop pq(1) s1 by simp
  next
    case Nil
    then have pq: "r = None" "kernel_ok k1 Q" using pops(1) by simp_all
    have idl: "idle (percpu k ! c) \<noteq> NO_TID" "idle (percpu k ! c) \<notin> {}"
      using ok_butD(4) [OF ok c(1)] c(2) by (simp_all add: core_ok_def Let_def)
    obtain tn where tn: "get_thread k (idle (percpu k ! c)) = Some tn"
      "thread_ok (idle (percpu k ! c)) tn {} (cur_on k (idle (percpu k ! c)))
        (out_on k (idle (percpu k ! c))) {c} (holders k (idle (percpu k ! c)))"
      "idle_on k (idle (percpu k ! c)) = {c}" "places Q (idle (percpu k ! c)) = {}"
      "cur_on k (idle (percpu k ! c)) \<subseteq> {c}" "out_on k (idle (percpu k ! c)) \<subseteq> {c}"
      "state (handshake tn) = Ready \<or> state (handshake tn) = Running"
      using idle_thread [OF ok c(1) idl] .
    show ?thesis
    proof (cases runs)
      case True
      then show ?thesis unfolding sched using pop pq by auto
    next
      case False
      have ne: "idle (percpu k ! c) \<noteq> cur"
      proof
        assume "idle (percpu k ! c) = cur"
        then have "state (handshake tc) = Ready" using tn(1,7) tc(1) False by (auto simp: runs_def)
        then show False using tc(2) by (auto simp: thread_ok_def place_ok_def)
      qed
      then have stand: "cur_on k (idle (percpu k ! c)) = {}" using tn(5) by (auto simp: cur_on_def cur_def)
      have "ok_but {idle (percpu k ! c)} {} k1 Q" by (rule ok_but_mono [OF pq(2)]) auto
      then have "\<exists>k' Q'. switch_threads k1 c cur runs (idle (percpu k1 ! c)) (idle (percpu k ! c)) = Some k' \<and> kernel_ok k' Q'"
        using ok_switch_threads [OF _ c1 free1, of "idle (percpu k ! c)" Q tn "{}" runs] ne idl(1) tn stand out [OF idl(1) tn(6)]
          runs1 s1 pops(8,12) by (simp add: cur_def)
      then show ?thesis unfolding sched using pop pq(1) False ne idl(1) s1 by auto
    qed
  qed
qed

end
