(* ===== verification/Kernel_Migrate.thy ===== *)
theory Kernel_Migrate
  imports Kernel_Switch
begin

text \<open>Threads move between cores: a spawn or a wake placed on another core goes to its inbox, the
  reschedule interrupt drains the inbox into the run queue, and an idle core asks a busy one for work.
  Each keeps the invariant and never panics, and bring-up establishes the invariant.\<close>


section \<open>Bookkeeping in the per-CPU block\<close>

lemma ok_cpu_note:
  assumes ok: "ok_but A R k Q" and c: "c < length (percpu k)"
    and keeps: "\<And>p. current (f p) = current p" "\<And>p. switched_from (f p) = switched_from p"
      "\<And>p. idle (f p) = idle p" "\<And>p. runq (f p) = runq p" "\<And>p. inbox (f p) = inbox p"
      "\<And>p. runq_len (f p) = runq_len p" "\<And>p. inbox_len (f p) = inbox_len p"
    and slot: "\<forall>r. peek (steal_request (f (percpu k ! c))) = Some r \<longrightarrow>
      unat r < length (percpu k) \<and> current (percpu k ! unat r) \<noteq> NO_TID"
  shows "ok_but A R (upd_cpu k c f) Q"
  unfolding ok_but_def
proof (intro conjI allI impI)
  let ?k = "upd_cpu k c f"
  have cur: "current (percpu ?k ! d) = current (percpu k ! d)" for d
    using c keeps(1) by (simp add: percpu_upd_cpu)
  show "tables_ok ?k" using ok_butD(1) [OF ok] by (simp add: tables_ok_def)
  have "the_queue ?k q = the_queue k q" for q
    using c keeps by (cases q) (auto simp: percpu_upd_cpu rendezvous_of_def notification_of_def)
  then have "the_queue ?k = the_queue k" by blast
  then show "queues_rep (links ?k) (the_queue ?k) Q" using ok_butD(2) [OF ok] by simp
  show "inboxes_ok R ?k Q" using ok_butD(3) [OF ok] by (simp add: inboxes_ok_def cur)
  show "core_ok ?k d" if "d < length (percpu ?k)" for d
  proof (cases "d = c")
    case True
    then show ?thesis using ok_butD(4) [OF ok c] slot c by (auto simp: core_ok_def Let_def cur percpu_upd_cpu keeps)
  next
    case False
    then show ?thesis using ok_butD(4) [OF ok, of d] that c by (auto simp: core_ok_def Let_def cur percpu_upd_cpu keeps)
  qed
  show "good ?k Q t" if "t \<notin> A" for t
    using ok_butD(5) [OF ok that] good_cong [of ?k t k Q Q] by (simp add: views_upd_cpu holders_upd_cpu keeps)
qed

lemma core_slot:
  assumes "ok_but A R k Q" and "c < length (percpu k)"
  shows "\<forall>r. peek (steal_request (percpu k ! c)) = Some r \<longrightarrow>
    unat r < length (percpu k) \<and> current (percpu k ! unat r) \<noteq> NO_TID"
  using ok_butD(4) [OF assms] by (simp add: core_ok_def Let_def)

lemma ok_set_need_resched: "kernel_ok k Q \<Longrightarrow> c < length (percpu k) \<Longrightarrow> kernel_ok (set_need_resched k c) Q"
  unfolding set_need_resched_def by (rule ok_cpu_note) (use core_slot in auto)


section \<open>Draining an inbox\<close>

lemma upd_cpu_twice:
  "c < length (percpu k) \<Longrightarrow> upd_cpu (upd_cpu k c f) c g = upd_cpu k c (\<lambda>p. g (f p))"
  "(upd_cpu k c f)\<lparr>links := h\<rparr> = upd_cpu (k\<lparr>links := h\<rparr>) c f"
  by (simp_all add: upd_cpu_def)

lemma set_queue_twice:
  "set_inbox q (set_inbox q' p) = set_inbox q p" "set_runq f (set_inbox q p) = set_inbox q (set_runq f p)"
  by (cases p; simp add: set_inbox_def set_runq_def note_inbox_len_def)+

lemma runq_push_set_inbox:
  assumes c: "c < length (percpu k)"
  shows "runq_push (upd_cpu k c (set_inbox q)) c t = upd_cpu (runq_push k c t) c (set_inbox q)"
proof -
  let ?k = "upd_cpu k c (set_inbox q)"
  have c': "c < length (percpu ?k)" using c by simp
  obtain h f where p: "push_back (links k) (the_queue k (RunQ c)) t = (h, f)"
    by (cases "push_back (links k) (the_queue k (RunQ c)) t")
  have "push_back (links ?k) (the_queue ?k (RunQ c)) t = (h, f)" using p c by (simp add: percpu_upd_cpu)
  from runq_push_eq [OF c' this] runq_push_eq [OF c p] show ?thesis
    using c by (simp add: upd_cpu_twice set_queue_twice)
qed

lemma set_inbox_twice:
  assumes "c < length (percpu k)"
  shows "upd_cpu ((upd_cpu (k\<lparr>links := h\<rparr>) c (set_inbox q))\<lparr>links := h'\<rparr>) c (set_inbox q')
    = upd_cpu (k\<lparr>links := h'\<rparr>) c (set_inbox q')"
  using assms by (simp add: upd_cpu_twice set_queue_twice)

abbreviation drain_body :: "nat \<Rightarrow> ThreadId \<Rightarrow> ThreadId links \<Rightarrow> Kernel \<times> u64 \<Rightarrow> ThreadId links \<times> Kernel \<times> u64" where
  "drain_body c \<equiv> \<lambda>tid h (k, moved). let k = runq_push (k\<lparr>links := h\<rparr>) c tid in (links k, k, moved + 1)"

lemma ok_inbox_pop:
  assumes ok: "ok_but {} R K Q" and c: "c < length (percpu K)" and q: "Q (Inbox c) = t # ts"
    and run: "current (percpu K ! c) \<noteq> NO_TID"
  obtains f where "pop_front (links K) (inbox (percpu K ! c)) = (Some t, (links K)(t := None), f)"
    and "ok_but {} R (runq_push (upd_cpu (K\<lparr>links := (links K)(t := None)\<rparr>) c (set_inbox f)) c t)
      (Q(Inbox c := ts, RunQ c := Q (RunQ c) @ [t]))"
proof -
  note rep = ok_butD(2) [OF ok] and core = ok_butD(4) [OF ok c, unfolded core_ok_def Let_def]
  let ?Q = "Q(Inbox c := ts)"
  obtain f where f: "pop_front (links K) (the_queue K (Inbox c)) = (Some t, (links K)(t := None), f)"
    "queues_rep ((links K)(t := None)) ((the_queue K)(Inbox c := f)) ?Q"
    using queues_pop_Cons [OF rep q] .
  let ?K = "upd_cpu (K\<lparr>links := (links K)(t := None)\<rparr>) c (set_inbox f)"
  have pl: "places ?Q u = (if u = t then {} else places Q u)" for u by (rule places_pop [OF rep q])
  have ok1: "ok_but {t} R ?K ?Q"
    by (rule ok_upd_cpu [OF ok_but_mono [OF ok] c]) (use f core ok_butD(3) [OF ok] q pl in
      \<open>auto simp: the_queue_upd_cpu [OF c] inboxes_ok_def split: if_splits\<close>)
  have ok2: "ok_but {t} R (runq_push ?K c t) (?Q(RunQ c := ?Q (RunQ c) @ [t]))"
    by (rule ok_runq_push [OF ok1]) (use c pl run in \<open>simp_all add: percpu_upd_cpu\<close>)
  have mem: "t \<in> set (Q (Inbox c))" "t \<notin> {}" using q by simp_all
  obtain th where th: "get_thread K t = Some th"
    "thread_ok t th {Inbox c} (cur_on K t) (out_on K t) (idle_on K t) (holders K t)"
    using queued_thread [OF ok mem] .
  have "thread_ok t th {RunQ c} (cur_on K t) (out_on K t) (idle_on K t) (holders K t)"
    using th(2) runnable_thread(2) [OF th(2)] by (simp add: thread_ok_def place_ok_def sends_ok_def held_ok_def resume_ok_def split: option.splits)
  moreover have "places (?Q(RunQ c := ?Q (RunQ c) @ [t])) t = {RunQ c}" unfolding places_push using pl by simp
  ultimately have "good (runq_push ?K c t) (?Q(RunQ c := ?Q (RunQ c) @ [t])) t"
    using th(1) by (simp add: good_def views_upd_cpu holders_upd_cpu)
  then have "ok_but {} R (runq_push ?K c t) (?Q(RunQ c := ?Q (RunQ c) @ [t]))"
    using ok_but_close [OF ok2, of "{}"] by blast
  then show ?thesis using that [of f] f(1) c by simp
qed

lemma ok_drain_loop:
  assumes "ok_but {} R (upd_cpu (k\<lparr>links := h\<rparr>) c (set_inbox q)) Q"
    and "c < length (percpu k)" "current (percpu k ! c) \<noteq> NO_TID"
  shows "\<exists>h' q' k' m' Q'. drain_with pop_front (drain_body c) h q (k, m) = Some (h', q', k', m')
    \<and> ok_but {} R (upd_cpu (k'\<lparr>links := h'\<rparr>) c (set_inbox q')) Q' \<and> Q' (Inbox c) = [] \<and> same_cores k k'"
  using assms
proof (induction "Q (Inbox c)" arbitrary: k h q m Q)
  case Nil
  let ?K = "upd_cpu (k\<lparr>links := h\<rparr>) c (set_inbox q)"
  have "the_queue ?K (Inbox c) = q" using Nil.prems(2) by (simp add: percpu_upd_cpu)
  then have "pop_front h q = (None, h, q)"
    using queues_pop_Nil [OF ok_butD(2) [OF Nil.prems(1)], of "Inbox c"] Nil.hyps by simp
  then have "drain_with pop_front (drain_body c) h q (k, m) = Some (h, q, k, m)"
    by (subst drain_with.simps) simp
  then show ?case using Nil by auto
next
  case (Cons t ts)
  let ?K = "upd_cpu (k\<lparr>links := h\<rparr>) c (set_inbox q)"
  note c = Cons.prems(2,3)
  have at: "c < length (percpu ?K)" "current (percpu ?K ! c) \<noteq> NO_TID" "inbox (percpu ?K ! c) = q" "links ?K = h"
    using c by (simp_all add: percpu_upd_cpu)
  obtain f where f: "pop_front h q = (Some t, h(t := None), f)"
    "ok_but {} R (runq_push (upd_cpu (?K\<lparr>links := h(t := None)\<rparr>) c (set_inbox f)) c t)
      (Q(Inbox c := ts, RunQ c := Q (RunQ c) @ [t]))"
    using ok_inbox_pop [OF Cons.prems(1) at(1) Cons.hyps(2) [symmetric] at(2), unfolded at(3,4)] .
  let ?k = "runq_push (k\<lparr>links := h(t := None)\<rparr>) c t" and ?Q = "Q(Inbox c := ts, RunQ c := Q (RunQ c) @ [t])"
  have "runq_push (upd_cpu (?K\<lparr>links := h(t := None)\<rparr>) c (set_inbox f)) c t = upd_cpu (?k\<lparr>links := links ?k\<rparr>) c (set_inbox f)"
    using c(1) by (simp add: set_inbox_twice runq_push_set_inbox)
  with f(2) have ok: "ok_but {} R (upd_cpu (?k\<lparr>links := links ?k\<rparr>) c (set_inbox f)) ?Q" by (rule subst [rotated])
  have same: "same_cores k ?k" using same_cores_trans [OF same_cores_links same_cores_runq_push] .
  have c': "c < length (percpu ?k)" "current (percpu ?k ! c) \<noteq> NO_TID" using c same_coresD [OF same] by simp_all
  have "ts = ?Q (Inbox c)" by simp
  from Cons.hyps(1) [OF this ok c', of "m + 1"]
  obtain h' q' k' m' Q' where r: "drain_with pop_front (drain_body c) (links ?k) f (?k, m + 1) = Some (h', q', k', m')"
    "ok_but {} R (upd_cpu (k'\<lparr>links := h'\<rparr>) c (set_inbox q')) Q'" "Q' (Inbox c) = []" "same_cores ?k k'"
    by blast
  have "drain_with pop_front (drain_body c) h q (k, m) = Some (h', q', k', m')"
    by (subst drain_with.simps) (simp add: f(1) Let_def r(1) [unfolded Let_def])
  then show ?case using r(2,3) same_cores_trans [OF same r(4)] by blast
qed

lemma ok_drain_inbox:
  assumes ok: "ok_but {} (insert c R) k Q" and c: "c < length (percpu k)" "current (percpu k ! c) \<noteq> NO_TID"
  shows "\<exists>k' Q'. drain_inbox k c = Some k' \<and> ok_but {} R k' Q' \<and> Q' (Inbox c) = [] \<and> same_cores k k'"
proof -
  let ?q = "inbox (percpu k ! c)"
  have "set_inbox ?q (percpu k ! c) = percpu k ! c"
    using ok_butD(4) [OF ok c(1)] by (cases "percpu k ! c") (simp add: set_inbox_def note_inbox_len_def core_ok_def Let_def)
  then have "upd_cpu (k\<lparr>links := links k\<rparr>) c (set_inbox ?q) = k" by (cases k) (simp add: upd_cpu_def)
  then obtain h' q' k' m' Q' where d: "drain_with pop_front (drain_body c) (links k) ?q (k, 0) = Some (h', q', k', m')"
    "ok_but {} (insert c R) (upd_cpu (k'\<lparr>links := h'\<rparr>) c (set_inbox q')) Q'" "Q' (Inbox c) = []" "same_cores k k'"
    using ok_drain_loop [where R = "insert c R" and k = k and h = "links k" and c = c and q = ?q and Q = Q and m = 0] ok c by auto
  let ?K = "upd_cpu (k'\<lparr>links := h'\<rparr>) c (set_inbox q')"
  let ?g = "if m' > 0 then (\<lambda>p. (note_adopted m' p)\<lparr>need_resched := True\<rparr>) else note_adopted m'"
  have c': "c < length (percpu ?K)" "c < length (percpu k')" using c(1) same_coresD [OF d(4)] by simp_all
  have ok1: "ok_but {} R ?K Q'" by (rule ok_inbox_empty [OF d(2,3)])
  have ok2: "ok_but {} R (upd_cpu ?K c ?g) Q'"
    by (rule ok_cpu_note [OF ok1 c'(1)]) (use core_slot [OF ok1 c'(1)] in \<open>simp_all add: note_adopted_def\<close>)
  have "drain_inbox k c = Some (upd_cpu ?K c ?g)"
    using d(1) c'(2) by (simp add: drain_inbox_def cpu_of_def upd_cpu_twice set_inbox_def Let_def)
  moreover have "same_cores k' (upd_cpu ?K c ?g)"
    by (rule same_cores_trans [OF same_cores_trans [OF same_cores_links same_cores_upd_cpu] same_cores_upd_cpu])
       (simp_all add: note_adopted_def)
  ultimately show ?thesis using ok2 d(3) same_cores_trans [OF d(4)] by blast
qed


section \<open>Work stealing\<close>

lemma take_request_peek: "take_request s = (peek s, new_slot)"
  by (simp add: take_request_def peek_def new_slot_def)

lemma claim_peek: "claim s r = (b, s') \<Longrightarrow> peek s' = Some r' \<Longrightarrow> r' = r \<or> peek s = Some r'"
  using bias_nonzero [of r] by (auto simp: claim_def peek_def EMPTY_def split: option.splits if_splits)

lemma ok_serve_steal_request:
  assumes ok: "kernel_ok k Q" and c: "c < length (percpu k)" "switched_from (percpu k ! c) = NO_TID"
  shows "\<exists>k' Q'. serve_steal_request k c = Some k' \<and> kernel_ok k' Q'"
proof -
  let ?req = "peek (steal_request (percpu k ! c))"
  let ?k = "upd_cpu k c (\<lambda>p. p\<lparr>steal_request := new_slot\<rparr>)"
  have ok1: "kernel_ok ?k Q" by (rule ok_cpu_note [OF ok c(1)]) (simp_all add: peek_def new_slot_def)
  have same1: "same_cores k ?k" by (rule same_cores_upd_cpu) simp_all
  have c1: "c < length (percpu ?k)" using c by simp
  obtain r k2 where pop: "with_runq pop_front ?k c = (r, k2)" by (cases "with_runq pop_front ?k c")
  note pops = ok_runq_pop [OF ok1 c1 pop] and s = same_coresD [OF same_cores_trans [OF same1 same_cores_with_runq [OF pop]]]
  have eq: "serve_steal_request k c = (case ?req of None \<Rightarrow> Some ?k | Some requester \<Rightarrow> (case r of None \<Rightarrow> Some k2
      | Some tid \<Rightarrow> do { k \<leftarrow> inbox_push k2 (unat requester) tid; Some (send_reschedule k (unat requester)) }))"
    using pop by (simp add: serve_steal_request_def take_request_peek cpu_of_def Let_def split: option.split)
  show ?thesis
  proof (cases "?req = None \<or> Q (RunQ c) = []")
    case True
    then show ?thesis using eq ok1 pops(1) by (auto split: option.splits)
  next
    case False
    then obtain req t ts where req: "?req = Some req" and q: "Q (RunQ c) = t # ts" by (cases "Q (RunQ c)") auto
    then have p: "r = Some t" "ok_but {t} {} k2 (Q(RunQ c := ts))" using pops(1) by simp_all
    have target: "unat req < length (percpu k2)" "current (percpu k2 ! unat req) \<noteq> NO_TID"
      using core_slot [OF ok c(1)] req s by auto
    have pl: "places (Q(RunQ c := ts)) t = {}" using places_pop [OF ok_butD(2) [OF ok1] q] by simp
    have mem: "t \<in> set (Q (RunQ c))" "t \<notin> {}" using q by simp_all
    obtain th where th: "get_thread k t = Some th"
      "thread_ok t th {RunQ c} (cur_on k t) (out_on k t) (idle_on k t) (holders k t)" "t \<noteq> NO_TID"
      using queued_thread [OF ok mem] .
    note ready = runnable_thread(1) [OF th(2)]
    have out: "out_on k t = {}" using ready c(2) th(3) by (auto simp: out_on_def)
    obtain k3 where k3: "inbox_push k2 (unat req) t = Some k3"
      "ok_but {t} (insert (unat req) {}) k3 ((Q(RunQ c := ts))(Inbox (unat req) := (Q(RunQ c := ts)) (Inbox (unat req)) @ [t]))"
      "threads k3 = threads k2" "length (percpu k3) = length (percpu k2)" "debug_assertions k3 = debug_assertions k2"
      "sgis k3 = sgis k2" "owed k3 = owed k2" "online_mask k3 = online_mask k2"
      "get_thread k3 = get_thread k2" "cur_on k3 = cur_on k2" "out_on k3 = out_on k2" "idle_on k3 = idle_on k2"
      "holders k3 = holders k2"
      using ok_inbox_push [OF p(2) target(1) singletonI pl target(2)] .
    let ?Q = "(Q(RunQ c := ts))(Inbox (unat req) := (Q(RunQ c := ts)) (Inbox (unat req)) @ [t])"
    have "places ?Q t = {Inbox (unat req)}" unfolding places_push using pl by simp
    moreover have "thread_ok t th {Inbox (unat req)} (cur_on k t) (out_on k t) (idle_on k t) (holders k t)"
      using th(2) ready out by (simp add: thread_ok_def place_ok_def sends_ok_def held_ok_def resume_ok_def split: option.splits)
    ultimately have "good k3 ?Q t"
      using th(1) k3(9-13) pops(8-12) s by (simp add: good_def views_upd_cpu holders_upd_cpu)
    then have "ok_but {} {unat req} k3 ?Q" using ok_but_close [OF k3(2), of "{}"] by blast
    then have "kernel_ok (send_reschedule k3 (unat req)) ?Q" by (rule ok_send_reschedule)
    then show ?thesis using eq req p(1) k3(1) by auto
  qed
qed

lemma ok_resched_interrupt:
  assumes ok: "kernel_ok k Q" and c: "c < length (percpu k)" "current (percpu k ! c) \<noteq> NO_TID"
    and free: "switched_from (percpu k ! c) = NO_TID"
  shows "\<exists>k' Q'. resched_interrupt k c = Some k' \<and> kernel_ok k' Q'"
proof -
  let ?k = "k\<lparr>sgis := sgis k - {c}\<rparr>"
  have "ok_but {} (insert c {}) ?k Q" by (rule ok_take_interrupt [OF ok])
  then obtain k1 Q1 where d: "drain_inbox ?k c = Some k1" "kernel_ok k1 Q1" "same_cores ?k k1"
    using ok_drain_inbox [of c "{}" ?k Q] c by auto
  have "\<exists>k' Q'. serve_steal_request k1 c = Some k' \<and> kernel_ok k' Q'"
    by (rule ok_serve_steal_request [OF d(2)]) (use c free same_coresD [OF d(3)] in simp_all)
  then show ?thesis by (simp add: resched_interrupt_def d(1))
qed

lemma fold_victim:
  fixes g :: "nat \<Rightarrow> nat" and me :: nat
  shows "fst (fold (\<lambda>c (victim, best). if c \<noteq> me then let r = g c in if r > best then (Some c, r) else (victim, best)
      else (victim, best)) cs (v, b)) = Some x \<Longrightarrow> x \<in> set cs \<or> v = Some x"
proof (induction cs arbitrary: v b)
  case (Cons d cs)
  then show ?case using Cons.IH [of v b] Cons.IH [of "Some d" "g d"] by (auto simp: Let_def split: if_splits)
qed simp

lemma ok_try_initiate_steal:
  assumes ok: "kernel_ok k Q" and c: "c < length (percpu k)" "current (percpu k ! c) \<noteq> NO_TID"
  shows "kernel_ok (try_initiate_steal k c) Q"
proof -
  define v where "v = fst (fold (\<lambda>d (victim, best). if d \<noteq> c then
      let r = runq_len (cpu_of k d) in if r > best then (Some d, r) else (victim, best) else (victim, best))
    (online_cpus k) (None, 0))"
  have eq: "try_initiate_steal k c = (if runnable (cpu_of k c) > 0 then k else case v of None \<Rightarrow> k | Some d \<Rightarrow>
      (case claim (steal_request (cpu_of k d)) (of_nat c) of (claimed, s) \<Rightarrow>
        let k = upd_cpu k d (\<lambda>p. p\<lparr>steal_request := s\<rparr>) in if claimed then send_reschedule k d else k))"
    unfolding try_initiate_steal_def v_def by (simp add: Let_def split: prod.split)
  have "kernel_ok (case claim (steal_request (cpu_of k d)) (of_nat c) of (claimed, s) \<Rightarrow>
      let k = upd_cpu k d (\<lambda>p. p\<lparr>steal_request := s\<rparr>) in if claimed then send_reschedule k d else k) Q"
    if "v = Some d" for d
  proof -
    have "bit (online_mask k) d" using fold_victim that unfolding v_def by (force simp: online_cpus_def)
    then have d: "d < length (percpu k)" using ok_butD(1) [OF ok] by (simp add: tables_ok_def)
    obtain b s where cl: "claim (steal_request (cpu_of k d)) (of_nat c) = (b, s)"
      by (cases "claim (steal_request (cpu_of k d)) (of_nat c)")
    have "length (percpu k) \<le> 64" using ok_butD(1) [OF ok] by (simp add: tables_ok_def)
    then have me: "unat (of_nat c :: u32) = c" using c(1) by (simp add: unat_of_nat take_bit_nat_eq_self)
    have "kernel_ok (upd_cpu k d (\<lambda>p. p\<lparr>steal_request := s\<rparr>)) Q"
      by (rule ok_cpu_note [OF ok d])
         (use claim_peek [OF cl] me c core_slot [OF ok d] in \<open>auto simp: cpu_of_def\<close>)
    then show ?thesis
      using ok_send_reschedule [OF ok_but_mono, of "{}" "{}" _ Q "{}" d] by (simp add: cl Let_def)
  qed
  then show ?thesis unfolding eq using ok by (simp split: option.split)
qed


section \<open>Spawning\<close>

lemma fresh_views:
  assumes ok: "kernel_ok k Q" and t: "get_thread k t = None" "t \<noteq> NO_TID"
  shows "places Q t = {}" "cur_on k t = {}" "out_on k t = {}" "idle_on k t = {}" "holders k t = {}"
  using ok_but_absent [OF ok _ t(1)] t(2) by (simp_all add: absent_ok_def)

lemma new_table_slots: "slot (new_table N) i = None"
  by (simp add: slot_def new_table_def capacity_def)

lemma new_thread_caps: "caps_ok (new_thread h page)" "live_replies (new_thread h page) u = {}"
  by (simp_all add: caps_ok_def table_ok_def live_replies_def reply_slots_def new_thread_def new_table_slots table_wf_new
      MAX_SLOTS_def CAPABILITY_TABLE_SLOTS_def)

lemma ready_thread_ok:
  "thread_ok t (write_kernel_thread page\<lparr>placement := b\<rparr>) {RunQ c} {} {} {} {}"
  "thread_ok t (write_kernel_thread page\<lparr>placement := b\<rparr>) {Inbox c} {} {} {} {}"
proof -
  have "caps_ok (write_kernel_thread page\<lparr>placement := b\<rparr>)"
    by (rule caps_ok_cong [OF new_thread_caps(1) [of ready page]]) (simp_all add: write_kernel_thread_def)
  then show "thread_ok t (write_kernel_thread page\<lparr>placement := b\<rparr>) {RunQ c} {} {} {} {}"
    "thread_ok t (write_kernel_thread page\<lparr>placement := b\<rparr>) {Inbox c} {} {} {} {}"
    by (simp_all add: thread_ok_def stands_ok_def wait_ok_def place_ok_def sends_ok_def held_ok_def resume_ok_def
        write_kernel_thread_def new_thread_def ready_def)
qed

lemma ok_insert_in_place:
  assumes ok: "kernel_ok k Q" and ins: "insert_in_place k page stack write_kernel_thread = (r, k')"
  shows "case r of
      None \<Rightarrow> kernel_ok k' Q \<and> same_cores k k'
    | Some t \<Rightarrow> ok_but {t} {} k' Q \<and> same_cores k k' \<and> get_thread k' = (get_thread k)(t \<mapsto> write_kernel_thread (the page))
        \<and> holders k' = holders k \<and> get_thread k t = None \<and> t \<noteq> NO_TID"
proof (cases page)
  case None
  then show ?thesis using ok ins by (auto simp: insert_in_place_def)
next
  case (Some pg)
  obtain n T where n: "insert_with (threads k) (\<lambda>_. write_kernel_thread pg) = (n, T)"
    by (cases "insert_with (threads k) (\<lambda>_. write_kernel_thread pg)")
  show ?thesis
  proof (cases n)
    case None
    then show ?thesis using ok ins n Some by (auto simp: insert_in_place_def)
  next
    case (Some t)
    note n = n [unfolded Some]
    have ok0: "ok_but {t} {} k Q" by (rule ok_but_mono [OF ok]) auto
    have no: "live_replies (write_kernel_thread pg) u = {}" for u
      by (simp add: write_kernel_thread_def new_thread_caps)
    note i = ok_insert_thread [OF ok0 n singletonI no]
    let ?k = "k\<lparr>threads := T\<rparr>"
    have same: "same_cores k ?k" by (simp add: same_cores_def)
    show ?thesis
    proof (cases stack)
      case True
      then show ?thesis using ins n \<open>page = Some pg\<close> i same by (auto simp: insert_in_place_def)
    next
      case False
      let ?k2 = "remove_thread ?k t"
      have k': "r = None" "k' = ?k2"
        using False ins n \<open>page = Some pg\<close> by (auto simp: insert_in_place_def remove_thread_def)
      have ok2: "ok_but {t} {} ?k2 Q" by (rule ok_remove_thread [OF i(1)]) (use i(2) no in auto)
      have "same_cores ?k ?k2" by (simp add: same_cores_def)
      note same2 = same_cores_trans [OF same this]
      have g: "get_thread ?k2 t = None" "holders ?k2 t = {}"
        using ok_butD(6) [OF i(1)] holders_remove_thread [OF ok_butD(6) [OF i(1)], of t t] i(5) fresh_views(5) [OF ok i(3,4)]
        by auto
      then have "good ?k2 Q t"
        using fresh_views [OF ok i(3,4)] same_coresD(7-9) [OF same2] by (simp add: good_def absent_ok_def)
      then show ?thesis using ok_but_close [OF ok2, of "{}"] k' same2 by auto
    qed
  qed
qed

lemma ok_spawn_on:
  assumes ok: "kernel_ok k Q" and c: "c < length (percpu k)" "current (percpu k ! c) \<noteq> NO_TID"
    and target: "target = c \<or> bit (online_mask k) target"
  shows "\<exists>r k' Q'. spawn_on k c target page stack = Some (r, k') \<and> kernel_ok k' Q'"
proof -
  obtain r k1 where ins: "insert_in_place k page stack write_kernel_thread = (r, k1)"
    by (cases "insert_in_place k page stack write_kernel_thread")
  note i = ok_insert_in_place [OF ok ins]
  show ?thesis
  proof (cases r)
    case None
    then show ?thesis using i ins by (auto simp: spawn_on_def)
  next
    case (Some t)
    then have j: "ok_but {t} {} k1 Q" "same_cores k k1" "get_thread k1 = (get_thread k)(t \<mapsto> write_kernel_thread (the page))"
      "holders k1 = holders k" "get_thread k t = None" "t \<noteq> NO_TID" using i by simp_all
    let ?f = "\<lambda>t :: Thread. t\<lparr>placement := of_nat target\<rparr>" let ?k = "upd_thread k1 t ?f"
    have ok1: "ok_but {t} {} ?k Q" by (rule ok_upd_thread [OF j(1)]) simp_all
    note fresh = fresh_views [OF ok j(5,6)] and s = same_coresD [OF same_cores_trans [OF j(2) same_cores_upd_thread]]
    have c': "c < length (percpu ?k)" "current (percpu ?k ! c) \<noteq> NO_TID" "target = c \<or> bit (online_mask ?k) target"
      using c target s by (simp_all del: upd_thread_fields)
    obtain remote k' Q' where p: "place_on ?k c target t = Some (remote, k')"
      "ok_but {t} (set_option remote \<union> {}) k' Q'" "same_cores ?k k'" "get_thread k' = get_thread ?k"
      "holders k' = holders ?k" "places Q' t = {if target = c then RunQ c else Inbox target}"
      using ok_place_on [OF ok1 singletonI fresh(1) c'] .
    have hold: "holders ?k = holders k" using holders_upd_thread [OF ok_butD(6) [OF j(1)], of t ?f] j(4) by simp
    have "get_thread k' t = Some (write_kernel_thread (the page)\<lparr>placement := of_nat target\<rparr>)"
      using ok_butD(6) [OF j(1)] j(3) by (simp add: p(4))
    then have "good k' Q' t"
      using p(6) fresh s(7-9) same_coresD(7-9) [OF p(3)] ready_thread_ok hold
      by (simp add: good_def p(5) del: upd_thread_fields)
    then have "ok_but {} (set_option remote \<union> {}) k' Q'" using ok_but_close [OF p(2), of "{}"] by blast
    then have "kernel_ok (owe remote k') Q'" by (rule ok_owe)
    then show ?thesis using ins Some p(1) by (auto simp: spawn_on_def Let_def)
  qed
qed

lemma nth_online_target: "nth_online k c n = c \<or> bit (online_mask k) (nth_online k c n)"
  using nth_in_online [of "online_mask k" n] by (auto simp: nth_online_def split: option.split)

lemma ok_pick_spawn_target:
  assumes ok: "ok_but A R k Q" and c: "c < length (percpu k)"
  obtains target k' where "pick_spawn_target k c = (target, k')" and "ok_but A R k' Q" "same_cores k k'"
    "threads k' = threads k" "target = c \<or> bit (online_mask k') target"
proof (cases "online_count k \<le> 1")
  case True
  then show ?thesis using that [of c k] ok by (simp add: pick_spawn_target_def)
next
  case False
  obtain x y where r1: "rng_next (cpu_of k c) = (x, (cpu_of k c)\<lparr>rng := y\<rparr>)" by (simp add: rng_next_def Let_def)
  let ?k1 = "upd_cpu k c (\<lambda>_. (cpu_of k c)\<lparr>rng := y\<rparr>)"
  obtain x' y' where r2: "rng_next (cpu_of ?k1 c) = (x', (cpu_of ?k1 c)\<lparr>rng := y'\<rparr>)" by (simp add: rng_next_def Let_def)
  let ?k2 = "upd_cpu ?k1 c (\<lambda>_. (cpu_of ?k1 c)\<lparr>rng := y'\<rparr>)"
  let ?a = "nth_online k c (unat x)" and ?b = "nth_online ?k1 c (unat x')"
  let ?t = "if runnable (cpu_of ?k2 ?a) \<le> runnable (cpu_of ?k2 ?b) then ?a else ?b"
  have k2: "?k2 = upd_cpu k c (\<lambda>p. p\<lparr>rng := y'\<rparr>)" using c by (simp add: upd_cpu_def cpu_of_def)
  show ?thesis
  proof (rule that)
    show "pick_spawn_target k c = (?t, ?k2)" using False r1 r2 by (simp add: pick_spawn_target_def Let_def)
    show "ok_but A R ?k2 Q" unfolding k2 by (rule ok_cpu_note [OF ok c]) (use core_slot [OF ok c] in simp_all)
    show "same_cores k ?k2" unfolding k2 by (rule same_cores_upd_cpu) simp_all
    show "?t = c \<or> bit (online_mask ?k2) ?t"
      using nth_online_target [of k c "unat x"] nth_online_target [of ?k1 c "unat x'"] by simp
  qed simp
qed

lemma ok_spawn:
  assumes ok: "kernel_ok k Q" and c: "c < length (percpu k)" "current (percpu k ! c) \<noteq> NO_TID"
  shows "\<exists>r k' Q'. spawn k c page stack = Some (r, k') \<and> kernel_ok k' Q'"
proof -
  obtain target k1 where p: "pick_spawn_target k c = (target, k1)" "ok_but {} {} k1 Q" "same_cores k k1"
    "threads k1 = threads k" "target = c \<or> bit (online_mask k1) target"
    using ok_pick_spawn_target [OF ok c(1)] .
  have "\<exists>r k' Q'. spawn_on k1 c target page stack = Some (r, k') \<and> kernel_ok k' Q'"
    by (rule ok_spawn_on [OF p(2)]) (use p(5) c same_coresD [OF p(3)] in simp_all)
  then show ?thesis using p(1) by (simp add: spawn_def)
qed

lemma ok_preempt_if_needed:
  assumes ok: "kernel_ok k Q" and c: "c < length (percpu k)" "current (percpu k ! c) \<noteq> NO_TID"
    and free: "switched_from (percpu k ! c) = NO_TID" "replying_on k c = None" "\<not> on_interrupt_stack (percpu k ! c)"
  shows "\<exists>k' Q'. preempt_if_needed k c = Some k' \<and> kernel_ok k' Q'"
proof -
  let ?k = "upd_cpu k c (\<lambda>p. p\<lparr>need_resched := False\<rparr>)"
  have ok1: "kernel_ok ?k Q" by (rule ok_cpu_note [OF ok c(1)]) (use core_slot [OF ok c(1)] in simp_all)
  have "\<exists>k' Q'. schedule ?k c = Some k' \<and> kernel_ok k' Q'"
    by (rule ok_schedule [OF ok1]) (use c free in \<open>simp_all add: percpu_upd_cpu replying_on_def\<close>)
  then show ?thesis using ok1 by (auto simp: preempt_if_needed_def Let_def)
qed


section \<open>Bring-up\<close>

lemma ok_online:
  assumes ok: "kernel_ok k Q" and m: "\<And>c. bit m c \<Longrightarrow> c < length (percpu k) \<and> current (percpu k ! c) \<noteq> NO_TID"
  shows "kernel_ok (k\<lparr>online := n, online_mask := m\<rparr>) Q"
  unfolding ok_but_def
proof (intro conjI allI impI)
  let ?k = "k\<lparr>online := n, online_mask := m\<rparr>"
  have get: "get_thread ?k = get_thread k" by (rule get_thread_cong) simp
  show "tables_ok ?k" using ok_butD(1) [OF ok] m by (simp add: tables_ok_def)
  show "queues_rep (links ?k) (the_queue ?k) Q" using ok_butD(2) [OF ok] the_queue_cong [of ?k k] by simp
  show "inboxes_ok {} ?k Q" using ok_butD(3) [OF ok] by (simp add: inboxes_ok_def)
  show "core_ok ?k c" if "c < length (percpu ?k)" for c
    using ok_butD(4) [OF ok, of c] that m by (auto simp: core_ok_def Let_def)
  show "good ?k Q t" if "t \<notin> {}" for t
    using ok_butD(5) [OF ok that] good_cong [of ?k t k Q Q] on_cong [of ?k k] holders_cong [of ?k k]
    by (simp add: get)
qed

lemma ok_come_online:
  assumes ok: "kernel_ok k Q" and c: "c < length (percpu k)" "current (percpu k ! c) \<noteq> NO_TID"
  shows "kernel_ok (come_online k c) Q"
  unfolding come_online_def
proof (rule ok_online [OF ok])
  fix d assume "bit (online_mask k OR bit_mask c) d"
  then consider "bit (online_mask k) d" | "d = c" by (auto simp: bit_simps bit_mask_def)
  then show "d < length (percpu k) \<and> current (percpu k ! d) \<noteq> NO_TID"
  proof cases
    case 1
    then have "d < length (percpu k)" using ok_butD(1) [OF ok] by (simp add: tables_ok_def)
    then show ?thesis using ok_butD(4) [OF ok, of d] 1 by (simp add: core_ok_def Let_def)
  qed (use c in simp)
qed

lemma running_thread_ok:
  "I \<subseteq> {c} \<Longrightarrow> thread_ok t (new_thread on_cpu_now page) {} {c} {} I {}"
  using new_thread_caps(1) [of on_cpu_now page]
  by (auto simp: thread_ok_def stands_ok_def wait_ok_def place_ok_def sends_ok_def held_ok_def resume_ok_def new_thread_def on_cpu_now_def)

lemma ok_adopt_secondary_idle:
  assumes ok: "kernel_ok k Q" and c: "c < length (percpu k)" "current (percpu k ! c) = NO_TID"
    and adopt: "adopt_secondary_idle k c (Some page) = Some k'"
  shows "kernel_ok k' Q"
proof -
  obtain t T where n: "insert_with (threads k) (\<lambda>_. adopt_current page) = (Some t, T)"
    and k': "k' = upd_cpu (k\<lparr>threads := T\<rparr>) c (\<lambda>p. p\<lparr>current := t, idle := t\<rparr>)"
    using adopt by (auto simp: adopt_secondary_idle_def split: prod.splits option.splits)
  have ok0: "ok_but {t} {} k Q" by (rule ok_but_mono [OF ok]) auto
  note i = ok_insert_thread [OF ok0 n singletonI new_thread_caps(2) [of on_cpu_now page, folded adopt_current_def]]
  let ?k = "k\<lparr>threads := T\<rparr>"
  have core: "idle (percpu k ! c) = NO_TID" "switched_from (percpu k ! c) = NO_TID"
    using ok_butD(4) [OF ok c(1)] c(2) by (auto simp: core_ok_def Let_def)
  have ok2: "ok_but {t} {} k' Q"
    unfolding k' by (rule ok_core [OF i(1) _ refl]) (use c core i(4) in auto)
  note fresh = fresh_views [OF ok i(3,4)]
  have views: "cur_on k' t = {c}" "out_on k' t = {}" "idle_on k' t = {c}"
    using fresh(2-4) c(1) core unfolding k' cur_on_def out_on_def idle_on_def by (auto simp: percpu_upd_cpu)
  have "holders k' = holders k" using i(5) by (simp add: k')
  then have "good k' Q t"
    using i(2) views fresh(1,5) running_thread_ok [of "{c}" c t page] by (simp add: good_def k' adopt_current_def)
  then show ?thesis using ok_but_close [OF ok2, of "{}"] by blast
qed

definition bare_kernel :: "bool \<Rightarrow> nat \<Rightarrow> nat \<Rightarrow> nat \<Rightarrow> nat \<Rightarrow> Kernel" where
  "bare_kernel dbg max_cpus max_threads max_rendezvous max_notifications =
     \<lparr>debug_assertions = dbg, links = (\<lambda>_. None), threads = new_gt max_threads,
      rendezvous_table = new_gt max_rendezvous, notification_table = new_gt max_notifications,
      percpu = replicate max_cpus new_percpu, online = 0, online_mask = 0,
      irq_routes = (\<lambda>_. 0), cap_peak_seen = 0, sgis = {}, owed = []\<rparr>"

lemma gt_get_new: "gt_get (new_gt N) n = None"
  by (simp add: gt_get_def slot_of_def new_gt_def split: prod.split)

lemma ok_bare_kernel:
  assumes "max_cpus \<le> 64" and "0 < max_threads" "max_threads \<le> 2 ^ 32 - 1" "0 < max_rendezvous"
    "max_rendezvous \<le> 2 ^ 32 - 1" "0 < max_notifications" "max_notifications \<le> 2 ^ 32 - 1"
  shows "kernel_ok (bare_kernel dbg max_cpus max_threads max_rendezvous max_notifications) (\<lambda>_. [])"
  unfolding ok_but_def
proof (intro conjI allI impI)
  let ?k = "bare_kernel dbg max_cpus max_threads max_rendezvous max_notifications"
  show "tables_ok ?k" using assms by (simp add: tables_ok_def bare_kernel_def gt_wf_new)
  have "the_queue ?k q = new_fifo" for q
    by (cases q) (simp_all add: bare_kernel_def new_percpu_def rendezvous_of_def notification_of_def gt_get_new)
  then show "queues_rep (links ?k) (the_queue ?k) (\<lambda>_. [])" by (simp add: queues_rep_def fifo_rep_new)
  show "inboxes_ok {} ?k (\<lambda>_. [])" by (simp add: inboxes_ok_def)
  show "core_ok ?k c" if "c < length (percpu ?k)" for c
    using that by (simp add: core_ok_def bare_kernel_def new_percpu_def new_fifo_def peek_def new_slot_def)
  show "good ?k (\<lambda>_. []) t" for t
    by (auto simp: good_def absent_ok_def get_thread_def gt_get_new places_def holders_def cur_on_def out_on_def idle_on_def
        bare_kernel_def new_percpu_def)
qed

lemma insert_with_room:
  assumes "gt_wf t" and "i < length (gt_slots t)" and "gt_slots t ! i = None"
  obtains n t' j where "insert_with t f = (Some n, t')" and "gt_slots t' = (gt_slots t)[j := Some (f n)]"
  using insert_with_cases [OF assms(1), of f] assms(2,3) that by blast

text \<open>Boot: with room for the boot thread and the idle thread it does not panic, and the invariant holds
  from the start.\<close>

lemma ok_sched_init:
  assumes c: "c < max_cpus" "max_cpus \<le> 64"
    and caps: "2 \<le> max_threads" "max_threads \<le> 2 ^ 32 - 1" "0 < max_rendezvous"
      "max_rendezvous \<le> 2 ^ 32 - 1" "0 < max_notifications" "max_notifications \<le> 2 ^ 32 - 1"
  shows "\<exists>k. sched_init dbg max_cpus max_threads max_rendezvous max_notifications c boot_page idle_page = Some k
    \<and> kernel_ok k (\<lambda>_. [])"
proof -
  let ?Q = "\<lambda>_. [] :: ThreadId list"
  define k0 where "k0 = bare_kernel dbg max_cpus max_threads max_rendezvous max_notifications"
  have ok0: "kernel_ok k0 ?Q" unfolding k0_def by (rule ok_bare_kernel) (use c caps in auto)
  have slots0: "gt_slots (threads k0) = replicate max_threads None" by (simp add: k0_def bare_kernel_def new_gt_def)
  obtain b T1 j where b: "insert_with (threads k0) (\<lambda>_. boot_thread boot_page) = (Some b, T1)"
    "gt_slots T1 = (gt_slots (threads k0))[j := Some (boot_thread boot_page)]"
    by (rule insert_with_room [OF ok_butD(6) [OF ok0], of 0]) (use caps slots0 in simp_all)
  let ?k1 = "k0\<lparr>threads := T1\<rparr>"
  note i1 = ok_insert_thread [OF ok_but_mono [OF ok0 empty_subsetI subset_refl] b(1) singletonI
      new_thread_caps(2) [of on_cpu_now boot_page, folded boot_thread_def]]
  have "\<exists>x < length (gt_slots T1). gt_slots T1 ! x = None"
    using caps(1) by (intro exI [of _ "if j = 0 then 1 else 0"]) (simp add: b(2) slots0)
  then obtain x where x: "x < length (gt_slots T1)" "gt_slots T1 ! x = None" by blast
  have wf1: "gt_wf T1" using ok_butD(6) [OF i1(1)] by simp
  obtain i T2 j' where i: "insert_with T1 (\<lambda>_. write_kernel_thread idle_page) = (Some i, T2)"
    "gt_slots T2 = (gt_slots T1)[j' := Some (write_kernel_thread idle_page)]"
    by (rule insert_with_room [OF wf1 x])
  have i': "insert_with (threads ?k1) (\<lambda>_. write_kernel_thread idle_page) = (Some i, T2)" using i(1) by simp
  let ?A = "{b, i}" and ?k2 = "?k1\<lparr>threads := T2\<rparr>"
  have okA: "ok_but ?A {} ?k1 ?Q" by (rule ok_but_mono [OF i1(1)]) auto
  note i2 = ok_insert_thread [OF okA i' insertI2 [OF singletonI] new_thread_caps(2) [of ready idle_page, folded write_kernel_thread_def]]
  have bi: "b \<noteq> i" using i2(3) i1(2) by auto
  let ?f = "\<lambda>p. (init_this_cpu c p)\<lparr>current := b, idle := i\<rparr>"
  let ?k3 = "upd_cpu ?k2 c ?f"
  have p0: "c < length (percpu ?k2)" "percpu ?k2 = replicate max_cpus new_percpu"
    using c by (simp_all add: k0_def bare_kernel_def)
  have ok3: "ok_but ?A {} ?k3 ?Q"
    by (rule ok_core [OF i2(1) p0(1) refl])
       (use p0 i1(4) i2(4) in \<open>auto simp: init_this_cpu_def new_percpu_def\<close>)
  have views: "cur_on ?k3 b = {c}" "cur_on ?k3 i = {}" "out_on ?k3 b = {}" "out_on ?k3 i = {}" "idle_on ?k3 b = {}" "idle_on ?k3 i = {c}"
    using bi p0 i1(4) i2(4) unfolding cur_on_def out_on_def idle_on_def
    by (auto simp: percpu_upd_cpu init_this_cpu_def new_percpu_def split: if_splits)
  have get: "get_thread ?k3 b = Some (boot_thread boot_page)" "get_thread ?k3 i = Some (write_kernel_thread idle_page)"
    using i1(2) i2(2) bi by simp_all
  have "holders ?k3 = holders k0" using i1(5) i2(5) by simp
  then have H: "holders ?k3 t = {}" for t by (simp add: holders_def get_thread_def k0_def bare_kernel_def gt_get_new)
  have "thread_ok i (write_kernel_thread idle_page) {} {} {} {c} {}"
    using new_thread_caps(1) [of ready idle_page]
    by (simp add: thread_ok_def stands_ok_def wait_ok_def place_ok_def sends_ok_def held_ok_def resume_ok_def write_kernel_thread_def new_thread_def ready_def)
  then have "good ?k3 ?Q u" if "u \<in> ?A" for u
    using that views get H running_thread_ok [of "{}" c b boot_page] by (auto simp: good_def places_def boot_thread_def)
  then have "kernel_ok ?k3 ?Q" using ok_but_close [OF ok3] by blast
  then have "kernel_ok (?k3\<lparr>online := 0, online_mask := bit_mask c\<rparr>) ?Q"
    by (rule ok_online) (use p0(1) i1(4) in \<open>auto simp: bit_bit_mask percpu_upd_cpu\<close>)
  moreover have "sched_init dbg max_cpus max_threads max_rendezvous max_notifications c boot_page idle_page
      = Some (?k3\<lparr>online := 0, online_mask := bit_mask c\<rparr>)"
    using b(1) i(1) c(1) by (simp add: sched_init_def insert_in_place_def k0_def bare_kernel_def upd_cpu_def Let_def)
  ultimately show ?thesis by blast
qed

end
