(* ===== verification/Kernel_Objects.thy ===== *)
theory Kernel_Objects
  imports Kernel_Ipc Kernel_Migrate
begin

text \<open>The rules for following the IPC operations through the invariant: a change to a rendezvous or a
  notification, a capability put into a thread's table, a thread that parks, a thread that is served.\<close>


section \<open>Writing a rendezvous or a notification\<close>

lemma put_rendezvous_fields [simp]:
  "threads (put_rendezvous k ep h r) = threads k" "percpu (put_rendezvous k ep h r) = percpu k"
  "notification_table (put_rendezvous k ep h r) = notification_table k" "links (put_rendezvous k ep h r) = h"
  "debug_assertions (put_rendezvous k ep h r) = debug_assertions k" "online_mask (put_rendezvous k ep h r) = online_mask k"
  "sgis (put_rendezvous k ep h r) = sgis k" "owed (put_rendezvous k ep h r) = owed k"
  by (simp_all add: put_rendezvous_def)

lemma put_notification_fields [simp]:
  "threads (put_notification k n h s) = threads k" "percpu (put_notification k n h s) = percpu k"
  "rendezvous_table (put_notification k n h s) = rendezvous_table k" "links (put_notification k n h s) = h"
  "debug_assertions (put_notification k n h s) = debug_assertions k"
  "online_mask (put_notification k n h s) = online_mask k"
  "sgis (put_notification k n h s) = sgis k" "owed (put_notification k n h s) = owed k"
  by (simp_all add: put_notification_def)

lemma same_coresI:
  "percpu k' = percpu k \<Longrightarrow> online_mask k' = online_mask k \<Longrightarrow> debug_assertions k' = debug_assertions k \<Longrightarrow> same_cores k k'"
  by (simp add: same_cores_def)

lemma views_same_threads:
  assumes "threads k' = threads k" and "percpu k' = percpu k"
  shows "get_thread k' = get_thread k" "holders k' = holders k" "cur_on k' = cur_on k" "out_on k' = out_on k" "idle_on k' = idle_on k"
    "cpu_of k' c = cpu_of k c" "current_thread_id k' c = current_thread_id k c"
proof -
  show g: "get_thread k' = get_thread k" using assms(1) by (rule get_thread_cong)
  then show "holders k' = holders k" by (intro holders_cong) simp
qed (use on_cong [OF assms(2)] assms(2) in \<open>simp_all add: cpu_of_def current_thread_id_def\<close>)

lemma put_rendezvous_views [simp]:
  "get_thread (put_rendezvous k ep h r) = get_thread k" "holders (put_rendezvous k ep h r) = holders k"
  "cur_on (put_rendezvous k ep h r) = cur_on k" "out_on (put_rendezvous k ep h r) = out_on k"
  "idle_on (put_rendezvous k ep h r) = idle_on k" "same_cores k (put_rendezvous k ep h r)"
  by (simp_all add: views_same_threads [of "put_rendezvous k ep h r" k] same_coresI)

lemma put_notification_views [simp]:
  "get_thread (put_notification k n h s) = get_thread k" "holders (put_notification k n h s) = holders k"
  "cur_on (put_notification k n h s) = cur_on k" "out_on (put_notification k n h s) = out_on k"
  "idle_on (put_notification k n h s) = idle_on k" "same_cores k (put_notification k n h s)"
  by (simp_all add: views_same_threads [of "put_notification k n h s" k] same_coresI)

lemma rendezvous_of_put:
  assumes "gt_wf (rendezvous_table k)" and "rendezvous_of k ep = Some r0"
  shows "rendezvous_of (put_rendezvous k ep h r) x = (if x = ep then Some r else rendezvous_of k x)"
  using assms by (auto simp: rendezvous_of_def put_rendezvous_def gt_update_get)

lemma notification_of_put:
  assumes "gt_wf (notification_table k)" and "notification_of k n = Some p"
  shows "notification_of (put_notification k n h s) x = (if x = n then Some (p\<lparr>nt_state := s\<rparr>) else notification_of k x)"
  using assms by (auto simp: notification_of_def put_notification_def gt_update_get)

text \<open>The general rule: the processors and the threads stay, the tables and the queues change.\<close>

lemma ok_retable:
  assumes ok: "ok_but A R k Q"
    and same: "percpu k' = percpu k" "threads k' = threads k" "online_mask k' = online_mask k" "sgis k' = sgis k" "owed k' = owed k"
    and wf: "gt_wf (rendezvous_table k')" "gt_wf (notification_table k')"
    and rep: "queues_rep (links k') (the_queue k') Q'" and inb: "\<And>c. Q' (Inbox c) = Q (Inbox c)"
    and others: "\<And>t. t \<notin> A \<Longrightarrow> places Q' t = places Q t"
  shows "ok_but A R k' Q'"
  unfolding ok_but_def
proof (intro conjI allI impI)
  show "tables_ok k'" using ok_butD(1) [OF ok] wf by (simp add: tables_ok_def same)
  show "inboxes_ok R k' Q'" using ok_butD(3) [OF ok] by (simp add: inboxes_ok_def same inb)
  show "core_ok k' c" if "c < length (percpu k')" for c
    using ok_butD(4) [OF ok] that core_ok_cong [of k' k] by (simp add: same)
  show "good k' Q' t" if "t \<notin> A" for t
    using ok_butD(5) [OF ok that] good_cong [of k' t k Q' Q] others [OF that] views_same_threads [OF same(2,1)] by simp
qed (rule rep)

lemma the_queue_put_rendezvous:
  assumes "gt_wf (rendezvous_table k)" and "rendezvous_of k ep = Some r0"
  shows "the_queue (put_rendezvous k ep h r) = (the_queue k)(SendersOf ep := senders r, ReceiversOf ep := receivers r)"
proof
  fix q show "the_queue (put_rendezvous k ep h r) q = ((the_queue k)(SendersOf ep := senders r, ReceiversOf ep := receivers r)) q"
    by (cases q) (simp_all add: rendezvous_of_put [OF assms] notification_of_def)
qed

lemma the_queue_put_notification:
  assumes "gt_wf (notification_table k)" and "notification_of k n = Some p"
  shows "the_queue (put_notification k n h s) = (the_queue k)(WaitersOf n := waiters s)"
proof
  fix q show "the_queue (put_notification k n h s) q = ((the_queue k)(WaitersOf n := waiters s)) q"
    by (cases q) (simp_all add: notification_of_put [OF assms] rendezvous_of_def)
qed

lemma ok_put_rendezvous:
  assumes ok: "ok_but A R k Q" and r: "rendezvous_of k ep = Some r0"
    and rep: "queues_rep h ((the_queue k)(SendersOf ep := senders r, ReceiversOf ep := receivers r)) Q'"
    and inb: "\<And>c. Q' (Inbox c) = Q (Inbox c)" and others: "\<And>t. t \<notin> A \<Longrightarrow> places Q' t = places Q t"
  shows "ok_but A R (put_rendezvous k ep h r) Q'"
  by (rule ok_retable [OF ok])
     (use ok_butD(7,8) [OF ok] the_queue_put_rendezvous [OF ok_butD(7) [OF ok] r] rep inb others in
        \<open>auto simp: put_rendezvous_def gt_update_get\<close>)

lemma ok_put_notification:
  assumes ok: "ok_but A R k Q" and n: "notification_of k n = Some p"
    and rep: "queues_rep h ((the_queue k)(WaitersOf n := waiters s)) Q'"
    and inb: "\<And>c. Q' (Inbox c) = Q (Inbox c)" and others: "\<And>t. t \<notin> A \<Longrightarrow> places Q' t = places Q t"
  shows "ok_but A R (put_notification k n h s) Q'"
  by (rule ok_retable [OF ok])
     (use ok_butD(7,8) [OF ok] the_queue_put_notification [OF ok_butD(8) [OF ok] n] rep inb others in
        \<open>auto simp: put_notification_def gt_update_get\<close>)

lemma the_queue_of: "rendezvous_of k ep = Some r \<Longrightarrow> the_queue k (SendersOf ep) = senders r"
  "rendezvous_of k ep = Some r \<Longrightarrow> the_queue k (ReceiversOf ep) = receivers r"
  "notification_of k n = Some p \<Longrightarrow> the_queue k (WaitersOf n) = waiters (nt_state p)"
  by simp_all

lemma ok_put_rendezvous_at:
  assumes ok: "ok_but A R k Q" and r: "rendezvous_of k ep = Some r0" and q: "q = SendersOf ep \<or> q = ReceiversOf ep"
    and rep: "queues_rep h ((the_queue k)(q := f)) Q'"
    and r': "senders r' = (if q = SendersOf ep then f else senders r0)" "receivers r' = (if q = ReceiversOf ep then f else receivers r0)"
    and inb: "\<And>c. Q' (Inbox c) = Q (Inbox c)" and others: "\<And>t. t \<notin> A \<Longrightarrow> places Q' t = places Q t"
  shows "ok_but A R (put_rendezvous k ep h r') Q'"
proof (rule ok_put_rendezvous [OF ok r _ inb others])
  have "(the_queue k)(SendersOf ep := senders r', ReceiversOf ep := receivers r') = (the_queue k)(q := f)"
    using q r' the_queue_of(1,2) [OF r] by (auto simp: fun_eq_iff)
  then show "queues_rep h ((the_queue k)(SendersOf ep := senders r', ReceiversOf ep := receivers r')) Q'" using rep by simp
qed

text \<open>Nothing moves between queues.\<close>

lemma ok_put_rendezvous_idle:
  assumes ok: "ok_but A R k Q" and r: "rendezvous_of k ep = Some r0" and "senders r' = senders r0" "receivers r' = receivers r0"
  shows "ok_but A R (put_rendezvous k ep (links k) r') Q"
  by (rule ok_put_rendezvous_at [OF ok r, of "SendersOf ep" _ "senders r0"])
     (use ok_butD(2) [OF ok] the_queue_of(1) [OF r] assms(3,4) in \<open>auto simp: fun_upd_idem\<close>)

lemma ok_put_notification_idle:
  assumes ok: "ok_but A R k Q" and n: "notification_of k n = Some p" and "waiters s = waiters (nt_state p)"
  shows "ok_but A R (put_notification k n (links k) s) Q"
  by (rule ok_put_notification [OF ok n])
     (use ok_butD(2) [OF ok] the_queue_of(3) [OF n] assms(3) in \<open>auto simp: fun_upd_idem\<close>)


section \<open>The queue steps of a rendezvous\<close>

text \<open>The thread at the front of a queue is taken off it, and \<open>me\<close>, which is on no queue, joins one.\<close>

definition took :: "queue_name \<Rightarrow> ThreadId \<Rightarrow> queues \<Rightarrow> queues \<Rightarrow> bool" where
  "took q t Q Q' \<longleftrightarrow> t \<in> set (Q q) \<and> places Q' t = {} \<and> (\<forall>u. u \<noteq> t \<longrightarrow> places Q' u = places Q u)
     \<and> (\<forall>p. p \<noteq> q \<longrightarrow> Q' p = Q p) \<and> set (Q' q) = set (Q q) - {t}"

lemma took_pop:
  assumes "queues_rep h F Q" and "Q q = t # ts"
  shows "took q t Q (Q(q := ts))"
proof -
  have "distinct (Q q)" using assms(1) by (auto simp: queues_rep_def dest: fifo_rep_distinct)
  then show ?thesis using assms places_pop [OF assms] by (auto simp: took_def)
qed

lemma ok_send:
  assumes ok: "ok_but A R k Q" and r: "rendezvous_of k ep = Some r" and me: "me \<in> A" "places Q me = {}"
    and sent: "send (links k) r me = (v, h, r')"
  defines "k' \<equiv> put_rendezvous k ep h r'"
  shows "case v of
      Send_Rendezvous t \<Rightarrow> \<exists>Q'. took (ReceiversOf ep) t Q Q' \<and> ok_but (insert t A) R k' Q'
    | Send_Blocked \<Rightarrow> ok_but A R k' (Q(SendersOf ep := Q (SendersOf ep) @ [me]))
    | Send_Refused \<Rightarrow> ok_but A R k' Q"
proof -
  note rep = ok_butD(2) [OF ok] and f = the_queue_of(1,2) [OF r]
  show ?thesis
  proof (cases "bound_to_interrupt r")
    case True
    then show ?thesis using sent ok_put_rendezvous_idle [OF ok r refl refl] by (auto simp: send_def k'_def)
  next
    case False
    show ?thesis
    proof (cases "Q (ReceiversOf ep)")
      case (Cons t ts)
      obtain q where q: "pop_front (links k) (receivers r) = (Some t, (links k)(t := None), q)"
        "queues_rep ((links k)(t := None)) ((the_queue k)(ReceiversOf ep := q)) (Q(ReceiversOf ep := ts))"
        using queues_pop_Cons [OF rep Cons, unfolded f] .
      have v: "v = Send_Rendezvous t" "h = (links k)(t := None)" "r' = r\<lparr>receivers := q\<rparr>"
        using sent False q(1) by (auto simp: send_def)
      note took = took_pop [OF rep Cons]
      have "ok_but (insert t A) R k' (Q(ReceiversOf ep := ts))"
        unfolding k'_def v(2) using took
        by (intro ok_put_rendezvous_at [OF ok_but_mono [OF ok] r _ q(2)]) (auto simp: v(3) took_def)
      then show ?thesis using took v(1) by auto
    next
      case Nil
      have pop: "pop_front (links k) (receivers r) = (None, links k, receivers r)"
        using queues_pop_Nil [OF rep Nil, unfolded f] .
      obtain h2 q where q: "push_back (links k) (senders r) me = (h2, q)" by (cases "push_back (links k) (senders r) me")
      have v: "v = Send_Blocked" "h = h2" "r' = r\<lparr>receivers := receivers r, senders := q\<rparr>"
        using sent False pop q by (auto simp: send_def)
      have "queues_rep h2 ((the_queue k)(SendersOf ep := q)) (Q(SendersOf ep := Q (SendersOf ep) @ [me]))"
        by (rule queues_push [OF rep me(2), of "SendersOf ep", unfolded f, OF q])
      then have "ok_but A R k' (Q(SendersOf ep := Q (SendersOf ep) @ [me]))"
        unfolding k'_def v(2) using me(1)
        by (intro ok_put_rendezvous_at [OF ok r]) (auto simp: v(3) places_push)
      then show ?thesis using v(1) by simp
    qed
  qed
qed

lemma ok_receive:
  assumes ok: "ok_but A R k Q" and r: "rendezvous_of k ep = Some r" and me: "me \<in> A" "places Q me = {}"
    and got: "receive (links k) r me = (v, h, r')"
  defines "k' \<equiv> put_rendezvous k ep h r'"
  shows "case v of
      Receive_FromSender t \<Rightarrow> \<exists>Q'. took (SendersOf ep) t Q Q' \<and> ok_but (insert t A) R k' Q'
    | Receive_Blocked \<Rightarrow> ok_but A R k' (Q(ReceiversOf ep := Q (ReceiversOf ep) @ [me]))
    | Receive_Signal \<Rightarrow> ok_but A R k' Q"
proof -
  note rep = ok_butD(2) [OF ok] and f = the_queue_of(1,2) [OF r]
  show ?thesis
  proof (cases "pending r > 0")
    case True
    then show ?thesis
      using got ok_put_rendezvous_idle [OF ok r, of "r\<lparr>pending := pending r - 1\<rparr>"] by (auto simp: receive_def k'_def)
  next
    case False
    show ?thesis
    proof (cases "Q (SendersOf ep)")
      case (Cons t ts)
      obtain q where q: "pop_front (links k) (senders r) = (Some t, (links k)(t := None), q)"
        "queues_rep ((links k)(t := None)) ((the_queue k)(SendersOf ep := q)) (Q(SendersOf ep := ts))"
        using queues_pop_Cons [OF rep Cons, unfolded f] .
      have v: "v = Receive_FromSender t" "h = (links k)(t := None)" "r' = r\<lparr>senders := q\<rparr>"
        using got False q(1) by (auto simp: receive_def)
      note took = took_pop [OF rep Cons]
      have "ok_but (insert t A) R k' (Q(SendersOf ep := ts))"
        unfolding k'_def v(2) using took
        by (intro ok_put_rendezvous_at [OF ok_but_mono [OF ok] r _ q(2)]) (auto simp: v(3) took_def)
      then show ?thesis using took v(1) by auto
    next
      case Nil
      have pop: "pop_front (links k) (senders r) = (None, links k, senders r)"
        using queues_pop_Nil [OF rep Nil, unfolded f] .
      obtain h2 q where q: "push_back (links k) (receivers r) me = (h2, q)" by (cases "push_back (links k) (receivers r) me")
      have v: "v = Receive_Blocked" "h = h2" "r' = r\<lparr>senders := senders r, receivers := q\<rparr>"
        using got False pop q by (auto simp: receive_def)
      have "queues_rep h2 ((the_queue k)(ReceiversOf ep := q)) (Q(ReceiversOf ep := Q (ReceiversOf ep) @ [me]))"
        by (rule queues_push [OF rep me(2), of "ReceiversOf ep", unfolded f, OF q])
      then have "ok_but A R k' (Q(ReceiversOf ep := Q (ReceiversOf ep) @ [me]))"
        unfolding k'_def v(2) using me(1)
        by (intro ok_put_rendezvous_at [OF ok r]) (auto simp: v(3) places_push)
      then show ?thesis using v(1) by simp
    qed
  qed
qed

lemma ok_signal:
  assumes ok: "ok_but A R k Q" and r: "rendezvous_of k ep = Some r" and sig: "rv_signal (links k) r = (v, h, r')"
  defines "k' \<equiv> put_rendezvous k ep h r'"
  shows "case v of
      Some t \<Rightarrow> \<exists>Q'. took (ReceiversOf ep) t Q Q' \<and> ok_but (insert t A) R k' Q'
    | None \<Rightarrow> ok_but A R k' Q"
proof (cases "Q (ReceiversOf ep)")
  case (Cons t ts)
  note rep = ok_butD(2) [OF ok] and f = the_queue_of(1,2) [OF r]
  obtain q where q: "pop_front (links k) (receivers r) = (Some t, (links k)(t := None), q)"
    "queues_rep ((links k)(t := None)) ((the_queue k)(ReceiversOf ep := q)) (Q(ReceiversOf ep := ts))"
    using queues_pop_Cons [OF rep Cons, unfolded f] .
  have v: "v = Some t" "h = (links k)(t := None)" "r' = r\<lparr>receivers := q\<rparr>"
    using sig q(1) by (auto simp: rv_signal_def)
  note took = took_pop [OF rep Cons]
  have "ok_but (insert t A) R k' (Q(ReceiversOf ep := ts))"
    unfolding k'_def v(2) using took
    by (intro ok_put_rendezvous_at [OF ok_but_mono [OF ok] r _ q(2)]) (auto simp: v(3) took_def)
  then show ?thesis using took v(1) by auto
next
  case Nil
  have "pop_front (links k) (receivers r) = (None, links k, receivers r)"
    using queues_pop_Nil [OF ok_butD(2) [OF ok] Nil, unfolded the_queue_of(2) [OF r]] .
  then have v: "v = None" "h = links k" "r' = r\<lparr>receivers := receivers r, pending := saturating_add (pending r) 1\<rparr>"
    using sig by (auto simp: rv_signal_def)
  then show ?thesis using ok_put_rendezvous_idle [OF ok r, of r'] by (simp add: k'_def v)
qed

lemma ok_remove_receiver:
  assumes ok: "ok_but A R k Q" and r: "rendezvous_of k ep = Some r" and t: "t \<in> A"
  obtains h r' Q' where "remove_receiver (links k) r t = Some (t \<in> set (Q (ReceiversOf ep)), h, r')"
    and "ok_but A R (put_rendezvous k ep h r') Q'" "places Q' t = places Q t - {ReceiversOf ep}"
      "\<forall>u. u \<noteq> t \<longrightarrow> places Q' u = places Q u"
proof -
  note rep = ok_butD(2) [OF ok] and f = the_queue_of(1,2) [OF r]
  let ?Q = "Q(ReceiversOf ep := filter (\<lambda>n. n \<noteq> t) (Q (ReceiversOf ep)))"
  obtain h q' q where q: "drain_with pop_front (repush_unless push_back t) (links k) (receivers r) (new_fifo, False)
      = Some (h, q', q, t \<in> set (Q (ReceiversOf ep)))"
    "queues_rep h ((the_queue k)(ReceiversOf ep := q)) ?Q"
    using queues_remove [OF rep, of t "ReceiversOf ep", unfolded f] .
  have "ok_but A R (put_rendezvous k ep h (r\<lparr>receivers := q\<rparr>)) ?Q"
    using t by (intro ok_put_rendezvous_at [OF ok r _ q(2)]) (auto simp: places_remove [OF rep])
  then show ?thesis
    using that [of h "r\<lparr>receivers := q\<rparr>" ?Q] q(1) by (simp add: remove_receiver_def places_remove [OF rep])
qed


section \<open>The queue steps of a notification\<close>

lemma ok_nt_signal:
  assumes ok: "ok_but A R k Q" and n: "notification_of k n = Some p"
    and sig: "nt_signal (links k) (nt_state p) b bound = (v, h, s)"
  defines "k' \<equiv> put_notification k n h s"
  shows "case v of
      Woke t w \<Rightarrow> \<exists>Q'. took (WaitersOf n) t Q Q' \<and> ok_but (insert t A) R k' Q'
    | ToBound w \<Rightarrow> bound \<and> ok_but A R k' Q
    | _ \<Rightarrow> ok_but A R k' Q"
proof (cases "b = 0 \<or> Q (WaitersOf n) = []")
  case True
  then have "h = links k \<and> waiters s = waiters (nt_state p) \<and> (\<forall>t w. v \<noteq> Woke t w) \<and> (\<forall>w. v = ToBound w \<longrightarrow> bound)"
    using sig queues_pop_Nil [OF ok_butD(2) [OF ok], of "WaitersOf n", unfolded the_queue_of(3) [OF n]]
    by (cases "b = 0") (auto simp: nt_signal_def Let_def split: if_splits)
  then show ?thesis using ok_put_notification_idle [OF ok n, of s] by (auto simp: k'_def split: Signal.split)
next
  case False
  then obtain t ts where Cons: "Q (WaitersOf n) = t # ts" and b: "b \<noteq> 0" by (cases "Q (WaitersOf n)") auto
  note rep = ok_butD(2) [OF ok] and f = the_queue_of(3) [OF n]
  obtain q where q: "pop_front (links k) (waiters (nt_state p)) = (Some t, (links k)(t := None), q)"
    "queues_rep ((links k)(t := None)) ((the_queue k)(WaitersOf n := q)) (Q(WaitersOf n := ts))"
    using queues_pop_Cons [OF rep Cons, unfolded f] .
  have v: "v = Woke t b" "h = (links k)(t := None)" "s = (nt_state p)\<lparr>waiters := q\<rparr>"
    using sig b q(1) by (auto simp: nt_signal_def)
  note took = took_pop [OF rep Cons]
  have "ok_but (insert t A) R k' (Q(WaitersOf n := ts))"
    unfolding k'_def v(2) using took q(2)
    by (intro ok_put_notification [OF ok_but_mono [OF ok] n]) (auto simp: v(3) took_def)
  then show ?thesis using took v(1) by auto
qed

lemma ok_wait:
  assumes ok: "ok_but A R k Q" and n: "notification_of k n = Some p" and me: "me \<in> A" "places Q me = {}"
    and waited: "wait (links k) (nt_state p) me = (v, h, s)"
  defines "k' \<equiv> put_notification k n h s"
  shows "case v of
      Wait_Word w \<Rightarrow> ok_but A R k' Q
    | Wait_Blocked \<Rightarrow> ok_but A R k' (Q(WaitersOf n := Q (WaitersOf n) @ [me]))"
proof (cases "note_word (nt_state p) = 0")
  case False
  then show ?thesis
    using waited ok_put_notification_idle [OF ok n, of s] by (auto simp: wait_def k'_def)
next
  case True
  obtain h2 q where q: "push_back (links k) (waiters (nt_state p)) me = (h2, q)"
    by (cases "push_back (links k) (waiters (nt_state p)) me")
  then have v: "v = Wait_Blocked" "h = h2" "s = (nt_state p)\<lparr>waiters := q\<rparr>" using waited True by (auto simp: wait_def)
  have "queues_rep h2 ((the_queue k)(WaitersOf n := q)) (Q(WaitersOf n := Q (WaitersOf n) @ [me]))"
    by (rule queues_push [OF ok_butD(2) [OF ok] me(2), of "WaitersOf n", unfolded the_queue_of(3) [OF n], OF q])
  then have "ok_but A R k' (Q(WaitersOf n := Q (WaitersOf n) @ [me]))"
    unfolding k'_def v(2) using me(1) by (intro ok_put_notification [OF ok n]) (auto simp: v(3) places_push)
  then show ?thesis using v(1) by simp
qed


section \<open>A capability put into, or taken out of, a thread's table\<close>

lemma insert_cap_table:
  assumes wf: "table_wf cs" and ins: "insert_cap (cs, seen) cap = (r, cs', seen')"
  shows "table_wf cs'" and "case r of
      Inl _ \<Rightarrow> cs' = cs
    | Inr s \<Rightarrow> unat s < capacity cs \<and> slot cs (unat s) = None \<and> slot cs' = (slot cs)(unat s := Some cap)"
proof -
  have *: "table_wf cs' \<and> (case r of
      Inl _ \<Rightarrow> cs' = cs
    | Inr s \<Rightarrow> unat s < capacity cs \<and> slot cs (unat s) = None \<and> slot cs' = (slot cs)(unat s := Some cap))"
  proof (cases "cap_free cs = 0")
    case True
    then show ?thesis using ins wf by (auto simp: insert_cap_def first_free_def)
  next
    case False
    let ?t = "trailing_zeros (cap_free cs)"
    note tz = trailing_zeros_nonzero [OF False]
    have t: "?t < 32" using tz(1) by simp
    have i: "?t < capacity cs" "slot cs ?t = None" using tz(2) t table_wfD(2) [OF wf] by auto
    have eq: "r = Inr (of_nat ?t)" "cs' = fst (snd (fill (cs, seen) ?t cap))"
      using ins False by (auto simp: insert_cap_def first_free_def)
    have "unat (of_nat ?t :: u64) = ?t" using t by (simp add: unat_of_nat)
    moreover have "table_wf cs'" using table_wf_fill [of "(cs, seen)" ?t cap] wf eq by simp
    moreover have "slot cs' = (slot cs)(?t := Some cap)" using i by (simp add: fun_eq_iff eq(2))
    ultimately show ?thesis using eq(1) i by simp
  qed
  then show "table_wf cs'" by simp
  from * show "case r of
      Inl _ \<Rightarrow> cs' = cs
    | Inr s \<Rightarrow> unat s < capacity cs \<and> slot cs (unat s) = None \<and> slot cs' = (slot cs)(unat s := Some cap)" by simp
qed

lemma holders_at:
  assumes "gt_wf (threads k)" and "get_thread k t = Some th"
  shows "holders (upd_thread k t f) u = {(s, i) \<in> holders k u. s \<noteq> t} \<union> {t} \<times> live_replies (f th) u"
  using assms by (auto simp: holders_def split: if_splits)

lemma ok_upd_caps:
  assumes "ok_but A R k Q" and "t \<in> A"
    and "\<And>th u. get_thread k t = Some th \<Longrightarrow> u \<notin> A \<Longrightarrow> live_replies (f th) u = live_replies th u"
  shows "ok_but A R (upd_thread k t f) Q"
proof (rule ok_but_cong [OF assms(1)])
  note wf = ok_butD(6) [OF assms(1)]
  then show "gt_wf (threads (upd_thread k t f))" by simp
  have "holders (upd_thread k t f) u = holders k u" if "u \<notin> A" for u
  proof (cases "get_thread k t")
    case None
    then show ?thesis using holders_upd_thread [OF wf, of t f] by simp
  next
    case (Some th)
    then show ?thesis using holders_at [OF wf Some, of f u] assms(3) [OF Some that] by (auto simp: holders_def)
  qed
  then show "get_thread (upd_thread k t f) u = get_thread k u \<and> holders (upd_thread k t f) u = holders k u"
    if "u \<notin> A" for u using that assms(2) wf by auto
qed simp_all

lemma seen_fields [simp]:
  "get_thread (k\<lparr>cap_peak_seen := x\<rparr>) = get_thread k" "holders (k\<lparr>cap_peak_seen := x\<rparr>) = holders k"
  "same_cores k (k\<lparr>cap_peak_seen := x\<rparr>)"
  using views_same_threads [of "k\<lparr>cap_peak_seen := x\<rparr>" k] by (simp_all add: same_coresI)

lemma ok_seen: "ok_but A R k Q \<Longrightarrow> ok_but A R (k\<lparr>cap_peak_seen := x\<rparr>) Q"
  by (rule ok_but_cong, assumption) (simp_all add: ok_butD(6))

lemma live_replies_insert:
  assumes "replying th = None" and "slot (capability_table th) i = None"
    and "slot cs = (slot (capability_table th))(i := Some cap)"
  shows "live_replies (th\<lparr>capability_table := cs\<rparr>) u
    = live_replies th u \<union> (if object cap = ObReply u then {i} else {})"
  using assms by (auto simp: live_replies_def reply_slots_def)

text \<open>The capability lands in an empty slot or is dropped; a reply capability adds at most one holder.\<close>

lemma ok_insert_into:
  assumes ok: "ok_but A R k Q" and t: "t \<in> A" and th: "get_thread k t = Some th" "table_ok th" "replying th = None"
    and cap: "\<forall>u. object cap = ObReply u \<longrightarrow> u \<in> A \<and> rights cap = RIGHTS_WRITE"
  obtains s k' cs where "insert_into k t cap = Some (s, k')" and "ok_but A R k' Q" "same_cores k k'"
      "get_thread k' = (get_thread k)(t \<mapsto> th\<lparr>capability_table := cs\<rparr>)" "table_ok (th\<lparr>capability_table := cs\<rparr>)"
      "\<forall>u. object cap \<noteq> ObReply u \<longrightarrow> holders k' u = holders k u" "\<forall>u. \<exists>x. holders k' u \<subseteq> insert x (holders k u)"
proof -
  obtain r cs seen where ins: "insert_cap (capability_table th, cap_peak_seen k) cap = (r, cs, seen)"
    by (cases "insert_cap (capability_table th, cap_peak_seen k) cap")
  note wf = ok_butD(6) [OF ok] and wft = table_okD(1) [OF th(2)]
  note i = insert_cap_table [OF wft ins]
  let ?th = "th\<lparr>capability_table := cs\<rparr>" and ?ks = "k\<lparr>cap_peak_seen := seen\<rparr>"
  let ?k = "upd_thread ?ks t (\<lambda>t. t\<lparr>capability_table := cs\<rparr>)"
  have live: "\<exists>n. \<forall>u. live_replies ?th u = live_replies th u \<union> (if object cap = ObReply u \<and> r \<noteq> Inl NoFreeSlot then {n} else {})"
  proof (cases r)
    case (Inl e)
    then have "e = NoFreeSlot" "cs = capability_table th" using ins i(2) by (auto simp: insert_cap_def split: option.splits)
    then show ?thesis using Inl by (auto simp: live_replies_def)
  next
    case (Inr s)
    then show ?thesis using i(2) live_replies_insert [OF th(3), of "unat s" cs cap] by auto
  qed
  then obtain n where n: "live_replies ?th u = live_replies th u \<union> (if object cap = ObReply u \<and> r \<noteq> Inl NoFreeSlot then {n} else {})" for u
    by blast
  have wf0: "gt_wf (threads ?ks)" and get0: "get_thread ?ks t = Some th" using wf th(1) by simp_all
  have hold: "holders ?k u = {(s, i) \<in> holders k u. s \<noteq> t} \<union> {t} \<times> live_replies ?th u" for u
    using holders_at [OF wf0 get0, of "\<lambda>t. t\<lparr>capability_table := cs\<rparr>"] by simp
  have self: "holders k u = {(s, i) \<in> holders k u. s \<noteq> t} \<union> {t} \<times> live_replies th u" for u
    using th(1) by (auto simp: holders_def)
  show ?thesis
  proof (rule that)
    show "insert_into k t cap = Some (case r of Inl _ \<Rightarrow> NO_CAP | Inr s \<Rightarrow> s, ?k)"
      using th(1) ins by (simp add: insert_into_def)
    show "ok_but A R ?k Q"
      by (rule ok_upd_caps [OF ok_seen [OF ok] t]) (use n cap th(1) in auto)
    show "same_cores k ?k" by (rule same_coresI) simp_all
    show "get_thread ?k = (get_thread k)(t \<mapsto> ?th)" using wf th(1) by simp
    show "table_ok ?th"
      using th(2) i cap by (cases r) (auto simp: table_ok_def)
    show "\<forall>u. object cap \<noteq> ObReply u \<longrightarrow> holders ?k u = holders k u" using hold self n by auto
    show "\<forall>u. \<exists>x. holders ?k u \<subseteq> insert x (holders k u)"
    proof
      fix u
      have "holders ?k u \<subseteq> insert (t, n) (holders k u)" using hold [of u] self [of u] n [of u] by (auto split: if_splits)
      then show "\<exists>x. holders ?k u \<subseteq> insert x (holders k u)" ..
    qed
  qed
qed


section \<open>Threads on a wait queue\<close>

lemma receiver_thread:
  assumes "thread_ok t th {ReceiversOf ep} C S I H"
  shows "state (handshake th) = Blocked" "wait_on (handshake th) = Some (WaitRendezvous ep RoleReceiver)"
    "\<not> is_delivered (handshake th)" "outgoing_cap th = None" "H = {}" "replying th = None"
proof -
  show b: "state (handshake th) = Blocked"
    using assms by (cases "state (handshake th)") (auto simp: thread_ok_def place_ok_def split: if_splits)
  have w: "waits_ok (handshake th) {ReceiversOf ep}" using assms b by (simp add: thread_ok_def place_ok_def)
  then show nd: "\<not> is_delivered (handshake th)" by (auto simp: waits_ok_def)
  obtain x where x: "wait_on (handshake th) = Some x" "wait_queue x = ReceiversOf ep"
    using w nd by (auto simp: waits_ok_def split: option.splits if_splits)
  then show wr: "wait_on (handshake th) = Some (WaitRendezvous ep RoleReceiver)" by (cases x rule: wait_queue.cases) auto
  have "\<not> awaits_reply th" by (simp add: awaits_reply_def wr)
  then show "outgoing_cap th = None" "H = {}" "replying th = None"
    using assms b wr by (auto simp: thread_ok_def sends_ok_def held_ok_def resume_ok_def split: option.splits)
qed

lemma waiter_thread:
  assumes "thread_ok t th {WaitersOf n} C S I H"
  shows "state (handshake th) = Blocked" "wait_on (handshake th) = Some (WaitNotification n)"
    "\<not> is_delivered (handshake th)" "outgoing_cap th = None" "H = {}" "replying th = None"
proof -
  show b: "state (handshake th) = Blocked"
    using assms by (cases "state (handshake th)") (auto simp: thread_ok_def place_ok_def split: if_splits)
  have w: "waits_ok (handshake th) {WaitersOf n}" using assms b by (simp add: thread_ok_def place_ok_def)
  then show nd: "\<not> is_delivered (handshake th)" by (auto simp: waits_ok_def)
  obtain x where x: "wait_on (handshake th) = Some x" "wait_queue x = WaitersOf n"
    using w nd by (auto simp: waits_ok_def split: option.splits if_splits)
  then show wr: "wait_on (handshake th) = Some (WaitNotification n)" by (cases x rule: wait_queue.cases) auto
  have "\<not> awaits_reply th" by (simp add: awaits_reply_def wr)
  then show "outgoing_cap th = None" "H = {}" "replying th = None"
    using assms b wr by (auto simp: thread_ok_def sends_ok_def held_ok_def resume_ok_def split: option.splits)
qed

text \<open>A sender's queue holds senders, callers whose request nobody has taken, and the dead.\<close>

lemma sender_thread:
  assumes "thread_ok t th {SendersOf ep} C S I H"
  obtains (dead) "state (handshake th) = Dead" "outgoing_cap th = None" "H = {}" "replying th = None"
  | (sender) "state (handshake th) = Blocked" "wait_on (handshake th) = Some (WaitRendezvous ep RoleSender)"
      "\<not> is_delivered (handshake th)" "\<forall>cap u. outgoing_cap th = Some cap \<longrightarrow> object cap \<noteq> ObReply u"
      "H = {}" "replying th = None"
  | (caller) "state (handshake th) = Blocked" "wait_on (handshake th) = Some (WaitRendezvous ep RoleReply)"
      "\<not> is_delivered (handshake th)" "outgoing_cap th = Some (reply_cap t)" "H = {}" "replying th = None"
proof -
  have H: "H = {}" using assms by (auto simp: thread_ok_def held_ok_def)
  have "state (handshake th) = Blocked \<or> state (handshake th) = Dead"
    using assms by (cases "state (handshake th)") (auto simp: thread_ok_def place_ok_def split: if_splits)
  then show ?thesis
  proof
    assume d: "state (handshake th) = Dead"
    then have "outgoing_cap th = None" "replying th = None"
      using assms by (auto simp: thread_ok_def sends_ok_def resume_ok_def split: option.splits)
    with d H show ?thesis using dead by blast
  next
    assume b: "state (handshake th) = Blocked"
    then have w: "waits_ok (handshake th) {SendersOf ep}" and rep: "replying th = None"
      using assms by (auto simp: thread_ok_def place_ok_def resume_ok_def)
    then have nd: "\<not> is_delivered (handshake th)" by (auto simp: waits_ok_def)
    obtain x where x: "wait_on (handshake th) = Some x" "wait_queue x = SendersOf ep"
      using w nd by (auto simp: waits_ok_def split: option.splits if_splits)
    have so: "sends_ok t th {SendersOf ep}" using assms by (simp add: thread_ok_def)
    from x(2) consider "x = WaitRendezvous ep RoleSender" | "x = WaitRendezvous ep RoleReply"
      by (cases x rule: wait_queue.cases) auto
    then show ?thesis
    proof cases
      case 1
      then have "\<not> awaits_reply th" by (simp add: awaits_reply_def x)
      then have "\<forall>cap u. outgoing_cap th = Some cap \<longrightarrow> object cap \<noteq> ObReply u" using so b by (auto simp: sends_ok_def)
      then show ?thesis using sender b x 1 nd H rep by blast
    next
      case 2
      then have "awaits_reply th" by (simp add: awaits_reply_def x)
      then have "outgoing_cap th = Some (reply_cap t)" using so b by (auto simp: sends_ok_def split: option.splits)
      then show ?thesis using caller b x 2 nd H rep by blast
    qed
  qed
qed


section \<open>Serving and waking\<close>

lemma upd_thread_const: "get_thread k t = Some th \<Longrightarrow> upd_thread k t (\<lambda>_. f th) = upd_thread k t f"
  by (simp add: upd_thread_def get_thread_def gt_update_def gt_get_def split: option.splits)

lemma ok_deliver_wake:
  assumes ok: "ok_but A R k Q" and t: "t \<in> A" "places Q t = {}" and th: "get_thread k t = Some th"
    and w: "wakeable ((f th)\<lparr>handshake := serve (handshake th)\<rparr>) (cur_on k t) (out_on k t) (idle_on k t) (holders k t)"
    and live: "live_replies (f th) = live_replies th"
    and c: "c < length (percpu k)" "current (percpu k ! c) \<noteq> NO_TID"
  obtains k1 Q' where "deliver k t f = Some k1" and "ok_but (A - {t}) R (wake k1 c t) Q'" "same_cores k (wake k1 c t)"
      "\<forall>u. u \<noteq> t \<longrightarrow> get_thread (wake k1 c t) u = get_thread k u" "holders (wake k1 c t) = holders k"
      "\<forall>u. u \<noteq> t \<longrightarrow> places Q' u = places Q u"
proof -
  let ?th = "(f th)\<lparr>handshake := serve (handshake th)\<rparr>" and ?k = "upd_thread k t (\<lambda>_. (f th)\<lparr>handshake := serve (handshake th)\<rparr>)"
  note wf = ok_butD(6) [OF ok]
  have ok1: "ok_but A R ?k Q" by (rule ok_upd_thread [OF ok t(1)]) (use live th in simp)
  have hold: "holders ?k = holders k" using holders_upd_thread [OF wf, of t "\<lambda>_. ?th"] live th by simp
  have get: "get_thread ?k t = Some ?th" using th wf by simp
  have w': "wakeable ?th (cur_on ?k t) (out_on ?k t) (idle_on ?k t) (holders ?k t)" using w hold by simp
  have c': "c < length (percpu ?k)" "current (percpu ?k ! c) \<noteq> NO_TID" using c by simp_all
  obtain Q' where q: "ok_but (A - {t}) R (wake ?k c t) Q'" "same_cores ?k (wake ?k c t)"
    "\<forall>u. u \<noteq> t \<longrightarrow> get_thread (wake ?k c t) u = get_thread ?k u" "holders (wake ?k c t) = holders ?k"
    "\<forall>u. u \<noteq> t \<longrightarrow> places Q' u = places Q u"
    using ok_wake [OF ok1 t get w' c'] .
  show ?thesis
  proof (rule that [of ?k Q'])
    show "deliver k t f = Some ?k" using th by (simp add: deliver_def unwrap_thread_def)
    show "same_cores k (wake ?k c t)" by (rule same_cores_trans [OF same_cores_upd_thread q(2)])
    show "\<forall>u. u \<noteq> t \<longrightarrow> get_thread (wake ?k c t) u = get_thread k u" using q(3) wf by simp
  qed (use q hold in simp_all)
qed

lemma ok_deliver_wake_placed:
  assumes ok: "ok_but A R k Q" and t: "t \<in> A" "places Q t = {}" and th: "get_thread k t = Some th"
    and w: "wakeable ((f th)\<lparr>handshake := serve (handshake th)\<rparr>) (cur_on k t) (out_on k t) (idle_on k t) (holders k t)"
    and live: "live_replies (f th) = live_replies th"
    and c: "c < length (percpu k)" "current (percpu k ! c) \<noteq> NO_TID"
  obtains k1 remote k' Q' where "deliver k t f = Some k1" and "wake_placed k1 c t how = Some (remote, k')"
    and "ok_but (A - {t}) (set_option remote \<union> R) k' Q'" "same_cores k k'"
      "\<forall>u. u \<noteq> t \<longrightarrow> get_thread k' u = get_thread k u"
proof (cases how)
  case PlaceLocal
  obtain k1 Q' where "deliver k t f = Some k1" "ok_but (A - {t}) R (wake k1 c t) Q'" "same_cores k (wake k1 c t)"
    "\<forall>u. u \<noteq> t \<longrightarrow> get_thread (wake k1 c t) u = get_thread k u"
    using ok_deliver_wake [where f = f, OF assms] .
  then show ?thesis using that [of k1 None "wake k1 c t" Q'] PlaceLocal by simp
next
  case PlaceLoadAware
  let ?th = "(f th)\<lparr>handshake := serve (handshake th)\<rparr>" and ?k = "upd_thread k t (\<lambda>_. (f th)\<lparr>handshake := serve (handshake th)\<rparr>)"
  note wf = ok_butD(6) [OF ok]
  have ok1: "ok_but A R ?k Q" by (rule ok_upd_thread [OF ok t(1)]) (use live th in simp)
  have hold: "holders ?k = holders k" using holders_upd_thread [OF wf, of t "\<lambda>_. ?th"] live th by simp
  have get: "get_thread ?k t = Some ?th" using th wf by simp
  have w': "wakeable ?th (cur_on ?k t) (out_on ?k t) (idle_on ?k t) (holders ?k t)" using w hold by simp
  have c': "c < length (percpu ?k)" "current (percpu ?k ! c) \<noteq> NO_TID" using c by simp_all
  obtain remote k' Q' where q: "wake_load_aware ?k c t = Some (remote, k')"
    "ok_but (A - {t}) (set_option remote \<union> R) k' Q'" "same_cores ?k k'"
    "\<forall>u. u \<noteq> t \<longrightarrow> get_thread k' u = get_thread ?k u"
    using ok_wake_load_aware [OF ok1 t get w' c'] .
  show ?thesis
  proof (rule that [of ?k remote k' Q'])
    show "deliver k t f = Some ?k" using th by (simp add: deliver_def unwrap_thread_def)
    show "same_cores k k'" by (rule same_cores_trans [OF same_cores_upd_thread q(3)])
    show "\<forall>u. u \<noteq> t \<longrightarrow> get_thread k' u = get_thread k u" using q(4) wf by simp
  qed (use q PlaceLoadAware in simp_all)
qed


section \<open>The thread that makes the call\<close>

text \<open>A call is made by the thread a core runs, which is not the core's idle thread, is not inside another
  call, and has taken the abort flag of the call before.\<close>

definition calls :: "Kernel \<Rightarrow> nat \<Rightarrow> bool" where
  "calls k c \<longleftrightarrow> c < length (percpu k) \<and> current (percpu k ! c) \<noteq> NO_TID \<and> switched_from (percpu k ! c) = NO_TID
     \<and> current (percpu k ! c) \<noteq> idle (percpu k ! c)
     \<and> (case get_thread k (current (percpu k ! c)) of
          None \<Rightarrow> False
        | Some t \<Rightarrow> state (handshake t) = Running \<and> \<not> resuming t \<and> replying t = None \<and> \<not> ipc_aborted (handshake t))"

lemma calling_thread:
  assumes ok: "kernel_ok k Q" and call: "calls k c" and t: "t = current (percpu k ! c)"
  obtains th where "get_thread k t = Some th" and "thread_ok t th {} {c} {} {} {}"
    and "cur_on k t = {c}" "out_on k t = {}" "idle_on k t = {}" "places Q t = {}" "holders k t = {}"
      "state (handshake th) = Running" "\<not> resuming th" "replying th = None" "\<not> ipc_aborted (handshake th)"
      "outgoing_cap th = None"
proof -
  have c: "c < length (percpu k)" "current (percpu k ! c) \<noteq> NO_TID" "t \<noteq> idle (percpu k ! c)"
    using call t by (auto simp: calls_def)
  obtain th where th: "get_thread k t = Some th" "thread_ok t th (places Q t) {c} {} (idle_on k t) (holders k t)"
    "cur_on k t = {c}" "out_on k t = {}" "idle_on k t \<subseteq> {c}"
    using current_thread [OF ok c(1,2) empty_iff [THEN iffD1, THEN notI]] unfolding t .
  have run: "state (handshake th) = Running" "\<not> resuming th" "replying th = None" "\<not> ipc_aborted (handshake th)"
    using call th(1) t by (auto simp: calls_def)
  have "idle_on k t = {}" using th(5) c(3) by (auto simp: idle_on_def)
  moreover have "places Q t = {}" "holders k t = {}" "outgoing_cap th = None"
    using th(2) run(1) by (auto simp: thread_ok_def place_ok_def held_ok_def sends_ok_def split: option.splits)
  ultimately show ?thesis using that [of th] th run by simp
qed

lemma thread_parks:
  assumes tok: "thread_ok t th {} {c} {} {} {}" and run: "state (handshake th) = Running" "\<not> ipc_aborted (handshake th)"
    and th': "handshake th' = (handshake th)\<lparr>state := Blocked, wait_on := Some w, ipc_served := False\<rparr>" "replying th' = None"
    and caps: "caps_ok th'" and P: "if wait_reply w then P \<subseteq> {wait_queue w} else P = {wait_queue w}"
    and sends: "sends_ok t th' P" and held: "held_ok th' P H"
  shows "thread_ok t th' P {c} {} {} H"
proof -
  have "stands_ok th' {c} {} {}" "wait_ok (handshake th')"
    using tok run by (auto simp: thread_ok_def stands_ok_def wait_ok_def th' is_delivered_def)
  moreover have "place_ok th' P {c} {} {}"
    using P run by (simp add: place_ok_def th' waits_ok_def is_delivered_def)
  ultimately show ?thesis using caps sends held th' by (simp add: thread_ok_def resume_ok_def)
qed

lemma park_current_eq:
  assumes "get_thread k t = Some th" and "state (handshake th) = Running"
  shows "park_current k t w f = Some (upd_thread k t (\<lambda>_. (f th)\<lparr>handshake :=
    (handshake th)\<lparr>state := Blocked, wait_on := Some w, ipc_served := False\<rparr>, resuming := True\<rparr>))"
  using assms by (simp add: park_current_def unwrap_thread_def park_def debug_assert_def)

end
