(* ===== verification/Kernel_Ipc_Inv.thy ===== *)
theory Kernel_Ipc_Inv
  imports Kernel_Objects
begin

text \<open>The blocking calls keep the invariant, and none of them can panic: every lookup the source unwraps
  finds its thread, and no assertion fails.\<close>


section \<open>The steps the calls share\<close>

lemma ok_close_at:
  assumes ok: "ok_but A R k' Q'" and A: "A \<subseteq> {t}" and same: "same_cores k k'" and get: "get_thread k' t = Some th'"
    and tok: "thread_ok t th' (places Q' t) (cur_on k t) (out_on k t) (idle_on k t) (holders k' t)"
  shows "ok_but {} R k' Q'"
proof (rule ok_but_close [OF ok])
  fix u assume "u \<in> A"
  then have "u = t" using A by auto
  then show "good k' Q' u" using get tok same_coresD(7-9) [OF same] by (simp add: good_def)
qed

lemma took_thread:
  assumes ok: "ok_but {t} R k Q" and took: "took q u Q Q'" and t: "places Q t = {}"
  obtains th where "get_thread k u = Some th" and "thread_ok u th {q} (cur_on k u) (out_on k u) (idle_on k u) (holders k u)"
    and "u \<noteq> t" "places Q' u = {}" "places Q' t = {}"
proof -
  have u: "u \<in> set (Q q)" using took by (simp add: took_def)
  then have ut: "u \<noteq> t" using t by (auto simp: places_empty)
  then have "u \<notin> {t}" by simp
  with ok u obtain th where "get_thread k u = Some th" "thread_ok u th {q} (cur_on k u) (out_on k u) (idle_on k u) (holders k u)"
    by (rule queued_thread)
  then show ?thesis using that [of th] ut took t by (simp add: took_def)
qed

lemma table_okI: "table_ok th \<Longrightarrow> capability_table th' = capability_table th \<Longrightarrow> length (mailbox th') = 5 \<Longrightarrow> table_ok th'"
  by (auto simp: table_ok_def)

lemma caps_okI: "table_ok th \<Longrightarrow> state (handshake th) \<noteq> Finished \<Longrightarrow> caps_ok th"
  by (simp add: caps_ok_def)

lemma length_messages [simp]: "length (wide m b) = 5" "length (bound_delivery w) = 5"
  by (simp_all add: wide_def bound_delivery_def)

lemma handshake_states [simp]:
  "state (serve h) = state h" "state (abort h) = state h"
  by (simp_all add: serve_def abort_def)

lemma thread_okD:
  assumes "thread_ok t th P C S I H"
  shows "stands_ok th C S I" "wait_ok (handshake th)" "place_ok th P C S I" "sends_ok t th P" "caps_ok th"
    "held_ok th P H" "resume_ok th" "table_ok th"
  using assms table_okD(2) [of th] by (auto simp: thread_ok_def)

text \<open>A thread on a receive or notification queue is served: its mailbox and perhaps its table change, and it
  can be woken.\<close>

lemma wakeable_served:
  assumes tok: "thread_ok t th {q} C S I H" and q: "q = ReceiversOf ep \<or> q = WaitersOf n"
    and th': "handshake th' = serve (handshake th)" "outgoing_cap th' = outgoing_cap th" "replying th' = replying th" "table_ok th'"
  shows "wakeable th' C S I {}"
proof -
  have b: "state (handshake th) = Blocked" "outgoing_cap th = None"
    using q tok receiver_thread [of t th ep C S I H] waiter_thread [of t th n C S I H] by auto
  show ?thesis
    by (rule wakeable_delivered [OF tok b(1)]) (use th' b caps_okI [OF th'(4)] in auto)
qed

lemma served_holders: "thread_ok t th {q} C S I H \<Longrightarrow> H = {}"
  by (auto simp: thread_ok_def held_ok_def)

lemma ok_flag_current:
  assumes ok: "kernel_ok k Q" and call: "calls k c" and t: "t = current (percpu k ! c)"
    and f: "\<And>th. handshake (f th) = abort (handshake th)" "\<And>th. capability_table (f th) = capability_table th"
      "\<And>th. mailbox (f th) = mailbox th" "\<And>th. replying (f th) = replying th"
      "\<And>th. outgoing_cap th = None \<Longrightarrow> outgoing_cap (f th) = None" "\<And>th. killed (f th) = killed th"
      "\<And>th. resuming (f th) = resuming th"
  shows "kernel_ok (upd_thread k t f) Q"
proof -
  obtain th where th: "get_thread k t = Some th" "thread_ok t th {} {c} {} {} {}"
    and v: "cur_on k t = {c}" "out_on k t = {}" "idle_on k t = {}" "places Q t = {}" "holders k t = {}"
      "state (handshake th) = Running" "\<not> resuming th" "replying th = None" "\<not> ipc_aborted (handshake th)"
      "outgoing_cap th = None"
    using calling_thread [OF ok call t] .
  note wf = ok_butD(6) [OF ok]
  have live: "live_replies (f th) = live_replies th" using f(2,4) by (intro live_replies_cong)
  have ok1: "ok_but {t} {} (upd_thread k t f) Q"
    by (rule ok_upd_thread [OF ok_but_mono [OF ok]]) (use th(1) live in auto)
  have "table_ok (f th)" using table_ok_cong [of "f th" th] f(2,3) thread_okD(8) [OF th(2)] by simp
  then have "caps_ok (f th)" by (rule caps_okI) (simp add: f(1) v(6))
  then have "thread_ok t (f th) {} {c} {} {} {}"
    using thread_okD(1-3) [OF th(2)] v(6-10) f
    by (simp add: thread_ok_def stands_ok_def wait_ok_def place_ok_def sends_ok_def held_ok_def resume_ok_def abort_def)
  moreover have "holders (upd_thread k t f) t = {}" using holders_upd_thread [OF wf, of t f] live th(1) v(5) by simp
  ultimately show ?thesis
    by (intro ok_close_at [OF ok1 subset_refl same_cores_upd_thread]) (use th(1) wf v in simp_all)
qed

lemma ok_set_ipc_aborted:
  "kernel_ok k Q \<Longrightarrow> calls k c \<Longrightarrow> kernel_ok (set_ipc_aborted k (current (percpu k ! c))) Q"
  unfolding set_ipc_aborted_def by (rule ok_flag_current [OF _ _ refl]) simp_all

lemma ok_set_ipc_refused:
  "kernel_ok k Q \<Longrightarrow> calls k c \<Longrightarrow> kernel_ok (set_ipc_refused k (current (percpu k ! c))) Q"
  unfolding set_ipc_refused_def by (rule ok_flag_current [OF _ _ refl]) simp_all

lemma calls_cong:
  "same_cores k k' \<Longrightarrow> get_thread k' (current (percpu k ! c)) = get_thread k (current (percpu k ! c)) \<Longrightarrow> calls k' c = calls k c"
  by (simp add: calls_def same_coresD)


lemma ok_park:
  assumes ok: "ok_but {t} R k Q" and th: "get_thread k t = Some th" "thread_ok t th {} {c} {} {} {}"
    and run: "state (handshake th) = Running" "\<not> ipc_aborted (handshake th)"
    and v: "cur_on k t = {c}" "out_on k t = {}" "idle_on k t = {}"
    and f: "live_replies (f th) = live_replies th" "replying (f th) = None" "table_ok (f th)"
    and P: "if wait_reply w then places Q t \<subseteq> {wait_queue w} else places Q t = {wait_queue w}"
  defines "th' \<equiv> (f th)\<lparr>handshake := (handshake th)\<lparr>state := Blocked, wait_on := Some w, ipc_served := False\<rparr>, resuming := True\<rparr>"
  assumes sends: "sends_ok t th' (places Q t)" and held: "held_ok th' (places Q t) (holders k t)"
  shows "\<exists>k'. park_current k t w f = Some k' \<and> ok_but {} R k' Q"
proof -
  let ?k = "upd_thread k t (\<lambda>_. th')"
  note wf = ok_butD(6) [OF ok]
  have live: "live_replies th' = live_replies th" using f(1) by (simp add: th'_def)
  have ok1: "ok_but {t} R ?k Q" by (rule ok_upd_thread [OF ok singletonI]) (use th(1) live in auto)
  have "table_ok th'" using table_ok_cong [of th' "f th"] f(3) by (simp add: th'_def)
  then have "caps_ok th'" by (rule caps_okI) (simp add: th'_def)
  then have "thread_ok t th' (places Q t) {c} {} {} (holders k t)"
    by (intro thread_parks [OF th(2) run]) (use f(2) P sends held in \<open>simp_all add: th'_def\<close>)
  moreover have "holders ?k = holders k" using holders_upd_thread [OF wf, of t "\<lambda>_. th'"] live th(1) by simp
  ultimately have "ok_but {} R ?k Q"
    by (intro ok_close_at [OF ok1 subset_refl same_cores_upd_thread]) (use th(1) wf v in simp_all)
  then show ?thesis using park_current_eq [OF th(1) run(1), of w f] by (auto simp: th'_def)
qed


section \<open>The outcomes of meeting at a rendezvous\<close>

lemma ok_put_unchanged:
  assumes "ok_but {t} R (put_rendezvous k ep h r) Q" and "kernel_ok k Q"
  shows "ok_but {} R (put_rendezvous k ep h r) Q"
proof (rule ok_but_close [OF assms(1)])
  fix u
  show "good (put_rendezvous k ep h r) Q u"
    using ok_butD(5) [OF assms(2), of u] good_cong [of "put_rendezvous k ep h r" u k Q Q] by simp
qed

lemma send_cases:
  assumes ok: "kernel_ok k Q" and call: "calls k c" and t: "t = current (percpu k ! c)" and P: "places Q t = {}"
    and r: "rendezvous_of k ep = Some r" and sent: "send (links k) r t = (v, h, r')"
  obtains (refused) "v = Send_Refused" "kernel_ok (put_rendezvous k ep h r') Q" "calls (put_rendezvous k ep h r') c"
  | (blocked) "v = Send_Blocked" "ok_but {t} {} (put_rendezvous k ep h r') (Q(SendersOf ep := Q (SendersOf ep) @ [t]))"
  | (met) u thu Q1 where "v = Send_Rendezvous u" "ok_but {u, t} {} (put_rendezvous k ep h r') Q1" "get_thread (put_rendezvous k ep h r') u = Some thu"
      "thread_ok u thu {ReceiversOf ep} (cur_on (put_rendezvous k ep h r') u) (out_on (put_rendezvous k ep h r') u) (idle_on (put_rendezvous k ep h r') u) (holders (put_rendezvous k ep h r') u)"
      "u \<noteq> t" "places Q1 u = {}" "places Q1 t = {}" "holders (put_rendezvous k ep h r') u = {}"
proof -
  let ?k = "put_rendezvous k ep h r'"
  have ok0: "ok_but {t} {} k Q" by (rule ok_but_mono [OF ok]) auto
  note s = ok_send [OF ok0 r singletonI P sent]
  show ?thesis
  proof (cases v)
    case Send_Refused
    then have "ok_but {t} {} ?k Q" using s by simp
    then have "kernel_ok ?k Q" by (rule ok_put_unchanged [OF _ ok])
    moreover have "calls ?k c" using call calls_cong [of k ?k c] by simp
    ultimately show ?thesis using refused Send_Refused by blast
  next
    case Send_Blocked
    then show ?thesis using blocked s by simp
  next
    case (Send_Rendezvous u)
    then obtain Q1 where q: "took (ReceiversOf ep) u Q Q1" "ok_but {u, t} {} ?k Q1" using s by auto
    obtain thu where u: "get_thread k u = Some thu"
      "thread_ok u thu {ReceiversOf ep} (cur_on k u) (out_on k u) (idle_on k u) (holders k u)" "u \<noteq> t" "places Q1 u = {}" "places Q1 t = {}"
      using took_thread [OF ok0 q(1) P] .
    have "holders k u = {}" by (rule served_holders [OF u(2)])
    then show ?thesis using met [OF Send_Rendezvous q(2)] u by simp
  qed
qed

lemma receive_cases:
  assumes ok: "kernel_ok k Q" and P: "places Q t = {}"
    and r: "rendezvous_of k ep = Some r" and got: "receive (links k) r t = (v, h, r')"
  obtains (signal) "v = Receive_Signal" "kernel_ok (put_rendezvous k ep h r') Q"
  | (blocked) "v = Receive_Blocked" "ok_but {t} {} (put_rendezvous k ep h r') (Q(ReceiversOf ep := Q (ReceiversOf ep) @ [t]))"
  | (met) u thu Q1 where "v = Receive_FromSender u" "ok_but {u, t} {} (put_rendezvous k ep h r') Q1" "get_thread (put_rendezvous k ep h r') u = Some thu"
      "thread_ok u thu {SendersOf ep} (cur_on (put_rendezvous k ep h r') u) (out_on (put_rendezvous k ep h r') u) (idle_on (put_rendezvous k ep h r') u) (holders (put_rendezvous k ep h r') u)"
      "u \<noteq> t" "places Q1 u = {}" "places Q1 t = {}" "holders (put_rendezvous k ep h r') u = {}"
proof -
  let ?k = "put_rendezvous k ep h r'"
  have ok0: "ok_but {t} {} k Q" by (rule ok_but_mono [OF ok]) auto
  note s = ok_receive [OF ok0 r singletonI P got]
  show ?thesis
  proof (cases v)
    case Receive_Signal
    then have "ok_but {t} {} ?k Q" using s by simp
    then have "kernel_ok ?k Q" by (rule ok_put_unchanged [OF _ ok])
    then show ?thesis using signal Receive_Signal by blast
  next
    case Receive_Blocked
    then show ?thesis using blocked s by simp
  next
    case (Receive_FromSender u)
    then obtain Q1 where q: "took (SendersOf ep) u Q Q1" "ok_but {u, t} {} ?k Q1" using s by auto
    obtain thu where u: "get_thread k u = Some thu"
      "thread_ok u thu {SendersOf ep} (cur_on k u) (out_on k u) (idle_on k u) (holders k u)" "u \<noteq> t" "places Q1 u = {}" "places Q1 t = {}"
      using took_thread [OF ok0 q(1) P] .
    have "holders k u = {}" by (rule served_holders [OF u(2)])
    then show ?thesis using met [OF Receive_FromSender q(2)] u by simp
  qed
qed

text \<open>The two ends of a call in which \<open>u\<close> is served while \<open>t\<close> makes the call.\<close>

lemma ok_serve_other:
  assumes ok: "ok_but {u, t} {} k Q" and u: "get_thread k u = Some thu" "u \<noteq> t" "places Q u = {}"
    and w: "wakeable ((f thu)\<lparr>handshake := serve (handshake thu)\<rparr>) (cur_on k u) (out_on k u) (idle_on k u) (holders k u)"
    and live: "live_replies (f thu) = live_replies thu"
    and c: "c < length (percpu k)" "current (percpu k ! c) \<noteq> NO_TID"
  obtains k1 Q' where "deliver k u f = Some k1" and "ok_but {t} {} (wake k1 c u) Q'" "same_cores k (wake k1 c u)"
      "get_thread (wake k1 c u) t = get_thread k t" "holders (wake k1 c u) = holders k" "places Q' t = places Q t"
proof -
  obtain k1 Q' where d: "deliver k u f = Some k1" "ok_but ({u, t} - {u}) {} (wake k1 c u) Q'" "same_cores k (wake k1 c u)"
    "\<forall>s. s \<noteq> u \<longrightarrow> get_thread (wake k1 c u) s = get_thread k s" "holders (wake k1 c u) = holders k"
    "\<forall>s. s \<noteq> u \<longrightarrow> places Q' s = places Q s"
    using ok_deliver_wake [where f = f, OF ok insertI1 u(3,1) w live c] .
  then show ?thesis using that [of k1 Q'] u(2) by (auto simp: insert_Diff_if)
qed


section \<open>Send\<close>

lemma ok_ipc_send_badged:
  assumes ok: "kernel_ok k Q" and call: "calls k c"
  shows "\<exists>b k' Q'. ipc_send_badged k c ep msg badge = Some (b, k') \<and> kernel_ok k' Q'"
proof -
  define t where "t = current (percpu k ! c)"
  obtain th where th: "get_thread k t = Some th" "thread_ok t th {} {c} {} {} {}"
    and v: "cur_on k t = {c}" "out_on k t = {}" "idle_on k t = {}" "places Q t = {}" "holders k t = {}"
      "state (handshake th) = Running" "\<not> resuming th" "replying th = None" "\<not> ipc_aborted (handshake th)"
      "outgoing_cap th = None"
    using calling_thread [OF ok call t_def] .
  have c: "c < length (percpu k)" "current (percpu k ! c) \<noteq> NO_TID" using call by (auto simp: calls_def)
  have cur: "current_thread_id k c = t" by (simp add: current_thread_id_def cpu_of_def t_def)
  have ptr: "thread_control_block_ptr k t = Some t" using th(1) by (simp add: thread_control_block_ptr_def)
  let ?f = "\<lambda>t :: Thread. t\<lparr>mailbox := wide msg badge\<rparr>"
  show ?thesis
  proof (cases "rendezvous_of k ep")
    case None
    then show ?thesis using ok_set_ipc_aborted [OF ok call] ptr by (auto simp: ipc_send_badged_def cur t_def)
  next
    case (Some r)
    obtain v' h r' where sent: "send (links k) r t = (v', h, r')" by (cases "send (links k) r t") auto
    let ?k = "put_rendezvous k ep h r'"
    from ok call t_def v(4) Some sent show ?thesis
    proof (cases rule: send_cases)
      case refused
      then have "kernel_ok (set_ipc_refused ?k t) Q" using ok_set_ipc_refused [of ?k Q c] by (simp add: t_def)
      then show ?thesis using Some sent refused ptr by (auto simp: ipc_send_badged_def cur Let_def)
    next
      case blocked
      have "\<exists>k'. park_current ?k t (WaitRendezvous ep RoleSender) ?f = Some k' \<and> ok_but {} {} k' (Q(SendersOf ep := Q (SendersOf ep) @ [t]))"
        by (rule ok_park [OF blocked(2)])
           (use th v table_okI [OF thread_okD(8) [OF th(2)], of "?f th"] in
             \<open>auto simp: places_push sends_ok_def held_ok_def awaits_reply_def\<close>)
      then show ?thesis using Some sent blocked(1) ptr by (auto simp: ipc_send_badged_def cur Let_def)
    next
      case (met u thu Q1)
      have w: "wakeable ((?f thu)\<lparr>handshake := serve (handshake thu)\<rparr>) (cur_on ?k u) (out_on ?k u) (idle_on ?k u) (holders ?k u)"
        using wakeable_served [OF met(4), where ep = ep] table_okI [OF thread_okD(8) [OF met(4)]] met(8) by simp
      have k: "c < length (percpu ?k)" "current (percpu ?k ! c) \<noteq> NO_TID" "live_replies (?f thu) = live_replies thu" using c by simp_all
      obtain k1 Q' where d: "deliver ?k u ?f = Some k1" "ok_but {t} {} (wake k1 c u) Q'" "same_cores ?k (wake k1 c u)"
        "get_thread (wake k1 c u) t = get_thread ?k t" "holders (wake k1 c u) = holders ?k" "places Q' t = places Q1 t"
        using ok_serve_other [where f = ?f, OF met(2,3,5,6) w k(3,1,2)] .
      have "kernel_ok (wake k1 c u) Q'"
        by (rule ok_close_at [OF d(2) subset_refl d(3)]) (use d th v met(7) in simp_all)
      then show ?thesis using Some sent met(1) ptr d(1) by (auto simp: ipc_send_badged_def cur Let_def)
    qed
  qed
qed

lemma ok_ipc_send_cap:
  assumes ok: "kernel_ok k Q" and call: "calls k c" and cap: "\<forall>u. object cap \<noteq> ObReply u"
  shows "\<exists>b k' Q'. ipc_send_cap k c ep dat cap badge = Some (b, k') \<and> kernel_ok k' Q'"
proof -
  define t where "t = current (percpu k ! c)"
  obtain th where th: "get_thread k t = Some th" "thread_ok t th {} {c} {} {} {}"
    and v: "cur_on k t = {c}" "out_on k t = {}" "idle_on k t = {}" "places Q t = {}" "holders k t = {}"
      "state (handshake th) = Running" "\<not> resuming th" "replying th = None" "\<not> ipc_aborted (handshake th)"
      "outgoing_cap th = None"
    using calling_thread [OF ok call t_def] .
  have c: "c < length (percpu k)" "current (percpu k ! c) \<noteq> NO_TID" using call by (auto simp: calls_def)
  have cur: "current_thread_id k c = t" by (simp add: current_thread_id_def cpu_of_def t_def)
  have ptr: "thread_control_block_ptr k t = Some t" using th(1) by (simp add: thread_control_block_ptr_def)
  show ?thesis
  proof (cases "rendezvous_of k ep")
    case None
    then show ?thesis using ok_set_ipc_aborted [OF ok call] ptr by (auto simp: ipc_send_cap_def cur t_def)
  next
    case (Some r)
    obtain v' h r' where sent: "send (links k) r t = (v', h, r')" by (cases "send (links k) r t") auto
    let ?k = "put_rendezvous k ep h r'"
    from ok call t_def v(4) Some sent show ?thesis
    proof (cases rule: send_cases)
      case refused
      then have "kernel_ok (set_ipc_refused ?k t) Q" using ok_set_ipc_refused [of ?k Q c] by (simp add: t_def)
      then show ?thesis using Some sent refused ptr by (auto simp: ipc_send_cap_def cur Let_def)
    next
      case blocked
      let ?f = "\<lambda>t :: Thread. t\<lparr>mailbox := [dat, 0, 0, badge, 0], outgoing_cap := Some cap\<rparr>"
      have "\<exists>k'. park_current ?k t (WaitRendezvous ep RoleSender) ?f = Some k' \<and> ok_but {} {} k' (Q(SendersOf ep := Q (SendersOf ep) @ [t]))"
        by (rule ok_park [OF blocked(2)])
           (use th v cap table_okI [OF thread_okD(8) [OF th(2)], of "?f th"] in
             \<open>auto simp: places_push sends_ok_def held_ok_def awaits_reply_def is_delivered_def\<close>)
      then show ?thesis using Some sent blocked(1) ptr by (auto simp: ipc_send_cap_def cur Let_def)
    next
      case (met u thu Q1)
      have c1: "\<forall>v. object cap = ObReply v \<longrightarrow> v \<in> {u, t} \<and> rights cap = RIGHTS_WRITE" using cap by simp
      note r = receiver_thread [OF met(4)]
      obtain s k2 cs where i: "insert_into ?k u cap = Some (s, k2)" "ok_but {u, t} {} k2 Q1" "same_cores ?k k2"
        "get_thread k2 = (get_thread ?k)(u \<mapsto> thu\<lparr>capability_table := cs\<rparr>)" "table_ok (thu\<lparr>capability_table := cs\<rparr>)"
        "\<forall>v. object cap \<noteq> ObReply v \<longrightarrow> holders k2 v = holders ?k v" "\<forall>v. \<exists>x. holders k2 v \<subseteq> insert x (holders ?k v)"
        using ok_insert_into [OF met(2) insertI1 met(3) thread_okD(8) [OF met(4)] r(6) c1] .
      let ?f = "\<lambda>t :: Thread. t\<lparr>mailbox := [dat, s, 0, badge, 0], cap_delivered := True\<rparr>"
      let ?th = "thu\<lparr>capability_table := cs\<rparr>"
      note sc = same_coresD [OF i(3)]
      have H: "holders k2 = holders ?k" using i(6) cap by (simp add: fun_eq_iff)
      have "table_ok ((?f ?th)\<lparr>handshake := serve (handshake ?th)\<rparr>)" by (rule table_okI [OF i(5)]) simp_all
      then have w: "wakeable ((?f ?th)\<lparr>handshake := serve (handshake ?th)\<rparr>) (cur_on k2 u) (out_on k2 u) (idle_on k2 u) (holders k2 u)"
        using wakeable_served [OF met(4), where ep = ep] met(8) sc H by simp
      have k2: "c < length (percpu k2)" "current (percpu k2 ! c) \<noteq> NO_TID" "live_replies (?f ?th) = live_replies ?th"
        "get_thread k2 u = Some ?th" using c sc i(4) by simp_all
      obtain k1 Q' where d: "deliver k2 u ?f = Some k1" "ok_but {t} {} (wake k1 c u) Q'" "same_cores k2 (wake k1 c u)"
        "get_thread (wake k1 c u) t = get_thread k2 t" "holders (wake k1 c u) = holders k2" "places Q' t = places Q1 t"
        using ok_serve_other [where f = ?f, OF i(2) k2(4) met(5,6) w k2(3,1,2)] .
      have "kernel_ok (wake k1 c u) Q'"
        by (rule ok_close_at [OF d(2) subset_refl d(3)]) (use d th v met(5,7) i(4) H sc in simp_all)
      then show ?thesis using Some sent met(1) ptr i(1) d(1) by (auto simp: ipc_send_cap_def cur Let_def)
    qed
  qed
qed


section \<open>Call\<close>

lemma ok_ipc_call_badged:
  assumes ok: "kernel_ok k Q" and call: "calls k c"
  shows "\<exists>b k' Q'. ipc_call_badged k c ep msg badge = Some (b, k') \<and> kernel_ok k' Q'"
proof -
  define t where "t = current (percpu k ! c)"
  obtain th where th: "get_thread k t = Some th" "thread_ok t th {} {c} {} {} {}"
    and v: "cur_on k t = {c}" "out_on k t = {}" "idle_on k t = {}" "places Q t = {}" "holders k t = {}"
      "state (handshake th) = Running" "\<not> resuming th" "replying th = None" "\<not> ipc_aborted (handshake th)"
      "outgoing_cap th = None"
    using calling_thread [OF ok call t_def] .
  have c: "c < length (percpu k)" "current (percpu k ! c) \<noteq> NO_TID" using call by (auto simp: calls_def)
  have cur: "current_thread_id k c = t" by (simp add: current_thread_id_def cpu_of_def t_def)
  have ptr: "thread_control_block_ptr k t = Some t" using th(1) by (simp add: thread_control_block_ptr_def)
  let ?w = "WaitRendezvous ep RoleReply"
  show ?thesis
  proof (cases "rendezvous_of k ep")
    case None
    then show ?thesis using ok_set_ipc_aborted [OF ok call] ptr by (auto simp: ipc_call_badged_def cur t_def)
  next
    case (Some r)
    obtain v' h r' where sent: "send (links k) r t = (v', h, r')" by (cases "send (links k) r t") auto
    let ?k = "put_rendezvous k ep h r'"
    from ok call t_def v(4) Some sent show ?thesis
    proof (cases rule: send_cases)
      case refused
      then have "kernel_ok (set_ipc_refused ?k t) Q" using ok_set_ipc_refused [of ?k Q c] by (simp add: t_def)
      then show ?thesis using Some sent refused ptr by (auto simp: ipc_call_badged_def cur Let_def)
    next
      case blocked
      let ?f = "\<lambda>s :: Thread. s\<lparr>mailbox := [msg ! 0, msg ! 1, 0, badge, 0], outgoing_cap := Some (reply_cap t)\<rparr>"
      have "\<exists>k'. park_current ?k t ?w ?f = Some k' \<and> ok_but {} {} k' (Q(SendersOf ep := Q (SendersOf ep) @ [t]))"
        by (rule ok_park [OF blocked(2)])
           (use th v table_okI [OF thread_okD(8) [OF th(2)], of "?f th"] in
             \<open>auto simp: places_push sends_ok_def held_ok_def awaits_reply_def is_delivered_def\<close>)
      then show ?thesis using Some sent blocked(1) ptr by (auto simp: ipc_call_badged_def cur Let_def)
    next
      case (met u thu Q1)
      have c1: "\<forall>v. object (reply_cap t) = ObReply v \<longrightarrow> v \<in> {u, t} \<and> rights (reply_cap t) = RIGHTS_WRITE"
        by (simp add: reply_cap_def)
      note r = receiver_thread [OF met(4)]
      obtain s k2 cs where i: "insert_into ?k u (reply_cap t) = Some (s, k2)" "ok_but {u, t} {} k2 Q1" "same_cores ?k k2"
        "get_thread k2 = (get_thread ?k)(u \<mapsto> thu\<lparr>capability_table := cs\<rparr>)" "table_ok (thu\<lparr>capability_table := cs\<rparr>)"
        "\<forall>v. object (reply_cap t) \<noteq> ObReply v \<longrightarrow> holders k2 v = holders ?k v" "\<forall>v. \<exists>x. holders k2 v \<subseteq> insert x (holders ?k v)"
        using ok_insert_into [OF met(2) insertI1 met(3) thread_okD(8) [OF met(4)] r(6) c1] .
      let ?f = "\<lambda>t :: Thread. t\<lparr>mailbox := [msg ! 0, s, msg ! 1, badge, reply_tag s], cap_delivered := True\<rparr>"
      let ?th = "thu\<lparr>capability_table := cs\<rparr>"
      note sc = same_coresD [OF i(3)]
      have H: "holders k2 u = {}" using i(6) met(5,8) by (simp add: reply_cap_def)
      obtain a b where x: "holders k2 t \<subseteq> {(a, b)}" using i(7) v(5) by (metis put_rendezvous_views(2) surj_pair)
      have "table_ok ((?f ?th)\<lparr>handshake := serve (handshake ?th)\<rparr>)" by (rule table_okI [OF i(5)]) simp_all
      then have w: "wakeable ((?f ?th)\<lparr>handshake := serve (handshake ?th)\<rparr>) (cur_on k2 u) (out_on k2 u) (idle_on k2 u) (holders k2 u)"
        using wakeable_served [OF met(4), where ep = ep] sc H by simp
      have k2: "c < length (percpu k2)" "current (percpu k2 ! c) \<noteq> NO_TID" "live_replies (?f ?th) = live_replies ?th"
        "get_thread k2 u = Some ?th" using c sc i(4) by simp_all
      obtain k1 Q' where d: "deliver k2 u ?f = Some k1" "ok_but {t} {} (wake k1 c u) Q'" "same_cores k2 (wake k1 c u)"
        "get_thread (wake k1 c u) t = get_thread k2 t" "holders (wake k1 c u) = holders k2" "places Q' t = places Q1 t"
        using ok_serve_other [where f = ?f, OF i(2) k2(4) met(5,6) w k2(3,1,2)] .
      let ?p = "th\<lparr>handshake := (handshake th)\<lparr>state := Blocked, wait_on := Some ?w, ipc_served := False\<rparr>, resuming := True\<rparr>"
      have P: "places Q' t = {}" "get_thread (wake k1 c u) t = Some th" "holders (wake k1 c u) t \<subseteq> {(a, b)}"
        using d(4,5,6) met(5,7) i(4) th(1) x by simp_all
      have p: "sends_ok t ?p {}" "held_ok ?p {} (holders (wake k1 c u) t)"
        using v(9,10) P(3) by (auto simp: sends_ok_def held_ok_def awaits_reply_def is_delivered_def)
      have "\<exists>k'. park_current (wake k1 c u) t ?w (\<lambda>t. t) = Some k' \<and> ok_but {} {} k' Q'"
        by (rule ok_park [OF d(2) P(2) th(2) v(6,9)])
           (use P(1) p v(1-3,8) sc(7-9) same_coresD(7-9) [OF d(3)] thread_okD(8) [OF th(2)] in simp_all)
      then show ?thesis using Some sent met(1) ptr i(1) d(1) by (auto simp: ipc_call_badged_def cur Let_def)
    qed
  qed
qed


section \<open>Receive\<close>

lemma ok_take_bound_signal:
  assumes ok: "kernel_ok k Q" and took: "take_bound_signal k t = (w, k')"
  shows "kernel_ok k' Q" "same_cores k k'" "get_thread k' = get_thread k" "rendezvous_of k' = rendezvous_of k" "links k' = links k"
proof -
  have "k' = k \<or> (\<exists>n page. notification_of k n = Some page
      \<and> k' = put_notification k n (links k) ((nt_state page)\<lparr>note_word := 0\<rparr>))"
    using took by (auto simp: take_bound_signal_def poll_def split: option.splits)
  then show "kernel_ok k' Q" "same_cores k k'" "get_thread k' = get_thread k" "rendezvous_of k' = rendezvous_of k" "links k' = links k"
    using ok ok_put_notification_idle [OF ok] by (auto simp: rendezvous_of_def fun_eq_iff)
qed

text \<open>The sender a receive takes off the queue, at the moment it is on no queue.\<close>

lemma ok_collect_sender:
  assumes ok: "ok_but {u, t} {} k Q" and u: "get_thread k u = Some thu" "u \<noteq> t" "places Q u = {}" "holders k u = {}"
    and tok: "thread_ok u thu {SendersOf ep} (cur_on k u) (out_on k u) (idle_on k u) (holders k u)"
    and c: "c < length (percpu k)" "current (percpu k ! c) \<noteq> NO_TID"
  shows "\<exists>m k' Q'. collect_sender k c u = Some (m, k') \<and> ok_but {t} {} k' Q' \<and> same_cores k k'
    \<and> get_thread k' t = get_thread k t \<and> places Q' t = places Q t \<and> holders k' = holders k"
  using tok
proof (cases rule: sender_thread)
  case dead
  let ?f = "\<lambda>t :: Thread. t\<lparr>handshake := (handshake t)\<lparr>wait_on := None\<rparr>\<rparr>"
  let ?k = "upd_thread k u ?f"
  note wf = ok_butD(6) [OF ok]
  have ok1: "ok_but {u, t} {} ?k Q" by (rule ok_upd_thread [OF ok]) simp_all
  have hold: "holders ?k = holders k" by (rule holders_upd_thread [OF wf]) simp
  have "caps_ok (?f thu)" by (rule caps_ok_cong [OF thread_okD(5) [OF tok]]) simp_all
  then have "thread_ok u (?f thu) {} (cur_on k u) (out_on k u) (idle_on k u) {}"
    using thread_okD(1-3,7) [OF tok] dead
    by (auto simp: thread_ok_def stands_ok_def wait_ok_def place_ok_def sends_ok_def held_ok_def resume_ok_def)
  then have "good ?k Q u" using u wf hold by (simp add: good_def)
  then have "ok_but {t} {} ?k Q" by (intro ok_but_close [OF ok1]) auto
  moreover have "collect_sender k c u = Some (mailbox thu, ?k)"
    using u(1) dead by (simp add: collect_sender_def carries_reply_def)
  ultimately show ?thesis using hold u(2) wf by auto
next
  case sender
  let ?f = "\<lambda>t :: Thread. t\<lparr>outgoing_cap := None\<rparr>"
  let ?g = "\<lambda>t :: Thread. t\<lparr>outgoing_cap := None, handshake := serve (handshake t)\<rparr>"
  have "caps_ok ((?f thu)\<lparr>handshake := serve (handshake thu)\<rparr>)"
    by (rule caps_ok_cong [OF thread_okD(5) [OF tok]]) (simp_all add: serve_def)
  then have w: "wakeable ((?f thu)\<lparr>handshake := serve (handshake thu)\<rparr>) (cur_on k u) (out_on k u) (idle_on k u) (holders k u)"
    unfolding u(4) by (intro wakeable_delivered [OF tok sender(1)]) simp_all
  have live: "live_replies (?f thu) = live_replies thu" by simp
  obtain k1 Q' where d: "deliver k u ?f = Some k1" "ok_but {t} {} (wake k1 c u) Q'" "same_cores k (wake k1 c u)"
    "get_thread (wake k1 c u) t = get_thread k t" "holders (wake k1 c u) = holders k" "places Q' t = places Q t"
    using ok_serve_other [where f = ?f, OF ok u(1-3) w live c] .
  have "k1 = upd_thread k u (\<lambda>_. ?g thu)" using d(1) u(1) by (simp add: deliver_def unwrap_thread_def)
  also have "\<dots> = upd_thread k u ?g" using upd_thread_const [OF u(1), of ?g] .
  finally have k1: "k1 = upd_thread k u ?g" .
  have "\<not> carries_reply (outgoing_cap thu)" using sender(4) by (auto simp: carries_reply_def split: option.splits Object.splits)
  then have "collect_sender k c u = Some (mailbox thu, wake k1 c u)"
    using u(1) sender(1) by (simp add: collect_sender_def k1)
  then show ?thesis using d by auto
next
  case caller
  have "thread_ok u thu {} (cur_on k u) (out_on k u) (idle_on k u) {}"
    using tok caller by (auto simp: thread_ok_def place_ok_def waits_ok_def sends_ok_def held_ok_def awaits_reply_def)
  then have "good k Q u" using u by (simp add: good_def)
  then have "ok_but {t} {} k Q" by (intro ok_but_close [OF ok]) auto
  moreover have "collect_sender k c u = Some (mailbox thu, k)"
    using u(1) caller by (simp add: collect_sender_def carries_reply_def reply_cap_def)
  ultimately show ?thesis by auto
qed

lemma ok_ipc_receive:
  assumes ok: "kernel_ok k Q" and call: "calls k c"
  shows "\<exists>m k' Q'. ipc_receive k c ep = Some (m, k') \<and> kernel_ok k' Q'"
proof (cases "rendezvous_of k ep")
  define t where "t = current (percpu k ! c)"
  have "get_thread k t \<noteq> None" using call by (auto simp: calls_def t_def split: option.splits)
  then have ptr: "thread_control_block_ptr k t = Some t" by (auto simp: thread_control_block_ptr_def)
  have cur: "current_thread_id k c = t" by (simp add: current_thread_id_def cpu_of_def t_def)
  {
    case None
    then show ?thesis using ok_set_ipc_aborted [OF ok call] ptr by (auto simp: ipc_receive_def cur t_def)
  next
    case (Some r)
    obtain w k0 where b: "take_bound_signal k t = (w, k0)" by (cases "take_bound_signal k t")
    note tb = ok_take_bound_signal [OF ok b]
    have call0: "calls k0 c" using calls_cong [OF tb(2)] tb(3) call by simp
    have t0: "t = current (percpu k0 ! c)" using same_coresD(4) [OF tb(2)] by (simp add: t_def)
    have r0: "rendezvous_of k0 ep = Some r" using tb(4) Some by simp
    show ?thesis
    proof (cases w)
      case (Some w')
      then show ?thesis using b tb(1) ptr \<open>rendezvous_of k ep = Some r\<close> by (auto simp: ipc_receive_def cur)
    next
      case None
      obtain th where th: "get_thread k0 t = Some th" "thread_ok t th {} {c} {} {} {}"
        and v: "cur_on k0 t = {c}" "out_on k0 t = {}" "idle_on k0 t = {}" "places Q t = {}" "holders k0 t = {}"
          "state (handshake th) = Running" "\<not> resuming th" "replying th = None" "\<not> ipc_aborted (handshake th)"
          "outgoing_cap th = None"
        using calling_thread [OF tb(1) call0 t0] .
      have c: "c < length (percpu k0)" "current (percpu k0 ! c) \<noteq> NO_TID" using call0 by (auto simp: calls_def)
      obtain v' h r' where got: "receive (links k0) r t = (v', h, r')" by (cases "receive (links k0) r t") auto
      let ?k = "put_rendezvous k0 ep h r'"
      note eq = Some ptr b None got
      from tb(1) v(4) r0 got show ?thesis
      proof (cases rule: receive_cases)
        case signal
        then show ?thesis using eq by (auto simp: ipc_receive_def cur)
      next
        case blocked
        have "\<exists>k'. park_current ?k t (WaitRendezvous ep RoleReceiver) (\<lambda>t. t) = Some k' \<and> ok_but {} {} k' (Q(ReceiversOf ep := Q (ReceiversOf ep) @ [t]))"
          by (rule ok_park [OF blocked(2)])
             (use th v thread_okD(8) [OF th(2)] in \<open>auto simp: places_push sends_ok_def held_ok_def awaits_reply_def\<close>)
        then show ?thesis using eq blocked(1) by (auto simp: ipc_receive_def cur Let_def)
      next
        case (met u thu Q1)
        have k: "c < length (percpu ?k)" "current (percpu ?k ! c) \<noteq> NO_TID" using c by simp_all
        obtain m k' Q' where m: "collect_sender ?k c u = Some (m, k')" "ok_but {t} {} k' Q'" "same_cores ?k k'"
          "get_thread k' t = get_thread ?k t" "places Q' t = places Q1 t" "holders k' = holders ?k"
          using ok_collect_sender [OF met(2,3,5,6,8,4) k] by blast
        have "kernel_ok k' Q'"
          by (rule ok_close_at [OF m(2) subset_refl m(3)]) (use m th v met(7) in simp_all)
        then show ?thesis using eq met(1) m(1) by (auto simp: ipc_receive_def cur Let_def)
      qed
    qed
  }
qed

end
