(* ===== verification/Kernel_Reply_Inv.thy ===== *)
theory Kernel_Reply_Inv
  imports Kernel_Ipc_Inv
begin

text \<open>Receiving a capability, answering a call, and giving a capability up.\<close>


section \<open>Receiving a capability\<close>

lemma wake_not_blocked:
  "get_thread k u = Some th \<Longrightarrow> state (handshake th) \<noteq> Blocked
    \<Longrightarrow> wake k c u = upd_thread k u (\<lambda>t. t\<lparr>handshake := handshake th\<rparr>)"
  by (simp add: wake_def try_wake_def)

text \<open>The capability that came with the message, if any, is filed in the receiver's table.\<close>

lemma ok_file_cap:
  assumes ok: "ok_but A R k Q" and t: "t \<in> A" and th: "get_thread k t = Some th" "table_ok th" "replying th = None"
    and cap: "\<forall>cp v. cap = Some cp \<and> object cp = ObReply v \<longrightarrow> v \<in> A \<and> rights cp = RIGHTS_WRITE"
  obtains s k' cs where "(case cap of Some cap \<Rightarrow> insert_into k t cap | None \<Rightarrow> Some (NO_CAP, k)) = Some (s, k')"
    and "ok_but A R k' Q" "same_cores k k'"
      "get_thread k' = (get_thread k)(t \<mapsto> th\<lparr>capability_table := cs\<rparr>)" "table_ok (th\<lparr>capability_table := cs\<rparr>)"
      "\<forall>u. map_option object cap \<noteq> Some (ObReply u) \<longrightarrow> holders k' u = holders k u"
      "\<forall>u. \<exists>x. holders k' u \<subseteq> insert x (holders k u)"
proof (cases cap)
  case None
  have "get_thread k = (get_thread k)(t \<mapsto> th\<lparr>capability_table := capability_table th\<rparr>)"
    using th(1) by (simp add: fun_upd_idem)
  then show ?thesis using that [of NO_CAP k "capability_table th"] None ok th by auto
next
  case (Some cp)
  then have cp: "\<forall>v. object cp = ObReply v \<longrightarrow> v \<in> A \<and> rights cp = RIGHTS_WRITE" using cap by blast
  obtain s k' cs where i: "insert_into k t cp = Some (s, k')" "ok_but A R k' Q" "same_cores k k'"
      "get_thread k' = (get_thread k)(t \<mapsto> th\<lparr>capability_table := cs\<rparr>)" "table_ok (th\<lparr>capability_table := cs\<rparr>)"
      "\<forall>u. object cp \<noteq> ObReply u \<longrightarrow> holders k' u = holders k u" "\<forall>u. \<exists>x. holders k' u \<subseteq> insert x (holders k u)"
    using ok_insert_into [OF ok t th cp] .
  then show ?thesis using that [of s k' cs] Some by simp
qed

lemma ok_collect_sender_cap:
  assumes ok: "ok_but {u, t} {} k Q" and u: "get_thread k u = Some thu" "u \<noteq> t" "places Q u = {}" "holders k u = {}"
    and tok: "thread_ok u thu {SendersOf ep} (cur_on k u) (out_on k u) (idle_on k u) (holders k u)"
    and t: "get_thread k t = Some th" "table_ok th" "replying th = None"
    and c: "c < length (percpu k)" "current (percpu k ! c) \<noteq> NO_TID"
  shows "\<exists>m k' Q' cs. collect_sender_cap k c t u = Some (m, k') \<and> ok_but {t} {} k' Q' \<and> same_cores k k'
    \<and> get_thread k' t = Some (th\<lparr>capability_table := cs\<rparr>) \<and> table_ok (th\<lparr>capability_table := cs\<rparr>)
    \<and> places Q' t = places Q t \<and> holders k' t = holders k t"
proof -
  let ?k = "upd_thread k u (\<lambda>t. t\<lparr>outgoing_cap := None\<rparr>)" and ?thu = "thu\<lparr>outgoing_cap := None\<rparr>"
  note wf = ok_butD(6) [OF ok]
  have ok1: "ok_but {u, t} {} ?k Q" by (rule ok_upd_thread [OF ok]) simp_all
  have hold: "holders ?k = holders k" by (rule holders_upd_thread [OF wf]) simp
  have get: "get_thread ?k u = Some ?thu" "get_thread ?k t = Some th" using u(1,2) t(1) wf by simp_all
  have capu: "\<forall>cp v. outgoing_cap thu = Some cp \<and> object cp = ObReply v \<longrightarrow> v = u \<and> rights cp = RIGHTS_WRITE"
    using tok by (cases rule: sender_thread) (auto simp: reply_cap_def)
  then have cap': "\<forall>cp v. outgoing_cap thu = Some cp \<and> object cp = ObReply v \<longrightarrow> v \<in> {u, t} \<and> rights cp = RIGHTS_WRITE" by blast
  obtain s k2 cs where i: "(case outgoing_cap thu of Some cap \<Rightarrow> insert_into ?k t cap | None \<Rightarrow> Some (NO_CAP, ?k)) = Some (s, k2)"
      "ok_but {u, t} {} k2 Q" "same_cores ?k k2"
      "get_thread k2 = (get_thread ?k)(t \<mapsto> th\<lparr>capability_table := cs\<rparr>)" "table_ok (th\<lparr>capability_table := cs\<rparr>)"
      "\<forall>v. map_option object (outgoing_cap thu) \<noteq> Some (ObReply v) \<longrightarrow> holders k2 v = holders ?k v"
      "\<forall>v. \<exists>x. holders k2 v \<subseteq> insert x (holders ?k v)"
    using ok_file_cap [OF ok1 _ get(2) t(2,3) cap'] by blast
  have same: "same_cores k k2" by (rule same_cores_trans [OF same_cores_upd_thread i(3)])
  note sc = same_coresD [OF same]
  have g2: "get_thread k2 u = Some ?thu" "get_thread k2 t = Some (th\<lparr>capability_table := cs\<rparr>)"
    using i(4) u(2) get by simp_all
  have Ht: "holders k2 t = holders k t" using i(6) capu u(2) hold by (cases "outgoing_cap thu") auto
  have c2: "c < length (percpu k2)" "current (percpu k2 ! c) \<noteq> NO_TID" using c sc by simp_all
  have eq: "collect_sender_cap k c t u =
      Option.bind (if carries_reply (outgoing_cap thu) then Some k2
         else Option.bind (deliver k2 u (\<lambda>t. t)) (\<lambda>k. Some (wake k c u)))
       (\<lambda>k. Some ([mailbox thu ! 0, s, mailbox thu ! 1, mailbox thu ! 3, if carries_reply (outgoing_cap thu) then reply_tag s else 0], k))"
    using u(1) i(1) by (simp add: collect_sender_cap_def Let_def)
  have "\<exists>k' Q'. (if carries_reply (outgoing_cap thu) then Some k2
         else Option.bind (deliver k2 u (\<lambda>t. t)) (\<lambda>k. Some (wake k c u))) = Some k'
      \<and> ok_but {t} {} k' Q' \<and> same_cores k2 k' \<and> get_thread k' t = get_thread k2 t \<and> places Q' t = places Q t \<and> holders k' = holders k2"
    using tok
  proof (cases rule: sender_thread)
    case dead
    let ?d = "thu\<lparr>outgoing_cap := None, handshake := serve (handshake thu)\<rparr>"
    let ?k3 = "upd_thread k2 u (\<lambda>_. ?d)"
    note wf2 = ok_butD(6) [OF i(2)]
    have no: "\<not> carries_reply (outgoing_cap thu)" using dead by (simp add: carries_reply_def)
    have d: "deliver k2 u (\<lambda>t. t) = Some ?k3" using g2 by (simp add: deliver_def unwrap_thread_def)
    have g3: "get_thread ?k3 u = Some ?d" using g2 wf2 by simp
    have H3: "holders ?k3 = holders k2" by (rule holders_upd_thread [OF wf2]) (use g2 in simp)
    have ok3: "ok_but {u, t} {} ?k3 Q" by (rule ok_upd_thread [OF i(2)]) (use g2 in simp_all)
    let ?k4 = "upd_thread ?k3 u (\<lambda>t. t\<lparr>handshake := handshake ?d\<rparr>)"
    note wf3 = ok_butD(6) [OF ok3]
    have w: "wake ?k3 c u = ?k4" by (rule wake_not_blocked [OF g3]) (use dead in simp)
    have ok4: "ok_but {u, t} {} ?k4 Q" by (rule ok_upd_thread [OF ok3]) simp_all
    have H4: "holders ?k4 = holders k2" using holders_upd_thread [OF wf3, of u "\<lambda>t. t\<lparr>handshake := handshake ?d\<rparr>"] H3 by simp
    have g4: "get_thread ?k4 u = Some ?d" "get_thread ?k4 t = get_thread k2 t" using g3 wf3 wf2 u(2) by simp_all
    have "caps_ok ?d" by (rule caps_ok_cong [OF thread_okD(5) [OF tok]]) (simp_all add: serve_def)
    then have "thread_ok u ?d {} (cur_on k u) (out_on k u) (idle_on k u) {}"
      using thread_okD(1-3,7) [OF tok] dead
      by (auto simp: thread_ok_def stands_ok_def wait_ok_def place_ok_def sends_ok_def held_ok_def resume_ok_def serve_def)
    moreover have "holders k2 u = {}" using i(6) dead hold u(4) by simp
    ultimately have "good ?k4 Q u" using g4 u(3) H4 sc by (simp add: good_def del: get_upd_thread)
    then have "ok_but {t} {} ?k4 Q" by (intro ok_but_close [OF ok4]) auto
    then show ?thesis
      using no d w g4(2) H4 same_cores_trans [OF same_cores_upd_thread same_cores_upd_thread] by auto
  next
    case sender
    have no: "\<not> carries_reply (outgoing_cap thu)" using sender(4) by (auto simp: carries_reply_def split: option.splits Object.splits)
    have "map_option object (outgoing_cap thu) \<noteq> Some (ObReply v)" for v using sender(4) by auto
    then have H2: "holders k2 u = {}" using i(6) hold u(4) by simp
    have "caps_ok (?thu\<lparr>handshake := serve (handshake thu)\<rparr>)"
      by (rule caps_ok_cong [OF thread_okD(5) [OF tok]]) (simp_all add: serve_def)
    then have w: "wakeable (?thu\<lparr>handshake := serve (handshake ?thu)\<rparr>) (cur_on k2 u) (out_on k2 u) (idle_on k2 u) (holders k2 u)"
      using wakeable_delivered [OF tok sender(1), of "?thu\<lparr>handshake := serve (handshake thu)\<rparr>"] H2 sc by simp
    obtain k1 Q' where d: "deliver k2 u (\<lambda>t. t) = Some k1" "ok_but {t} {} (wake k1 c u) Q'" "same_cores k2 (wake k1 c u)"
      "get_thread (wake k1 c u) t = get_thread k2 t" "holders (wake k1 c u) = holders k2" "places Q' t = places Q t"
      using ok_serve_other [where f = "\<lambda>t. t", OF i(2) g2(1) u(2,3) w refl c2] .
    then show ?thesis using no by auto
  next
    case caller
    have yes: "carries_reply (outgoing_cap thu)" using caller by (simp add: carries_reply_def reply_cap_def)
    obtain a b where H2: "holders k2 u \<subseteq> {(a, b)}" using i(7) hold u(4) by (metis surj_pair)
    have "caps_ok ?thu" by (rule caps_ok_cong [OF thread_okD(5) [OF tok]]) simp_all
    then have "thread_ok u ?thu {} (cur_on k u) (out_on k u) (idle_on k u) (holders k2 u)"
      using thread_okD(1-3,7) [OF tok] caller H2
      by (auto simp: thread_ok_def stands_ok_def place_ok_def waits_ok_def sends_ok_def held_ok_def awaits_reply_def resume_ok_def)
    then have "good k2 Q u" using g2 u(3) sc by (simp add: good_def)
    then have "ok_but {t} {} k2 Q" by (intro ok_but_close [OF i(2)]) auto
    then show ?thesis using yes by auto
  qed
  then obtain k' Q' where f: "(if carries_reply (outgoing_cap thu) then Some k2
         else Option.bind (deliver k2 u (\<lambda>t. t)) (\<lambda>k. Some (wake k c u))) = Some k'"
      "ok_but {t} {} k' Q'" "same_cores k2 k'" "get_thread k' t = get_thread k2 t" "places Q' t = places Q t" "holders k' = holders k2"
    by blast
  show ?thesis using eq f g2(2) i(5) Ht same_cores_trans [OF same f(3)] by auto
qed


lemma thread_ok_recap:
  assumes tok: "thread_ok t th P C S I H" and same: "handshake th' = handshake th" "killed th' = killed th" "fault_ep th' = fault_ep th"
      "outgoing_cap th' = outgoing_cap th" "resuming th' = resuming th"
    and rep: "replying th' = replying th \<or> replying th' = None" and caps: "caps_ok th'"
  shows "thread_ok t th' P C S I H"
proof -
  have a: "awaits_reply th' = awaits_reply th" by (simp add: awaits_reply_def same)
  have "stands_ok th' C S I = stands_ok th C S I" by (simp add: stands_ok_def same)
  moreover have "place_ok th' P C S I = place_ok th P C S I" unfolding place_ok_def same ..
  moreover have "sends_ok t th' P = sends_ok t th P" unfolding sends_ok_def same a ..
  moreover have "held_ok th' P H = held_ok th P H" unfolding held_ok_def same a ..
  moreover have "resume_ok th'" using thread_okD(7) [OF tok] rep by (auto simp: resume_ok_def same)
  ultimately show ?thesis using tok caps by (simp add: thread_ok_def same)
qed

lemma ok_ipc_receive_cap:
  assumes ok: "kernel_ok k Q" and call: "calls k c"
  shows "\<exists>m k' Q'. ipc_receive_cap k c ep = Some (m, k') \<and> kernel_ok k' Q'"
proof (cases "rendezvous_of k ep")
  define t where "t = current (percpu k ! c)"
  have "get_thread k t \<noteq> None" using call by (auto simp: calls_def t_def split: option.splits)
  then have ptr: "thread_control_block_ptr k t = Some t" by (auto simp: thread_control_block_ptr_def)
  have cur: "current_thread_id k c = t" by (simp add: current_thread_id_def cpu_of_def t_def)
  {
    case None
    then show ?thesis using ok_set_ipc_aborted [OF ok call] ptr by (auto simp: ipc_receive_cap_def cur t_def)
  next
    case (Some r)
    obtain w k0 where b: "take_bound_signal k t = (w, k0)" by (cases "take_bound_signal k t")
    note tb = ok_take_bound_signal [OF ok b]
    have call0: "calls k0 c" using calls_cong [OF tb(2)] tb(3) call by simp
    have t0: "t = current (percpu k0 ! c)" using same_coresD(4) [OF tb(2)] by (simp add: t_def)
    have r0: "rendezvous_of k0 ep = Some r" using tb(4) Some by simp
    show ?thesis
    proof (cases w)
      case (Some w')
      then show ?thesis using b tb(1) ptr \<open>rendezvous_of k ep = Some r\<close> by (auto simp: ipc_receive_cap_def cur)
    next
      case None
      obtain th where th: "get_thread k0 t = Some th" "thread_ok t th {} {c} {} {} {}"
        and v: "cur_on k0 t = {c}" "out_on k0 t = {}" "idle_on k0 t = {}" "places Q t = {}" "holders k0 t = {}"
          "state (handshake th) = Running" "\<not> resuming th" "replying th = None" "\<not> ipc_aborted (handshake th)"
          "outgoing_cap th = None"
        using calling_thread [OF tb(1) call0 t0] .
      have c: "c < length (percpu k0)" "current (percpu k0 ! c) \<noteq> NO_TID" using call0 by (auto simp: calls_def)
      obtain v' h r' where got: "receive (links k0) r t = (v', h, r')" by (cases "receive (links k0) r t") auto
      let ?k = "put_rendezvous k0 ep h r'"
      note eq = Some ptr b None got
      from tb(1) v(4) r0 got show ?thesis
      proof (cases rule: receive_cases)
        case signal
        then show ?thesis using eq by (auto simp: ipc_receive_cap_def cur)
      next
        case blocked
        let ?f = "\<lambda>t :: Thread. t\<lparr>cap_delivered := False\<rparr>"
        have "\<exists>k'. park_current ?k t (WaitRendezvous ep RoleReceiver) ?f = Some k' \<and> ok_but {} {} k' (Q(ReceiversOf ep := Q (ReceiversOf ep) @ [t]))"
          by (rule ok_park [OF blocked(2)])
             (use th v table_ok_cong [of "?f th" th] thread_okD(8) [OF th(2)] in
               \<open>auto simp: places_push sends_ok_def held_ok_def awaits_reply_def\<close>)
        then show ?thesis using eq blocked(1) by (auto simp: ipc_receive_cap_def cur Let_def)
      next
        case (met u thu Q1)
        have k: "c < length (percpu ?k)" "current (percpu ?k ! c) \<noteq> NO_TID" "get_thread ?k t = Some th" using c th(1) by simp_all
        obtain m k' Q' cs where m: "collect_sender_cap ?k c t u = Some (m, k')" "ok_but {t} {} k' Q'" "same_cores ?k k'"
          "get_thread k' t = Some (th\<lparr>capability_table := cs\<rparr>)" "table_ok (th\<lparr>capability_table := cs\<rparr>)"
          "places Q' t = places Q1 t" "holders k' t = holders ?k t"
          using ok_collect_sender_cap [OF met(2,3,5,6,8,4) k(3) thread_okD(8) [OF th(2)] v(8) k(1,2)] by blast
        have "caps_ok (th\<lparr>capability_table := cs\<rparr>)" by (rule caps_okI [OF m(5)]) (simp add: v(6))
        then have "thread_ok t (th\<lparr>capability_table := cs\<rparr>) {} {c} {} {} {}"
          by (intro thread_ok_recap [OF th(2)]) simp_all
        then have "kernel_ok k' Q'"
          by (intro ok_close_at [OF m(2) subset_refl m(3,4)]) (use m v met(7) in simp_all)
        then show ?thesis using eq met(1) m(1) by (auto simp: ipc_receive_cap_def cur Let_def)
      qed
    qed
  }
qed


section \<open>Answering a call\<close>

lemma held_ok_fewer: "held_ok th P H \<Longrightarrow> H' \<subseteq> H \<Longrightarrow> held_ok th P H'"
  unfolding held_ok_def by blast

lemma thread_ok_fewer: "thread_ok t th P C S I H \<Longrightarrow> H' \<subseteq> H \<Longrightarrow> thread_ok t th P C S I H'"
  using held_ok_fewer [of th P H H'] by (simp add: thread_ok_def)

text \<open>A thread's table loses capabilities, and everything else stays.\<close>

lemma ok_shrink_caps:
  assumes ok: "kernel_ok k Q" and th: "get_thread k t = Some th"
    and less: "\<And>v. live_replies (f th) v \<subseteq> live_replies th v"
    and tok: "thread_ok t (f th) (places Q t) (cur_on k t) (out_on k t) (idle_on k t) (holders k t)"
  shows "kernel_ok (upd_thread k t f) Q"
proof (rule ok_but_close)
  note wf = ok_butD(6) [OF ok]
  show "ok_but UNIV {} (upd_thread k t f) Q" by (rule ok_upd_caps [OF ok_but_mono [OF ok]]) auto
  have H: "holders (upd_thread k t f) v \<subseteq> holders k v" for v
    using holders_at [OF wf th, of f v] less [of v] th by (auto simp: holders_def)
  fix u
  show "good (upd_thread k t f) Q u"
  proof (cases "u = t")
    case True
    then show ?thesis using thread_ok_fewer [OF tok H] th wf by (simp add: good_def)
  next
    case False
    then show ?thesis
      using ok_butD(5) [OF ok, of u] thread_ok_fewer [OF _ H, of u _ _ _ _ _ u] H [of u] wf
      by (auto simp: good_def absent_ok_def split: option.splits)
  qed
qed

lemma current_cap_slot:
  assumes "get_thread k (current (percpu k ! c)) = Some th"
  shows "current_cap k c s = (case slot (capability_table th) (unat s) of None \<Rightarrow> Inl NoSuchSlot | Some cap \<Rightarrow> Inr cap)"
  using assms by (simp add: current_cap_def current_thread_id_def cpu_of_def get_def)

text \<open>A reply capability in hand names a caller that waits for exactly this answer.\<close>

lemma reply_target:
  assumes ok: "kernel_ok k Q" and th: "get_thread k t = Some th" "replying th = None"
    and cap: "slot (capability_table th) i = Some cap" "object cap = ObReply u"
  obtains thu where "get_thread k u = Some thu" and "thread_ok u thu {} (cur_on k u) (out_on k u) (idle_on k u) (holders k u)"
    and "holders k u = {(t, i)}" "state (handshake thu) = Blocked" "awaits_reply thu" "\<not> is_delivered (handshake thu)"
      "places Q u = {}" "outgoing_cap thu = None"
proof -
  have H: "(t, i) \<in> holders k u" using th cap by (auto simp: holders_def live_replies_def reply_slots_def)
  then obtain thu where u: "get_thread k u = Some thu"
    using ok_butD(5) [OF ok, of u] by (cases "get_thread k u") (auto simp: good_def absent_ok_def)
  have tok: "thread_ok u thu (places Q u) (cur_on k u) (out_on k u) (idle_on k u) (holders k u)"
    using ok_but_good [OF ok _ u] by simp
  then have "held_ok thu (places Q u) (holders k u)" by (rule thread_okD)
  with H have h: "holders k u = {(t, i)}" "state (handshake thu) = Blocked" "awaits_reply thu" "\<not> is_delivered (handshake thu)"
      "places Q u = {}" "outgoing_cap thu = None" by (auto simp: held_ok_def)
  show ?thesis using that [OF u _ h] tok h by simp
qed

lemma ok_reply_invoke:
  assumes ok: "kernel_ok k Q" and call: "calls k c"
  shows "\<exists>Q'. kernel_ok (snd (reply_invoke k c s msg)) Q'"
proof -
  define t where "t = current (percpu k ! c)"
  obtain th where th: "get_thread k t = Some th" "thread_ok t th {} {c} {} {} {}"
    and v: "cur_on k t = {c}" "out_on k t = {}" "idle_on k t = {}" "places Q t = {}" "holders k t = {}"
      "state (handshake th) = Running" "\<not> resuming th" "replying th = None" "\<not> ipc_aborted (handshake th)"
      "outgoing_cap th = None"
    using calling_thread [OF ok call t_def] .
  have c: "c < length (percpu k)" "current (percpu k ! c) \<noteq> NO_TID" using call by (auto simp: calls_def)
  note cc = current_cap_slot [OF th(1) [unfolded t_def], of s]
  show ?thesis
  proof (cases "\<exists>cap u. slot (capability_table th) (unat s) = Some cap \<and> object cap = ObReply u \<and> allows (rights cap) RIGHTS_WRITE")
    case False
    then have "snd (reply_invoke k c s msg) = k"
      by (auto simp: reply_invoke_def cc split: option.splits Object.splits)
    then show ?thesis using ok by auto
  next
    case True
    then obtain cap u where cap: "slot (capability_table th) (unat s) = Some cap" "object cap = ObReply u" "allows (rights cap) RIGHTS_WRITE"
      by blast
    obtain thu where u: "get_thread k u = Some thu" "thread_ok u thu {} (cur_on k u) (out_on k u) (idle_on k u) (holders k u)"
      "holders k u = {(t, unat s)}" "state (handshake thu) = Blocked" "awaits_reply thu" "\<not> is_delivered (handshake thu)"
      "places Q u = {}" "outgoing_cap thu = None"
      using reply_target [OF ok th(1) v(8) cap(1,2)] .
    have ut: "u \<noteq> t" using u(1,4) th(1) v(6) by auto
    let ?f = "\<lambda>t :: Thread. t\<lparr>replying := Some s\<rparr>" let ?k = "upd_thread k t ?f"
    note wf = ok_butD(6) [OF ok]
    have live: "live_replies (?f th) w = live_replies th w" if "w \<noteq> u" for w
      using that cap v(8) by (auto simp: live_replies_def reply_slots_def)
    have "\<exists>Q'. kernel_ok (ipc_reply ?k c u msg) Q'"
    proof -
      have ok1: "ok_but {u, t} {} ?k Q"
        by (rule ok_upd_caps [OF ok_but_mono [OF ok]]) (use live th(1) in auto)
      have "i = unat s" if "i \<in> reply_slots (capability_table th) u" for i
      proof -
        have "(t, i) \<in> holders k u" using that th(1) v(8) by (simp add: holders_def live_replies_def)
        then show ?thesis using u(3) by simp
      qed
      then have Hu: "holders ?k u = {}" using holders_at [OF wf th(1), of ?f u] u(3) by (auto simp: live_replies_def)
      have Ht: "holders ?k t = {}"
        using holders_at [OF wf th(1), of ?f t] live [of t] ut v(5) th(1) by (auto simp: holders_def)
      have "caps_ok (?f th)" by (rule caps_ok_cong [OF thread_okD(5) [OF th(2)]]) simp_all
      then have "thread_ok t (?f th) {} {c} {} {} {}"
        using thread_okD(1-4) [OF th(2)] v(6,7)
        by (simp add: thread_ok_def stands_ok_def place_ok_def sends_ok_def held_ok_def resume_ok_def split: option.splits)
      then have "good ?k Q t" using th(1) wf v Ht by (simp add: good_def)
      then have ok2: "ok_but {u} {} ?k Q" by (intro ok_but_close [OF ok1]) auto
      let ?g = "\<lambda>t :: Thread. t\<lparr>mailbox := [msg ! 0, msg ! 1, 0, 0, 0], handshake := serve (handshake t)\<rparr>"
      let ?k2 = "upd_thread ?k u ?g"
      note wf2 = ok_butD(6) [OF ok2]
      have get: "get_thread ?k u = Some thu" using u(1) ut wf by simp
      have ok3: "ok_but {u} {} ?k2 Q" by (rule ok_upd_thread [OF ok2]) simp_all
      have get3: "get_thread ?k2 u = Some (?g thu)" using get wf2 by simp
      have H3: "holders ?k2 u = {}" using holders_upd_thread [OF wf2, of u ?g] Hu by simp
      have "table_ok (?g thu)" by (rule table_okI [OF thread_okD(8) [OF u(2)]]) simp_all
      then have "caps_ok (?g thu)" by (rule caps_okI) (simp add: u(4))
      then have w: "wakeable (?g thu) (cur_on ?k2 u) (out_on ?k2 u) (idle_on ?k2 u) (holders ?k2 u)"
        using wakeable_delivered [OF u(2,4), of "?g thu"] u(8) H3 by simp
      have c2: "c < length (percpu ?k2)" "current (percpu ?k2 ! c) \<noteq> NO_TID" using c by simp_all
      obtain Q' where "ok_but ({u} - {u}) {} (wake ?k2 c u) Q'" using ok_wake [OF ok3 singletonI u(7) get3 w c2] .
      then show ?thesis using get u(5) by (auto simp: ipc_reply_def)
    qed
    then show ?thesis using cap by (simp add: reply_invoke_def cc current_thread_id_def cpu_of_def t_def)
  qed
qed


section \<open>Giving a capability up\<close>

lemma ok_delete_current_cap:
  assumes ok: "kernel_ok k Q" and c: "c < length (percpu k)" "current (percpu k ! c) \<noteq> NO_TID"
    and rep: "replying_on k c = None \<or> replying_on k c = Some s"
  shows "kernel_ok (snd (delete_current_cap k c s)) Q"
proof -
  let ?t = "current (percpu k ! c)"
  obtain th where th: "get_thread k ?t = Some th" "thread_ok ?t th (places Q ?t) {c} {} (idle_on k ?t) (holders k ?t)"
    "cur_on k ?t = {c}" "out_on k ?t = {}"
    using current_thread [OF ok c empty_iff [THEN iffD1, THEN notI]] .
  obtain r cs seen where d: "delete (capability_table th, cap_peak_seen k) s = (r, cs, seen)"
    by (cases "delete (capability_table th, cap_peak_seen k) s")
  let ?f = "\<lambda>t :: Thread. t\<lparr>capability_table := cs, replying := None\<rparr>"
  have cs: "cs = fst (snd (empty_slot (capability_table th, cap_peak_seen k) (unat s)))"
    using d by (auto simp: delete_def split: prod.splits option.splits)
  have slots: "slot cs j = (if j = unat s then None else slot (capability_table th) j)" for j by (simp add: cs)
  have tab: "table_ok (?f th)"
    using thread_okD(8) [OF th(2)] table_wf_empty_slot [of "(capability_table th, cap_peak_seen k)" "unat s"] slots
    by (auto simp: table_ok_def cs split: if_splits)
  have r: "replying th = None \<or> replying th = Some s" using rep th(1) by (simp add: replying_on_def)
  have sub: "reply_slots cs u \<subseteq> reply_slots (capability_table th) u" for u by (auto simp: reply_slots_def slots split: if_splits)
  have "caps_ok (?f th)" using thread_okD(5) [OF th(2)] tab sub by (auto simp: caps_ok_def)
  then have tok: "thread_ok ?t (?f th) (places Q ?t) (cur_on k ?t) (out_on k ?t) (idle_on k ?t) (holders k ?t)"
    unfolding th(3,4) by (intro thread_ok_recap [OF th(2)]) simp_all
  have less: "live_replies (?f th) u \<subseteq> live_replies th u" for u
    using r by (auto simp: live_replies_def reply_slots_def slots split: if_splits)
  let ?ks = "k\<lparr>cap_peak_seen := seen\<rparr>"
  have "kernel_ok (upd_thread ?ks ?t ?f) Q"
    by (rule ok_shrink_caps [OF ok_seen [OF ok]])
       (use th(1) less tok same_coresD(7-9) [OF seen_fields(3)] in simp_all)
  then show ?thesis using th(1) d by (simp add: delete_current_cap_def current_thread_id_def cpu_of_def Let_def)
qed

end
