(* ===== verification/Kernel_Note_Inv.thy ===== *)
theory Kernel_Note_Inv
  imports Kernel_Reply_Inv
begin

text \<open>Interrupts and notifications keep the invariant, a call resumes only once it has been delivered to, and
  fresh objects start with empty queues.\<close>


section \<open>Interrupts\<close>

lemma ok_mark_bound: "kernel_ok k Q \<Longrightarrow> kernel_ok (mark_bound k ep) Q"
  using ok_put_rendezvous_idle [of "{}" "{}" k Q ep] by (auto simp: mark_bound_def bind_to_interrupt_def split: option.split)

lemma ok_irq_routes:
  assumes ok: "kernel_ok k Q"
  shows "kernel_ok (k\<lparr>irq_routes := f\<rparr>) Q"
  unfolding ok_but_def
proof (intro conjI allI impI)
  let ?k = "k\<lparr>irq_routes := f\<rparr>"
  have get: "get_thread ?k = get_thread k" by (rule get_thread_cong) simp
  show "tables_ok ?k" using ok_butD(1) [OF ok] by (simp add: tables_ok_def)
  show "queues_rep (links ?k) (the_queue ?k) Q" using ok_butD(2) [OF ok] the_queue_cong [of ?k k] by simp
  show "inboxes_ok {} ?k Q" using ok_butD(3) [OF ok] by (simp add: inboxes_ok_def)
  show "core_ok ?k c" if "c < length (percpu ?k)" for c
    using ok_butD(4) [OF ok, of c] that core_ok_cong [of ?k k] by simp
  show "good ?k Q t" if "t \<notin> {}" for t
    using ok_butD(5) [OF ok that] good_cong [of ?k t k Q Q] on_cong [of ?k k] holders_cong [of ?k k]
    by (simp add: get)
qed

lemma ok_bind_irq:
  assumes "kernel_ok k Q" and "unat intid < MAX_INTID"
  shows "\<exists>k' Q'. bind_irq k intid ep = Some k' \<and> kernel_ok k' Q'"
  using ok_irq_routes [OF ok_mark_bound [OF assms(1)]] assms(2) by (auto simp: bind_irq_def Let_def)

text \<open>A thread taken off a receive or notification queue is served and placed.\<close>

lemma ok_serve_taken:
  assumes ok: "ok_but {} R k Q" and took: "took q u Q Q'" and q: "q = ReceiversOf ep \<or> q = WaitersOf n"
    and k1: "ok_but {u} R k1 Q'" "get_thread k1 = get_thread k" "holders k1 = holders k" "same_cores k k1"
    and m: "length m = 5" and c: "c < length (percpu k)" "current (percpu k ! c) \<noteq> NO_TID"
  shows "\<exists>k2 remote k' Q''. deliver k1 u (\<lambda>t. t\<lparr>mailbox := m\<rparr>) = Some k2 \<and> wake_placed k2 c u how = Some (remote, k')
    \<and> ok_but {} (set_option remote \<union> R) k' Q'' \<and> same_cores k k'"
proof -
  have u: "u \<in> set (Q q)" "places Q' u = {}" using took by (auto simp: took_def)
  obtain th where th: "get_thread k u = Some th" "thread_ok u th {q} (cur_on k u) (out_on k u) (idle_on k u) (holders k u)"
    using queued_thread [OF ok u(1) empty_iff [THEN iffD1, THEN notI]] .
  let ?f = "\<lambda>t :: Thread. t\<lparr>mailbox := m\<rparr>"
  note sc = same_coresD [OF k1(4)]
  have "table_ok ((?f th)\<lparr>handshake := serve (handshake th)\<rparr>)"
    by (rule table_okI [OF thread_okD(8) [OF th(2)]]) (simp_all add: m)
  then have "wakeable ((?f th)\<lparr>handshake := serve (handshake th)\<rparr>) (cur_on k u) (out_on k u) (idle_on k u) {}"
    by (intro wakeable_served [OF th(2) q]) simp_all
  then have w: "wakeable ((?f th)\<lparr>handshake := serve (handshake th)\<rparr>) (cur_on k1 u) (out_on k1 u) (idle_on k1 u) (holders k1 u)"
    using served_holders [OF th(2)] k1(3) sc by simp
  have get: "get_thread k1 u = Some th" "live_replies (?f th) = live_replies th" using th(1) k1(2) by simp_all
  have c1: "c < length (percpu k1)" "current (percpu k1 ! c) \<noteq> NO_TID" using c sc by simp_all
  obtain k2 remote k' Q'' where "deliver k1 u ?f = Some k2" "wake_placed k2 c u how = Some (remote, k')"
    "ok_but ({u} - {u}) (set_option remote \<union> R) k' Q''" "same_cores k1 k'"
    using ok_deliver_wake_placed [where f = ?f and how = how, OF k1(1) singletonI u(2) get(1) w get(2) c1] .
  then show ?thesis using same_cores_trans [OF k1(4)] by auto
qed

lemma ok_irq_notify:
  assumes ok: "kernel_ok k Q" and c: "c < length (percpu k)" "current (percpu k ! c) \<noteq> NO_TID"
  shows "\<exists>k' Q'. irq_notify k c ep = Some k' \<and> kernel_ok k' Q'"
proof (cases "rendezvous_of k ep")
  case None
  then show ?thesis using ok by (auto simp: irq_notify_def)
next
  case (Some r)
  obtain v h r' where sig: "rv_signal (links k) r = (v, h, r')" by (cases "rv_signal (links k) r") auto
  note s = ok_signal [OF ok Some sig]
  show ?thesis
  proof (cases v)
    case None
    then show ?thesis using s Some sig by (auto simp: irq_notify_def)
  next
    case (Some u)
    then obtain Q1 where q: "took (ReceiversOf ep) u Q Q1" "ok_but {u} {} (put_rendezvous k ep h r') Q1" using s by auto
    obtain k2 remote k' Q' where d: "deliver (put_rendezvous k ep h r') u (\<lambda>t. t\<lparr>mailbox := [1, 0, 0, 0, 0]\<rparr>) = Some k2"
      "wake_placed k2 c u PlaceLoadAware = Some (remote, k')" "ok_but {} (set_option remote) k' Q'"
      using ok_serve_taken [OF ok q(1) disjI1 [OF refl] q(2) _ _ _ _ c, of "[1, 0, 0, 0, 0]" PlaceLoadAware] by auto
    have "kernel_ok (owe remote k') Q'" using ok_owe [of "{}" remote "{}" k' Q'] d(3) by simp
    then show ?thesis using \<open>rendezvous_of k ep = Some r\<close> sig Some d by (auto simp: irq_notify_def)
  qed
qed


section \<open>The bound receiver\<close>

lemma absent_queue:
  assumes ok: "ok_but A R k Q"
  shows "rendezvous_of k ep = None \<Longrightarrow> Q (SendersOf ep) = [] \<and> Q (ReceiversOf ep) = []"
    and "notification_of k n = None \<Longrightarrow> Q (WaitersOf n) = []"
proof -
  have e: "the_queue k q = new_fifo \<Longrightarrow> Q q = []" for q
    using fifo_rep_len [OF queues_rep_fifo [OF ok_butD(2) [OF ok], of q]] by (simp add: new_fifo_def)
  show "rendezvous_of k ep = None \<Longrightarrow> Q (SendersOf ep) = [] \<and> Q (ReceiversOf ep) = []"
    using e [of "SendersOf ep"] e [of "ReceiversOf ep"] by simp
  show "notification_of k n = None \<Longrightarrow> Q (WaitersOf n) = []" using e [of "WaitersOf n"] by simp
qed

lemma bound_receiver_iff:
  "bound_receiver k page = Some (u, ep) \<longleftrightarrow> nt_bound page = Some u \<and> (\<exists>th. get_thread k u = Some th
    \<and> wait_on (handshake th) = Some (WaitRendezvous ep RoleReceiver) \<and> state (handshake th) = Blocked \<and> \<not> is_delivered (handshake th))"
proof (cases "nt_bound page")
  case (Some v)
  show ?thesis
  proof (cases "get_thread k v")
    case (Some th)
    show ?thesis
    proof (cases "wait_on (handshake th)")
      case (Some w)
      then show ?thesis
        using \<open>nt_bound page = Some v\<close> \<open>get_thread k v = Some th\<close>
        by (cases w rule: wait_queue.cases) (auto simp: bound_receiver_def)
    qed (use \<open>nt_bound page = Some v\<close> Some in \<open>auto simp: bound_receiver_def\<close>)
  qed (use Some in \<open>auto simp: bound_receiver_def\<close>)
qed (simp add: bound_receiver_def)

text \<open>The test of \<open>bound_receiver\<close> is exactly that the thread is linked on that receive queue.\<close>

lemma bound_receiver_queued:
  assumes ok: "ok_but {} R k Q" and b: "bound_receiver k page = Some (u, ep)"
  shows "u \<in> set (Q (ReceiversOf ep))" and "rendezvous_of k ep \<noteq> None"
proof -
  obtain th where th: "get_thread k u = Some th" "wait_on (handshake th) = Some (WaitRendezvous ep RoleReceiver)"
    "state (handshake th) = Blocked" "\<not> is_delivered (handshake th)"
    using b by (auto simp: bound_receiver_iff)
  have "thread_ok u th (places Q u) (cur_on k u) (out_on k u) (idle_on k u) (holders k u)"
    using ok_but_good [OF ok _ th(1)] by simp
  from thread_okD(3) [OF this] have "waits_ok (handshake th) (places Q u)" using th(3) by (simp add: place_ok_def)
  then have "places Q u = {ReceiversOf ep}" using th(2,4) by (simp add: waits_ok_def)
  then show q: "u \<in> set (Q (ReceiversOf ep))" by (auto simp: places_def)
  show "rendezvous_of k ep \<noteq> None" using absent_queue(1) [OF ok, of ep] q by (cases "rendezvous_of k ep") auto
qed

lemma ok_deliver_bound:
  assumes ok: "ok_but {} R k Q" and b: "bound_receiver k page = Some (u, ep)"
    and c: "c < length (percpu k)" "current (percpu k ! c) \<noteq> NO_TID"
  shows "\<exists>k1 remote k' Q'. deliver_bound k u ep w = Some k1 \<and> wake_placed k1 c u how = Some (remote, k')
    \<and> ok_but {} (set_option remote \<union> R) k' Q' \<and> same_cores k k'"
proof -
  note bq = bound_receiver_queued [OF ok b]
  then obtain r where r: "rendezvous_of k ep = Some r" by auto
  obtain th where th: "get_thread k u = Some th" "thread_ok u th {ReceiversOf ep} (cur_on k u) (out_on k u) (idle_on k u) (holders k u)"
    using queued_thread [OF ok bq(1) empty_iff [THEN iffD1, THEN notI]] .
  have P: "places Q u = {ReceiversOf ep}" by (rule places_member [OF ok_butD(2) [OF ok] bq(1)])
  have ok0: "ok_but {u} R k Q" by (rule ok_but_mono [OF ok]) auto
  obtain h r' Q1 where q: "remove_receiver (links k) r u = Some (u \<in> set (Q (ReceiversOf ep)), h, r')"
    "ok_but {u} R (put_rendezvous k ep h r') Q1" "places Q1 u = places Q u - {ReceiversOf ep}"
    "\<forall>s. s \<noteq> u \<longrightarrow> places Q1 s = places Q s"
    using ok_remove_receiver [OF ok0 r singletonI] .
  let ?k = "put_rendezvous k ep h r'" and ?f = "\<lambda>t :: Thread. t\<lparr>mailbox := bound_delivery w\<rparr>"
  have "table_ok ((?f th)\<lparr>handshake := serve (handshake th)\<rparr>)" by (rule table_okI [OF thread_okD(8) [OF th(2)]]) simp_all
  then have "wakeable ((?f th)\<lparr>handshake := serve (handshake th)\<rparr>) (cur_on k u) (out_on k u) (idle_on k u) {}"
    by (intro wakeable_served [OF th(2) disjI1 [OF refl]]) simp_all
  then have wk: "wakeable ((?f th)\<lparr>handshake := serve (handshake th)\<rparr>) (cur_on ?k u) (out_on ?k u) (idle_on ?k u) (holders ?k u)"
    using served_holders [OF th(2)] by simp
  have k: "c < length (percpu ?k)" "current (percpu ?k ! c) \<noteq> NO_TID" "get_thread ?k u = Some th"
    "live_replies (?f th) = live_replies th" "places Q1 u = {}" using c th(1) q(3) P by simp_all
  obtain k2 remote k' Q' where d: "deliver ?k u ?f = Some k2" "wake_placed k2 c u how = Some (remote, k')"
    "ok_but ({u} - {u}) (set_option remote \<union> R) k' Q'" "same_cores ?k k'"
    using ok_deliver_wake_placed [where f = ?f and how = how, OF q(2) singletonI k(5,3) wk k(4,1,2)] .
  have "deliver_bound k u ep w = Some k2"
    using th(1) r q(1) bq(1) d(1) by (simp add: deliver_bound_def thread_control_block_ptr_def debug_assert_def)
  then show ?thesis using d same_cores_trans [OF put_rendezvous_views(6) d(4)] by auto
qed

lemma bound_receiver_cong:
  "get_thread k' = get_thread k \<Longrightarrow> bound_receiver k' page = bound_receiver k page"
  by (simp add: bound_receiver_def)


section \<open>Signals\<close>

lemma ok_signal_locked:
  assumes ok: "ok_but {} R k Q" and c: "c < length (percpu k)" "current (percpu k ! c) \<noteq> NO_TID"
  shows "\<exists>r k' Q'. signal_locked k c n b how = Some (r, k')
    \<and> ok_but {} ((case r of Inl _ \<Rightarrow> {} | Inr remote \<Rightarrow> set_option remote) \<union> R) k' Q' \<and> same_cores k k'
    \<and> (how = PlaceLocal \<longrightarrow> (\<forall>x. r \<noteq> Inr (Some x)))"
proof (cases "notification_of k n")
  case None
  then show ?thesis using ok by (auto simp: signal_locked_def)
next
  case (Some page)
  let ?b = "bound_receiver k page"
  obtain v h s where sig: "nt_signal (links k) (nt_state page) b (?b \<noteq> None) = (v, h, s)"
    by (cases "nt_signal (links k) (nt_state page) b (?b \<noteq> None)") auto
  let ?k = "put_notification k n h s"
  note st = ok_nt_signal [OF ok Some sig]
  have loc: "how = PlaceLocal \<Longrightarrow> wake_placed k2 c u how = Some (remote, k') \<Longrightarrow> remote = None" for k2 u remote k' by simp
  show ?thesis
  proof (cases v)
    case (Woke u w)
    then obtain Q1 where q: "took (WaitersOf n) u Q Q1" "ok_but {u} R ?k Q1" using st by auto
    obtain k2 remote k' Q' where d: "deliver ?k u (\<lambda>t. t\<lparr>mailbox := [w, 0, 0, 0, 0]\<rparr>) = Some k2"
      "wake_placed k2 c u how = Some (remote, k')" "ok_but {} (set_option remote \<union> R) k' Q'" "same_cores k k'"
      using ok_serve_taken [OF ok q(1) disjI2 [OF refl] q(2) _ _ _ _ c, of "[w, 0, 0, 0, 0]" how] by auto
    have "signal_locked k c n b how = Some (Inr remote, k')" using Some sig Woke d by (simp add: signal_locked_def Let_def)
    then show ?thesis using d(3,4) loc [OF _ d(2)] by auto
  next
    case (ToBound w)
    then obtain u ep where u: "?b = Some (u, ep)" and k: "ok_but {} R ?k Q" using st by auto
    have "bound_receiver ?k page = Some (u, ep)" using u bound_receiver_cong [of ?k k page] by simp
    then obtain k1 remote k' Q' where d: "deliver_bound ?k u ep w = Some k1" "wake_placed k1 c u how = Some (remote, k')"
      "ok_but {} (set_option remote \<union> R) k' Q'" "same_cores ?k k'"
      using ok_deliver_bound [OF k, of page u ep c w how] c by auto
    have "signal_locked k c n b how = Some (Inr remote, k')" using Some sig ToBound u d by (simp add: signal_locked_def Let_def)
    then show ?thesis using d(3) loc [OF _ d(2)] same_cores_trans [OF put_notification_views(6) d(4)] by auto
  qed (use Some sig st in \<open>auto simp: signal_locked_def Let_def\<close>)
qed

lemma ok_notification_signal:
  assumes "kernel_ok k Q" and "c < length (percpu k)" "current (percpu k ! c) \<noteq> NO_TID"
  shows "\<exists>r k' Q'. notification_signal k c n b = Some (r, k') \<and> kernel_ok k' Q'"
proof -
  obtain r k' Q' where s: "signal_locked k c n b PlaceLocal = Some (r, k')"
    "ok_but {} (case r of Inl _ \<Rightarrow> {} | Inr remote \<Rightarrow> set_option remote) k' Q'" "\<forall>x. r \<noteq> Inr (Some x)"
    using ok_signal_locked [OF assms, of n b PlaceLocal] by auto
  have "(case r of Inl _ \<Rightarrow> {} | Inr remote \<Rightarrow> set_option remote) = {}" using s(3) by (cases r) auto
  then show ?thesis using s by (auto simp: notification_signal_def)
qed

lemma ok_signal_from_interrupt:
  assumes "kernel_ok k Q" and "c < length (percpu k)" "current (percpu k ! c) \<noteq> NO_TID"
  shows "\<exists>k' Q'. signal_notification_from_interrupt k c n b = Some k' \<and> kernel_ok k' Q'"
proof -
  obtain r k' Q' where s: "signal_locked k c n b PlaceLoadAware = Some (r, k')"
    "ok_but {} (case r of Inl _ \<Rightarrow> {} | Inr remote \<Rightarrow> set_option remote) k' Q'"
    using ok_signal_locked [OF assms, of n b PlaceLoadAware] by auto
  have "kernel_ok (owe (case r of Inl _ \<Rightarrow> None | Inr remote \<Rightarrow> remote) k') Q'"
    using s(2) by (intro ok_owe) (auto split: sum.splits)
  then show ?thesis using s(1) by (auto simp: signal_notification_from_interrupt_def)
qed

lemma ok_notification_poll: "kernel_ok k Q \<Longrightarrow> kernel_ok (snd (notification_poll k n)) Q"
  using ok_put_notification_idle [of "{}" "{}" k Q n] by (auto simp: notification_poll_def poll_def split: option.split)

lemma ok_notification_wait:
  assumes ok: "kernel_ok k Q" and call: "calls k c"
  shows "\<exists>r k' Q'. notification_wait k c n = Some (r, k') \<and> kernel_ok k' Q'"
proof -
  define t where "t = current (percpu k ! c)"
  obtain th where th: "get_thread k t = Some th" "thread_ok t th {} {c} {} {} {}"
    and v: "cur_on k t = {c}" "out_on k t = {}" "idle_on k t = {}" "places Q t = {}" "holders k t = {}"
      "state (handshake th) = Running" "\<not> resuming th" "replying th = None" "\<not> ipc_aborted (handshake th)"
      "outgoing_cap th = None"
    using calling_thread [OF ok call t_def] .
  have cur: "current_thread_id k c = t" by (simp add: current_thread_id_def cpu_of_def t_def)
  have ptr: "thread_control_block_ptr k t = Some t" using th(1) by (simp add: thread_control_block_ptr_def)
  have ok0: "ok_but {t} {} k Q" by (rule ok_but_mono [OF ok]) auto
  show ?thesis
  proof (cases "notification_of k n")
    case None
    then show ?thesis using ok ptr by (auto simp: notification_wait_def cur)
  next
    case (Some page)
    obtain w h s where wt: "wait (links k) (nt_state page) t = (w, h, s)" by (cases "wait (links k) (nt_state page) t") auto
    let ?k = "put_notification k n h s"
    note st = ok_wait [OF ok0 Some singletonI v(4) wt]
    show ?thesis
    proof (cases w)
      case (Wait_Word x)
      then have "kernel_ok ?k Q"
        by (intro ok_close_at [of "{t}" "{}" ?k Q t k th]) (use st th v in simp_all)
      then show ?thesis using Some ptr wt Wait_Word by (auto simp: notification_wait_def cur)
    next
      case Wait_Blocked
      then have ok1: "ok_but {t} {} ?k (Q(WaitersOf n := Q (WaitersOf n) @ [t]))" using st by simp
      have "\<exists>k'. park_current ?k t (WaitNotification n) (\<lambda>t. t) = Some k' \<and> ok_but {} {} k' (Q(WaitersOf n := Q (WaitersOf n) @ [t]))"
        by (rule ok_park [OF ok1])
           (use th v thread_okD(8) [OF th(2)] in \<open>auto simp: places_push sends_ok_def held_ok_def awaits_reply_def\<close>)
      then show ?thesis using Some ptr wt Wait_Blocked by (auto simp: notification_wait_def cur)
    qed
  qed
qed


lemma ok_notification_bind:
  assumes ok: "kernel_ok k Q" and c: "c < length (percpu k)" "current (percpu k ! c) \<noteq> NO_TID"
  shows "\<exists>r k' Q'. notification_bind k c n u = Some (r, k') \<and> kernel_ok k' Q'"
proof (cases "notification_bind k c n u = Some (Inl IeGone, k) \<or> notification_bind k c n u = Some (Inl IeNotPermitted, k)")
  case True
  then show ?thesis using ok by blast
next
  case False
  then obtain page th where n: "notification_of k n = Some page" and th: "get_thread k u = Some th"
    by (cases "notification_of k n"; cases "get_thread k u") (auto simp: notification_bind_def split: if_splits)
  let ?p = "page\<lparr>nt_bound := Some u\<rparr>" and ?f = "\<lambda>t :: Thread. t\<lparr>bound_notification := Some n\<rparr>"
  let ?k = "k\<lparr>notification_table := gt_update (notification_table k) n (\<lambda>_. ?p)\<rparr>"
  let ?k2 = "upd_thread ?k u ?f"
  have eq: "notification_bind k c n u =
      (case (if note_word (nt_state ?p) \<noteq> 0 then bound_receiver ?k2 ?p else None) of
         None \<Rightarrow> Some (Inr (), ?k2)
       | Some (v, ep) \<Rightarrow>
           (case poll (nt_state ?p) of
              (w, s) \<Rightarrow> do { k \<leftarrow> deliver_bound (put_notification ?k2 n (links ?k2) s) v ep w; Some (Inr (), wake k c v) }))"
    using False n th by (simp add: notification_bind_def Let_def split: if_splits)
  note wfn = ok_butD(8) [OF ok]
  have get: "notification_of ?k m = (if m = n then Some ?p else notification_of k m)" for m
    using n by (simp add: notification_of_def gt_update_get [OF wfn])
  have "the_queue ?k q = the_queue k q" for q using n get by (cases q) (simp_all add: rendezvous_of_def)
  then have tq: "the_queue ?k = the_queue k" by blast
  have ok1: "kernel_ok ?k Q"
    by (rule ok_retable [OF ok]) (use ok_butD(2,7) [OF ok] gt_update_get(1) [OF wfn] in \<open>simp_all add: tq del: the_queue.simps\<close>)
  note v1 = views_same_threads [of ?k k, simplified]
  have "thread_ok u th (places Q u) (cur_on k u) (out_on k u) (idle_on k u) (holders k u)" using ok_but_good [OF ok _ th] by simp
  then have "thread_ok u (?f th) (places Q u) (cur_on k u) (out_on k u) (idle_on k u) (holders k u)"
    by (rule thread_ok_recap) (use caps_ok_cong [OF thread_okD(5) [OF \<open>thread_ok u th _ _ _ _ _\<close>], of "?f th"] in simp_all)
  then have ok2: "kernel_ok ?k2 Q" by (intro ok_shrink_caps [OF ok1]) (use th v1 in simp_all)
  have n2: "notification_of ?k2 n = Some ?p" using get by (simp add: notification_of_def)
  show ?thesis
  proof (cases "if note_word (nt_state ?p) \<noteq> 0 then bound_receiver ?k2 ?p else None")
    case None
    then have "notification_bind k c n u = Some (Inr (), ?k2)" unfolding eq by simp
    then show ?thesis using ok2 by blast
  next
    case (Some ve)
    obtain v ep where b: "ve = (v, ep)" "bound_receiver ?k2 ?p = Some (v, ep)" using Some by (cases ve) (auto split: if_splits)
    let ?s = "(nt_state ?p)\<lparr>note_word := 0\<rparr>" let ?k3 = "put_notification ?k2 n (links ?k2) ?s"
    have ok3: "kernel_ok ?k3 Q" by (rule ok_put_notification_idle [OF ok2 n2]) simp
    have b3: "bound_receiver ?k3 ?p = Some (v, ep)" using b(2) bound_receiver_cong [of ?k3 ?k2 ?p] by simp
    have c3: "c < length (percpu ?k3)" "current (percpu ?k3 ! c) \<noteq> NO_TID" using c by simp_all
    obtain k1 remote k' Q' where d: "deliver_bound ?k3 v ep (note_word (nt_state ?p)) = Some k1"
      "wake_placed k1 c v PlaceLocal = Some (remote, k')" "ok_but {} (set_option remote) k' Q'"
      using ok_deliver_bound [OF ok3 b3 c3, of "note_word (nt_state ?p)" PlaceLocal] unfolding Un_empty_right by blast
    then have "notification_bind k c n u = Some (Inr (), k')" "kernel_ok k' Q'"
      unfolding eq Some b(1) by (auto simp: poll_def)
    then show ?thesis by blast
  qed
qed


section \<open>Coming back from a blocking call\<close>

definition resumes :: "Kernel \<Rightarrow> nat \<Rightarrow> bool" where
  "resumes k c \<longleftrightarrow> c < length (percpu k) \<and> current (percpu k ! c) \<noteq> NO_TID \<and> switched_from (percpu k ! c) = NO_TID
     \<and> (case get_thread k (current (percpu k ! c)) of
          None \<Rightarrow> False
        | Some t \<Rightarrow> state (handshake t) = Running \<and> resuming t)"

text \<open>No undelivered resume: the assertion after \<open>schedule\<close> never fires.\<close>

lemma ok_resume_with:
  assumes ok: "kernel_ok k Q" and res: "resumes k c"
  shows "\<exists>r k'. resume_with f k c = Some (r, k') \<and> kernel_ok k' Q"
proof -
  let ?t = "current (percpu k ! c)"
  obtain th where th: "get_thread k ?t = Some th" "state (handshake th) = Running" "resuming th"
    using res by (auto simp: resumes_def split: option.splits)
  have tok: "thread_ok ?t th (places Q ?t) (cur_on k ?t) (out_on k ?t) (idle_on k ?t) (holders k ?t)"
    using ok_but_good [OF ok _ th(1)] by simp
  then have del: "is_delivered (handshake th)" "replying th = None" using thread_okD(7) [OF tok] th(2,3) by (auto simp: resume_ok_def)
  let ?f = "\<lambda>t :: Thread. t\<lparr>resuming := False\<rparr>"
  have "caps_ok (?f th)" by (rule caps_ok_cong [OF thread_okD(5) [OF tok]]) simp_all
  moreover have "place_ok (?f th) (places Q ?t) (cur_on k ?t) (out_on k ?t) (idle_on k ?t)"
    using thread_okD(3) [OF tok] th(2) by (simp add: place_ok_def)
  moreover have "sends_ok ?t (?f th) (places Q ?t)" "held_ok (?f th) (places Q ?t) (holders k ?t)" "stands_ok (?f th) (cur_on k ?t) (out_on k ?t) (idle_on k ?t)"
    using thread_okD(1,4,6) [OF tok] th(2) by (auto simp: sends_ok_def held_ok_def stands_ok_def split: option.splits)
  ultimately have "thread_ok ?t (?f th) (places Q ?t) (cur_on k ?t) (out_on k ?t) (idle_on k ?t) (holders k ?t)"
    using thread_okD(2) [OF tok] del by (simp add: thread_ok_def resume_ok_def)
  then have "kernel_ok (upd_thread k ?t ?f) Q" by (intro ok_shrink_caps [OF ok th(1)]) simp_all
  then show ?thesis using th(1) del(1) by (simp add: resume_with_def current_thread_id_def cpu_of_def debug_assert_def)
qed

lemma ok_ipc_send_resume:
  assumes ok: "kernel_ok k Q" and res: "resumes k c"
  shows "kernel_ok (ipc_send_resume k c) Q"
proof -
  obtain r k' where r: "resume_with mailbox k c = Some (r, k')" "kernel_ok k' Q" using ok_resume_with [OF ok res, of mailbox] by blast
  have "k' = ipc_send_resume k c"
    using r(1) by (auto simp: resume_with_def ipc_send_resume_def bind_eq_Some_conv Let_def split: if_splits)
  then show ?thesis using r(2) by simp
qed

text \<open>The flags of an aborted or refused call are taken once the call is over.\<close>

definition settled :: "Kernel \<Rightarrow> nat \<Rightarrow> bool" where
  "settled k c \<longleftrightarrow> c < length (percpu k) \<and> current (percpu k ! c) \<noteq> NO_TID \<and> switched_from (percpu k ! c) = NO_TID
     \<and> (case get_thread k (current (percpu k ! c)) of
          None \<Rightarrow> False
        | Some t \<Rightarrow> state (handshake t) = Running \<and> \<not> resuming t \<and> replying t = None)"

lemma ok_take_ipc_aborted:
  assumes ok: "kernel_ok k Q" and s: "settled k c"
  shows "kernel_ok (snd (take_ipc_aborted k c)) Q"
proof -
  let ?t = "current (percpu k ! c)"
  obtain th where th: "get_thread k ?t = Some th" "state (handshake th) = Running" "\<not> resuming th" "replying th = None"
    using s by (auto simp: settled_def split: option.splits)
  have tok: "thread_ok ?t th (places Q ?t) (cur_on k ?t) (out_on k ?t) (idle_on k ?t) (holders k ?t)"
    using ok_but_good [OF ok _ th(1)] by simp
  let ?h = "(handshake th)\<lparr>ipc_aborted := False\<rparr>" let ?f = "\<lambda>t :: Thread. t\<lparr>handshake := ?h\<rparr>"
  have "caps_ok (?f th)" by (rule caps_ok_cong [OF thread_okD(5) [OF tok]]) simp_all
  moreover have "place_ok (?f th) (places Q ?t) (cur_on k ?t) (out_on k ?t) (idle_on k ?t)"
    using thread_okD(3) [OF tok] th(2) by (simp add: place_ok_def)
  moreover have "sends_ok ?t (?f th) (places Q ?t)" "held_ok (?f th) (places Q ?t) (holders k ?t)" "stands_ok (?f th) (cur_on k ?t) (out_on k ?t) (idle_on k ?t)"
    "wait_ok ?h" using thread_okD(1,2,4,6) [OF tok] th(2) by (auto simp: sends_ok_def held_ok_def stands_ok_def wait_ok_def split: option.splits)
  ultimately have "thread_ok ?t (?f th) (places Q ?t) (cur_on k ?t) (out_on k ?t) (idle_on k ?t) (holders k ?t)"
    using th by (simp add: thread_ok_def resume_ok_def)
  then have "kernel_ok (upd_thread k ?t ?f) Q" by (intro ok_shrink_caps [OF ok th(1)]) simp_all
  then show ?thesis using th(1) by (simp add: take_ipc_aborted_def current_thread_id_def cpu_of_def take_aborted_def Let_def)
qed

lemma ok_take_ipc_refused:
  assumes ok: "kernel_ok k Q" and s: "settled k c"
  shows "kernel_ok (snd (take_ipc_refused k c)) Q"
proof -
  let ?t = "current (percpu k ! c)"
  obtain th where th: "get_thread k ?t = Some th" using s by (auto simp: settled_def split: option.splits)
  have tok: "thread_ok ?t th (places Q ?t) (cur_on k ?t) (out_on k ?t) (idle_on k ?t) (holders k ?t)"
    using ok_but_good [OF ok _ th] by simp
  let ?f = "\<lambda>t :: Thread. t\<lparr>ipc_refused := False\<rparr>"
  have "caps_ok (?f th)" by (rule caps_ok_cong [OF thread_okD(5) [OF tok]]) simp_all
  then have "thread_ok ?t (?f th) (places Q ?t) (cur_on k ?t) (out_on k ?t) (idle_on k ?t) (holders k ?t)"
    by (intro thread_ok_recap [OF tok]) simp_all
  then have "kernel_ok (upd_thread k ?t ?f) Q" by (intro ok_shrink_caps [OF ok th]) simp_all
  then show ?thesis using th by (simp add: take_ipc_refused_def current_thread_id_def cpu_of_def Let_def)
qed

lemma settled_after_resume:
  assumes ok: "kernel_ok k Q" and res: "resumes k c" and r: "resume_with f k c = Some (x, k')"
  shows "settled k' c"
proof -
  let ?t = "current (percpu k ! c)"
  obtain th where th: "get_thread k ?t = Some th" "state (handshake th) = Running" "resuming th"
    using res by (auto simp: resumes_def split: option.splits)
  have "resume_ok th" using ok_but_good [OF ok _ th(1)] by (auto dest: thread_okD)
  then have "replying th = None" using th(3) by (auto simp: resume_ok_def)
  moreover have "k' = upd_thread k ?t (\<lambda>t. t\<lparr>resuming := False\<rparr>)"
    using r th(1) by (auto simp: resume_with_def current_thread_id_def cpu_of_def split: if_splits)
  ultimately show ?thesis using res th ok_butD(6) [OF ok] by (simp add: settled_def resumes_def)
qed

lemma ok_notification_wait_resume:
  assumes ok: "kernel_ok k Q" and res: "resumes k c"
  shows "\<exists>r k'. notification_wait_resume k c = Some (r, k') \<and> kernel_ok k' Q"
proof -
  obtain w k1 where r: "resume_with (\<lambda>t. mailbox t ! 0) k c = Some (w, k1)" "kernel_ok k1 Q"
    using ok_resume_with [OF ok res, of "\<lambda>t. mailbox t ! 0"] by blast
  have "kernel_ok (snd (take_ipc_aborted k1 c)) Q" by (rule ok_take_ipc_aborted [OF r(2) settled_after_resume [OF ok res r(1)]])
  then show ?thesis using r(1) by (cases "take_ipc_aborted k1 c") (auto simp: notification_wait_resume_def)
qed


section \<open>Fresh objects\<close>

lemma ok_create_rendezvous:
  assumes ok: "kernel_ok k Q"
  shows "kernel_ok (snd (create_rendezvous k page)) Q"
proof (cases "snd (create_rendezvous k page) = k")
  case False
  note wf = ok_butD(7) [OF ok]
  obtain phys n T where i: "insert_with (rendezvous_table k) (\<lambda>_. (phys, new_rendezvous)) = (n, T)"
    and k': "snd (create_rendezvous k page) = k\<lparr>rendezvous_table := T\<rparr>"
    using False by (auto simp: create_rendezvous_def split: if_splits option.splits prod.splits)
  let ?k = "k\<lparr>rendezvous_table := T\<rparr>"
  show ?thesis
  proof (cases n)
    case None
    then have "T = rendezvous_table k" using insert_with_cases [OF wf, of "\<lambda>_. (phys, new_rendezvous)"] i by auto
    then show ?thesis using k' False by simp
  next
    case (Some m)
    note i = i [unfolded Some]
    have get: "rendezvous_of ?k ep = (if ep = m then Some new_rendezvous else rendezvous_of k ep)" for ep
      using gt.ins_lookup [OF wf i] by (simp add: rendezvous_of_def)
    have "rendezvous_of k m = None" using gt.ins_fresh [OF wf i] by (simp add: rendezvous_of_def)
    then have "the_queue ?k q = the_queue k q" for q
      by (cases q) (simp_all add: get notification_of_def new_rendezvous_def)
    then have "the_queue ?k = the_queue k" by blast
    then have "kernel_ok ?k Q"
      by (intro ok_retable [OF ok]) (use ok_butD(2,8) [OF ok] gt.ins_wf [OF wf i] in \<open>simp_all del: the_queue.simps\<close>)
    then show ?thesis using k' by simp
  qed
qed (use ok in simp)

lemma ok_create_notification:
  assumes ok: "kernel_ok k Q"
  shows "kernel_ok (snd (create_notification k page)) Q"
proof (cases "snd (create_notification k page) = k")
  case False
  note wf = ok_butD(8) [OF ok]
  obtain phys n T where i: "insert_with (notification_table k)
      (\<lambda>_. \<lparr>nt_phys = phys, nt_state = new_notification, nt_bound = None\<rparr>) = (n, T)"
    and k': "snd (create_notification k page) = k\<lparr>notification_table := T\<rparr>"
    using False by (auto simp: create_notification_def split: if_splits option.splits prod.splits)
  let ?k = "k\<lparr>notification_table := T\<rparr>"
  show ?thesis
  proof (cases n)
    case None
    then have "T = notification_table k"
      using insert_with_cases [OF wf, of "\<lambda>_. \<lparr>nt_phys = phys, nt_state = new_notification, nt_bound = None\<rparr>"] i by auto
    then show ?thesis using k' False by simp
  next
    case (Some m)
    note i = i [unfolded Some]
    have get: "notification_of ?k x = (if x = m then Some \<lparr>nt_phys = phys, nt_state = new_notification, nt_bound = None\<rparr> else notification_of k x)" for x
      using gt.ins_lookup [OF wf i] by (simp add: notification_of_def)
    have "notification_of k m = None" using gt.ins_fresh [OF wf i] by (simp add: notification_of_def)
    then have "the_queue ?k q = the_queue k q" for q
      by (cases q) (simp_all add: get rendezvous_of_def new_notification_def)
    then have "the_queue ?k = the_queue k" by blast
    then have "kernel_ok ?k Q"
      by (intro ok_retable [OF ok]) (use ok_butD(2,7) [OF ok] gt.ins_wf [OF wf i] in \<open>simp_all del: the_queue.simps\<close>)
    then show ?thesis using k' by simp
  qed
qed (use ok in simp)

end
