(* ===== verification/Kernel_Life.thy ===== *)
theory Kernel_Life
  imports Kernel_Ipc Page_Frames
begin

text \<open>How a thread begins and ends (\<open>src/kernel/src/sched.rs\<close>): a control block is retyped from a page of a
  region, endowed and configured while it is an embryo, and started; a thread departs by exit, fault or an
  armed kill, and its supervisor is told.  Then the sweeps that take a capability back from every thread
  of the machine.  A page that could not be had, a kernel stack that could not be built and the address
  space taken from its registry are arguments.\<close>

unbundle bit_operations_syntax


section \<open>Departing\<close>

definition EVENT_FAULT :: u64 where "EVENT_FAULT = 1"

definition EVENT_EXIT :: u64 where "EVENT_EXIT = 2"

definition deliver_death :: "Kernel \<Rightarrow> nat \<Rightarrow> ThreadId \<Rightarrow> RendezvousId \<Rightarrow> u64 list \<Rightarrow> Kernel option" where
  "deliver_death k c corpse ep msg =
     do {
       me \<leftarrow> thread_control_block_ptr k corpse;
       (case rendezvous_of k ep of
          None \<Rightarrow> Some k
        | Some r \<Rightarrow>
            (case send (links k) r me of
               (verdict, h, r) \<Rightarrow>
                 let k = put_rendezvous k ep h r
                 in (case verdict of
                       Send_Rendezvous receiver \<Rightarrow>
                         do { k \<leftarrow> deliver k receiver (\<lambda>t. t\<lparr>mailbox := msg\<rparr>);
                              Some (wake k c receiver) }
                     | Send_Blocked \<Rightarrow>
                         Some (upd_thread k corpse
                           (\<lambda>t. t\<lparr>handshake := (handshake t)\<lparr>wait_on := Some (WaitRendezvous ep RoleSender)\<rparr>\<rparr>))
                     | Send_Refused \<Rightarrow> Some k))) }"

definition depart :: "Kernel \<Rightarrow> nat \<Rightarrow> u64 \<Rightarrow> u64 \<Rightarrow> u64 \<Rightarrow> Kernel option" where
  "depart k c event pc addr =
     (let cur = current_thread_id k c;
          ep = Option.bind (get_thread k cur) fault_ep;
          k = strand_callers_of k c cur
      in (case ep of
            None \<Rightarrow> Some (upd_thread k cur (\<lambda>t. t\<lparr>handshake := (handshake t)\<lparr>state := Finished\<rparr>\<rparr>))
          | Some ep \<Rightarrow>
              let msg = [event, cur, pc, addr, 0];
                  k = upd_thread k cur
                        (\<lambda>t. t\<lparr>fault_msg := Some msg, mailbox := msg, handshake := (handshake t)\<lparr>state := Dead\<rparr>\<rparr>)
              in deliver_death k c cur ep msg))"

definition exit_thread :: "Kernel \<Rightarrow> nat \<Rightarrow> Kernel option" where
  "exit_thread k c = depart k c EVENT_EXIT 0 0"

definition fault_thread :: "Kernel \<Rightarrow> nat \<Rightarrow> u64 \<Rightarrow> u64 \<Rightarrow> Kernel option" where
  "fault_thread k c pc addr = depart k c EVENT_FAULT pc addr"

definition kill_thread :: "Kernel \<Rightarrow> ThreadId \<Rightarrow> bool \<times> Kernel" where
  "kill_thread k tid =
     (case get_thread k tid of
        None \<Rightarrow> (False, k)
      | Some _ \<Rightarrow> (True, upd_thread k tid (\<lambda>t. t\<lparr>killed := True\<rparr>)))"


section \<open>Building and starting\<close>

definition create_thread_control_block :: "Kernel \<Rightarrow> u64 \<Rightarrow> u64 option \<Rightarrow> ThreadId option \<times> Kernel" where
  "create_thread_control_block k region page =
     (case page of
        None \<Rightarrow> (None, k)
      | Some page \<Rightarrow>
          (case insert_with (threads k)
                  (\<lambda>_. (embryo_thread page)\<lparr>thread_control_block_region := Some region\<rparr>) of
             (name, t) \<Rightarrow> (name, k\<lparr>threads := t\<rparr>)))"

text \<open>\<open>configure_thread_control_block\<close> looks under the lock, takes the space from its registry outside it,
  and looks again.\<close>

definition configurable :: "Kernel \<Rightarrow> ThreadId \<Rightarrow> Invoke_Error + unit" where
  "configurable k tid =
     (case get_thread k tid of
        None \<Rightarrow> Inl IeNoSuchSlot
      | Some t \<Rightarrow> if state (handshake t) \<noteq> Embryo then Inl IeWrongObject else Inr ())"

definition configure_thread_control_block ::
    "Kernel \<Rightarrow> ThreadId \<Rightarrow> u64 \<Rightarrow> u64 \<Rightarrow> u64 option \<Rightarrow> (Invoke_Error + unit) \<times> Kernel" where
  "configure_thread_control_block k tid entry_point user_sp taken =
     (case taken of
        None \<Rightarrow> (Inl IeNoSuchSlot, k)
      | Some sp \<Rightarrow>
          (case configurable k tid of
             Inl e \<Rightarrow> (Inl e, k)
           | Inr _ \<Rightarrow> (Inr (), upd_thread k tid (\<lambda>t. t\<lparr>space := Some sp, entry := (entry_point, user_sp)\<rparr>))))"

definition thread_control_block_insert_cap ::
    "Kernel \<Rightarrow> ThreadId \<Rightarrow> Object Cap \<Rightarrow> u64 option \<Rightarrow> (Invoke_Error + u64) \<times> Kernel" where
  "thread_control_block_insert_cap k tid cap target =
     (case get_thread k tid of
        None \<Rightarrow> (Inl IeNoSuchSlot, k)
      | Some t \<Rightarrow>
          if state (handshake t) \<noteq> Embryo then (Inl IeWrongObject, k)
          else
            (case (case target of
                     None \<Rightarrow> insert_cap (capability_table t, cap_peak_seen k) cap
                   | Some s \<Rightarrow> insert_at (capability_table t, cap_peak_seen k) s cap) of
               (Inl _, _) \<Rightarrow> (Inl IeOutOfMemory, k)
             | (Inr landed, cs, seen) \<Rightarrow>
                 (Inr landed,
                  upd_thread (k\<lparr>cap_peak_seen := seen\<rparr>) tid (\<lambda>t. t\<lparr>capability_table := cs\<rparr>))))"

text \<open>\<open>ThreadControlBlock::CAP_INSERT\<close>: the checks are those of \<open>SEND_CAP\<close>; target 0 is the first free slot.\<close>

definition thread_control_block_cap_insert ::
    "Kernel \<Rightarrow> nat \<Rightarrow> ThreadId \<Rightarrow> u64 \<Rightarrow> u64 \<Rightarrow> u64 \<Rightarrow> (Invoke_Error + u64) \<times> Kernel" where
  "thread_control_block_cap_insert k c tid src_slot new_rights target =
     (case delegated_cap k c src_slot new_rights of
        Inl e \<Rightarrow> (Inl e, k)
      | Inr cap \<Rightarrow> thread_control_block_insert_cap k tid cap (if target \<noteq> 0 then Some (target - 1) else None))"

definition FAULT_EP_SLOT :: u64 where "FAULT_EP_SLOT = of_nat CAPABILITY_TABLE_SLOTS - 1"

text \<open>The reserved slot names the supervisor, and is consumed.\<close>

definition adopt_supervisor :: "Thread \<Rightarrow> Thread" where
  "adopt_supervisor t =
     (case get (capability_table t) FAULT_EP_SLOT of
        Inl _ \<Rightarrow> t
      | Inr fault_cap \<Rightarrow>
          (case object fault_cap of
             ObRendezvous ep _ \<Rightarrow>
               t\<lparr>fault_ep := Some ep,
                 capability_table := fst (snd (delete (capability_table t, 0) FAULT_EP_SLOT))\<rparr>
           | _ \<Rightarrow> t))"

definition start_thread_control_block ::
    "Kernel \<Rightarrow> nat \<Rightarrow> ThreadId \<Rightarrow> u64 list \<Rightarrow> bool \<Rightarrow> ((Invoke_Error + unit) \<times> Kernel) option" where
  "start_thread_control_block k c tid args stack =
     (case get_thread k tid of
        None \<Rightarrow> Some (Inl IeNoSuchSlot, k)
      | Some t \<Rightarrow>
          if state (handshake t) \<noteq> Embryo then Some (Inl IeWrongObject, k)
          else if space t = None \<or> fst (entry t) = 0 then Some (Inl IeNotPermitted, k)
          else
            let k = upd_thread k tid (\<lambda>t. (adopt_supervisor t)\<lparr>start_args := args\<rparr>)
            in if \<not> stack then Some (Inl IeOutOfMemory, k)
               else
                 let k = upd_thread k tid (\<lambda>t. t\<lparr>handshake := (handshake t)\<lparr>state := Ready\<rparr>\<rparr>);
                     (target, k) = pick_spawn_target k c;
                     k = upd_thread k tid (\<lambda>t. t\<lparr>placement := of_nat target\<rparr>)
                 in do { ptr \<leftarrow> thread_control_block_ptr k tid;
                         (remote, k) \<leftarrow> place_on k c target ptr;
                         Some (Inr (), owe remote k) })"

text \<open>The kernel's own endowment of the running thread.\<close>

definition grant :: "Kernel \<Rightarrow> nat \<Rightarrow> Object Cap \<Rightarrow> (Error + u64) \<times> Kernel" where
  "grant k c cap =
     (let cur = current_thread_id k c
      in case get_thread k cur of
           None \<Rightarrow> (Inl NoFreeSlot, k)
         | Some t \<Rightarrow>
             (case insert_cap (capability_table t, cap_peak_seen k) cap of
                (r, cs, seen) \<Rightarrow>
                  (r, upd_thread (k\<lparr>cap_peak_seen := seen\<rparr>) cur (\<lambda>t. t\<lparr>capability_table := cs\<rparr>))))"

definition grant_at :: "Kernel \<Rightarrow> nat \<Rightarrow> u64 \<Rightarrow> Object Cap \<Rightarrow> (Error + u64) \<times> Kernel" where
  "grant_at k c s cap =
     (let cur = current_thread_id k c
      in case get_thread k cur of
           None \<Rightarrow> (Inl NoFreeSlot, k)
         | Some t \<Rightarrow>
             (case insert_at (capability_table t, cap_peak_seen k) s cap of
                (r, cs, seen) \<Rightarrow>
                  (r, upd_thread (k\<lparr>cap_peak_seen := seen\<rparr>) cur (\<lambda>t. t\<lparr>capability_table := cs\<rparr>))))"


section \<open>Supervision\<close>

definition SURVEY_DONE :: u64 where "SURVEY_DONE = 0"
definition SURVEY_READY :: u64 where "SURVEY_READY = 1"
definition SURVEY_RUNNING :: u64 where "SURVEY_RUNNING = 2"
definition SURVEY_BLOCKED :: u64 where "SURVEY_BLOCKED = 3"
definition SURVEY_DEAD :: u64 where "SURVEY_DEAD = 4"
definition RECORD_STATE :: u64 where "RECORD_STATE = 0"
definition RECORD_PLACEMENT :: u64 where "RECORD_PLACEMENT = 1"
definition RECORD_NO_CPU :: u64 where "RECORD_NO_CPU = - 1"
definition RECORD_CPU_TIME :: u64 where "RECORD_CPU_TIME = 2"

definition record_is_known :: "u64 \<Rightarrow> bool" where
  "record_is_known r \<longleftrightarrow> r = RECORD_STATE \<or> r = RECORD_PLACEMENT \<or> r = RECORD_CPU_TIME"

definition survey_placement :: "u8 \<Rightarrow> u64" where
  "survey_placement p = (if p = - 1 then RECORD_NO_CPU else ucast p)"

fun survey_state :: "RunState \<Rightarrow> u64" where
  "survey_state Embryo = SURVEY_READY"
| "survey_state Ready = SURVEY_READY"
| "survey_state Running = SURVEY_RUNNING"
| "survey_state Blocked = SURVEY_BLOCKED"
| "survey_state Finished = SURVEY_DEAD"
| "survey_state Dead = SURVEY_DEAD"

text \<open>The ticks charged to a slot are kept beside the table; \<open>cpu_time\<close> is what they come to.\<close>

definition survey_supervised ::
    "(nat \<Rightarrow> u64) \<Rightarrow> Kernel \<Rightarrow> RendezvousId \<Rightarrow> u64 \<Rightarrow> u64 \<Rightarrow> Invoke_Error + u64 \<times> u64 \<times> u64" where
  "survey_supervised cpu_time k ep cursor rec =
     (if \<not> record_is_known rec then Inl IeBadMethod
      else (case List.find (\<lambda>(_, _, t). survey_includes (fault_ep t) ep) (iter_from (threads k) (unat cursor)) of
              None \<Rightarrow> Inr (SURVEY_DONE, 0, 0)
            | Some (i, tid, t) \<Rightarrow>
                Inr (of_nat i + 1, tid,
                     if rec = RECORD_STATE then survey_state (state (handshake t))
                     else if rec = RECORD_PLACEMENT then survey_placement (placement t)
                     else cpu_time i)))"

text \<open>The part of \<open>reap_supervised\<close> under the lock: who may be collected, and which region is to be reclaimed.\<close>

definition reap_supervised :: "Kernel \<Rightarrow> RendezvousId \<Rightarrow> ThreadId \<Rightarrow> Invoke_Error + u64" where
  "reap_supervised k ep tid =
     (let t = get_thread k tid;
          supervisor = Option.bind t fault_ep;
          is_dead = (case t of None \<Rightarrow> False | Some t \<Rightarrow> state (handshake t) = Dead)
      in (case reap_decision supervisor ep is_dead of
            NotSupervised \<Rightarrow> Inl IeNotSupervised
          | StillAlive \<Rightarrow> Inl IeStillAlive
          | Permitted \<Rightarrow>
              (case Option.bind t thread_control_block_region of
                 None \<Rightarrow> Inl IeNotSupervised
               | Some region \<Rightarrow> Inr region)))"


section \<open>Taking a capability back from every thread\<close>

text \<open>\<open>delete_page_frame_caps_where\<close>: every slot of every table, and the hand-off slot.\<close>

definition drop_caps_where :: "(Object \<Rightarrow> bool) \<Rightarrow> Thread \<Rightarrow> Thread" where
  "drop_caps_where matches t =
     (let t = t\<lparr>capability_table := fst (delete_matching (capability_table t, 0) matches)\<rparr>
      in case outgoing_cap t of
           Some cap \<Rightarrow> if matches (object cap) then t\<lparr>outgoing_cap := None\<rparr> else t
         | None \<Rightarrow> t)"

definition map_threads :: "(ThreadId \<Rightarrow> Thread \<Rightarrow> Thread) \<Rightarrow> Kernel \<Rightarrow> Kernel" where
  "map_threads f k = fold (\<lambda>(name, _) k. upd_thread k name (f name)) (gt_iter (threads k)) k"

definition delete_page_frame_caps_where :: "(Object \<Rightarrow> bool) \<Rightarrow> Kernel \<Rightarrow> Kernel" where
  "delete_page_frame_caps_where matches k = map_threads (\<lambda>_. drop_caps_where matches) k"

definition delete_page_frame_caps :: "Kernel \<Rightarrow> u64 \<Rightarrow> u64 \<Rightarrow> Kernel" where
  "delete_page_frame_caps k phys n =
     (if n = 0 then k else delete_page_frame_caps_where (\<lambda>ob. ob = ObPageFrame phys n) k)"

definition run_overlaps :: "u64 \<Rightarrow> u64 \<Rightarrow> Object \<Rightarrow> bool" where
  "run_overlaps base len ob =
     (case ob of
        ObPageFrame phys n \<Rightarrow>
          phys < saturating_add base len \<and> base < saturating_add phys (saturating_mul n FRAME_SIZE)
      | _ \<Rightarrow> False)"

definition delete_page_frame_caps_overlapping :: "Kernel \<Rightarrow> u64 \<Rightarrow> u64 \<Rightarrow> Kernel" where
  "delete_page_frame_caps_overlapping k base len = delete_page_frame_caps_where (run_overlaps base len) k"

text \<open>The walk slot by slot that the device sweep makes.\<close>

definition drop_object :: "Object \<Rightarrow> Thread \<Rightarrow> Thread" where
  "drop_object target t =
     (let t = t\<lparr>capability_table :=
            fst (fold (get_then_delete (\<lambda>ob. ob = target)) [0..<capacity (capability_table t)] (capability_table t, 0))\<rparr>
      in if map_option object (outgoing_cap t) = Some target then t\<lparr>outgoing_cap := None\<rparr> else t)"

definition delete_device_frame_caps_from_others :: "Kernel \<Rightarrow> nat \<Rightarrow> u64 \<Rightarrow> Kernel" where
  "delete_device_frame_caps_from_others k c phys =
     (let keeper = current_thread_id k c
      in map_threads (\<lambda>tid t. if tid = keeper then t else drop_object (ObDeviceFrame phys) t) k)"

end
