(* ===== verification/Kernel_Life_Inv.thy ===== *)
theory Kernel_Life_Inv
  imports Kernel_Note_Inv Kernel_Life
begin

text \<open>The invariant through a thread's life: departure with its death message, the armed kill, the embryo's
  creation, endowment and start, and the sweeps of capabilities.\<close>


section \<open>Departure\<close>

definition departs :: "Kernel \<Rightarrow> nat \<Rightarrow> bool" where
  "departs k c \<longleftrightarrow> settled k c \<and> current (percpu k ! c) \<noteq> idle (percpu k ! c)"

lemma departing_thread:
  assumes ok: "kernel_ok k Q" and d: "departs k c" and t: "t = current (percpu k ! c)"
  obtains th where "get_thread k t = Some th" and "thread_ok t th {} {c} {} {} {}"
    and "cur_on k t = {c}" "out_on k t = {}" "idle_on k t = {}" "places Q t = {}" "holders k t = {}"
      "state (handshake th) = Running" "\<not> resuming th" "replying th = None" "outgoing_cap th = None"
proof -
  have c: "c < length (percpu k)" "current (percpu k ! c) \<noteq> NO_TID" "t \<noteq> idle (percpu k ! c)"
    using d t by (auto simp: departs_def settled_def)
  obtain th where th: "get_thread k t = Some th" "thread_ok t th (places Q t) {c} {} (idle_on k t) (holders k t)"
    "cur_on k t = {c}" "out_on k t = {}" "idle_on k t \<subseteq> {c}"
    using current_thread [OF ok c(1,2) empty_iff [THEN iffD1, THEN notI]] unfolding t .
  have run: "state (handshake th) = Running" "\<not> resuming th" "replying th = None"
    using d th(1) t by (auto simp: departs_def settled_def)
  have "idle_on k t = {}" using th(5) c(3) by (auto simp: idle_on_def)
  moreover have "places Q t = {}" "holders k t = {}" "outgoing_cap th = None"
    using th(2) run(1) by (auto simp: thread_ok_def place_ok_def held_ok_def sends_ok_def split: option.splits)
  ultimately show ?thesis using that [of th] th run by simp
qed

lemma fold_drop_outgoing: "outgoing_cap th = None \<Longrightarrow> outgoing_cap (fold drop_reply_caps us th) = None"
  by (induction us arbitrary: th) simp_all

text \<open>The corpse is dead and queued nowhere when its message is sent.\<close>

lemma dead_thread_ok:
  assumes "thread_ok t th {} {c} {} {} {}" and "state (handshake th) = Dead" "fault_ep th = Some ep" "P \<subseteq> {SendersOf ep}"
  shows "thread_ok t (th\<lparr>handshake := (handshake th)\<lparr>wait_on := w\<rparr>\<rparr>) P {c} {} {} {}"
  using assms
  by (auto simp: thread_ok_def stands_ok_def wait_ok_def place_ok_def sends_ok_def caps_ok_def table_ok_def held_ok_def resume_ok_def
      awaits_reply_def split: option.splits)

lemma ok_deliver_death:
  assumes ok: "kernel_ok k Q" and th: "get_thread k t = Some th" "state (handshake th) = Dead" "fault_ep th = Some ep"
    and tok: "thread_ok t th {} {c} {} {} {}" and P: "places Q t = {}"
    and v: "cur_on k t = {c}" "out_on k t = {}" "idle_on k t = {}" "holders k t = {}" and msg: "length msg = 5"
    and c: "c < length (percpu k)" "current (percpu k ! c) \<noteq> NO_TID"
  shows "\<exists>k' Q'. deliver_death k c t ep msg = Some k' \<and> kernel_ok k' Q'"
proof (cases "rendezvous_of k ep")
  case None
  then show ?thesis using ok th(1) by (auto simp: deliver_death_def thread_control_block_ptr_def)
next
  case (Some r)
  obtain v' h r' where sent: "send (links k) r t = (v', h, r')" by (cases "send (links k) r t") auto
  let ?k = "put_rendezvous k ep h r'" and ?f = "\<lambda>t :: Thread. t\<lparr>mailbox := msg\<rparr>"
  have ok0: "ok_but {t} {} k Q" by (rule ok_but_mono [OF ok]) auto
  note s = ok_send [OF ok0 Some _ P sent, simplified]
  have ptr: "thread_control_block_ptr k t = Some t" using th(1) by (simp add: thread_control_block_ptr_def)
  note eval = deliver_death_def ptr Some sent
  show ?thesis
  proof (cases v')
    case Send_Refused
    then have "kernel_ok ?k Q" using s ok_put_unchanged [OF _ ok] by simp
    then show ?thesis using Send_Refused by (auto simp: eval)
  next
    case Send_Blocked
    let ?Q = "Q(SendersOf ep := Q (SendersOf ep) @ [t])"
    let ?g = "\<lambda>t :: Thread. t\<lparr>handshake := (handshake t)\<lparr>wait_on := Some (WaitRendezvous ep RoleSender)\<rparr>\<rparr>"
    have ok1: "ok_but {t} {} ?k ?Q" using s Send_Blocked by simp
    then have ok2: "ok_but {t} {} (upd_thread ?k t ?g) ?Q" by (rule ok_upd_thread) auto
    have "kernel_ok (upd_thread ?k t ?g) ?Q"
    proof (rule ok_close_at [OF ok2 subset_refl, of ?k])
      show "get_thread (upd_thread ?k t ?g) t = Some (?g th)" using th(1) ok_butD(6) [OF ok1] by simp
      have "holders (upd_thread ?k t ?g) = holders ?k" by (rule holders_upd_thread [OF ok_butD(6) [OF ok1]]) simp
      then show "thread_ok t (?g th) (places ?Q t) (cur_on ?k t) (out_on ?k t) (idle_on ?k t) (holders (upd_thread ?k t ?g) t)"
        using dead_thread_ok [OF tok th(2,3)] v P by (simp add: places_push)
    qed simp
    then show ?thesis using Send_Blocked by (auto simp: eval)
  next
    case (Send_Rendezvous u)
    then obtain Q1 where q: "took (ReceiversOf ep) u Q Q1" "ok_but {u, t} {} ?k Q1" using s by auto
    obtain thu where u: "get_thread k u = Some thu"
      "thread_ok u thu {ReceiversOf ep} (cur_on k u) (out_on k u) (idle_on k u) (holders k u)" "u \<noteq> t" "places Q1 u = {}" "places Q1 t = {}"
      using took_thread [OF ok0 q(1) P] .
    have w: "wakeable ((?f thu)\<lparr>handshake := serve (handshake thu)\<rparr>) (cur_on ?k u) (out_on ?k u) (idle_on ?k u) (holders ?k u)"
      using wakeable_served [OF u(2), where ep = ep] table_okI [OF thread_okD(8) [OF u(2)]] served_holders [OF u(2)] msg by simp
    have k: "c < length (percpu ?k)" "current (percpu ?k ! c) \<noteq> NO_TID" "live_replies (?f thu) = live_replies thu"
      "get_thread ?k u = Some thu" using c u(1) by simp_all
    obtain k1 Q' where d: "deliver ?k u ?f = Some k1" "ok_but {t} {} (wake k1 c u) Q'" "same_cores ?k (wake k1 c u)"
      "get_thread (wake k1 c u) t = get_thread ?k t" "holders (wake k1 c u) = holders ?k" "places Q' t = places Q1 t"
      using ok_serve_other [where f = ?f, OF q(2) k(4) u(3,4) w k(3,1,2)] .
    have "kernel_ok (wake k1 c u) Q'"
      by (rule ok_close_at [OF d(2) subset_refl d(3)]) (use d th tok v u(5) in simp_all)
    then show ?thesis using Send_Rendezvous d(1) by (auto simp: eval)
  qed
qed

lemma ok_depart:
  assumes ok: "kernel_ok k Q" and dep: "departs k c"
  shows "\<exists>k' Q'. depart k c event pc addr = Some k' \<and> kernel_ok k' Q'"
proof -
  define t where "t = current (percpu k ! c)"
  obtain th where th: "get_thread k t = Some th" "thread_ok t th {} {c} {} {} {}"
    and v: "cur_on k t = {c}" "out_on k t = {}" "idle_on k t = {}" "places Q t = {}" "holders k t = {}"
      "state (handshake th) = Running" "\<not> resuming th" "replying th = None" "outgoing_cap th = None"
    using departing_thread [OF ok dep t_def] .
  have c: "c < length (percpu k)" "current (percpu k ! c) \<noteq> NO_TID" using dep by (auto simp: departs_def settled_def)
  have cur: "current_thread_id k c = t" by (simp add: current_thread_id_def cpu_of_def t_def)
  have own: "reply_slots (capability_table th) t = {}"
    using v(5) th(1) v(8) by (fastforce simp: holders_def live_replies_def)
  have ok0: "ok_but {t} {} k Q" by (rule ok_but_mono [OF ok]) auto
  let ?k = "strand_callers_of k c t"
  obtain Q' vs where q: "ok_but {t} {} ?k Q'" "same_cores k ?k" "get_thread ?k t = Some (fold drop_reply_caps vs th)"
    "places Q' t = places Q t" "\<forall>u. reply_slots (capability_table (fold drop_reply_caps vs th)) u = {}"
    "\<forall>v. holders ?k v \<subseteq> holders k v"
    using ok_strand_callers_of [OF ok0 th(1) thread_okD(8) [OF th(2)] own v(8) c] .
  let ?th = "fold drop_reply_caps vs th"
  note sc = same_coresD [OF q(2)]
  have tab: "table_ok ?th" by (rule table_ok_fold_drop [OF thread_okD(8) [OF th(2)]])
  have H: "\<not> wake_pending (handshake th)" "wait_on (handshake th) = None" "on_cpu (handshake th)"
    using th(2) v(6) by (auto simp: thread_ok_def wait_ok_def stands_ok_def)
  have gone: "thread_ok t (g ?th) {} {c} {} {} {}"
    if g: "handshake (g ?th) = (handshake ?th)\<lparr>state := s\<rparr>" "s = Finished \<or> s = Dead" "capability_table (g ?th) = capability_table ?th"
      "length (mailbox (g ?th)) = 5" "outgoing_cap (g ?th) = outgoing_cap ?th" "replying (g ?th) = replying ?th" for g s
  proof -
    have "outgoing_cap ?th = None" by (rule fold_drop_outgoing [OF v(9)])
    then show ?thesis
      using g H q(5) v(8) table_okI [OF tab g(3,4)]
      by (auto simp: thread_ok_def stands_ok_def wait_ok_def place_ok_def sends_ok_def held_ok_def resume_ok_def caps_ok_def fold_drop_fields)
  qed
  have close: "kernel_ok (upd_thread ?k t g) Q' \<and> get_thread (upd_thread ?k t g) t = Some (g ?th)
      \<and> holders (upd_thread ?k t g) t = {}"
    if g: "thread_ok t (g ?th) {} {c} {} {} {}" "live_replies (g ?th) = live_replies ?th" for g
  proof -
    have ok1: "ok_but {t} {} (upd_thread ?k t g) Q'" by (rule ok_upd_thread [OF q(1)]) (use g(2) q(3) in auto)
    have get: "get_thread (upd_thread ?k t g) t = Some (g ?th)" using q(3) ok_butD(6) [OF q(1)] by simp
    have "holders (upd_thread ?k t g) = holders ?k"
      by (rule holders_upd_thread [OF ok_butD(6) [OF q(1)]]) (use g(2) q(3) in auto)
    then have "holders (upd_thread ?k t g) t = {}" using q(6) v(5) by auto
    with get show ?thesis using ok_close_at [OF ok1 subset_refl, of k] g(1) q(2,4) v sc same_cores_trans [OF q(2) same_cores_upd_thread]
      by simp
  qed
  show ?thesis
  proof (cases "fault_ep th")
    case None
    let ?g = "\<lambda>t :: Thread. t\<lparr>handshake := (handshake t)\<lparr>state := Finished\<rparr>\<rparr>"
    have "kernel_ok (upd_thread ?k t ?g) Q'"
      using close [of ?g] gone [of ?g Finished] thread_okD(8) [OF th(2)] tab by (simp add: table_ok_def)
    then show ?thesis using th(1) None by (auto simp: depart_def cur)
  next
    case (Some ep)
    let ?msg = "[event, t, pc, addr, 0]"
    let ?g = "\<lambda>t :: Thread. t\<lparr>fault_msg := Some ?msg, mailbox := ?msg, handshake := (handshake t)\<lparr>state := Dead\<rparr>\<rparr>"
    let ?k2 = "upd_thread ?k t ?g"
    have tok: "thread_ok t (?g ?th) {} {c} {} {} {}" using gone [of ?g Dead] by simp
    have ok2: "kernel_ok ?k2 Q'" "get_thread ?k2 t = Some (?g ?th)" "holders ?k2 t = {}" using close [where g = ?g, OF tok] by simp_all
    have "\<exists>k' Q'. deliver_death ?k2 c t ep ?msg = Some k' \<and> kernel_ok k' Q'"
      by (rule ok_deliver_death [OF ok2(1,2) _ _ tok])
         (use Some ok2(3) q(4) v sc c in \<open>simp_all add: fold_drop_fields\<close>)
    then show ?thesis using th(1) Some by (simp add: depart_def cur Let_def)
  qed
qed

text \<open>The kill is armed on any thread but an idle one, and only later acted on.\<close>

lemma thread_ok_killed: "thread_ok t th P C S {} H \<Longrightarrow> thread_ok t (th\<lparr>killed := b\<rparr>) P C S {} H"
  unfolding thread_ok_def stands_ok_def place_ok_def sends_ok_def caps_ok_def held_ok_def resume_ok_def awaits_reply_def
  by (cases "state (handshake th)"; cases "outgoing_cap th"; auto simp: table_ok_cong [of "th\<lparr>killed := b\<rparr>" th])

lemma place_ok_cong:
  assumes "place_ok th P C S I" and "handshake th' = handshake th" "killed th' = killed th" "fault_ep th' = fault_ep th"
  shows "place_ok th' P C S I"
  using assms(1) unfolding place_ok_def assms(2-4) .

lemma ok_edit:
  assumes ok: "kernel_ok k Q" and th: "get_thread k t = Some th" and live: "live_replies (f th) = live_replies th"
    and tok: "thread_ok t (f th) (places Q t) (cur_on k t) (out_on k t) (idle_on k t) (holders k t)"
  shows "kernel_ok (upd_thread k t f) Q"
  by (rule ok_shrink_caps [where f = f, OF ok th _ tok]) (simp add: live)

lemma ok_kill_thread:
  assumes ok: "kernel_ok k Q" and idle: "idle_on k t = {}"
  shows "kernel_ok (snd (kill_thread k t)) Q"
proof (cases "get_thread k t")
  case (Some th)
  have "thread_ok t th (places Q t) (cur_on k t) (out_on k t) {} (holders k t)"
    using ok_but_good [OF ok _ Some] idle by simp
  then have "kernel_ok (upd_thread k t (\<lambda>t. t\<lparr>killed := True\<rparr>)) Q"
    using ok_edit [OF ok Some, where f = "\<lambda>t. t\<lparr>killed := True\<rparr>"] thread_ok_killed idle by simp
  then show ?thesis using Some by (simp add: kill_thread_def)
qed (simp add: kill_thread_def ok)


section \<open>Capabilities other than replies\<close>

text \<open>A table edit that leaves every reply capability where it is.\<close>

definition same_replies :: "Object CapabilityTable \<Rightarrow> Object CapabilityTable \<Rightarrow> bool" where
  "same_replies cs cs' \<longleftrightarrow> (\<forall>i cap u. object cap = ObReply u \<longrightarrow> (slot cs' i = Some cap \<longleftrightarrow> slot cs i = Some cap))"

lemma same_replies_slots: "same_replies cs cs' \<Longrightarrow> reply_slots cs' u = reply_slots cs u"
  by (auto simp: same_replies_def reply_slots_def)

lemma same_replies_live:
  "same_replies (capability_table th) cs \<Longrightarrow> live_replies (th\<lparr>capability_table := cs\<rparr>) = live_replies th"
  by (simp add: live_replies_def same_replies_slots fun_eq_iff)

lemma thread_ok_table:
  assumes tok: "thread_ok t th P C S I H" and same: "same_replies (capability_table th) cs" and wf: "table_wf cs"
  shows "thread_ok t (th\<lparr>capability_table := cs\<rparr>) P C S I H"
proof (rule thread_ok_recap [OF tok])
  have "table_ok (th\<lparr>capability_table := cs\<rparr>)"
    using thread_okD(8) [OF tok] same wf unfolding table_ok_def same_replies_def by simp blast
  then show "caps_ok (th\<lparr>capability_table := cs\<rparr>)"
    using thread_okD(5) [OF tok] same_replies_slots [OF same] by (simp add: caps_ok_def)
qed simp_all

lemma ok_table:
  assumes ok: "kernel_ok k Q" and th: "get_thread k t = Some th" and same: "same_replies (capability_table th) cs" and wf: "table_wf cs"
  shows "kernel_ok (upd_thread (k\<lparr>cap_peak_seen := seen\<rparr>) t (\<lambda>t. t\<lparr>capability_table := cs\<rparr>)) Q"
proof (rule ok_edit [OF ok_seen [OF ok]])
  show "get_thread (k\<lparr>cap_peak_seen := seen\<rparr>) t = Some th" using th by simp
  show "live_replies (th\<lparr>capability_table := cs\<rparr>) = live_replies th" by (rule same_replies_live [OF same])
qed (use thread_ok_table [OF ok_but_good [OF ok _ th] same wf] same_coresD(7-9) [OF seen_fields(3)] in simp)

lemma same_replies_fill:
  "slot cs' = (slot cs)(i := Some cap) \<Longrightarrow> slot cs i = None \<Longrightarrow> \<forall>u. object cap \<noteq> ObReply u \<Longrightarrow> same_replies cs cs'"
  by (auto simp: same_replies_def)

lemma insert_plain:
  assumes wf: "table_wf cs" and plain: "\<forall>u. object cap \<noteq> ObReply u"
    and ins: "insert_cap (cs, seen) cap = (r, cs', seen') \<or> insert_at (cs, seen) s cap = (r, cs', seen')"
  shows "same_replies cs cs' \<and> table_wf cs'"
  using ins
proof
  assume i: "insert_cap (cs, seen) cap = (r, cs', seen')"
  show ?thesis
    using insert_cap_table [OF wf i] same_replies_fill [of cs' cs _ cap] plain by (cases r) (simp_all add: same_replies_def)
next
  assume i: "insert_at (cs, seen) s cap = (r, cs', seen')"
  show ?thesis
  proof (cases "s \<ge> of_nat (capacity cs) \<or> slot cs (unat s) \<noteq> None")
    case True
    then show ?thesis using i wf by (auto simp: insert_at_def same_replies_def split: if_splits)
  next
    case False
    then have cs': "cs' = fst (snd (fill (cs, seen) (unat s) cap))" using i by (simp add: insert_at_def)
    have "capacity cs \<le> 32" using table_wfD(1) [OF wf] by (simp add: MAX_SLOTS_def)
    then have "unat s < capacity cs" using False by (simp add: word_le_nat_alt unat_of_nat)
    then have "slot cs' = (slot cs)(unat s := Some cap)" by (simp add: cs' fun_eq_iff)
    moreover have "table_wf cs'" using table_wf_fill [of "(cs, seen)" "unat s" cap] wf by (simp add: cs')
    ultimately show ?thesis using same_replies_fill [OF _ _ plain] False by blast
  qed
qed

lemma ok_grant:
  assumes ok: "kernel_ok k Q" and plain: "\<forall>u. object cap \<noteq> ObReply u"
  shows "kernel_ok (snd (grant k c cap)) Q" "kernel_ok (snd (grant_at k c s cap)) Q"
proof -
  let ?t = "current_thread_id k c"
  have ins: "kernel_ok (upd_thread (k\<lparr>cap_peak_seen := seen\<rparr>) ?t (\<lambda>t. t\<lparr>capability_table := cs\<rparr>)) Q"
    if "get_thread k ?t = Some th" "insert_cap (capability_table th, cap_peak_seen k) cap = (r, cs, seen)
      \<or> insert_at (capability_table th, cap_peak_seen k) s cap = (r, cs, seen)" for th r cs seen
    using ok_table [OF ok that(1)] insert_plain [OF _ plain that(2)]
      table_okD(1) [OF thread_okD(8) [OF ok_but_good [OF ok _ that(1)]]] by blast
  show "kernel_ok (snd (grant k c cap)) Q" using ok ins by (auto simp: grant_def Let_def split: option.split prod.split)
  show "kernel_ok (snd (grant_at k c s cap)) Q" using ok ins by (auto simp: grant_at_def Let_def split: option.split prod.split)
qed


section \<open>Embryos\<close>

lemma embryo_thread_ok:
  "thread_ok t ((embryo_thread page)\<lparr>thread_control_block_region := r\<rparr>) {} {} {} {} {}"
proof -
  have "caps_ok ((embryo_thread page)\<lparr>thread_control_block_region := r\<rparr>)"
    using new_thread_caps(1) [of embryo page]
    by (intro caps_okI table_okI [OF table_okD(2) [OF new_thread_caps(1) [of embryo page]]])
       (simp_all add: embryo_thread_def new_thread_def embryo_def)
  then show ?thesis
    by (simp add: thread_ok_def stands_ok_def wait_ok_def place_ok_def sends_ok_def held_ok_def resume_ok_def
        embryo_thread_def new_thread_def embryo_def)
qed

lemma ok_create_thread_control_block:
  assumes ok: "kernel_ok k Q"
  shows "kernel_ok (snd (create_thread_control_block k region page)) Q"
proof (cases page)
  case None
  then show ?thesis using ok by (simp add: create_thread_control_block_def)
next
  case (Some p)
  let ?b = "\<lambda>_ :: u64. (embryo_thread p)\<lparr>thread_control_block_region := Some region\<rparr>"
  obtain r T where ins: "insert_with (threads k) ?b = (r, T)" by (cases "insert_with (threads k) ?b")
  show ?thesis
  proof (cases r)
    case None
    then have "T = threads k" using ins insert_with_cases [OF ok_butD(6) [OF ok], of ?b] by auto
    then show ?thesis using Some ins None ok by (simp add: create_thread_control_block_def)
  next
    case (Some t)
    have ins': "insert_with (threads k) ?b = (Some t, T)" using ins Some by simp
    have ok0: "ok_but {t} {} k Q" by (rule ok_but_mono [OF ok]) auto
    have live: "live_replies (?b t) u = {}" for u
      using new_thread_caps(2) [of embryo p u] by (simp add: live_replies_def embryo_thread_def)
    note i = ok_insert_thread [OF ok0 ins' singletonI live]
    note fresh = fresh_views [OF ok i(3,4)]
    have "kernel_ok (k\<lparr>threads := T\<rparr>) Q"
      by (rule ok_close_at [OF i(1) subset_refl, of k])
         (use i fresh embryo_thread_ok in \<open>simp_all add: same_cores_def\<close>)
    then show ?thesis using \<open>page = Some p\<close> ins' by (simp add: create_thread_control_block_def)
  qed
qed

lemma embryo_views:
  assumes ok: "kernel_ok k Q" and th: "get_thread k t = Some th" "state (handshake th) = Embryo"
  shows "thread_ok t th {} {} {} {} {}" "places Q t = {}" "cur_on k t = {}" "out_on k t = {}" "idle_on k t = {}" "holders k t = {}"
    "outgoing_cap th = None" "\<not> resuming th" "replying th = None" "t \<noteq> NO_TID"
proof -
  note tok = ok_but_good [OF ok _ th(1), simplified]
  show "places Q t = {}" "cur_on k t = {}" "out_on k t = {}" "idle_on k t = {}" "holders k t = {}"
    using tok th(2) by (auto simp: thread_ok_def place_ok_def held_ok_def)
  with tok show "thread_ok t th {} {} {} {} {}" by simp
  show "outgoing_cap th = None" "\<not> resuming th" "replying th = None"
    using tok th(2) by (auto simp: thread_ok_def sends_ok_def resume_ok_def split: option.splits)
  show "t \<noteq> NO_TID" using get_thread_NO_TID [OF ok_butD(6) [OF ok]] th(1) by auto
qed

lemma ok_configure:
  assumes ok: "kernel_ok k Q"
  shows "kernel_ok (snd (configure_thread_control_block k t e sp taken)) Q"
proof -
  have "kernel_ok (upd_thread k t (\<lambda>t. t\<lparr>space := x, entry := y\<rparr>)) Q" if th: "get_thread k t = Some th" for th x y
  proof (rule ok_edit [where f = "\<lambda>t. t\<lparr>space := x, entry := y\<rparr>", OF ok th])
    show "live_replies (th\<lparr>space := x, entry := y\<rparr>) = live_replies th" by (rule live_replies_cong) simp_all
    show "thread_ok t (th\<lparr>space := x, entry := y\<rparr>) (places Q t) (cur_on k t) (out_on k t) (idle_on k t) (holders k t)"
      by (intro thread_ok_recap [OF ok_but_good [OF ok _ th]] caps_ok_cong [OF thread_okD(5) [OF ok_but_good [OF ok _ th]]]) simp_all
  qed
  then show ?thesis
    using ok by (auto simp: configure_thread_control_block_def configurable_def split: option.splits sum.splits if_splits)
qed

lemma ok_insert_cap_embryo:
  assumes ok: "kernel_ok k Q" and plain: "\<forall>u. object cap \<noteq> ObReply u"
  shows "kernel_ok (snd (thread_control_block_insert_cap k t cap target)) Q"
proof (cases "get_thread k t")
  case (Some th)
  let ?ins = "case target of None \<Rightarrow> insert_cap (capability_table th, cap_peak_seen k) cap
    | Some s \<Rightarrow> insert_at (capability_table th, cap_peak_seen k) s cap"
  obtain r cs seen where ins: "?ins = (r, cs, seen)" by (cases ?ins)
  have wf: "table_wf (capability_table th)" by (rule table_okD(1) [OF thread_okD(8) [OF ok_but_good [OF ok _ Some]]]) simp
  have "insert_cap (capability_table th, cap_peak_seen k) cap = (r, cs, seen)
      \<or> insert_at (capability_table th, cap_peak_seen k) (the target) cap = (r, cs, seen)"
    using ins by (cases target) auto
  then have "same_replies (capability_table th) cs \<and> table_wf cs" by (rule insert_plain [OF wf plain])
  then have "kernel_ok (upd_thread (k\<lparr>cap_peak_seen := seen\<rparr>) t (\<lambda>t. t\<lparr>capability_table := cs\<rparr>)) Q"
    using ok_table [OF ok Some] by blast
  then show ?thesis using ok Some ins by (cases r) (auto simp: thread_control_block_insert_cap_def)
qed (simp add: thread_control_block_insert_cap_def ok)

lemma reply_rights:
  "table_ok th \<Longrightarrow> slot (capability_table th) i = Some cap \<Longrightarrow> object cap = ObReply u \<Longrightarrow> rights cap = RIGHTS_WRITE"
  unfolding table_ok_def by blast

text \<open>A reply capability carries no right to pass it on, so it is never what is delegated.\<close>

lemma delegated_not_reply:
  assumes ok: "kernel_ok k Q" and d: "delegated_cap k c s r = Inr cap"
  shows "object cap \<noteq> ObReply u"
proof
  assume reply: "object cap = ObReply u"
  obtain th src where th: "get_thread k (current_thread_id k c) = Some th" "get (capability_table th) s = Inr src"
    and src: "allows (rights src) RIGHTS_GRANT" "object cap = object src"
    using d by (auto simp: delegated_cap_def current_cap_def Let_def split: sum.splits option.splits if_splits)
  have "slot (capability_table th) (unat s) = Some src" using th(2) by (auto simp: get_def split: option.splits)
  then have "rights src = RIGHTS_WRITE"
    using reply_rights [OF thread_okD(8) [OF ok_but_good [OF ok _ th(1)]]] src(2) reply by (metis empty_iff)
  then show False using src(1) by (simp add: allows_def RIGHTS_WRITE_def RIGHTS_GRANT_def)
qed

lemma ok_cap_insert:
  assumes ok: "kernel_ok k Q"
  shows "kernel_ok (snd (thread_control_block_cap_insert k c t s r target)) Q"
  using ok_insert_cap_embryo [OF ok] delegated_not_reply [OF ok] ok
  by (auto simp: thread_control_block_cap_insert_def split: sum.splits)


section \<open>Start\<close>

lemma embryo_ok:
  assumes tok: "thread_ok t th {} {} {} {} {}" and e: "state (handshake th) = Embryo"
    and th': "handshake th' = (handshake th)\<lparr>state := s\<rparr>" "capability_table th' = cs" "mailbox th' = mailbox th"
      "outgoing_cap th' = None" "\<not> resuming th'" "replying th' = None"
    and cs: "same_replies (capability_table th) cs" "table_wf cs"
    and s: "s = Embryo \<and> P = {} \<or> s = Ready \<and> (\<exists>c. P = {RunQ c} \<or> P = {Inbox c})"
  shows "thread_ok t th' P {} {} {} {}"
proof -
  have "table_ok (th\<lparr>capability_table := cs\<rparr>)" by (rule thread_okD(8) [OF thread_ok_table [OF tok cs]])
  then have "table_ok th'" using th'(2,3) table_ok_cong [of th' "th\<lparr>capability_table := cs\<rparr>"] by simp
  then show ?thesis
    using tok e th' s
    by (auto simp: thread_ok_def stands_ok_def wait_ok_def place_ok_def sends_ok_def caps_ok_def held_ok_def resume_ok_def)
qed

lemma adopt_supervisor_fields:
  "handshake (adopt_supervisor th) = handshake th" "mailbox (adopt_supervisor th) = mailbox th"
  "outgoing_cap (adopt_supervisor th) = outgoing_cap th" "resuming (adopt_supervisor th) = resuming th"
  "replying (adopt_supervisor th) = replying th"
  by (simp_all add: adopt_supervisor_def split: sum.split Object.split)

lemma adopt_supervisor_table:
  assumes wf: "table_wf (capability_table th)"
  shows "same_replies (capability_table th) (capability_table (adopt_supervisor th)) \<and> table_wf (capability_table (adopt_supervisor th))"
proof (cases "\<exists>cap ep b. slot (capability_table th) (unat FAULT_EP_SLOT) = Some cap \<and> object cap = ObRendezvous ep b")
  case False
  then have "capability_table (adopt_supervisor th) = capability_table th"
    by (auto simp: adopt_supervisor_def get_def split: sum.split option.splits Object.split)
  then show ?thesis using wf by (simp add: same_replies_def)
next
  case True
  then obtain cap ep b where cap: "slot (capability_table th) (unat FAULT_EP_SLOT) = Some cap" "object cap = ObRendezvous ep b" by blast
  let ?cs = "fst (snd (empty_slot (capability_table th, 0) (unat FAULT_EP_SLOT)))"
  have "capability_table (adopt_supervisor th) = ?cs"
    using cap by (simp add: adopt_supervisor_def get_def delete_def split: prod.split option.split)
  moreover have "same_replies (capability_table th) ?cs" using cap by (auto simp: same_replies_def)
  moreover have "table_wf ?cs" using table_wf_empty_slot [of "(capability_table th, 0)"] wf by simp
  ultimately show ?thesis by simp
qed

lemma ok_start:
  assumes ok: "kernel_ok k Q" and c: "c < length (percpu k)" "current (percpu k ! c) \<noteq> NO_TID"
  shows "\<exists>r k' Q'. start_thread_control_block k c t args stack = Some (r, k') \<and> kernel_ok k' Q'"
proof (cases "\<exists>th. get_thread k t = Some th \<and> state (handshake th) = Embryo \<and> space th \<noteq> None \<and> fst (entry th) \<noteq> 0")
  case False
  then show ?thesis using ok by (auto simp: start_thread_control_block_def split: option.split)
next
  case True
  then obtain th where th: "get_thread k t = Some th" "state (handshake th) = Embryo" "space th \<noteq> None" "fst (entry th) \<noteq> 0" by blast
  note v = embryo_views [OF ok th(1,2)] and wf = ok_butD(6) [OF ok]
  let ?f = "\<lambda>t. (adopt_supervisor t)\<lparr>start_args := args\<rparr>" and ?g = "\<lambda>t :: Thread. t\<lparr>handshake := (handshake t)\<lparr>state := Ready\<rparr>\<rparr>"
  let ?k1 = "upd_thread k t ?f" and ?k2 = "upd_thread (upd_thread k t ?f) t ?g"
  note cs = adopt_supervisor_table [OF table_okD(1) [OF thread_okD(8) [OF v(1)]]]
  have live: "live_replies (?f th) = live_replies th"
    using cs same_replies_slots [of "capability_table th" "capability_table (adopt_supervisor th)"]
    by (simp add: live_replies_def adopt_supervisor_fields fun_eq_iff)
  have "thread_ok t (?f th) {} {} {} {} {}"
    by (rule embryo_ok [OF v(1) th(2), where s = Embryo and cs = "capability_table (adopt_supervisor th)"]) (use v cs th(2) in \<open>simp_all add: adopt_supervisor_fields\<close>)
  then have ok1: "kernel_ok ?k1 Q" using ok_edit [where f = ?f, OF ok th(1) live] v by simp
  have eq: "start_thread_control_block k c t args stack = (if \<not> stack then Some (Inl IeOutOfMemory, ?k1)
      else let (target, k3) = pick_spawn_target ?k2 c; k = upd_thread k3 t (\<lambda>t. t\<lparr>placement := of_nat target\<rparr>)
           in do { ptr \<leftarrow> thread_control_block_ptr k t; (remote, k) \<leftarrow> place_on k c target ptr; Some (Inr (), owe remote k) })"
    using th by (auto simp: start_thread_control_block_def Let_def)
  show ?thesis
  proof (cases stack)
    case False
    then show ?thesis using ok1 unfolding eq by auto
  next
    case True
    have ok2: "ok_but {t} {} ?k2 Q" by (rule ok_upd_thread [OF ok_but_mono [OF ok1]]) auto
    have c2: "c < length (percpu ?k2)" using c by simp
    obtain target k3 where p: "pick_spawn_target ?k2 c = (target, k3)" "ok_but {t} {} k3 Q" "same_cores ?k2 k3"
      "threads k3 = threads ?k2" "target = c \<or> bit (online_mask k3) target"
      using ok_pick_spawn_target [OF ok2 c2] .
    let ?h = "\<lambda>t :: Thread. t\<lparr>placement := of_nat target\<rparr>" let ?k4 = "upd_thread k3 t ?h"
    have ok4: "ok_but {t} {} ?k4 Q" by (rule ok_upd_thread [OF p(2)]) simp_all
    note s3 = same_coresD [OF p(3)] and wf3 = ok_butD(6) [OF p(2)]
    have c4: "c < length (percpu ?k4)" "current (percpu ?k4 ! c) \<noteq> NO_TID" "target = c \<or> bit (online_mask ?k4) target"
      using c s3 p(5) by simp_all
    obtain remote k' Q' where q: "place_on ?k4 c target t = Some (remote, k')"
      "ok_but {t} (set_option remote \<union> {}) k' Q'" "same_cores ?k4 k'" "get_thread k' = get_thread ?k4"
      "holders k' = holders ?k4" "places Q' t = {if target = c then RunQ c else Inbox target}"
      using ok_place_on [OF ok4 singletonI v(2) c4] .
    have get3: "get_thread k3 = get_thread ?k2" by (rule get_thread_cong [OF p(4)])
    have get: "get_thread ?k4 t = Some (?h (?g (?f th)))" using th(1) wf wf3 get3 by simp
    have "live_replies (?h (?g (?f th))) = live_replies th" using live by simp
    then have H: "holders ?k4 u = holders k u" for u
      using th(1) wf get3 wf3 by (auto simp: holders_def split: if_splits)
    have "thread_ok t (?h (?g (?f th))) (places Q' t) {} {} {} {}"
      by (rule embryo_ok [OF v(1) th(2), where s = Ready and cs = "capability_table (adopt_supervisor th)"]) (use v cs q(6) in \<open>auto simp: adopt_supervisor_fields\<close>)
    then have "ok_but {} (set_option remote \<union> {}) k' Q'"
      using ok_close_at [OF q(2) subset_refl q(3), of "?h (?g (?f th))"] get q(4,5) H v s3 by simp
    then have "kernel_ok (owe remote k') Q'" by (rule ok_owe)
    then show ?thesis using True p(1) q(1) get unfolding eq by (auto simp: thread_control_block_ptr_def)
  qed
qed

end
