(* ===== verification/Kernel_Sweep.thy ===== *)
theory Kernel_Sweep
  imports Kernel_Life_Inv
begin

text \<open>The sweeps that take a capability back from every thread: what they leave, and that the invariant is
  kept.  \<open>map_threads\<close> is the walk over all live threads that every sweep of the machine makes.\<close>


section \<open>A walk over every thread\<close>

lemma fold_upd_threads:
  fixes k :: Kernel and xs :: "(ThreadId \<times> Thread) list" and f :: "ThreadId \<Rightarrow> Thread \<Rightarrow> Thread"
  assumes "gt_wf (threads k)" and "distinct (map fst xs)"
  defines "k' \<equiv> fold (\<lambda>(name, _) k. upd_thread k name (f name)) xs k"
  shows "gt_wf (threads k') \<and> percpu k' = percpu k \<and> rendezvous_table k' = rendezvous_table k
    \<and> notification_table k' = notification_table k \<and> online_mask k' = online_mask k \<and> links k' = links k
    \<and> sgis k' = sgis k \<and> owed k' = owed k \<and> debug_assertions k' = debug_assertions k
    \<and> get_thread k' s = (if s \<in> fst ` set xs then map_option (f s) (get_thread k s) else get_thread k s)"
  using assms(1,2) unfolding k'_def
proof (induction xs arbitrary: k)
  case (Cons x xs)
  then show ?case using Cons.IH [of "upd_thread k (fst x) (f (fst x))"] by (cases x) auto
qed simp

lemma map_threads:
  assumes wf: "gt_wf (threads k)"
  shows "gt_wf (threads (map_threads f k))" "percpu (map_threads f k) = percpu k"
    "rendezvous_table (map_threads f k) = rendezvous_table k" "notification_table (map_threads f k) = notification_table k"
    "online_mask (map_threads f k) = online_mask k" "links (map_threads f k) = links k" "sgis (map_threads f k) = sgis k"
    "owed (map_threads f k) = owed k" "debug_assertions (map_threads f k) = debug_assertions k"
    "get_thread (map_threads f k) s = map_option (f s) (get_thread k s)"
proof -
  note m = fold_upd_threads [OF wf gt_iter_distinct [OF wf], of f s, folded map_threads_def]
  show "gt_wf (threads (map_threads f k))" "percpu (map_threads f k) = percpu k"
    "rendezvous_table (map_threads f k) = rendezvous_table k" "notification_table (map_threads f k) = notification_table k"
    "online_mask (map_threads f k) = online_mask k" "links (map_threads f k) = links k" "sgis (map_threads f k) = sgis k"
    "owed (map_threads f k) = owed k" "debug_assertions (map_threads f k) = debug_assertions k"
    using m by simp_all
  have "s \<in> fst ` set (gt_iter (threads k)) \<longleftrightarrow> get_thread k s \<noteq> None"
    by (force simp: gt_iter_set [OF wf] get_thread_def)
  then show "get_thread (map_threads f k) s = map_option (f s) (get_thread k s)" using m by auto
qed

lemma ok_map_threads:
  assumes ok: "kernel_ok k Q"
    and f: "\<And>t th. get_thread k t = Some th \<Longrightarrow> live_replies (f t th) = live_replies th
      \<and> thread_ok t (f t th) (places Q t) (cur_on k t) (out_on k t) (idle_on k t) (holders k t)"
  shows "kernel_ok (map_threads f k) Q"
proof -
  let ?k = "map_threads f k"
  note wf = ok_butD(6) [OF ok] and m = map_threads [OF ok_butD(6) [OF ok], of f]
  have H: "holders ?k = holders k"
  proof (rule holders_cong)
    show "map_option live_replies (get_thread ?k s) = map_option live_replies (get_thread k s)" for s
      using f [of s] by (cases "get_thread k s") (simp_all add: m(10))
  qed
  have "ok_but UNIV {} ?k Q"
    by (rule ok_but_cong [OF ok_but_mono [OF ok]]) (use m in simp_all)
  then show ?thesis
  proof (rule ok_but_close)
    fix t
    show "good ?k Q t"
      using ok_butD(5) [OF ok, of t] f [of t] H on_cong [OF m(2)]
      by (auto simp: good_def m(10) split: option.splits)
  qed
qed


section \<open>Sweeping a capability away\<close>

lemma drop_caps_where_fields [simp]:
  "handshake (drop_caps_where p th) = handshake th" "killed (drop_caps_where p th) = killed th"
  "fault_ep (drop_caps_where p th) = fault_ep th" "resuming (drop_caps_where p th) = resuming th"
  "replying (drop_caps_where p th) = replying th" "mailbox (drop_caps_where p th) = mailbox th"
  "capability_table (drop_caps_where p th) = fst (delete_matching (capability_table th, 0) p)"
  "outgoing_cap (drop_caps_where p th)
    = (case outgoing_cap th of Some cap \<Rightarrow> if p (object cap) then None else Some cap | None \<Rightarrow> None)"
  by (simp_all add: drop_caps_where_def Let_def split: option.split)

lemma drop_caps_where_ok:
  assumes tok: "thread_ok t th P C S I H" and p: "\<And>u. \<not> p (ObReply u)"
  shows "thread_ok t (drop_caps_where p th) P C S I H \<and> live_replies (drop_caps_where p th) = live_replies th"
proof -
  let ?cs = "fst (delete_matching (capability_table th, 0) p)"
  have wf: "table_wf (capability_table th)" by (rule table_okD(1) [OF thread_okD(8) [OF tok]])
  have same: "same_replies (capability_table th) ?cs"
    using slot_delete_matching [of "(capability_table th, 0)" p] wf p by (auto simp: same_replies_def split: option.splits if_splits)
  have "table_wf ?cs" using table_wf_delete_matching [of "(capability_table th, 0)" p] wf by simp
  then have tok1: "thread_ok t (th\<lparr>capability_table := ?cs\<rparr>) P C S I H" by (rule thread_ok_table [OF tok same])
  have aw: "awaits_reply (drop_caps_where p th) = awaits_reply th" by (simp add: awaits_reply_def)
  have "caps_ok (drop_caps_where p th)" by (rule caps_ok_cong [OF thread_okD(5) [OF tok1]]) simp_all
  moreover have "sends_ok t (drop_caps_where p th) P"
    using thread_okD(4) [OF tok] p by (auto simp: sends_ok_def aw reply_cap_def split: option.splits if_splits)
  moreover have "held_ok (drop_caps_where p th) P H"
    using thread_okD(6) [OF tok] by (auto simp: held_ok_def aw)
  ultimately have "thread_ok t (drop_caps_where p th) P C S I H"
    using thread_okD(1,2,7) [OF tok] place_ok_cong [OF thread_okD(3) [OF tok], of "drop_caps_where p th"]
    by (simp add: thread_ok_def stands_ok_def resume_ok_def)
  moreover have "live_replies (drop_caps_where p th) = live_replies th"
    using same_replies_live [OF same] live_replies_cong [of "drop_caps_where p th" "th\<lparr>capability_table := ?cs\<rparr>"] by simp
  ultimately show ?thesis by simp
qed

lemma drop_object_eq:
  assumes "table_wf (capability_table th)"
  shows "drop_object ob th = drop_caps_where (\<lambda>x. x = ob) th"
proof -
  let ?st = "(capability_table th, 0 :: u32)"
  have cap: "capacity (capability_table th) \<le> 32" by (rule table_wfD(1) [OF assms])
  then have "fold (get_then_delete (\<lambda>x. x = ob)) [0..<capacity (capability_table th)] ?st = delete_matching ?st (\<lambda>x. x = ob)"
    using delete_matching_fold [of ?st "\<lambda>x. x = ob"] assms
      fold_get_then_delete_sweep [of ?st "[0..<capacity (capability_table th)]" "\<lambda>x. x = ob"]
    by (simp add: atLeastLessThan_def Int_absorb1 subset_iff)
  then show ?thesis by (simp add: drop_object_def drop_caps_where_def Let_def split: option.split)
qed

lemma ok_delete_page_frame_caps_where:
  "kernel_ok k Q \<Longrightarrow> (\<And>u. \<not> p (ObReply u)) \<Longrightarrow> kernel_ok (delete_page_frame_caps_where p k) Q"
  unfolding delete_page_frame_caps_where_def
  by (rule ok_map_threads) (simp_all add: drop_caps_where_ok [OF ok_but_good])

lemma ok_delete_page_frame_caps: "kernel_ok k Q \<Longrightarrow> kernel_ok (delete_page_frame_caps k phys n) Q"
  by (simp add: delete_page_frame_caps_def ok_delete_page_frame_caps_where)

lemma ok_delete_page_frame_caps_overlapping:
  "kernel_ok k Q \<Longrightarrow> kernel_ok (delete_page_frame_caps_overlapping k base len) Q"
  by (simp add: delete_page_frame_caps_overlapping_def ok_delete_page_frame_caps_where run_overlaps_def)

lemma ok_delete_device_frame_caps:
  assumes ok: "kernel_ok k Q"
  shows "kernel_ok (delete_device_frame_caps_from_others k c phys) Q"
  unfolding delete_device_frame_caps_from_others_def Let_def
proof (rule ok_map_threads [OF ok])
  fix t th assume th: "get_thread k t = Some th"
  note tok = ok_but_good [OF ok _ th, simplified]
  show "live_replies (if t = current_thread_id k c then th else drop_object (ObDeviceFrame phys) th) = live_replies th
    \<and> thread_ok t (if t = current_thread_id k c then th else drop_object (ObDeviceFrame phys) th)
        (places Q t) (cur_on k t) (out_on k t) (idle_on k t) (holders k t)"
    using tok drop_caps_where_ok [OF tok, of "\<lambda>x. x = ObDeviceFrame phys"]
      drop_object_eq [OF table_okD(1) [OF thread_okD(8) [OF tok]], of "ObDeviceFrame phys"]
    by (cases "t = current_thread_id k c") simp_all
qed

text \<open>What a sweep leaves: exactly the capabilities that do not match, in their slots.\<close>

lemma swept_caps:
  assumes ok: "kernel_ok k Q" and th: "get_thread (delete_page_frame_caps_where p k) t = Some th'"
  obtains th where "get_thread k t = Some th"
    and "\<And>i. slot (capability_table th') i
      = (case slot (capability_table th) i of Some cap \<Rightarrow> if p (object cap) then None else Some cap | None \<Rightarrow> None)"
    and "outgoing_cap th' = (case outgoing_cap th of Some cap \<Rightarrow> if p (object cap) then None else Some cap | None \<Rightarrow> None)"
proof -
  obtain th0 where th0: "get_thread k t = Some th0" "th' = drop_caps_where p th0"
    using th map_threads(10) [OF ok_butD(6) [OF ok]] by (auto simp: delete_page_frame_caps_where_def)
  have "table_wf (fst (capability_table th0, 0 :: u32))"
    using table_okD(1) [OF thread_okD(8) [OF ok_but_good [OF ok _ th0(1)]]] by simp
  then show ?thesis using that [OF th0(1)] slot_delete_matching [of "(capability_table th0, 0)" p] th0(2) by simp
qed

lemma run_overlaps_bytes:
  assumes "\<not> run_overlaps base len (ObPageFrame phys n)" and "unat base + unat len < 2 ^ 64"
    and "unat base \<le> a" "a < unat base + unat len"
  shows "\<not> (unat phys \<le> a \<and> a < unat phys + unat n * 4096)"
  using assms
  by (auto simp: run_overlaps_def word_less_nat_alt unat_saturating_add unat_saturating_mul FRAME_SIZE_def min_def
      split: if_splits)

end
