(* ===== verification/Kernel_Timer.thy ===== *)
theory Kernel_Timer
  imports Kernel_Note_Inv Ipc_Timer
begin

text \<open>The timers as the kernel drives them (\<open>src/kernel/src/sched.rs\<close>): a table of timer pages, each armed with
  the notification to signal and the bits to signal it with, and the cached earliest deadline the tick
  reads.  The timers stand beside the tables of \<open>Kernel\<close>: no other operation touches them.  The expiry walk
  is composed from the crate's \<open>next_due\<close> and the kernel's \<open>signal_locked\<close>; it fires exactly the due timers,
  in table order, and each signal reaches its notification.  \<open>on_tick\<close> takes the cached deadline it read, which may be
  stale; its accounting and its corruption check are left out.  Here too are the teardown of a region's timers
  and the signal a log line raises when the lock is free.\<close>

unbundle bit_operations_syntax


section \<open>The table\<close>

type_synonym TimerId = u64
type_synonym KTimer = "(NotificationId \<times> u64) Timer"

record Timers =
  timer_table :: "(u64 \<times> KTimer) Table"
  earliest_deadline :: u64

definition new_timers :: "nat \<Rightarrow> Timers" where
  "new_timers max_timers = \<lparr>timer_table = new_gt max_timers, earliest_deadline = NEVER\<rparr>"

definition timer_of :: "Timers \<Rightarrow> TimerId \<Rightarrow> KTimer option" where
  "timer_of tm i = map_option snd (gt_get (timer_table tm) i)"

definition put_timer :: "Timers \<Rightarrow> TimerId \<Rightarrow> KTimer \<Rightarrow> Timers" where
  "put_timer tm i t = tm\<lparr>timer_table := gt_update (timer_table tm) i (\<lambda>(phys, _). (phys, t))\<rparr>"

definition create_timer_from :: "Timers \<Rightarrow> u64 option \<Rightarrow> TimerId option \<times> Timers" where
  "create_timer_from tm page =
     (if gt_len (timer_table tm) \<ge> length (gt_slots (timer_table tm)) then (None, tm)
      else case page of
        None \<Rightarrow> (None, tm)
      | Some phys \<Rightarrow>
          (case insert_with (timer_table tm) (\<lambda>_. (phys, new_timer)) of
             (i, T) \<Rightarrow> (i, tm\<lparr>timer_table := T\<rparr>)))"

definition kernel_timer_arm ::
    "Kernel \<Rightarrow> Timers \<Rightarrow> nat \<Rightarrow> u64 \<Rightarrow> TimerId \<Rightarrow> u64 \<Rightarrow> NotificationId \<Rightarrow> u64
      \<Rightarrow> ((Invoke_Error + unit) \<times> Kernel \<times> Timers) option" where
  "kernel_timer_arm k tm c now i d n b =
     (case notification_of k n of
        None \<Rightarrow> Some (Inl IeGone, k, tm)
      | Some _ \<Rightarrow>
          (case timer_of tm i of
             None \<Rightarrow> Some (Inl IeGone, k, tm)
           | Some t \<Rightarrow>
               (case arm t d (n, b) now of
                  (Pending, t) \<Rightarrow>
                    Some (Inr (), k, (put_timer tm i t)\<lparr>earliest_deadline := lowered (earliest_deadline tm) d\<rparr>)
                | (DueNow (n, b), t) \<Rightarrow>
                    do { (r, k) \<leftarrow> signal_locked k c n b PlaceLocal;
                         Some (map_sum id (\<lambda>_. ()) r, k, put_timer tm i t) })))"

definition kernel_timer_cancel :: "Timers \<Rightarrow> TimerId \<Rightarrow> (Invoke_Error + bool) \<times> Timers" where
  "kernel_timer_cancel tm i =
     (case timer_of tm i of
        None \<Rightarrow> (Inl IeGone, tm)
      | Some t \<Rightarrow> (case cancel t of (was, t) \<Rightarrow> (Inr was, put_timer tm i t)))"

text \<open>The walk hands \<open>next_due\<close> the timers in table order; what it changes is written back through them.\<close>

definition timers_of :: "Timers \<Rightarrow> KTimer list" where
  "timers_of tm = map snd (gt_values (timer_table tm))"

fun write_slots :: "(u64 \<times> KTimer) option list \<Rightarrow> KTimer list \<Rightarrow> (u64 \<times> KTimer) option list" where
  "write_slots (Some (phys, _) # ss) (t # ts) = Some (phys, t) # write_slots ss ts"
| "write_slots (None # ss) ts = None # write_slots ss ts"
| "write_slots ss _ = ss"

definition write_timers :: "Timers \<Rightarrow> KTimer list \<Rightarrow> Timers" where
  "write_timers tm ts =
     tm\<lparr>timer_table := (timer_table tm)\<lparr>gt_slots := write_slots (gt_slots (timer_table tm)) ts\<rparr>\<rparr>"

text \<open>The loop of \<open>expire_timers\<close>; \<open>poke\<close> has a bit for each core a wake placed a thread on.\<close>

partial_function (option) expire_loop ::
    "nat \<Rightarrow> u64 \<Rightarrow> Kernel \<Rightarrow> Timers \<Rightarrow> u64 \<Rightarrow> (Kernel \<times> Timers \<times> u64) option" where
  "expire_loop c now k tm poke =
     (case next_due (timers_of tm) now of
        (None, ts) \<Rightarrow> Some (k, write_timers tm ts, poke)
      | (Some (n, b), ts) \<Rightarrow>
          do { (r, k) \<leftarrow> signal_locked k c n b PlaceLoadAware;
               expire_loop c now k (write_timers tm ts)
                 (case r of Inr (Some cpu) \<Rightarrow> poke OR push_bit cpu 1 | _ \<Rightarrow> poke) })"

declare expire_loop.simps [code]

definition kernel_expire_timers :: "Kernel \<Rightarrow> Timers \<Rightarrow> nat \<Rightarrow> u64 \<Rightarrow> (Kernel \<times> Timers) option" where
  "kernel_expire_timers k tm c now =
     do { (k, tm, poke) \<leftarrow> expire_loop c now k tm 0;
          Some (k\<lparr>owed := filter (\<lambda>cpu. bit poke cpu) [0..<length (percpu k)] @ owed k\<rparr>,
                tm\<lparr>earliest_deadline := earliest (timers_of tm)\<rparr>) }"

text \<open>A tick, up to the walk.  It holds no lock: \<open>seen\<close> is what its relaxed load of \<open>EARLIEST_DEADLINE\<close>
  returned, which may be a value that another core has already replaced, and \<open>now\<close> is its own reading of the
  counter.  The answer is whether the tick goes on to \<open>kernel_expire_timers\<close>, which takes the lock and reads
  the counter again.  What a tick counts for statistics, and its corruption check, are left out.\<close>

definition on_tick :: "Kernel \<Rightarrow> nat \<Rightarrow> u64 \<Rightarrow> u64 \<Rightarrow> bool \<times> Kernel" where
  "on_tick k c seen now = (is_due seen now, set_need_resched k c)"

text \<open>The end of a tick: a kernel log line that was held back is signalled, if the core holds no lock.
  \<open>flagged\<close> is what the load of \<open>SIGNAL_PENDING\<close> returned and \<open>taken\<close> what the swap did; \<open>notify\<close> is the
  notification the log service registered.\<close>

definition NOTIFY_BIT :: u64 where
  "NOTIFY_BIT = 1"

definition signal_slow :: "Kernel \<Rightarrow> nat \<Rightarrow> bool \<Rightarrow> bool \<Rightarrow> NotificationId \<Rightarrow> Kernel option" where
  "signal_slow k c locked taken notify =
     (if locked then Some k
      else if taken then signal_notification_from_interrupt k c notify NOTIFY_BIT else Some k)"

definition signal_if_safe :: "Kernel \<Rightarrow> nat \<Rightarrow> bool \<Rightarrow> bool \<Rightarrow> bool \<Rightarrow> NotificationId \<Rightarrow> Kernel option" where
  "signal_if_safe k c flagged locked taken notify =
     (if flagged then signal_slow k c locked taken notify else Some k)"

text \<open>Tearing down the timers of a region: find one, drop its name, look again.\<close>

partial_function (option) reap_region_timers :: "Timers \<Rightarrow> u64 \<Rightarrow> u64 \<Rightarrow> Timers option" where
  "reap_region_timers tm base limit =
     (case find (\<lambda>(_, phys, _). base \<le> phys \<and> phys < limit) (gt_iter (timer_table tm)) of
        None \<Rightarrow> Some tm
      | Some (name, _) \<Rightarrow>
          reap_region_timers (tm\<lparr>timer_table := snd (gt_remove (timer_table tm) name)\<rparr>) base limit)"

declare reap_region_timers.simps [code]


section \<open>The table as a list of timers\<close>

definition timers_ok :: "Timers \<Rightarrow> bool" where
  "timers_ok tm \<longleftrightarrow> gt_wf (timer_table tm) \<and> cache_sound (timers_of tm, earliest_deadline tm)"

lemma values_all:
  assumes wf: "gt_wf t"
  shows "gt_values t = List.map_filter (\<lambda>s. s) (gt_slots t)"
proof -
  have "filter (\<lambda>s. s \<noteq> None) (drop (gt_top t) (gt_slots t)) = []"
    using gt_wfD(8) [OF wf] by (force simp: filter_empty_conv in_set_conv_nth)
  then have "filter (\<lambda>s. s \<noteq> None) (gt_slots t) = filter (\<lambda>s. s \<noteq> None) (take (gt_top t) (gt_slots t))"
    using filter_append [of "\<lambda>s. s \<noteq> None" "take (gt_top t) (gt_slots t)" "drop (gt_top t) (gt_slots t)"] by simp
  then show ?thesis by (simp add: gt_values_def List.map_filter_def)
qed

lemma set_timers_of: "gt_wf (timer_table tm) \<Longrightarrow> set (timers_of tm) = {t. \<exists>i. timer_of tm i = Some t}"
  by (auto simp: timers_of_def values_all timer_of_def gt_get_Some_iff List.map_filter_def in_set_conv_nth)
     (force simp: in_set_conv_nth)+

lemma write_slots:
  assumes "length ts = length (List.map_filter (\<lambda>s. s) ss)"
  shows "map snd (List.map_filter (\<lambda>s. s) (write_slots ss ts)) = ts"
    and "map (\<lambda>s. s = None) (write_slots ss ts) = map (\<lambda>s. s = None) ss"
    and "length us = length ts \<Longrightarrow> write_slots (write_slots ss ts) us = write_slots ss us"
  using assms
  by (induction ss ts arbitrary: us rule: write_slots.induct)
     (auto simp: List.map_filter_def length_Suc_conv Suc_length_conv)

lemma timers_ok_new: "0 < N \<Longrightarrow> N \<le> 2 ^ 32 - 1 \<Longrightarrow> timers_ok (new_timers N)"
  using gt_wf_new [of N]
  by (simp add: timers_ok_def new_timers_def timers_of_def gt_values_def new_gt_def cache_sound_def List.map_filter_def)

lemma gt_wf_pattern:
  assumes wf: "gt_wf t" and same: "map (\<lambda>s. s = None) ss = map (\<lambda>s. s = None) (gt_slots t)"
  shows "gt_wf (t\<lparr>gt_slots := ss\<rparr>)"
proof -
  have len: "length ss = length (gt_slots t)" using map_eq_imp_length_eq [OF same] .
  have at: "i < length (gt_slots t) \<Longrightarrow> (ss ! i = None) = (gt_slots t ! i = None)" for i
    using arg_cong [OF same, of "\<lambda>xs. xs ! i"] len by simp
  have "length (filter (\<lambda>s. s \<noteq> None) xs) = length (filter Not (map (\<lambda>s. s = None) xs))" for xs :: "'a option list"
    by (induction xs) simp_all
  then have "length (filter (\<lambda>s. s \<noteq> None) ss) = length (filter (\<lambda>s. s \<noteq> None) (gt_slots t))" by (simp only: same)
  moreover have "gt_top t = 0 \<or> ss ! (gt_top t - 1) \<noteq> None"
    using wf at [of "gt_top t - 1"] by (cases "gt_top t") (auto simp: gt_wf_def)
  ultimately show ?thesis using wf at len by (simp add: gt_wf_def)
qed

lemma write_timers:
  assumes wf: "gt_wf (timer_table tm)" and len: "length ts = length (timers_of tm)"
  shows "gt_wf (timer_table (write_timers tm ts))" "timers_of (write_timers tm ts) = ts"
    "length us = length ts \<Longrightarrow> write_timers (write_timers tm ts) us = write_timers tm us"
    "earliest_deadline (write_timers tm ts) = earliest_deadline tm"
proof -
  have l: "length ts = length (List.map_filter (\<lambda>s. s) (gt_slots (timer_table tm)))"
    using len by (simp add: timers_of_def values_all [OF wf])
  show wf': "gt_wf (timer_table (write_timers tm ts))"
    using gt_wf_pattern [OF wf write_slots(2) [OF l]] by (simp add: write_timers_def)
  show "timers_of (write_timers tm ts) = ts"
    unfolding timers_of_def values_all [OF wf'] using write_slots(1) [OF l] by (simp add: write_timers_def)
  show "length us = length ts \<Longrightarrow> write_timers (write_timers tm ts) us = write_timers tm us"
    using write_slots(3) [OF l] by (simp add: write_timers_def)
qed (simp add: write_timers_def)

lemma cache_sound_iff:
  assumes wf: "gt_wf (timer_table tm)"
  shows "cache_sound (timers_of tm, e) = gt.all_entries (\<lambda>_ v. is_armed (snd v) \<longrightarrow> e \<le> deadline (snd v)) (timer_table tm)"
  by (auto simp: cache_sound_def set_timers_of [OF wf] gt.all_entries_def timer_of_def)

lemma timers_ok_iff:
  "timers_ok tm \<longleftrightarrow> gt_wf (timer_table tm)
    \<and> gt.all_entries (\<lambda>_ v. is_armed (snd v) \<longrightarrow> earliest_deadline tm \<le> deadline (snd v)) (timer_table tm)"
  using cache_sound_iff by (auto simp: timers_ok_def)

lemma timers_ok_put:
  assumes ok: "timers_ok tm" and t: "is_armed t \<Longrightarrow> e \<le> deadline t" and e: "e \<le> earliest_deadline tm"
  shows "timers_ok ((put_timer tm i t)\<lparr>earliest_deadline := e\<rparr>)"
proof -
  have wf: "gt_wf (timer_table tm)" using ok by (simp add: timers_ok_def)
  have "gt.all_entries (\<lambda>_ v. is_armed (snd v) \<longrightarrow> e \<le> deadline (snd v)) (timer_table tm)"
    using ok e by (auto simp: timers_ok_iff gt.all_entries_def intro: order_trans)
  then have "gt.all_entries (\<lambda>_ v. is_armed (snd v) \<longrightarrow> e \<le> deadline (snd v)) (timer_table (put_timer tm i t))"
    unfolding put_timer_def by (auto intro!: gt.all_entries_upd [OF wf] simp: t)
  then show ?thesis using gt.upd_wf [OF wf] by (simp add: timers_ok_iff put_timer_def)
qed

lemma put_timer_cache: "earliest_deadline (put_timer tm i t) = earliest_deadline tm"
  by (simp add: put_timer_def)

lemma timers_ok_cancel: "timers_ok tm \<Longrightarrow> timers_ok (snd (kernel_timer_cancel tm i))"
  using timers_ok_put [of tm "Timer None" "earliest_deadline tm" i]
  by (auto simp: kernel_timer_cancel_def cancel_def is_armed_def put_timer_def split: option.split)

lemma timers_ok_create:
  assumes ok: "timers_ok tm"
  shows "timers_ok (snd (create_timer_from tm page))"
proof -
  have wf: "gt_wf (timer_table tm)" using ok by (simp add: timers_ok_def)
  have "timers_ok (tm\<lparr>timer_table := T\<rparr>)" if ins: "insert_with (timer_table tm) (\<lambda>_. (phys, new_timer)) = (r, T)" for r T phys
  proof -
    have "gt_wf T" using gt.ins_full [OF wf] gt.ins_wf [OF wf] ins wf by (cases r) auto
    then show ?thesis
      using gt.all_entries_ins [OF wf ins] ok by (simp add: timers_ok_iff new_timer_def is_armed_def)
  qed
  then show ?thesis using ok by (auto simp: create_timer_from_def split: option.split prod.split)
qed

lemma timers_ok_write:
  assumes "gt_wf (timer_table tm)" and "length ts = length (timers_of tm)" and "cache_sound (ts, e)"
  shows "timers_ok ((write_timers tm ts)\<lparr>earliest_deadline := e\<rparr>)"
  using write_timers(1,2) [OF assms(1,2)] assms(3) by (simp add: timers_ok_def timers_of_def)


section \<open>A timer by its name\<close>

text \<open>What each operation leaves of the timer behind a name.  Names are never reused while they resolve, so an
  operation on one timer leaves every other as it was.\<close>

lemma put_timer_other:
  "gt_wf (timer_table tm) \<Longrightarrow> j \<noteq> i \<Longrightarrow> gt_get (timer_table (put_timer tm j t)) i = gt_get (timer_table tm) i"
  by (simp add: put_timer_def gt.upd_lookup)

lemma create_timer_keeps:
  assumes wf: "gt_wf (timer_table tm)" and t: "gt_get (timer_table tm) i = Some e"
  shows "gt_get (timer_table (snd (create_timer_from tm page))) i = Some e"
proof -
  have "gt_get T i = Some e" if ins: "insert_with (timer_table tm) (\<lambda>_. (phys, new_timer)) = (r, T)" for r T phys
    using gt.ins_full [OF wf] gt.ins_keeps [OF wf] ins t by (cases r) auto
  then show ?thesis using t by (auto simp: create_timer_from_def split: option.split prod.split)
qed

lemma kernel_timer_arm_other:
  assumes wf: "gt_wf (timer_table tm)" and arm: "kernel_timer_arm k tm c now j d n b = Some (r, k', tm')" and "j \<noteq> i"
  shows "gt_get (timer_table tm') i = gt_get (timer_table tm) i"
  using arm put_timer_other [OF wf assms(3)]
  by (auto simp: kernel_timer_arm_def split: option.splits prod.splits Arm.splits bind_splits)

lemma kernel_timer_cancel_other:
  "gt_wf (timer_table tm) \<Longrightarrow> j \<noteq> i \<Longrightarrow> gt_get (timer_table (snd (kernel_timer_cancel tm j))) i = gt_get (timer_table tm) i"
  by (auto simp: kernel_timer_cancel_def put_timer_other split: option.splits prod.splits)

lemma write_slots_map:
  "write_slots ss (map f (map snd (List.map_filter (\<lambda>s. s) ss))) = map (map_option (\<lambda>(phys, t). (phys, f t))) ss"
proof (induction ss)
  case (Cons s ss)
  then show ?case by (cases s) (auto simp: List.map_filter_def)
qed (simp add: List.map_filter_def)

lemma gt_get_map_slots:
  assumes wf: "gt_wf t"
  shows "gt_get (t\<lparr>gt_slots := map (map_option g) (gt_slots t)\<rparr>) i = map_option g (gt_get t i)"
  using gt_wfD(1-3) [OF wf]
  by (auto simp: gt_get_def slot_of_def split: prod.splits option.splits)

lemma write_timers_entry:
  assumes wf: "gt_wf (timer_table tm)"
  shows "gt_get (timer_table (write_timers tm (map f (timers_of tm)))) i
    = map_option (\<lambda>(phys, t). (phys, f t)) (gt_get (timer_table tm) i)"
  using gt_get_map_slots [OF wf, of "\<lambda>(phys, t). (phys, f t)" i]
  unfolding timers_of_def values_all [OF wf]
  by (simp only: write_timers_def write_slots_map) simp

lemma gt_remove_len:
  assumes wf: "gt_wf t" and at: "gt_get t name = Some v"
  shows "gt_len (snd (gt_remove t name)) < gt_len t"
proof -
  obtain i where i: "i < length (gt_slots t)" "gt_slots t ! i = Some v" "slot_of t name = Some i"
    using at slot_of_Some_iff [OF wf] by (auto simp: gt_get_def split: option.splits)
  then have "filter (\<lambda>s. s \<noteq> None) (gt_slots t) \<noteq> []" by (auto simp: filter_empty_conv dest: nth_mem)
  then show ?thesis using gt_wfD(6) [OF wf] i by (simp add: gt_remove_def gt_len_def Let_def)
qed

text \<open>The teardown of a region ends, and takes exactly the timers whose page lies in it.\<close>

lemma reap_region_timers_exact:
  assumes "gt_wf (timer_table tm)"
  shows "\<exists>T. reap_region_timers tm base limit = Some (tm\<lparr>timer_table := T\<rparr>) \<and> gt_wf T
    \<and> gt_get T = (\<lambda>i. case gt_get (timer_table tm) i of
        None \<Rightarrow> None
      | Some (phys, t) \<Rightarrow> if base \<le> phys \<and> phys < limit then None else Some (phys, t))"
  using assms
proof (induction "gt_len (timer_table tm)" arbitrary: tm rule: less_induct)
  case less
  note wf = less.prems
  let ?P = "\<lambda>(_, phys, _ :: KTimer). base \<le> phys \<and> phys < limit"
  show ?case
  proof (cases "find ?P (gt_iter (timer_table tm))")
    case None
    then have "\<not> (base \<le> phys \<and> phys < limit)" if "gt_get (timer_table tm) i = Some (phys, t)" for i phys t
      using gt_iter_set [OF wf] that by (force simp: find_None_iff)
    then have "gt_get (timer_table tm) = (\<lambda>i. case gt_get (timer_table tm) i of
        None \<Rightarrow> None | Some (phys, t) \<Rightarrow> if base \<le> phys \<and> phys < limit then None else Some (phys, t))"
      by (fastforce split: option.splits)
    then show ?thesis
      using None wf by (subst reap_region_timers.simps) (auto intro!: exI [of _ "timer_table tm"])
  next
    case (Some x)
    obtain name phys t where x: "x = (name, phys, t)" by (cases x)
    have at: "gt_get (timer_table tm) name = Some (phys, t)" "base \<le> phys" "phys < limit"
      using Some gt_iter_set [OF wf] by (auto simp: x find_Some_iff dest!: nth_mem)
    obtain r T where rem: "gt_remove (timer_table tm) name = (r, T)" by (cases "gt_remove (timer_table tm) name")
    have wf': "gt_wf T" using gt.del_wf [OF wf rem] .
    have "gt_len T < gt_len (timer_table tm)" using gt_remove_len [OF wf at(1)] rem by simp
    from less.hyps [of "tm\<lparr>timer_table := T\<rparr>"] this wf' obtain T' where
      T': "reap_region_timers (tm\<lparr>timer_table := T\<rparr>) base limit = Some (tm\<lparr>timer_table := T'\<rparr>)" "gt_wf T'"
      "gt_get T' = (\<lambda>i. case gt_get T i of None \<Rightarrow> None
        | Some (phys, t) \<Rightarrow> if base \<le> phys \<and> phys < limit then None else Some (phys, t))" by auto
    have "gt_get T' = (\<lambda>i. case gt_get (timer_table tm) i of None \<Rightarrow> None
        | Some (phys, t) \<Rightarrow> if base \<le> phys \<and> phys < limit then None else Some (phys, t))"
      unfolding T'(3) gt.del_lookup [OF wf rem] using at by (auto split: option.splits)
    then show ?thesis
      using Some T' rem by (subst reap_region_timers.simps) (auto simp: x)
  qed
qed

lemma timers_ok_reap:
  assumes ok: "timers_ok tm"
  shows "\<exists>tm'. reap_region_timers tm base limit = Some tm' \<and> timers_ok tm'"
proof -
  have wf: "gt_wf (timer_table tm)" using ok by (simp add: timers_ok_def)
  obtain T where T: "reap_region_timers tm base limit = Some (tm\<lparr>timer_table := T\<rparr>)" "gt_wf T"
    "gt_get T = (\<lambda>i. case gt_get (timer_table tm) i of None \<Rightarrow> None
      | Some (phys, t) \<Rightarrow> if base \<le> phys \<and> phys < limit then None else Some (phys, t))"
    using reap_region_timers_exact [OF wf] by blast
  have "timers_ok (tm\<lparr>timer_table := T\<rparr>)"
    using ok T(2) by (auto simp: timers_ok_iff gt.all_entries_def T(3) split: option.splits if_splits)
  with T(1) show ?thesis by blast
qed


section \<open>The expiry walk\<close>

text \<open>The reference: every due target signalled once, in table order.\<close>

fun signal_all :: "nat \<Rightarrow> Kernel \<Rightarrow> u64 \<Rightarrow> (NotificationId \<times> u64) list \<Rightarrow> (Kernel \<times> u64) option" where
  "signal_all c k poke [] = Some (k, poke)"
| "signal_all c k poke ((n, b) # targets) =
     do { (r, k) \<leftarrow> signal_locked k c n b PlaceLoadAware;
          signal_all c k (case r of Inr (Some cpu) \<Rightarrow> poke OR push_bit cpu 1 | _ \<Rightarrow> poke) targets }"

lemma expire_loop_exact:
  assumes "gt_wf (timer_table tm)"
  shows "expire_loop c now k tm poke =
    do { (k, poke) \<leftarrow> signal_all c k poke (fired_targets now (timers_of tm));
         Some (k, write_timers tm (disarm_due now (timers_of tm)), poke) }"
  using assms
proof (induction "filter (due now) (timers_of tm)" arbitrary: tm k poke)
  case Nil
  have "map (\<lambda>t. if due now t then Timer None else t) (timers_of tm) = timers_of tm"
    using Nil by (intro map_idI) (metis filter_empty_conv)
  then show ?case
    using Nil by (subst expire_loop.simps) (simp add: next_due_None fired_targets_def disarm_due_def)
next
  case (Cons t us)
  obtain ts' where ts': "next_due (timers_of tm) now = (Some (snd (the (armed t))), ts')"
    "filter (due now) ts' = us" "disarm_due now ts' = disarm_due now (timers_of tm)"
    using next_due_Some [OF Cons.hyps(2) [symmetric]] by blast
  have len: "length ts' = length (timers_of tm)"
    using arg_cong [OF ts'(3), of length] by (simp add: disarm_due_def)
  note w = write_timers [OF Cons.prems len]
  have again: "write_timers (write_timers tm ts') (disarm_due now (timers_of tm)) = write_timers tm (disarm_due now (timers_of tm))"
    by (rule w(3)) (simp add: disarm_due_def len)
  have rest: "expire_loop c now k (write_timers tm ts') poke =
    do { (k, poke) \<leftarrow> signal_all c k poke (fired_targets now ts');
         Some (k, write_timers tm (disarm_due now (timers_of tm)), poke) }" for k poke
    using Cons.hyps(1) [OF _ w(1), of k poke] ts'(2,3) again by (simp add: w(2))
  obtain n b where nb: "snd (the (armed t)) = (n, b)" by (cases "snd (the (armed t))")
  have "fired_targets now (timers_of tm) = (n, b) # fired_targets now ts'"
    using Cons.hyps(2) [symmetric] ts'(2) nb by (simp add: fired_targets_def)
  then show ?case using ts'(1) nb rest by (subst expire_loop.simps) (simp add: bind_eq_None_conv split: Option.bind_split)
qed

text \<open>A core that a wake placed a thread on is a core of the machine, so its bit fits the word.\<close>

lemma deliver_percpu: "deliver k t f = Some k' \<Longrightarrow> percpu k' = percpu k"
  by (auto simp: deliver_def unwrap_thread_def split: bind_splits)

lemma deliver_bound_percpu: "deliver_bound k t ep w = Some k' \<Longrightarrow> percpu k' = percpu k"
  by (auto simp: deliver_bound_def split: bind_splits option.splits if_splits dest!: deliver_percpu)

lemma wake_placed_remote: "wake_placed k c t how = Some (Some cpu, k') \<Longrightarrow> cpu < length (percpu k)"
  by (cases how)
     (auto simp: wake_load_aware_def place_on_def inbox_push_def Let_def split: option.splits prod.splits if_splits bind_splits)

lemma signal_locked_remote:
  "signal_locked k c n b how = Some (Inr (Some cpu), k') \<Longrightarrow> cpu < length (percpu k)"
  by (auto simp: signal_locked_def Let_def split: option.splits prod.splits Signal.splits bind_splits
      dest!: wake_placed_remote deliver_percpu deliver_bound_percpu)

lemma ok_signal_all:
  assumes "ok_but {} {cpu. bit poke cpu} k Q" and "c < length (percpu k)" "current (percpu k ! c) \<noteq> NO_TID"
  shows "\<exists>k' poke' Q'. signal_all c k poke targets = Some (k', poke') \<and> ok_but {} {cpu. bit poke' cpu} k' Q' \<and> same_cores k k'"
  using assms
proof (induction targets arbitrary: k poke Q)
  case Nil
  then show ?case by auto
next
  case (Cons x targets)
  obtain n b where x: "x = (n, b)" by (cases x)
  obtain r k1 Q1 where s: "signal_locked k c n b PlaceLoadAware = Some (r, k1)"
    "ok_but {} ((case r of Inl _ \<Rightarrow> {} | Inr remote \<Rightarrow> set_option remote) \<union> {cpu. bit poke cpu}) k1 Q1" "same_cores k k1"
    using ok_signal_locked [OF Cons.prems, of n b PlaceLoadAware] by blast
  let ?p = "case r of Inr (Some cpu) \<Rightarrow> poke OR push_bit cpu 1 | _ \<Rightarrow> poke"
  have "length (percpu k) \<le> 64" using ok_butD(1) [OF Cons.prems(1)] by (simp add: tables_ok_def)
  then have "cpu < 64" if "r = Inr (Some cpu)" for cpu using signal_locked_remote [of k c n b PlaceLoadAware cpu k1] s(1) that by simp
  then have "(case r of Inl _ \<Rightarrow> {} | Inr remote \<Rightarrow> set_option remote) \<union> {cpu. bit poke cpu} \<subseteq> {cpu. bit ?p cpu}"
    by (auto simp: bit_or_iff bit_push_bit_iff bit_exp_iff split: sum.splits option.splits)
  then have "ok_but {} {cpu. bit ?p cpu} k1 Q1" by (rule ok_but_mono [OF s(2) subset_refl])
  then obtain k' poke' Q' where "signal_all c k1 ?p targets = Some (k', poke')" "ok_but {} {cpu. bit poke' cpu} k' Q'" "same_cores k1 k'"
    using Cons.IH [of ?p k1 Q1] Cons.prems(2,3) same_coresD [OF s(3)] by auto
  then show ?case using s(1) x same_cores_trans [OF s(3)] by auto
qed

lemma ok_kernel_expire_timers:
  assumes ok: "kernel_ok k Q" and tm: "timers_ok tm" and c: "c < length (percpu k)" "current (percpu k ! c) \<noteq> NO_TID"
  shows "\<exists>k' tm' Q'. kernel_expire_timers k tm c now = Some (k', tm') \<and> kernel_ok k' Q' \<and> timers_ok tm'"
proof -
  have wf: "gt_wf (timer_table tm)" using tm by (simp add: timers_ok_def)
  have ok0: "ok_but {} {cpu. bit (0 :: u64) cpu} k Q" using ok by simp
  obtain k' poke Q' where s: "signal_all c k 0 (fired_targets now (timers_of tm)) = Some (k', poke)"
    "ok_but {} {cpu. bit poke cpu} k' Q'" "same_cores k k'"
    using ok_signal_all [OF ok0 c] by blast
  let ?ts = "disarm_due now (timers_of tm)" and ?k = "k'\<lparr>owed := filter (\<lambda>cpu. bit poke cpu) [0..<length (percpu k')] @ owed k'\<rparr>"
  have len: "length ?ts = length (timers_of tm)" by (simp add: disarm_due_def)
  have inbox: "cpu < length (percpu k')" if "Q' (Inbox cpu) \<noteq> []" for cpu
    using fifo_rep_len [OF queues_rep_fifo [OF ok_butD(2) [OF s(2)], of "Inbox cpu"]] that
    by (auto simp: new_fifo_def split: if_splits)
  have "inboxes_ok {} (k'\<lparr>sgis := sgis k', owed := filter (\<lambda>cpu. bit poke cpu) [0..<length (percpu k')] @ owed k'\<rparr>) Q'"
    using ok_butD(3) [OF s(2)] inbox by (auto simp: inboxes_ok_def)
  from ok_interrupts [OF s(2) this] have "kernel_ok ?k Q'" by simp
  moreover have "timers_ok ((write_timers tm ?ts)\<lparr>earliest_deadline := earliest (timers_of (write_timers tm ?ts))\<rparr>)"
    by (rule timers_ok_write [OF wf len]) (use write_timers(2) [OF wf len] earliest_le in \<open>auto simp: cache_sound_def\<close>)
  ultimately show ?thesis using s(1) by (auto simp: kernel_expire_timers_def expire_loop_exact [OF wf])
qed

text \<open>The walk disarms the timers that are due and touches no other.\<close>

lemma expire_timers_entry:
  assumes wf: "gt_wf (timer_table tm)" and walk: "kernel_expire_timers k tm c now = Some (k', tm')"
  shows "gt_get (timer_table tm') i
    = map_option (\<lambda>(phys, t). (phys, if due now t then Timer None else t)) (gt_get (timer_table tm) i)"
  using walk write_timers_entry [OF wf, of "\<lambda>t. if due now t then Timer None else t" i]
  by (auto simp: kernel_expire_timers_def expire_loop_exact [OF wf] disarm_due_def split: bind_splits)

lemma ok_on_tick: "kernel_ok k Q \<Longrightarrow> c < length (percpu k) \<Longrightarrow> kernel_ok (snd (on_tick k c seen now)) Q"
  by (simp add: on_tick_def ok_set_need_resched)

lemma ok_signal_if_safe:
  assumes "kernel_ok k Q" and "c < length (percpu k)" "current (percpu k ! c) \<noteq> NO_TID"
  shows "\<exists>k' Q'. signal_if_safe k c flagged locked taken notify = Some k' \<and> kernel_ok k' Q'"
  using ok_signal_from_interrupt [OF assms] assms(1) by (auto simp: signal_if_safe_def signal_slow_def)

lemma ok_kernel_timer_arm:
  assumes ok: "kernel_ok k Q" and tm: "timers_ok tm" and c: "c < length (percpu k)" "current (percpu k ! c) \<noteq> NO_TID"
  shows "\<exists>r k' tm' Q'. kernel_timer_arm k tm c now i d n b = Some (r, k', tm') \<and> kernel_ok k' Q' \<and> timers_ok tm'"
proof -
  obtain r k' Q' where s: "notification_signal k c n b = Some (r, k')" "kernel_ok k' Q'"
    using ok_notification_signal [OF ok c, of n b] by blast
  then obtain r0 where r0: "signal_locked k c n b PlaceLocal = Some (r0, k')"
    by (auto simp: notification_signal_def split: bind_splits)
  have "timers_ok (put_timer tm i (Timer None))"
    using timers_ok_put [OF tm, of "Timer None" "earliest_deadline tm" i] by (simp add: is_armed_def put_timer_def)
  moreover have "timers_ok ((put_timer tm i (Timer (Some (d, n, b))))\<lparr>earliest_deadline := lowered (earliest_deadline tm) d\<rparr>)"
    by (rule timers_ok_put [OF tm]) (simp_all add: lowered_def deadline_def)
  ultimately show ?thesis
    using ok tm s(2) r0 by (auto simp: kernel_timer_arm_def arm_def split: option.split)
qed

end
