(* ===== verification/Kernel_Steps.thy ===== *)
theory Kernel_Steps
  imports Kernel_Sweep Kernel_Timer
begin

text \<open>The machine as a transition system.  An operation is one hold of the kernel's \<open>IPC_TABLES\<close> lock, or
  one step that needs no lock but touches what the lock protects: a tick, an interrupt sent or taken, the
  tail of a context switch.  The cores take such steps in any order.  \<open>enabled\<close> says which of them a core
  can take where it stands: only \<open>finish_switch\<close> between the two halves of a switch, only the deletion
  of its reply slot between the two halves of a reply, the second half of a blocking call only when the
  first half parked the thread, and on an interrupt stack only what an interrupt handler calls.  \<open>perform\<close> is
  the step itself, \<open>None\<close> where the kernel panics.\<close>


section \<open>The operations of the machine\<close>

type_synonym machine = "Kernel \<times> Timers"

datatype Sched_Op =
    OpSchedule | OpFinishSwitch | OpEnterInterrupt | OpLeaveInterrupt | OpTick u64 u64 | OpExpireTimers u64
  | OpLogSignal bool bool bool NotificationId | OpPreempt | OpReschedInterrupt | OpSteal
  | OpSendOwed nat | OpAdoptIdle "u64 option" | OpComeOnline | OpSpawn "u64 option" bool
  | OpSpawnOn nat "u64 option" bool

datatype Message_Op =
    OpSend RendezvousId "u64 list" u64 | OpSendCap RendezvousId u64 "Object Cap" u64
  | OpCall RendezvousId "u64 list" u64 | OpReceive RendezvousId | OpReceiveCap RendezvousId
  | OpSendResume | OpReceiveResume | OpReceiveCapResume | OpCallResume | OpTakeAborted
  | OpTakeRefused | OpReply u64 "u64 list" | OpDeleteCap u64 | OpCreateRendezvous "u64 option"

datatype Signal_Op =
    OpBindIrq u32 RendezvousId | OpIrqNotify RendezvousId | OpSignal NotificationId u64
  | OpSignalInterrupt NotificationId u64 | OpPoll NotificationId | OpWait NotificationId
  | OpWaitResume | OpBind NotificationId ThreadId | OpCreateNotification "u64 option"

datatype Thread_Op =
    OpExit | OpFault u64 u64 | OpKill ThreadId | OpGrant "Object Cap" | OpGrantAt u64 "Object Cap"
  | OpCreateThread u64 "u64 option" | OpConfigure ThreadId u64 u64 "u64 option"
  | OpInsertCap ThreadId "Object Cap" "u64 option" | OpCapInsert ThreadId u64 u64 u64
  | OpStart ThreadId "u64 list" bool

datatype Revoke_Op =
    OpRevokeFrame u64 u64 | OpRevokeOverlapping u64 u64 | OpRevokeDevice u64

datatype Timer_Op =
    OpCreateTimer "u64 option" | OpTimerArm u64 TimerId u64 NotificationId u64
  | OpTimerCancel TimerId | OpReapTimers u64 u64

datatype Operation =
    Sched Sched_Op | Message Message_Op | Signalling Signal_Op | Life Thread_Op | Revoke Revoke_Op | Timing Timer_Op

definition is_reply :: "Object Cap \<Rightarrow> bool" where
  "is_reply cap = (case object cap of ObReply _ \<Rightarrow> True | _ \<Rightarrow> False)"

text \<open>A core that runs ordinary kernel code: it has a thread, is in neither window, and is not on its
  interrupt stack.  An interrupt handler runs on the interrupt stack, or, when the interrupt came from user
  mode, on the stack of the thread; interrupts are masked while a switch is under way.\<close>

definition handles :: "Kernel \<Rightarrow> nat \<Rightarrow> bool" where
  "handles k c \<longleftrightarrow> c < length (percpu k) \<and> current (percpu k ! c) \<noteq> NO_TID \<and> switched_from (percpu k ! c) = NO_TID"

definition runs_on :: "Kernel \<Rightarrow> nat \<Rightarrow> bool" where
  "runs_on k c \<longleftrightarrow> c < length (percpu k) \<and> current (percpu k ! c) \<noteq> NO_TID
     \<and> switched_from (percpu k ! c) = NO_TID \<and> replying_on k c = None \<and> \<not> on_interrupt_stack (percpu k ! c)"

text \<open>The trampoline of an interrupt taken from kernel mode, and its return to the interrupted stack.\<close>

definition enter_interrupt :: "Kernel \<Rightarrow> nat \<Rightarrow> Kernel" where
  "enter_interrupt k c = upd_cpu k c (\<lambda>p. p\<lparr>on_interrupt_stack := True\<rparr>)"

definition leave_interrupt :: "Kernel \<Rightarrow> nat \<Rightarrow> Kernel" where
  "leave_interrupt k c = upd_cpu k c (\<lambda>p. p\<lparr>on_interrupt_stack := False\<rparr>)"

definition is_idle :: "Kernel \<Rightarrow> ThreadId \<Rightarrow> bool" where
  "is_idle k t \<longleftrightarrow> (\<exists>p \<in> set (percpu k). idle p = t)"

text \<open>The guards that are not those of ordinary kernel code.  No kernel code hands a reply capability to
  \<open>SEND_CAP\<close> or to an insertion: such a capability carries no \<open>GRANT\<close>.  Nothing names an idle thread to
  \<open>kill\<close>: no capability to one is ever made.  A core takes a reschedule interrupt that was sent.  The walk of
  the timers follows a tick that found its cached deadline reached; here a handler may take it at any time.
  A core other than the caller's that \<open>spawn_on\<close> is given is online: a debug build checks it, and there the guard
  asks nothing; a release build trusts its caller, and so does the guard.\<close>

definition sched_enabled :: "nat \<Rightarrow> Sched_Op \<Rightarrow> Kernel \<Rightarrow> bool" where
  "sched_enabled c op k =
     (case op of
        OpFinishSwitch \<Rightarrow> c < length (percpu k)
      | OpEnterInterrupt \<Rightarrow> handles k c \<and> \<not> on_interrupt_stack (percpu k ! c)
      | OpLeaveInterrupt \<Rightarrow> handles k c \<and> on_interrupt_stack (percpu k ! c)
      | OpTick _ _ \<Rightarrow> handles k c
      | OpExpireTimers _ \<Rightarrow> handles k c
      | OpLogSignal _ _ _ _ \<Rightarrow> handles k c
      | OpReschedInterrupt \<Rightarrow> handles k c \<and> c \<in> sgis k
      | OpSendOwed target \<Rightarrow> target \<in> set (owed k)
      | OpAdoptIdle _ \<Rightarrow> c < length (percpu k) \<and> current (percpu k ! c) = NO_TID
      | OpSpawnOn target _ _ \<Rightarrow> runs_on k c \<and> (debug_assertions k \<or> target = c \<or> bit (online_mask k) target)
      | _ \<Rightarrow> runs_on k c)"

definition message_enabled :: "nat \<Rightarrow> Message_Op \<Rightarrow> Kernel \<Rightarrow> bool" where
  "message_enabled c op k =
     (case op of
        OpSend _ _ _ \<Rightarrow> calls k c
      | OpSendCap _ _ cap _ \<Rightarrow> calls k c \<and> \<not> is_reply cap
      | OpCall _ _ _ \<Rightarrow> calls k c
      | OpReceive _ \<Rightarrow> calls k c
      | OpReceiveCap _ \<Rightarrow> calls k c
      | OpSendResume \<Rightarrow> resumes k c
      | OpReceiveResume \<Rightarrow> resumes k c
      | OpReceiveCapResume \<Rightarrow> resumes k c
      | OpCallResume \<Rightarrow> resumes k c
      | OpTakeAborted \<Rightarrow> settled k c
      | OpTakeRefused \<Rightarrow> settled k c
      | OpReply _ _ \<Rightarrow> calls k c
      | OpDeleteCap s \<Rightarrow> c < length (percpu k) \<and> current (percpu k ! c) \<noteq> NO_TID
          \<and> switched_from (percpu k ! c) = NO_TID \<and> (replying_on k c = None \<or> replying_on k c = Some s)
      | _ \<Rightarrow> runs_on k c)"

definition signal_enabled :: "nat \<Rightarrow> Signal_Op \<Rightarrow> Kernel \<Rightarrow> bool" where
  "signal_enabled c op k =
     (case op of
        OpIrqNotify _ \<Rightarrow> handles k c
      | OpSignalInterrupt _ _ \<Rightarrow> handles k c
      | OpWait _ \<Rightarrow> calls k c \<and> \<not> on_interrupt_stack (percpu k ! c)
      | OpWaitResume \<Rightarrow> resumes k c \<and> \<not> on_interrupt_stack (percpu k ! c)
      | _ \<Rightarrow> runs_on k c)"

definition life_enabled :: "nat \<Rightarrow> Thread_Op \<Rightarrow> Kernel \<Rightarrow> bool" where
  "life_enabled c op k =
     (case op of
        OpExit \<Rightarrow> departs k c
      | OpFault _ _ \<Rightarrow> departs k c
      | OpKill t \<Rightarrow> runs_on k c \<and> \<not> is_idle k t
      | OpGrant cap \<Rightarrow> runs_on k c \<and> \<not> is_reply cap
      | OpGrantAt _ cap \<Rightarrow> runs_on k c \<and> \<not> is_reply cap
      | OpInsertCap _ cap _ \<Rightarrow> runs_on k c \<and> \<not> is_reply cap
      | _ \<Rightarrow> runs_on k c)"

primrec enabled :: "nat \<Rightarrow> Operation \<Rightarrow> Kernel \<Rightarrow> bool" where
  "enabled c (Sched op) k = sched_enabled c op k"
| "enabled c (Message op) k \<longleftrightarrow> message_enabled c op k \<and> \<not> on_interrupt_stack (percpu k ! c)"
| "enabled c (Signalling op) k = signal_enabled c op k"
| "enabled c (Life op) k \<longleftrightarrow> life_enabled c op k \<and> \<not> on_interrupt_stack (percpu k ! c)"
| "enabled c (Revoke op) k = runs_on k c"
| "enabled c (Timing op) k = runs_on k c"

text \<open>A step that leaves the timers alone, one that cannot panic, one that answers its caller.\<close>

abbreviation still :: "Timers \<Rightarrow> Kernel option \<Rightarrow> machine option" where
  "still tm k \<equiv> map_option (\<lambda>k. (k, tm)) k"

abbreviation answered :: "Timers \<Rightarrow> ('r \<times> Kernel) option \<Rightarrow> machine option" where
  "answered tm r \<equiv> map_option (\<lambda>(_, k). (k, tm)) r"

primrec sched_step :: "nat \<Rightarrow> Sched_Op \<Rightarrow> Kernel \<Rightarrow> Timers \<Rightarrow> machine option" where
  "sched_step c OpSchedule k tm = still tm (schedule k c)"
| "sched_step c OpFinishSwitch k tm = Some (finish_switch k c, tm)"
| "sched_step c OpEnterInterrupt k tm = Some (enter_interrupt k c, tm)"
| "sched_step c OpLeaveInterrupt k tm = Some (leave_interrupt k c, tm)"
| "sched_step c (OpTick seen now) k tm = Some (snd (on_tick k c seen now), tm)"
| "sched_step c (OpExpireTimers now) k tm = kernel_expire_timers k tm c now"
| "sched_step c (OpLogSignal flagged locked taken notify) k tm = still tm (signal_if_safe k c flagged locked taken notify)"
| "sched_step c OpPreempt k tm = still tm (preempt_if_needed k c)"
| "sched_step c OpReschedInterrupt k tm = still tm (resched_interrupt k c)"
| "sched_step c OpSteal k tm = Some (try_initiate_steal k c, tm)"
| "sched_step c (OpSendOwed target) k tm = Some (send_owed k target, tm)"
| "sched_step c (OpAdoptIdle page) k tm = still tm (adopt_secondary_idle k c page)"
| "sched_step c OpComeOnline k tm = Some (come_online k c, tm)"
| "sched_step c (OpSpawn page stack) k tm = answered tm (spawn k c page stack)"
| "sched_step c (OpSpawnOn target page stack) k tm = answered tm (spawn_on k c target page stack)"

primrec message_step :: "nat \<Rightarrow> Message_Op \<Rightarrow> Kernel \<Rightarrow> Timers \<Rightarrow> machine option" where
  "message_step c (OpSend ep msg badge) k tm = answered tm (ipc_send_badged k c ep msg badge)"
| "message_step c (OpSendCap ep dat cap badge) k tm = answered tm (ipc_send_cap k c ep dat cap badge)"
| "message_step c (OpCall ep msg badge) k tm = answered tm (ipc_call_badged k c ep msg badge)"
| "message_step c (OpReceive ep) k tm = answered tm (ipc_receive k c ep)"
| "message_step c (OpReceiveCap ep) k tm = answered tm (ipc_receive_cap k c ep)"
| "message_step c OpSendResume k tm = Some (ipc_send_resume k c, tm)"
| "message_step c OpReceiveResume k tm = answered tm (ipc_receive_resume k c)"
| "message_step c OpReceiveCapResume k tm = answered tm (ipc_receive_cap_resume k c)"
| "message_step c OpCallResume k tm = answered tm (ipc_call_resume k c)"
| "message_step c OpTakeAborted k tm = Some (snd (take_ipc_aborted k c), tm)"
| "message_step c OpTakeRefused k tm = Some (snd (take_ipc_refused k c), tm)"
| "message_step c (OpReply s msg) k tm = Some (snd (reply_invoke k c s msg), tm)"
| "message_step c (OpDeleteCap s) k tm = Some (snd (delete_current_cap k c s), tm)"
| "message_step c (OpCreateRendezvous page) k tm = Some (snd (create_rendezvous k page), tm)"

primrec signal_step :: "nat \<Rightarrow> Signal_Op \<Rightarrow> Kernel \<Rightarrow> Timers \<Rightarrow> machine option" where
  "signal_step c (OpBindIrq intid ep) k tm = still tm (bind_irq k intid ep)"
| "signal_step c (OpIrqNotify ep) k tm = still tm (irq_notify k c ep)"
| "signal_step c (OpSignal n b) k tm = answered tm (notification_signal k c n b)"
| "signal_step c (OpSignalInterrupt n b) k tm = still tm (signal_notification_from_interrupt k c n b)"
| "signal_step c (OpPoll n) k tm = Some (snd (notification_poll k n), tm)"
| "signal_step c (OpWait n) k tm = answered tm (notification_wait k c n)"
| "signal_step c OpWaitResume k tm = answered tm (notification_wait_resume k c)"
| "signal_step c (OpBind n t) k tm = answered tm (notification_bind k c n t)"
| "signal_step c (OpCreateNotification page) k tm = Some (snd (create_notification k page), tm)"

primrec life_step :: "nat \<Rightarrow> Thread_Op \<Rightarrow> Kernel \<Rightarrow> Timers \<Rightarrow> machine option" where
  "life_step c OpExit k tm = still tm (exit_thread k c)"
| "life_step c (OpFault pc addr) k tm = still tm (fault_thread k c pc addr)"
| "life_step c (OpKill t) k tm = Some (snd (kill_thread k t), tm)"
| "life_step c (OpGrant cap) k tm = Some (snd (grant k c cap), tm)"
| "life_step c (OpGrantAt s cap) k tm = Some (snd (grant_at k c s cap), tm)"
| "life_step c (OpCreateThread region page) k tm = Some (snd (create_thread_control_block k region page), tm)"
| "life_step c (OpConfigure t e sp taken) k tm = Some (snd (configure_thread_control_block k t e sp taken), tm)"
| "life_step c (OpInsertCap t cap target) k tm = Some (snd (thread_control_block_insert_cap k t cap target), tm)"
| "life_step c (OpCapInsert t s r target) k tm = Some (snd (thread_control_block_cap_insert k c t s r target), tm)"
| "life_step c (OpStart t args stack) k tm = answered tm (start_thread_control_block k c t args stack)"

primrec revoke_step :: "nat \<Rightarrow> Revoke_Op \<Rightarrow> Kernel \<Rightarrow> Timers \<Rightarrow> machine option" where
  "revoke_step c (OpRevokeFrame phys n) k tm = Some (delete_page_frame_caps k phys n, tm)"
| "revoke_step c (OpRevokeOverlapping base len) k tm = Some (delete_page_frame_caps_overlapping k base len, tm)"
| "revoke_step c (OpRevokeDevice phys) k tm = Some (delete_device_frame_caps_from_others k c phys, tm)"

primrec timing_step :: "nat \<Rightarrow> Timer_Op \<Rightarrow> Kernel \<Rightarrow> Timers \<Rightarrow> machine option" where
  "timing_step c (OpCreateTimer page) k tm = Some (k, snd (create_timer_from tm page))"
| "timing_step c (OpTimerArm now i d n b) k tm = map_option snd (kernel_timer_arm k tm c now i d n b)"
| "timing_step c (OpTimerCancel i) k tm = Some (k, snd (kernel_timer_cancel tm i))"
| "timing_step c (OpReapTimers base limit) k tm = map_option (Pair k) (reap_region_timers tm base limit)"

primrec perform :: "nat \<Rightarrow> Operation \<Rightarrow> Kernel \<Rightarrow> Timers \<Rightarrow> machine option" where
  "perform c (Sched op) k tm = sched_step c op k tm"
| "perform c (Message op) k tm = message_step c op k tm"
| "perform c (Signalling op) k tm = signal_step c op k tm"
| "perform c (Life op) k tm = life_step c op k tm"
| "perform c (Revoke op) k tm = revoke_step c op k tm"
| "perform c (Timing op) k tm = timing_step c op k tm"

text \<open>The panics the source asks for, each with its condition: a core that comes up and gets no thread of its
  own, for want of a page or of room in the table; in a debug build, a new thread given to a core that is
  not online; an interrupt number out of range.\<close>

definition declared_panic :: "nat \<Rightarrow> Operation \<Rightarrow> Kernel \<Rightarrow> bool" where
  "declared_panic c op k =
     (case op of
        Sched (OpAdoptIdle page) \<Rightarrow> page = None \<or> gt_len (threads k) = length (gt_slots (threads k))
      | Sched (OpSpawnOn target page stack) \<Rightarrow>
          debug_assertions k \<and> target \<noteq> c \<and> \<not> bit (online_mask k) target
          \<and> page \<noteq> None \<and> stack \<and> gt_len (threads k) < length (gt_slots (threads k))
      | Signalling (OpBindIrq intid _) \<Rightarrow> \<not> unat intid < MAX_INTID
      | _ \<Rightarrow> False)"


section \<open>Every step keeps the invariant, and none panics but by declaration\<close>

definition machine_ok :: "machine \<Rightarrow> bool" where
  "machine_ok m \<longleftrightarrow> (\<exists>Q. kernel_ok (fst m) Q) \<and> timers_ok (snd m)"

lemma runs_onD:
  "runs_on k c \<Longrightarrow> c < length (percpu k)" "runs_on k c \<Longrightarrow> current (percpu k ! c) \<noteq> NO_TID"
  "runs_on k c \<Longrightarrow> switched_from (percpu k ! c) = NO_TID" "runs_on k c \<Longrightarrow> replying_on k c = None"
  "runs_on k c \<Longrightarrow> \<not> on_interrupt_stack (percpu k ! c)"
  by (auto simp: runs_on_def)

lemma handlesD:
  "handles k c \<Longrightarrow> c < length (percpu k)" "handles k c \<Longrightarrow> current (percpu k ! c) \<noteq> NO_TID"
  "handles k c \<Longrightarrow> switched_from (percpu k ! c) = NO_TID"
  by (auto simp: handles_def)

lemma is_reply_iff: "is_reply cap \<longleftrightarrow> (\<exists>u. object cap = ObReply u)"
  by (auto simp: is_reply_def split: Object.split)

lemma not_idle: "\<not> is_idle k t \<Longrightarrow> idle_on k t = {}"
  by (auto simp: is_idle_def idle_on_def)

text \<open>An insertion fails exactly when the table is full.\<close>

lemma room_left: "gt_wf t \<Longrightarrow> gt_len t < length (gt_slots t) \<or> gt_len t = length (gt_slots t)"
  using length_filter_le [of "\<lambda>s. s \<noteq> None" "gt_slots t"] unfolding gt_len_def gt_wf_def by linarith

lemma insert_fails_iff:
  assumes wf: "gt_wf t"
  shows "fst (insert_with t f) = None \<longleftrightarrow> gt_len t = length (gt_slots t)"
proof
  assume "fst (insert_with t f) = None"
  then show "gt_len t = length (gt_slots t)" using table_full [OF wf, of f] by (cases "insert_with t f") auto
next
  assume "gt_len t = length (gt_slots t)"
  then have "\<not> length (filter (\<lambda>s. s \<noteq> None) (gt_slots t)) < length (gt_slots t)"
    using gt_wfD(6) [OF wf] unfolding gt_len_def by linarith
  then have "\<forall>i < length (gt_slots t). gt_slots t ! i \<noteq> None"
    using length_filter_less [of _ "gt_slots t" "\<lambda>s. s \<noteq> None"] nth_mem by blast
  then show "fst (insert_with t f) = None"
    using insert_with_cases [OF wf, of f] by auto
qed

lemma adopt_returns_iff:
  assumes ok: "kernel_ok k Q"
  shows "adopt_secondary_idle k c page = None \<longleftrightarrow> page = None \<or> gt_len (threads k) = length (gt_slots (threads k))"
proof (cases page)
  case (Some pg)
  then show ?thesis
    using insert_fails_iff [OF ok_butD(6) [OF ok], of "\<lambda>_. adopt_current pg"]
    by (auto simp: adopt_secondary_idle_def split: prod.splits option.splits)
qed (simp add: adopt_secondary_idle_def)

lemma ok_adopt:
  assumes ok: "kernel_ok k Q" and c: "c < length (percpu k)" "current (percpu k ! c) = NO_TID"
    and room: "\<not> declared_panic c (Sched (OpAdoptIdle page)) k"
  shows "\<exists>k' Q'. adopt_secondary_idle k c page = Some k' \<and> kernel_ok k' Q'"
proof -
  obtain pg k' where "page = Some pg" "adopt_secondary_idle k c page = Some k'"
    using room adopt_returns_iff [OF ok, of c page] by (auto simp: declared_panic_def)
  then show ?thesis using ok_adopt_secondary_idle [OF ok c, of pg] by auto
qed

lemma inserted_iff:
  assumes ok: "kernel_ok k Q"
  shows "fst (insert_in_place k page stack build) \<noteq> None
    \<longleftrightarrow> page \<noteq> None \<and> stack \<and> gt_len (threads k) < length (gt_slots (threads k))"
proof (cases page)
  case (Some pg)
  note full = insert_fails_iff [OF ok_butD(6) [OF ok], of "\<lambda>_. build pg"] room_left [OF ok_butD(6) [OF ok]]
  show ?thesis
    using full Some by (cases "insert_with (threads k) (\<lambda>_. build pg)") (auto simp: insert_in_place_def split: option.splits)
qed (simp add: insert_in_place_def)

lemma ok_spawn_on_declared:
  assumes ok: "kernel_ok k Q" and c: "c < length (percpu k)" "current (percpu k ! c) \<noteq> NO_TID"
    and target: "debug_assertions k \<or> target = c \<or> bit (online_mask k) target"
    and quiet: "\<not> declared_panic c (Sched (OpSpawnOn target page stack)) k"
  shows "\<exists>r k' Q'. spawn_on k c target page stack = Some (r, k') \<and> kernel_ok k' Q'"
proof (cases "target = c \<or> bit (online_mask k) target")
  case False
  then have "fst (insert_in_place k page stack write_kernel_thread) = None"
    using target quiet inserted_iff [OF ok, of page stack write_kernel_thread] by (auto simp: declared_panic_def)
  then show ?thesis
    using ok_insert_in_place [OF ok, of page stack None]
    by (cases "insert_in_place k page stack write_kernel_thread") (auto simp: spawn_on_def)
qed (rule ok_spawn_on [OF ok c])

lemma spawn_on_panics:
  assumes ok: "kernel_ok k Q" and panic: "declared_panic c (Sched (OpSpawnOn target page stack)) k"
  shows "spawn_on k c target page stack = None"
proof -
  obtain t k1 where ins: "insert_in_place k page stack write_kernel_thread = (Some t, k1)"
    using panic inserted_iff [OF ok, of page stack write_kernel_thread]
    by (cases "insert_in_place k page stack write_kernel_thread") (auto simp: declared_panic_def)
  then have "debug_assertions k1 = debug_assertions k" "online_mask k1 = online_mask k"
    by (auto simp: insert_in_place_def split: option.splits prod.splits if_splits)
  then show ?thesis
    using ins panic by (simp add: spawn_on_def declared_panic_def place_on_def debug_assert_def)
qed

text \<open>Where a panic is declared, the step panics.\<close>

lemma declared_panics:
  assumes ok: "kernel_ok k Q" and panic: "declared_panic c op k"
  shows "perform c op k tm = None"
proof -
  consider page where "op = Sched (OpAdoptIdle page)"
    | target page stack where "op = Sched (OpSpawnOn target page stack)"
    | intid ep where "op = Signalling (OpBindIrq intid ep)"
    using panic by (auto simp: declared_panic_def split: Operation.splits Sched_Op.splits Signal_Op.splits)
  then show ?thesis
  proof cases
    case 1
    then show ?thesis using panic adopt_returns_iff [OF ok] by (simp add: declared_panic_def)
  next
    case 2
    then show ?thesis using panic spawn_on_panics [OF ok] by simp
  next
    case 3
    then show ?thesis using panic by (simp add: declared_panic_def bind_irq_def)
  qed
qed

lemma ok_interrupt_stack:
  assumes ok: "kernel_ok k Q" and c: "c < length (percpu k)"
  shows "kernel_ok (enter_interrupt k c) Q" "kernel_ok (leave_interrupt k c) Q"
  unfolding enter_interrupt_def leave_interrupt_def
  by (rule ok_cpu_note [OF ok c]; use core_slot [OF ok c] in simp)+

lemma ok_some: "kernel_ok k Q \<Longrightarrow> \<exists>Q. kernel_ok k Q"
  by blast

lemma stepped:
  "\<exists>k' Q'. r = Some k' \<and> kernel_ok k' Q' \<Longrightarrow> timers_ok tm \<Longrightarrow> \<exists>m'. still tm r = Some m' \<and> machine_ok m'"
  "\<exists>a k' Q'. ra = Some (a, k') \<and> kernel_ok k' Q' \<Longrightarrow> timers_ok tm
    \<Longrightarrow> \<exists>m'. answered tm ra = Some m' \<and> machine_ok m'"
  "\<exists>Q'. kernel_ok k Q' \<Longrightarrow> timers_ok tm \<Longrightarrow> \<exists>m'. Some (k, tm) = Some m' \<and> machine_ok m'"
  "\<exists>k' tm' Q'. rt = Some (k', tm') \<and> kernel_ok k' Q' \<and> timers_ok tm' \<Longrightarrow> \<exists>m'. rt = Some m' \<and> machine_ok m'"
  "\<exists>a k' tm' Q'. rat = Some (a, k', tm') \<and> kernel_ok k' Q' \<and> timers_ok tm'
    \<Longrightarrow> \<exists>m'. map_option snd rat = Some m' \<and> machine_ok m'"
  by (auto simp: machine_ok_def)

lemma ok_resume_some:
  "kernel_ok k Q \<Longrightarrow> resumes k c \<Longrightarrow> \<exists>r k' Q'. resume_with f k c = Some (r, k') \<and> kernel_ok k' Q'"
  using ok_resume_with [of k Q c f] by blast

lemma ok_resumes:
  assumes "kernel_ok k Q" and "resumes k c"
  shows "\<exists>r k' Q'. ipc_receive_resume k c = Some (r, k') \<and> kernel_ok k' Q'"
    "\<exists>r k' Q'. ipc_receive_cap_resume k c = Some (r, k') \<and> kernel_ok k' Q'"
    "\<exists>r k' Q'. ipc_call_resume k c = Some (r, k') \<and> kernel_ok k' Q'"
    "\<exists>r k' Q'. notification_wait_resume k c = Some (r, k') \<and> kernel_ok k' Q'"
  by (simp_all only: ipc_receive_resume_def ipc_receive_cap_resume_def ipc_call_resume_def ok_resume_some [OF assms])
    (use ok_notification_wait_resume [OF assms] in blast)

lemmas ok_scheduling = ok_schedule ok_finish_switch ok_preempt_if_needed ok_resched_interrupt
  ok_some [OF ok_interrupt_stack(1)] ok_some [OF ok_interrupt_stack(2)] ok_some [OF ok_on_tick] ok_signal_if_safe
  ok_some [OF ok_try_initiate_steal] ok_some [OF ok_send_owed] ok_adopt ok_some [OF ok_come_online] ok_spawn ok_spawn_on_declared

lemmas ok_messages = ok_ipc_send_badged ok_ipc_send_cap ok_ipc_call_badged ok_ipc_receive ok_ipc_receive_cap
  ok_resumes(1-3) ok_some [OF ok_ipc_send_resume] ok_some [OF ok_take_ipc_aborted] ok_some [OF ok_take_ipc_refused]
  ok_reply_invoke ok_some [OF ok_delete_current_cap] ok_some [OF ok_create_rendezvous]

lemmas ok_signals = ok_bind_irq ok_irq_notify ok_notification_signal ok_signal_from_interrupt
  ok_some [OF ok_notification_poll] ok_notification_wait ok_resumes(4) ok_notification_bind
  ok_some [OF ok_create_notification]

lemmas ok_lives = ok_depart [of _ _ _ EVENT_EXIT 0 0, folded exit_thread_def]
  ok_depart [of _ _ _ EVENT_FAULT, folded fault_thread_def]
  ok_some [OF ok_kill_thread] ok_some [OF ok_grant(1)] ok_some [OF ok_grant(2)] ok_some [OF ok_create_thread_control_block]
  ok_some [OF ok_configure] ok_some [OF ok_insert_cap_embryo] ok_some [OF ok_cap_insert] ok_start

lemmas ok_revocations = ok_some [OF ok_delete_page_frame_caps] ok_some [OF ok_delete_page_frame_caps_overlapping]
  ok_some [OF ok_delete_device_frame_caps]

text \<open>An operation that is enabled and declares no panic returns, and what it leaves satisfies the invariant
  again.\<close>

lemma sched_step_ok:
  assumes ok: "kernel_ok k Q" and tm: "timers_ok tm" and en: "sched_enabled c op k" and quiet: "\<not> declared_panic c (Sched op) k"
  shows "\<exists>m'. sched_step c op k tm = Some m' \<and> machine_ok m'"
  using en quiet
  by (cases op; simp only: sched_step.simps sched_enabled_def Sched_Op.case)
    (rule stepped, rule ok_scheduling [OF ok] ok_kernel_expire_timers [OF ok tm]; auto simp: tm dest: runs_onD handlesD)+

lemma message_step_ok:
  assumes ok: "kernel_ok k Q" and tm: "timers_ok tm" and en: "message_enabled c op k"
  shows "\<exists>m'. message_step c op k tm = Some m' \<and> machine_ok m'"
  using en
  by (cases op; simp only: message_step.simps message_enabled_def Message_Op.case)
    (rule stepped, rule ok_messages [OF ok]; auto simp: is_reply_iff tm)+

lemma signal_step_ok:
  assumes ok: "kernel_ok k Q" and tm: "timers_ok tm" and en: "signal_enabled c op k" and quiet: "\<not> declared_panic c (Signalling op) k"
  shows "\<exists>m'. signal_step c op k tm = Some m' \<and> machine_ok m'"
  using en quiet
  by (cases op; simp only: signal_step.simps signal_enabled_def Signal_Op.case)
    (rule stepped, rule ok_signals [OF ok]; auto simp: tm declared_panic_def dest: runs_onD handlesD)+

lemma life_step_ok:
  assumes ok: "kernel_ok k Q" and tm: "timers_ok tm" and en: "life_enabled c op k"
  shows "\<exists>m'. life_step c op k tm = Some m' \<and> machine_ok m'"
  using en
  by (cases op; simp only: life_step.simps life_enabled_def Thread_Op.case)
    (rule stepped, rule ok_lives [OF ok]; auto simp: is_reply_iff not_idle tm dest: runs_onD)+

lemma revoke_step_ok:
  assumes ok: "kernel_ok k Q" and tm: "timers_ok tm"
  shows "\<exists>m'. revoke_step c op k tm = Some m' \<and> machine_ok m'"
  by (cases op; simp only: revoke_step.simps) (rule stepped, rule ok_revocations [OF ok], rule tm)+

lemma timing_step_ok:
  assumes ok: "kernel_ok k Q" and tm: "timers_ok tm" and en: "runs_on k c"
  shows "\<exists>m'. timing_step c op k tm = Some m' \<and> machine_ok m'"
  using en
proof (cases op)
  case (OpReapTimers base limit)
  then show ?thesis using timers_ok_reap [OF tm, of base limit] ok by (auto simp: machine_ok_def)
qed (simp only: timing_step.simps,
    rule stepped, rule ok_some [OF ok] ok_kernel_timer_arm [OF ok tm];
      auto simp: tm timers_ok_create timers_ok_cancel dest: runs_onD)+

lemma perform_ok:
  assumes ok: "kernel_ok k Q" and tm: "timers_ok tm" and en: "enabled c op k" and quiet: "\<not> declared_panic c op k"
  shows "\<exists>m'. perform c op k tm = Some m' \<and> machine_ok m'"
  using en quiet sched_step_ok [OF ok tm] message_step_ok [OF ok tm] signal_step_ok [OF ok tm] life_step_ok [OF ok tm]
    revoke_step_ok [OF ok tm] timing_step_ok [OF ok tm]
  by (cases op) simp_all


section \<open>Reachable states\<close>

definition machine_init ::
    "bool \<Rightarrow> nat \<Rightarrow> nat \<Rightarrow> nat \<Rightarrow> nat \<Rightarrow> nat \<Rightarrow> nat \<Rightarrow> u64 \<Rightarrow> u64 \<Rightarrow> machine option" where
  "machine_init dbg max_cpus max_threads max_rendezvous max_notifications max_timers c boot_page idle_page =
     (if c < max_cpus \<and> max_cpus \<le> 64 \<and> 2 \<le> max_threads \<and> max_threads \<le> 2 ^ 32 - 1
         \<and> 0 < max_rendezvous \<and> max_rendezvous \<le> 2 ^ 32 - 1 \<and> 0 < max_notifications \<and> max_notifications \<le> 2 ^ 32 - 1
         \<and> 0 < max_timers \<and> max_timers \<le> 2 ^ 32 - 1
      then map_option (\<lambda>k. (k, new_timers max_timers))
             (sched_init dbg max_cpus max_threads max_rendezvous max_notifications c boot_page idle_page)
      else None)"

lemma machine_init_code [code]:
  "machine_init dbg cpus ths rvs nts tms c bp ip =
     (if c < cpus \<and> cpus \<le> 64 \<and> 2 \<le> ths \<and> int ths \<le> 2 ^ 32 - 1 \<and> 0 < rvs \<and> int rvs \<le> 2 ^ 32 - 1
         \<and> 0 < nts \<and> int nts \<le> 2 ^ 32 - 1 \<and> 0 < tms \<and> int tms \<le> 2 ^ 32 - 1
      then map_option (\<lambda>k. (k, new_timers tms)) (sched_init dbg cpus ths rvs nts c bp ip) else None)"
  by (simp add: machine_init_def)

inductive reachable :: "machine \<Rightarrow> bool" where
  boot: "machine_init dbg cpus ths rvs nts tms c boot_page idle_page = Some m \<Longrightarrow> reachable m"
| step: "reachable m \<Longrightarrow> enabled c op (fst m) \<Longrightarrow> perform c op (fst m) (snd m) = Some m' \<Longrightarrow> reachable m'"

lemma machine_init_ok: "machine_init dbg cpus ths rvs nts tms c bp ip = Some m \<Longrightarrow> machine_ok m"
  using ok_sched_init [of c cpus ths rvs nts dbg bp ip] timers_ok_new [of tms]
  by (auto simp: machine_init_def machine_ok_def split: if_splits)

lemma reachable_ok: "reachable m \<Longrightarrow> machine_ok m"
proof (induction rule: reachable.induct)
  case (step m c op m')
  then obtain Q where "kernel_ok (fst m) Q" "timers_ok (snd m)" by (auto simp: machine_ok_def)
  from perform_ok [OF this step.hyps(2)] declared_panics [OF this(1)] step.hyps(3) show ?case by fastforce
qed (rule machine_init_ok)

lemma reachable_kernel_ok:
  assumes "reachable (k, tm)"
  obtains Q where "kernel_ok k Q" "timers_ok tm"
  using reachable_ok [OF assms] by (auto simp: machine_ok_def)

text \<open>A schedule of the cores as a list, for computing a reachable state.\<close>

fun run_ops :: "(nat \<times> Operation) list \<Rightarrow> machine \<Rightarrow> machine option" where
  "run_ops [] m = Some m"
| "run_ops ((c, op) # ops) m = (if enabled c op (fst m) then Option.bind (perform c op (fst m) (snd m)) (run_ops ops) else None)"

lemma run_ops_reachable: "run_ops ops m = Some m' \<Longrightarrow> reachable m \<Longrightarrow> reachable m'"
proof (induction ops m rule: run_ops.induct)
  case (2 c op ops m)
  then obtain m1 where "enabled c op (fst m)" "perform c op (fst m) (snd m) = Some m1" "run_ops ops m1 = Some m'"
    by (auto simp: bind_eq_Some_conv split: if_splits)
  with 2 show ?case by (blast intro: reachable.step)
qed simp

end
