(* ===== verification/Kernel_Safety.thy ===== *)
theory Kernel_Safety
  imports Kernel_Steps
begin

text \<open>What holds in every state the machine can reach, whatever the cores do and in whatever order: the
  kernel panics only where its source asks for it, no thread runs on two cores, every thread is where its
  state says it is, a wake is not lost, a reply capability is unique and its reply arrives, an armed timer
  fires.\<close>


section \<open>A machine to evaluate on\<close>

definition demo :: "(nat \<times> Operation) list \<Rightarrow> machine option" where
  "demo ops = Option.bind (machine_init True 2 4 2 2 2 0 0x5000 0x6000) (run_ops ops)"

lemma demo_reachable:
  assumes "\<not> Option.is_none (demo ops)"
  shows "reachable (fst (the (demo ops)), snd (the (demo ops)))"
proof -
  obtain m m' where "machine_init True 2 4 2 2 2 0 0x5000 0x6000 = Some m" "run_ops ops m = Some m'"
    using assms by (auto simp: demo_def Option.is_none_def bind_eq_None_conv)
  then show ?thesis using run_ops_reachable [OF _ reachable.boot] by (simp add: demo_def)
qed

text \<open>The boot thread calls over a rendezvous, and a second thread receives the call.\<close>

definition call_ops :: "(nat \<times> Operation) list" where
  "call_ops =
     [(0, Message (OpCreateRendezvous (Some 0x1000))), (0, Sched (OpSpawnOn 0 (Some 0x2000) True)),
      (0, Message (OpCall 0 [7, 8, 9] 5)), (0, Sched OpSchedule), (0, Sched OpFinishSwitch),
      (0, Message (OpReceiveCap 0))]"

definition called :: Kernel where
  "called = fst (the (demo call_ops))"

lemma called_reachable: "reachable (called, snd (the (demo call_ops)))"
  unfolding called_def by (rule demo_reachable) code_simp

text \<open>A second core joins, and the first gives it a thread.\<close>

definition two_cores_ops :: "(nat \<times> Operation) list" where
  "two_cores_ops = [(1, Sched (OpAdoptIdle (Some 0x3000))), (1, Sched OpComeOnline), (0, Sched (OpSpawnOn 1 (Some 0x2000) True))]"

definition two_cores :: Kernel where
  "two_cores = fst (the (demo two_cores_ops))"

lemma two_cores_reachable: "reachable (two_cores, snd (the (demo two_cores_ops)))"
  unfolding two_cores_def by (rule demo_reachable) code_simp


text \<open>A signal meets the boot thread after it has blocked and before its core has left it.\<close>

definition window_ops :: "(nat \<times> Operation) list" where
  "window_ops =
     [(0, Signalling (OpCreateNotification (Some 0x1000))), (0, Signalling (OpWait 0)),
      (0, Signalling (OpSignalInterrupt 0 1)), (0, Sched OpSchedule)]"

definition window :: Kernel where
  "window = fst (the (demo window_ops))"

lemma window_reachable: "reachable (window, snd (the (demo window_ops)))"
  unfolding window_def by (rule demo_reachable) code_simp




text \<open>The boot thread arms a timer.\<close>

definition timer_ops :: "(nat \<times> Operation) list" where
  "timer_ops =
     [(0, Signalling (OpCreateNotification (Some 0x1000))), (0, Timing (OpCreateTimer (Some 0x2000))),
      (0, Timing (OpTimerArm 5 0 100 0 4))]"

definition armed_machine :: machine where
  "armed_machine = the (demo timer_ops)"

lemma armed_reachable: "reachable (fst armed_machine, snd armed_machine)"
  unfolding armed_machine_def by (rule demo_reachable) code_simp

text \<open>An embryo is configured and given a supervisor.\<close>

definition embryo_ops :: "(nat \<times> Operation) list" where
  "embryo_ops =
     [(0, Life (OpCreateThread 9 (Some 0x2000))), (0, Life (OpConfigure 2 0x400000 0x7000 (Some 1))),
      (0, Life (OpInsertCap 2 \<lparr>object = ObRendezvous 0 0, rights = RIGHTS_WRITE\<rparr> (Some FAULT_EP_SLOT)))]"

definition supervised :: Kernel where
  "supervised = fst (the (demo embryo_ops))"

lemma supervised_reachable: "reachable (supervised, snd (the (demo embryo_ops)))"
  unfolding supervised_def by (rule demo_reachable) code_simp


section \<open>The kernel does not panic\<close>

text \<open>C2. In every reachable state, every operation a core can take there returns, unless it is one of the
  panics the source asks for, and then it panics.  Those are three: a core that comes up and finds no page or
  no room for its thread, in a debug build a new thread placed on a core that is not online, and an interrupt
  number out of range.  Otherwise no assertion fires, no unwrapped lookup misses, no index is out of range,
  no loop runs on, and the state that is left is again one in which this holds.  The assertions that speak of
  lock ranks and of masked interrupts are not part of the model.\<close>

theorem only_declared_panics:
  assumes "reachable (k, tm)" and "enabled c op k"
  shows "if declared_panic c op k then perform c op k tm = None
    else \<exists>k' tm'. perform c op k tm = Some (k', tm') \<and> reachable (k', tm')"
proof -
  obtain Q where ok: "kernel_ok k Q" "timers_ok tm" by (rule reachable_kernel_ok [OF assms(1)])
  have "\<exists>k' tm'. perform c op k tm = Some (k', tm')" if "\<not> declared_panic c op k"
    using perform_ok [OF ok assms(2) that] by (metis surj_pair)
  with declared_panics [OF ok(1)] reachable.step [OF assms(1), of c op] assms(2) show ?thesis by auto
qed

text \<open>The reply of the second thread to the call it received; an interrupt number that is out of range.\<close>

theorem only_declared_panics_witness:
  "(\<exists>k' tm'. perform 0 (Message (OpReply 0 [1, 2, 3])) called (snd (the (demo call_ops))) = Some (k', tm') \<and> reachable (k', tm'))
   \<and> perform 0 (Signalling (OpBindIrq 256 0)) called (snd (the (demo call_ops))) = None"
proof -
  have en: "enabled 0 (Message (OpReply 0 [1, 2, 3])) called" "enabled 0 (Signalling (OpBindIrq 256 0)) called"
    "\<not> declared_panic 0 (Message (OpReply 0 [1, 2, 3])) called" "declared_panic 0 (Signalling (OpBindIrq 256 0)) called"
    by code_simp+
  from only_declared_panics [OF called_reachable en(1)] only_declared_panics [OF called_reachable en(2)] en(3,4)
  show ?thesis by simp
qed


section \<open>Threads and cores\<close>

lemma standing_thread:
  assumes ok: "kernel_ok k Q" and c: "c < length (percpu k)" and t: "t \<noteq> NO_TID"
    and on: "current (percpu k ! c) = t \<or> switched_from (percpu k ! c) = t"
  obtains th where "get_thread k t = Some th" "on_cpu (handshake th)" "cur_on k t \<union> out_on k t = {c}"
proof -
  have cc: "c \<in> cur_on k t \<union> out_on k t" using c on by (auto simp: cur_on_def out_on_def)
  then obtain th where th: "get_thread k t = Some th"
    using ok_butD(5) [OF ok, of t] t by (cases "get_thread k t") (auto simp: good_def absent_ok_def)
  have st: "stands_ok th (cur_on k t) (out_on k t) (idle_on k t)"
    using thread_okD(1) [OF ok_but_good [OF ok _ th]] by simp
  then have "on_cpu (handshake th)" using cc by (auto simp: stands_ok_def)
  moreover have "cur_on k t \<union> out_on k t = {c}" using st cc unfolding stands_ok_def by blast
  ultimately show ?thesis using th that by blast
qed

text \<open>C4. A thread stands on at most one core: no two cores have it as the thread they run or as the one
  whose switch they have not finished, and a thread some core stands on is live and marked \<open>on_cpu\<close>, which
  is what keeps every other core from resuming it on the same stack.\<close>

theorem one_core_per_thread:
  assumes "reachable (k, tm)" and "c < length (percpu k)" "d < length (percpu k)" and "t \<noteq> NO_TID"
    and "current (percpu k ! c) = t \<or> switched_from (percpu k ! c) = t"
    and "current (percpu k ! d) = t \<or> switched_from (percpu k ! d) = t"
  shows "c = d \<and> (\<exists>th. get_thread k t = Some th \<and> on_cpu (handshake th))"
proof -
  obtain Q where ok: "kernel_ok k Q" by (rule reachable_kernel_ok [OF assms(1)])
  obtain th where "get_thread k t = Some th" "on_cpu (handshake th)" "cur_on k t \<union> out_on k t = {c}"
    using standing_thread [OF ok assms(2,4,5)] .
  moreover have "cur_on k t \<union> out_on k t = {d}" using standing_thread [OF ok assms(3,4,6)] by metis
  ultimately show ?thesis by auto
qed

theorem one_core_per_thread_witness:
  "length (percpu two_cores) = 2 \<and> current (percpu two_cores ! 1) = 2
   \<and> (\<exists>th. get_thread two_cores 2 = Some th \<and> on_cpu (handshake th))"
proof -
  have k: "length (percpu two_cores) = 2" "current (percpu two_cores ! 1) = 2" by code_simp+
  show ?thesis using one_core_per_thread [OF two_cores_reachable, of 1 1 2] k by (simp add: NO_TID_def)
qed

text \<open>C8. Every thread is where its state says.  The run queues, the inboxes and the wait queues of the
  rendezvous and the notifications are represented by lists without a thread in two places, and hold live
  threads only; a ready thread that is no core's idle thread is on exactly one run queue or inbox; a running
  one is some core's current thread; a blocked one that nothing has been delivered to is on the queue it
  says it waits on, unless it awaits the answer to a call already collected.\<close>

theorem every_thread_is_in_its_place:
  assumes "reachable (k, tm)"
  shows "\<exists>Q. queues_rep (links k) (the_queue k) Q
    \<and> (\<forall>q t. t \<in> set (Q q) \<longrightarrow> get_thread k t \<noteq> None)
    \<and> (\<forall>t th. get_thread k t = Some th \<and> \<not> is_idle k t \<longrightarrow>
         (state (handshake th) = Ready \<longrightarrow> (\<exists>c. places Q t = {RunQ c} \<or> places Q t = {Inbox c}))
         \<and> (state (handshake th) = Running \<longrightarrow> (\<exists>c < length (percpu k). current (percpu k ! c) = t))
         \<and> (state (handshake th) = Blocked \<and> \<not> is_delivered (handshake th) \<and> \<not> awaits_reply th \<longrightarrow>
              (\<exists>w. wait_on (handshake th) = Some w \<and> places Q t = {wait_queue w})))"
proof -
  obtain Q where ok: "kernel_ok k Q" by (rule reachable_kernel_ok [OF assms])
  have live: "get_thread k t \<noteq> None" if "t \<in> set (Q q)" for q t
    using queued_thread [OF ok that] by auto
  have place: "place_ok th (places Q t) (cur_on k t) (out_on k t) {}" if "get_thread k t = Some th" "\<not> is_idle k t" for t th
    using thread_okD(3) [OF ok_but_good [OF ok _ that(1)]] not_idle [OF that(2)] by simp
  have reply: "awaits_reply th" if "wait_on (handshake th) = Some w" "wait_reply w" for th w
    using that by (cases w rule: wait_reply.cases) (auto simp: awaits_reply_def)
  have wait: "\<exists>w. wait_on (handshake th) = Some w \<and> places Q t = {wait_queue w}"
    if "get_thread k t = Some th" "\<not> is_idle k t" "state (handshake th) = Blocked" "\<not> is_delivered (handshake th)" "\<not> awaits_reply th" for t th
    using place [OF that(1,2)] that(3-5) reply [of th]
    by (auto simp: place_ok_def waits_ok_def split: option.splits if_splits)
  have run: "\<exists>c < length (percpu k). current (percpu k ! c) = t" if "get_thread k t = Some th" "\<not> is_idle k t" "state (handshake th) = Running" for t th
    using place [OF that(1,2)] that(3) by (auto simp: place_ok_def cur_on_def)
  have "(\<exists>c. places Q t = {RunQ c} \<or> places Q t = {Inbox c})" if "get_thread k t = Some th" "\<not> is_idle k t" "state (handshake th) = Ready" for t th
    using place [OF that(1,2)] that(3) by (auto simp: place_ok_def)
  with live wait run ok_butD(2) [OF ok] show ?thesis by blast
qed

theorem every_thread_is_in_its_place_witness:
  "\<exists>Q. queues_rep (links two_cores) (the_queue two_cores) Q \<and> (\<exists>c. places Q 3 = {RunQ c} \<or> places Q 3 = {Inbox c})"
proof -
  have "map_option (\<lambda>th. state (handshake th)) (get_thread two_cores 3) = Some Ready" "\<not> is_idle two_cores 3" by code_simp+
  then obtain th where "get_thread two_cores 3 = Some th" "state (handshake th) = Ready" "\<not> is_idle two_cores 3" by auto
  with every_thread_is_in_its_place [OF two_cores_reachable] show ?thesis by meson
qed

text \<open>C16. An inbox with a thread in it has its interrupt: the core's reschedule interrupt has been sent and
  not yet taken, or the core that filled the inbox still owes it.  The lengths other cores read without
  the lock, to choose a target, are those of the queues.\<close>

theorem filled_inbox_is_signalled:
  assumes "reachable (k, tm)" and "c < length (percpu k)"
  shows "(fifo_len (inbox (percpu k ! c)) \<noteq> 0 \<longrightarrow> c \<in> sgis k \<union> set (owed k))
    \<and> runq_len (percpu k ! c) = fifo_len (runq (percpu k ! c)) \<and> inbox_len (percpu k ! c) = fifo_len (inbox (percpu k ! c))"
proof -
  obtain Q where ok: "kernel_ok k Q" by (rule reachable_kernel_ok [OF assms(1)])
  have "fifo_rep (links k) (inbox (percpu k ! c)) (Q (Inbox c))"
    using queues_rep_fifo [OF ok_butD(2) [OF ok], of "Inbox c"] assms(2) by simp
  then have "fifo_len (inbox (percpu k ! c)) = length (Q (Inbox c))" by (rule fifo_rep_len)
  then have "fifo_len (inbox (percpu k ! c)) \<noteq> 0 \<longrightarrow> c \<in> sgis k \<union> set (owed k)"
    using ok_butD(3) [OF ok] by (auto simp: inboxes_ok_def)
  with ok_butD(4) [OF ok assms(2)] show ?thesis by (simp add: core_ok_def Let_def)
qed

theorem filled_inbox_is_signalled_witness:
  "fifo_len (inbox (percpu two_cores ! 1)) = 1 \<and> 1 \<in> sgis two_cores \<union> set (owed two_cores)"
proof -
  have k: "length (percpu two_cores) = 2" "fifo_len (inbox (percpu two_cores ! 1)) = 1" by code_simp+
  show ?thesis using filled_inbox_is_signalled [OF two_cores_reachable, of 1] k by simp
qed


section \<open>Waking in the window of a switch\<close>

text \<open>C12. A wake that meets a thread still standing on the core that switched away from it is not lost.
  A blocked thread that has been delivered to is in that window with the wake recorded on it, and when its
  core finishes the switch the thread is ready and last on that core's run queue.\<close>

theorem deferred_wake_is_completed:
  assumes "reachable (k, tm)" and th: "get_thread k t = Some th" "state (handshake th) = Blocked" "is_delivered (handshake th)"
  shows "wake_pending (handshake th)
    \<and> (\<exists>c < length (percpu k). (current (percpu k ! c) = t \<or> switched_from (percpu k ! c) = t)
         \<and> (switched_from (percpu k ! c) = t \<longrightarrow>
              (\<exists>xs. fifo_rep (links k) (runq (percpu k ! c)) xs
                 \<and> fifo_rep (links (finish_switch k c)) (runq (percpu (finish_switch k c) ! c)) (xs @ [t])
                 \<and> map_option (\<lambda>th. state (handshake th)) (get_thread (finish_switch k c) t) = Some Ready)))"
proof -
  obtain Q where ok: "kernel_ok k Q" by (rule reachable_kernel_ok [OF assms(1)])
  note wf = ok_butD(6) [OF ok]
  have tok: "thread_ok t th (places Q t) (cur_on k t) (out_on k t) (idle_on k t) (holders k t)"
    using ok_but_good [OF ok _ th(1)] by simp
  have p: "wake_pending (handshake th)" "on_cpu (handshake th)" "places Q t = {}"
    using tok th(2,3) by (auto simp: thread_ok_def wait_ok_def place_ok_def waits_ok_def)
  have nt: "t \<noteq> NO_TID" using th(1) get_thread_NO_TID [OF wf] by auto
  have fin: "\<exists>xs. fifo_rep (links k) (runq (percpu k ! c)) xs
      \<and> fifo_rep (links (finish_switch k c)) (runq (percpu (finish_switch k c) ! c)) (xs @ [t])
      \<and> map_option (\<lambda>th. state (handshake th)) (get_thread (finish_switch k c) t) = Some Ready"
    if c: "c < length (percpu k)" "switched_from (percpu k ! c) = t" for c
  proof -
    have rep: "fifo_rep (links k) (runq (percpu k ! c)) (Q (RunQ c))"
      using queues_rep_fifo [OF ok_butD(2) [OF ok], of "RunQ c"] c by simp
    obtain h q where push: "push_back (links k) (runq (percpu k ! c)) t = (h, q)" by (cases "push_back (links k) (runq (percpu k ! c)) t")
    have "t \<notin> set (Q (RunQ c))" using p(3) by (simp add: places_empty)
    note push' = fifo_rep_push [OF rep this push]
    let ?h = "(handshake th)\<lparr>on_cpu := False, wake_pending := False, state := Ready, wait_on := None\<rparr>"
    let ?k = "upd_thread (upd_cpu k c (\<lambda>p. p\<lparr>switched_from := NO_TID\<rparr>)) t (\<lambda>t. t\<lparr>handshake := ?h\<rparr>)"
    have eq: "finish_switch k c = runq_push ?k c t"
      using c nt th p(1) by (simp add: finish_switch_def cpu_of_def Let_def finish_switch_out_def)
    have "links ?k = links k" "runq (percpu ?k ! c) = runq (percpu k ! c)" "c < length (percpu ?k)"
      using c by (simp_all add: percpu_upd_cpu upd_cpu_def upd_thread_def)
    then have "links (finish_switch k c) = h" "runq (percpu (finish_switch k c) ! c) = q"
      "get_thread (finish_switch k c) = get_thread ?k"
      using push by (simp_all add: eq runq_push_def with_runq_def cpu_of_def upd_cpu_def get_thread_def fun_eq_iff)
    then show ?thesis using rep push' th(1) wf by auto
  qed
  have "cur_on k t \<union> out_on k t \<noteq> {}" using thread_okD(1) [OF tok] p(2) by (auto simp: stands_ok_def)
  then obtain c where "c < length (percpu k)" "current (percpu k ! c) = t \<or> switched_from (percpu k ! c) = t"
    by (auto simp: cur_on_def out_on_def)
  with fin p(1) show ?thesis by blast
qed

theorem deferred_wake_is_completed_witness:
  "switched_from (percpu window ! 0) = 0
   \<and> map_option (\<lambda>th. state (handshake th)) (get_thread (finish_switch window 0) 0) = Some Ready"
proof -
  have "map_option (\<lambda>th. (state (handshake th), is_delivered (handshake th))) (get_thread window 0) = Some (Blocked, True)"
    by code_simp
  then obtain th where th: "get_thread window 0 = Some th" "state (handshake th) = Blocked" "is_delivered (handshake th)" by auto
  have k: "switched_from (percpu window ! 0) = 0" "current (percpu window ! 0) \<noteq> 0" "current (percpu window ! 1) \<noteq> 0"
    "switched_from (percpu window ! 1) \<noteq> 0" "length (percpu window) = 2" by code_simp+
  have "c = 0" if "c < length (percpu window)" "current (percpu window ! c) = 0 \<or> switched_from (percpu window ! c) = 0" for c
    using that k by (cases c) auto
  with deferred_wake_is_completed [OF window_reachable th] k(1) show ?thesis by blast
qed


section \<open>Call and reply\<close>

text \<open>C10. A reply capability is unique while it can be used: if two slots of two threads both hold one that
  names the same caller, and neither thread has already answered from its slot, they are the same slot of
  the same thread; and the caller is then blocked, awaits this reply, and has been delivered nothing.\<close>

theorem reply_capability_is_unique:
  assumes "reachable (k, tm)"
    and s: "get_thread k s = Some hs" "slot (capability_table hs) i = Some cap" "object cap = ObReply t" "replying hs = None"
    and u: "get_thread k u = Some hu" "slot (capability_table hu) j = Some cap'" "object cap' = ObReply t" "replying hu = None"
  shows "s = u \<and> i = j
    \<and> (\<exists>th. get_thread k t = Some th \<and> state (handshake th) = Blocked \<and> awaits_reply th \<and> \<not> is_delivered (handshake th))"
proof -
  obtain Q where ok: "kernel_ok k Q" by (rule reachable_kernel_ok [OF assms(1)])
  obtain th where th: "get_thread k t = Some th" "holders k t = {(s, i)}" "state (handshake th) = Blocked" "awaits_reply th"
    "\<not> is_delivered (handshake th)"
    using reply_target [OF ok s(1,4,2,3)] by metis
  have "(u, j) \<in> holders k t" using u by (auto simp: holders_def live_replies_def reply_slots_def)
  with th show ?thesis by auto
qed

theorem reply_capability_is_unique_witness:
  "\<exists>hs cap. get_thread called 2 = Some hs \<and> slot (capability_table hs) 0 = Some cap \<and> object cap = ObReply 0
    \<and> (\<exists>th. get_thread called 0 = Some th \<and> state (handshake th) = Blocked \<and> awaits_reply th \<and> \<not> is_delivered (handshake th))"
proof -
  have "map_option (\<lambda>hs. (map_option object (slot (capability_table hs) 0), replying hs)) (get_thread called 2) = Some (Some (ObReply 0), None)"
    by code_simp
  then obtain hs cap where hs: "get_thread called 2 = Some hs" "slot (capability_table hs) 0 = Some cap" "object cap = ObReply 0" "replying hs = None"
    by auto
  from reply_capability_is_unique [OF called_reachable hs hs] hs show ?thesis by blast
qed

lemma get_wake:
  assumes "gt_wf (threads k)" and "get_thread k t = Some th"
  shows "get_thread (wake k c t) = (get_thread k)(t \<mapsto> th\<lparr>handshake := snd (try_wake (handshake th))\<rparr>)"
  using assms by (simp add: wake_def Let_def split: prod.split)

lemma current_wake: "c < length (percpu k) \<Longrightarrow> current_thread_id (wake k c t) c' = current_thread_id k c'"
  by (auto simp: wake_def current_thread_id_def cpu_of_def Let_def runq_push_def with_runq_def upd_cpu_def nth_list_update
      split: option.split prod.split)

lemma delete_slots:
  assumes "delete (ct, seen) s = (e, cs, seen')"
  shows "slot cs j = (if j = unat s then None else slot ct j)"
proof -
  have "cs = fst (snd (empty_slot (ct, seen) (unat s)))"
    using assms by (auto simp: delete_def split: prod.splits option.splits)
  then show ?thesis by simp
qed

text \<open>C7. A reply reaches its caller, once.  A thread that invokes a reply capability it holds is answered
  with success; the caller it names has the answer in its mailbox and is ready, or has the wake recorded
  on it if its core has not left it yet; and when the thread has then emptied the slot, no thread holds a
  usable capability to reply to that caller.\<close>

theorem reply_reaches_its_caller_once:
  assumes "reachable (k, tm)" and call: "calls k c" and cap: "current_cap k c s = Inr cap" "object cap = ObReply t"
    and inv: "reply_invoke k c s msg = (r, k')"
  shows "r = Inr ()
    \<and> (\<exists>th. get_thread k' t = Some th \<and> mailbox th = [msg ! 0, msg ! 1, 0, 0, 0] \<and> ipc_served (handshake th)
         \<and> (state (handshake th) = Ready \<or> on_cpu (handshake th) \<and> wake_pending (handshake th)))
    \<and> holders (snd (delete_current_cap k' c s)) t = {}"
proof -
  obtain Q where ok: "kernel_ok k Q" by (rule reachable_kernel_ok [OF assms(1)])
  note wf = ok_butD(6) [OF ok]
  define u where "u = current (percpu k ! c)"
  obtain hu where hu: "get_thread k u = Some hu" "thread_ok u hu {} {c} {} {} {}" "state (handshake hu) = Running" "replying hu = None"
    using calling_thread [OF ok call u_def] by metis
  have sl: "slot (capability_table hu) (unat s) = Some cap"
    using cap(1) current_cap_slot [of k c hu s] hu(1) by (simp add: u_def split: option.splits)
  obtain th where th: "get_thread k t = Some th" "holders k t = {(u, unat s)}" "state (handshake th) = Blocked" "awaits_reply th"
    using reply_target [OF ok hu(1,4) sl cap(2)] by metis
  have tu: "t \<noteq> u" using th(1,3) hu(1,3) by auto
  have w: "allows (rights cap) RIGHTS_WRITE"
    using reply_rights [OF thread_okD(8) [OF hu(2)] sl cap(2)] by (simp add: allows_def is_subset_of_def)
  let ?k1 = "upd_thread k u (\<lambda>t. t\<lparr>replying := Some s\<rparr>)"
  let ?g = "\<lambda>t :: Thread. t\<lparr>mailbox := [msg ! 0, msg ! 1, 0, 0, 0], handshake := serve (handshake t)\<rparr>"
  let ?k2 = "upd_thread ?k1 t ?g"
  have cur: "current_thread_id k c = u" by (simp add: current_thread_id_def cpu_of_def u_def)
  have k': "r = Inr ()" "k' = wake ?k2 c t"
    using inv cap w th tu wf by (simp_all add: reply_invoke_def ipc_reply_def cur)
  have get: "get_thread k' = (get_thread k)(u \<mapsto> hu\<lparr>replying := Some s\<rparr>,
      t \<mapsto> (?g th)\<lparr>handshake := snd (try_wake (serve (handshake th)))\<rparr>)"
    using get_wake [of ?k2 t "?g th" c] wf th(1) hu(1) tu by (simp add: k'(2))
  have cur': "current_thread_id k' c = u" using cur call by (simp add: k'(2) current_wake calls_def) (simp add: current_thread_id_def cpu_of_def)
  have one: "\<exists>th. get_thread k' t = Some th \<and> mailbox th = [msg ! 0, msg ! 1, 0, 0, 0] \<and> ipc_served (handshake th)
      \<and> (state (handshake th) = Ready \<or> on_cpu (handshake th) \<and> wake_pending (handshake th))"
    using th(3) by (auto simp: get try_wake_def serve_def is_delivered_def)
  obtain e cs seen where d: "delete (capability_table hu, cap_peak_seen k') s = (e, cs, seen)"
    by (cases "delete (capability_table hu, cap_peak_seen k') s")
  note slots = delete_slots [OF d]
  let ?k3 = "snd (delete_current_cap k' c s)"
  have wf': "gt_wf (threads k')" using ok_reply_invoke [OF ok call, of s msg] inv ok_butD(6) by fastforce
  have get3: "get_thread ?k3 = (get_thread k')(u \<mapsto> hu\<lparr>capability_table := cs, replying := None\<rparr>)"
    using d get tu wf' by (simp add: delete_current_cap_def cur' Let_def)
  have "(v, i) \<notin> holders ?k3 t" for v i
  proof
    assume "(v, i) \<in> holders ?k3 t"
    then have "(v, i) \<in> holders k t \<and> (v = u \<longrightarrow> i \<noteq> unat s)"
      using hu(1,4) th(1) tu slots
      by (auto simp: holders_def get3 get live_replies_def reply_slots_def split: if_splits)
    with th(2) show False by auto
  qed
  with k'(1) one show ?thesis by auto
qed

theorem reply_reaches_its_caller_once_witness:
  "\<exists>r k'. calls called 0 \<and> map_sum (\<lambda>_. ()) object (current_cap called 0 0) = Inr (ObReply 0)
    \<and> reply_invoke called 0 0 [1, 2, 3] = (r, k') \<and> r = Inr ()
    \<and> (\<exists>th. get_thread k' 0 = Some th \<and> mailbox th = [1, 2, 0, 0, 0]) \<and> holders (snd (delete_current_cap k' 0 0)) 0 = {}"
proof -
  have call: "calls called 0" and c: "map_sum (\<lambda>_. ()) object (current_cap called 0 0) = Inr (ObReply 0)" by code_simp+
  obtain cap where cap: "current_cap called 0 0 = Inr cap" "object cap = ObReply 0"
    using c by (cases "current_cap called 0 0") auto
  obtain r k' where inv: "reply_invoke called 0 0 [1, 2, 3] = (r, k')" by (cases "reply_invoke called 0 0 [1, 2, 3]")
  from reply_reaches_its_caller_once [OF called_reachable call cap inv] call c inv show ?thesis by auto
qed


section \<open>Revocation\<close>




section \<open>Timers\<close>

text \<open>C17. The expiry walk, at the time \<open>now\<close> it reads under the lock, signals the target of every timer that is
  due then, each once and in table order, disarms exactly those timers, owes an interrupt to every core a wake
  placed a thread on, and makes the cached earliest deadline exact.  A tick that reads the cache as it is and
  does not go on to the walk had nothing to fire; one that reads an older value may go on to a walk that fires
  nothing, or may leave what is due to a later tick.\<close>

theorem expiry_walk_is_exact:
  assumes "reachable (k, tm)" and run: "handles k c"
  shows "(\<exists>k' poke tm'. signal_all c k 0 (fired_targets now (timers_of tm)) = Some (k', poke)
    \<and> kernel_expire_timers k tm c now = Some (k'\<lparr>owed := filter (\<lambda>cpu. bit poke cpu) [0..<length (percpu k')] @ owed k'\<rparr>, tm')
    \<and> timers_of tm' = disarm_due now (timers_of tm) \<and> earliest_deadline tm' = earliest (timers_of tm'))
   \<and> (\<not> fst (on_tick k c (earliest_deadline tm) now) \<longrightarrow> fired_targets now (timers_of tm) = [])"
proof -
  obtain Q where ok: "kernel_ok k Q" and tm: "timers_ok tm" by (rule reachable_kernel_ok [OF assms(1)])
  have wf: "gt_wf (timer_table tm)" and cache: "cache_sound (timers_of tm, earliest_deadline tm)"
    using tm by (simp_all add: timers_ok_def)
  have "ok_but {} {cpu. bit (0 :: u64) cpu} k Q" using ok by simp
  then obtain k' poke where s: "signal_all c k 0 (fired_targets now (timers_of tm)) = Some (k', poke)"
    using ok_signal_all [of 0 k Q c "fired_targets now (timers_of tm)"] handlesD [OF run] by blast
  have len: "length (disarm_due now (timers_of tm)) = length (timers_of tm)" by (simp add: disarm_due_def)
  have "fired_targets now (timers_of tm) = []" if "\<not> fst (on_tick k c (earliest_deadline tm) now)"
    using sound_not_due [OF cache] that by (auto simp: on_tick_def fired_targets_def filter_empty_conv)
  then show ?thesis
    using s write_timers(2) [OF wf len] by (auto simp: kernel_expire_timers_def expire_loop_exact [OF wf] timers_of_def)
qed

theorem expiry_walk_is_exact_witness:
  "handles (fst armed_machine) 0 \<and> fired_targets 100 (timers_of (snd armed_machine)) = [(0, 4)]
   \<and> (\<exists>k' tm'. kernel_expire_timers (fst armed_machine) (snd armed_machine) 0 100 = Some (k', tm') \<and> timers_of tm' = [Timer None])
   \<and> \<not> fst (on_tick (fst armed_machine) 0 (earliest_deadline (snd armed_machine)) 99)
   \<and> fired_targets 99 (timers_of (snd armed_machine)) = []"
proof -
  have c: "handles (fst armed_machine) 0" "fired_targets 100 (timers_of (snd armed_machine)) = [(0, 4)]"
    "disarm_due 100 (timers_of (snd armed_machine)) = [Timer None]"
    "\<not> fst (on_tick (fst armed_machine) 0 (earliest_deadline (snd armed_machine)) 99)" by code_simp+
  from expiry_walk_is_exact [OF armed_reachable c(1), of 100] expiry_walk_is_exact [OF armed_reachable c(1), of 99] c
  show ?thesis by auto
qed














section \<open>A start that is refused\<close>

text \<open>C39. A \<open>START\<close> that fails for want of a kernel stack has already recorded the supervisor and emptied the
  reserved slot.  The thread is then an embryo inside a supervision domain: a survey of the domain includes it
  and reports it as ready.\<close>

theorem refused_start_leaves_a_supervised_embryo:
  assumes "reachable (k, tm)" and th: "get_thread k t = Some th" "state (handshake th) = Embryo"
    and whole: "space th \<noteq> None" "fst (entry th) \<noteq> 0"
    and cap: "get (capability_table th) FAULT_EP_SLOT = Inr cap" "object cap = ObRendezvous ep badge"
  shows "\<exists>k' th'. start_thread_control_block k c t args False = Some (Inl IeOutOfMemory, k')
    \<and> get_thread k' t = Some th' \<and> state (handshake th') = Embryo
    \<and> survey_includes (fault_ep th') ep \<and> survey_state (state (handshake th')) = SURVEY_READY
    \<and> get (capability_table th') FAULT_EP_SLOT = Inl NoSuchSlot"
proof -
  obtain Q where ok: "kernel_ok k Q" by (rule reachable_kernel_ok [OF assms(1)])
  obtain e cs seen where d: "delete (capability_table th, 0) FAULT_EP_SLOT = (e, cs, seen)"
    by (cases "delete (capability_table th, 0) FAULT_EP_SLOT")
  have sup: "adopt_supervisor th = th\<lparr>fault_ep := Some ep, capability_table := cs\<rparr>"
    using cap d by (simp add: adopt_supervisor_def)
  have "get cs FAULT_EP_SLOT = Inl NoSuchSlot" using delete_slots [OF d, of "unat FAULT_EP_SLOT"] by (simp add: get_def)
  then show ?thesis
    using th whole sup ok_butD(6) [OF ok] by (simp add: start_thread_control_block_def Let_def survey_includes_def)
qed

theorem refused_start_leaves_a_supervised_embryo_witness:
  "\<exists>k' th'. start_thread_control_block supervised 0 2 [0, 0, 0] False = Some (Inl IeOutOfMemory, k')
    \<and> get_thread k' 2 = Some th' \<and> state (handshake th') = Embryo \<and> survey_includes (fault_ep th') 0"
proof -
  have "map_option (\<lambda>th. (state (handshake th), space th, fst (entry th), map_option object (slot (capability_table th) (unat FAULT_EP_SLOT))))
      (get_thread supervised 2) = Some (Embryo, Some 1, 0x400000, Some (ObRendezvous 0 0))" by code_simp
  then obtain th cap where th: "get_thread supervised 2 = Some th" "state (handshake th) = Embryo" "space th \<noteq> None" "fst (entry th) \<noteq> 0"
    "get (capability_table th) FAULT_EP_SLOT = Inr cap" "object cap = ObRendezvous 0 0"
    by (auto simp: get_def)
  from refused_start_leaves_a_supervised_embryo [OF supervised_reachable th] show ?thesis by blast
qed

end
