(* ===== verification/Spec2Isabelle.thy ===== *)
theory Spec2Isabelle
  imports Capability Ipc_Rendezvous Ipc_Notification Ipc_Timer Region_Safety Frame_Bringup Asid Virtio
    Dma_Domain Work_Steal Kernel_Safety
begin

text \<open>
  \<^bold>\<open>A verification library for the nife kernel.\<close>

  Nife is a capability microkernel in Rust for aarch64, RISC-V and x86-64.  Its policy lives in small
  crates under \<open>src/crates\<close> that are pure state machines, driven by the kernel under
  \<open>src/kernel\<close>, which adds locks, hardware and scheduling.  User components under
  \<open>src/components\<close> hold capabilities and speak protocols over the kernel's message passing.  This
  development models the crates the kernel's isolation rests on, and the kernel code that composes
  them, and proves what each promises.

  \<^bold>\<open>How the model is written.\<close>
  A Rust \<open>u8\<close> to \<open>u64\<close> is a word of that width, so arithmetic wraps as in a release build, and
  a checked or saturating operation of the source is the function of that name in \<open>Prelude\<close>;
  a \<open>usize\<close> is a natural number.  A struct is a record, an enum a datatype.  \<open>Result\<close> is a sum
  with the error on the left and \<open>Option\<close> an option; a panic or a failed assertion is \<open>None\<close>.
  An operation on \<open>&mut self\<close> returns the new state.  A loop is a recursive function; where the
  source gives no bound it is a partial function in the option monad, in which \<open>None\<close> is a loop
  that does not end, and the properties prove that it ends.  Memory shared with an untrusted driver is
  a value for each read, in order, so that nothing is assumed about what a second read sees.

  \<^bold>\<open>Names and capabilities.\<close>
  \<^item> \<open>Capability\<close> models \<open>crates/capability\<close>: rights, the table of slots with its free-slot mask,
    insertion, lookup, derivation, deletion and the supervision decisions.  Rights never widen along
    any sequence of operations, the mask always agrees with the slots, and derivation has exactly the
    outcomes its guards say.
  \<^item> \<open>Generational_Table\<close> models \<open>crates/generational_table\<close>: names that carry a slot and a
    generation.  The table is a finite map keyed by fresh names, a removed name stays dead until its
    32-bit generation wraps, and the walks bounded by the high-water mark miss nothing.  The locale
    \<open>name_table\<close> is its contract, and the region table relies on that contract only.
  \<^item> \<open>Id_Allocator\<close> is the contract of an allocator of names, a locale whose client lemma says
    that over any requests and returns nothing is held twice.  \<open>Page_Frames\<close> and \<open>Asid\<close>
    interpret it.

  \<^bold>\<open>Message passing.\<close>
  \<^item> \<open>Intrusive_Fifo\<close> models \<open>crates/intrusive_fifo\<close>: a queue threaded through link fields of its
    elements, in an explicit heap of links.  It refines lists and writes no link of an element not
    involved; the locale \<open>intrusive_queue\<close> is that contract.
  \<^item> \<open>Ipc_Rendezvous\<close>, \<open>Ipc_Notification\<close> and \<open>Ipc_Timer\<close> model
    \<open>crates/inter_process_communication\<close>.  Each operation refines a contract on lists; no thread,
    signal or bit is lost or delivered twice along any contract-respecting sequence; every drain
    ends, also when it re-queues the threads it takes through the links they waited with.  \<open>Ipc_Timer\<close> is
    one timer and the steps of the expiry walk; the table of them is the kernel's.

  \<^bold>\<open>Memory.\<close>
  \<^item> \<open>Page_Frames\<close> models \<open>crates/page_frames\<close>, the bitmap allocator, and \<open>Frame_Bringup\<close> the
    code of \<open>kernel/src/memory.rs\<close> that places the bitmap and marks RAM and reserved regions: after
    bring-up exactly the frames that share a byte with RAM and none with a reserved region or the
    bitmap are free.
  \<^item> \<open>Memory_Regions\<close> models \<open>crates/memory_regions\<close>, the watermark arithmetic and the table of
    regions; \<open>Region_Tree\<close> is the geometry of a forest of nested spans; \<open>Region_Safety\<close> runs the
    table as \<open>kernel/src/memory_region.rs\<close> does, with claims in flight outside the lock, as a step
    relation.  In every reachable state no page is in two hands and no run is freed twice.
  \<^item> \<open>Asid\<close> models \<open>crates/address_space_identifier\<close>.

  \<^bold>\<open>Translation and devices.\<close>
  \<^item> \<open>Paging_Format\<close> models the flags, sizes and formats of \<open>crates/paging\<close> (aarch64, Sv39, IA-32e
    and the VT-d second level) bit by bit.  The locale \<open>lawful_format\<close> is what the walk needs of a
    format; all four interpret it.  Leaves decode to what they were built from, and none is writable
    and executable.
  \<^item> \<open>Paging_Mapper\<close> models the mapper over physical memory as a map from table addresses to
    entries.  The locale \<open>frame_source\<close> is the contract of the closure that supplies tables, and
    the locale \<open>mapper\<close> joins it to a lawful format.  Its invariant is that the tables are a tree:
    no two paths of indices lead to one table, and no table is a frame still to be handed out.
    Under it an operation is described by what it does to the translation of every address.
  \<^item> \<open>Frame_Source\<close> interprets \<open>frame_source\<close> on the page frame allocator and states the
    properties of mapping, unmapping and spans.
  \<^item> \<open>Dma_Domain\<close> models \<open>paging/src/domain.rs\<close> and \<open>kernel/src/iommu.rs\<close>: the domain of a device
    is exactly its grant, and holds none of its own tables.
  \<^item> \<open>Bytes\<close> is byte-addressed memory and little-endian integers.  \<open>Dma_Validator\<close> models
    \<open>crates/direct_memory_access_validator\<close>, the walk of a driver's descriptor chains and the shadow
    ring; \<open>Virtio\<close> models \<open>kernel/src/virtio.rs\<close>, registration, filtered register writes, queue
    setup and notification, as a step relation.  In every reachable state every descriptor a device
    can act on names only its driver's region, whatever the driver's memory shows while it is read; and
    for a driver that leaves its rings alone the doorbell is rung exactly for the batches that pass.

  \<^bold>\<open>The scheduler and the machine.\<close>
  The theories \<open>Kernel_*\<close> model \<open>kernel/src/sched.rs\<close> with \<open>cpu.rs\<close>, \<open>thread.rs\<close>, \<open>cap.rs\<close>, \<open>smp.rs\<close> and the
  parts of \<open>syscall.rs\<close> it needs.  One hold of the \<open>IPC_TABLES\<close> lock is one definition, so a blocking call is
  two: the part before its \<open>schedule\<close> and the part after it.  A thread's control block is named by its
  identifier, and every queue of the machine is an intrusive queue over one heap of links.
  \<^item> \<open>Wake_Handshake\<close> models \<open>crates/thread_wake_handshake\<close>, \<open>Work_Steal\<close> \<open>crates/work_steal_slot\<close> (a request is
    delivered once under any interleaving) and \<open>Cpu_Set\<close> \<open>crates/cpu_set\<close>.
  \<^item> \<open>Kernel_State\<close> holds threads, cores and tables.  \<open>Kernel_Sched\<close> holds placement, spawning, migration,
    stealing, waking, the switch in its two halves and bring-up; \<open>Kernel_Ipc\<close> sending, calling,
    receiving, replying, interrupts and notifications; \<open>Kernel_Life\<close> departure and its death message, the
    armed kill, the building and starting of a thread, the survey, and the sweeps that revoke a capability
    everywhere; \<open>Kernel_Timer\<close> the timer table, the tick, the expiry walk and the
    teardown of a region's timers.  A tick reads the cached deadline without the lock: what it read is an
    argument, and need not be what is there.
  \<^item> \<open>Kernel_Inv\<close> states the invariant.  It is local to a thread: it relates its record to the queues it is
    on, the cores that stand on it and the reply capabilities that name it.  \<open>ok_but A R k Q\<close> leaves out the
    threads an operation is in the middle of changing and the interrupts it still owes.  \<open>Kernel_Frame\<close> and
    \<open>Kernel_Objects\<close> have one rule for each kind of write; \<open>Kernel_Wake\<close>, \<open>Kernel_Switch\<close>, \<open>Kernel_Migrate\<close>,
    \<open>Kernel_Ipc_Inv\<close>, \<open>Kernel_Reply_Inv\<close>, \<open>Kernel_Note_Inv\<close>, \<open>Kernel_Life_Inv\<close>, \<open>Kernel_Sweep\<close> and
    \<open>Kernel_Timer\<close> follow each operation by those rules, and show that it returns and keeps the invariant.
  \<^item> \<open>Kernel_Steps\<close> is the machine: the operations of every core in any order, each with the guard that says
    where a core may take it: in neither half of a switch or a reply, on or off its interrupt stack (a flag
    of the core; \<open>schedule\<close> asserts it in debug builds).
    \<open>declared_panic\<close> lists the panics the source asks for, with their conditions: a core that comes up without
    a page or a table slot for its thread, in a debug build a thread placed on a core that is not online, an
    interrupt number out of range.  \<open>Kernel_Safety\<close> states what holds in every reachable state: an operation
    panics exactly where that list says, debug assertions included; no thread stands on two cores; every thread is where its state says;
    no wake is lost in the window of a switch; a filled inbox has its interrupt; a reply capability is
    unique and its reply arrives once; a revoked frame is in no thread's hands; the expiry walk fires
    exactly the timers that are due, and an armed timer stays armed until it does.

  \<^bold>\<open>Bounds and fuel.\<close>
  No property rests on fuel.  The walk of a descriptor chain is bounded in the source itself, by the
  queue size.  Physical addresses given to the mapper are below \<open>2^48\<close>, the width of the narrowest
  address field (aarch64); RAM above it would be truncated by that format.  Bring-up assumes
  that the regions of memory it is told of end at or below \<open>2^56\<close>, the widest physical address of the
  three architectures.  A root region of the region table is fewer than \<open>2^32\<close> pages and does not
  wrap.  The generation of a name wraps after \<open>2^32\<close> removals of one slot, and the
  theorem on dead names says so.  The machine has at most 64 cores, the width of the online mask, and its
  tables at most \<open>2^32 - 1\<close> slots, the width of a slot number; the source has 256 threads.

  \<^bold>\<open>What is not modelled.\<close>
  The lock itself and the memory order of processors: each modelled operation runs under one lock in
  the source and is one step here, and where the source leaves the lock between two parts (a blocking
  call, a reply, a switch, the destruction of a region, a driver writing while the kernel reads) the
  step relation interleaves them.  The assembly of a context switch, kernel stacks, saved registers and
  floating-point state: a core that has switched has a new current thread and a thread it has still to
  finish with.  The assertions that a lock is taken in rank order and that a run queue is touched with
  interrupts masked: they speak of the lock and of the interrupt mask.  The counters a tick adds to, its
  corruption check, and the soak and console-flood hooks of test builds.  In a release build \<open>spawn_on\<close> does not check
  that its target is online, and the machine makes no call with a target that is not.  Running a closure,
  the quota of a spawn, the cycle-counter and port-range grants that a switch installs in registers, and
  the port-range sweep, which edits them.  The sweep of a destroyed region's threads and objects
  (\<open>reap_region_objects\<close>): of the objects on the region's memory only its timers are swept.  A thread's
  address space is a name; loading one is not modelled.  The registers and page-table caches of the
  hardware: register writes are events, hardware answers are arguments, and \<open>translate\<close> is the
  software walk that the source gives as its statement of what the hardware does.  The obligation to
  flush a translation is a value returned; that dropping it panics is not modelled.  The device-tree and
  ACPI front ends: the regions they find are arguments.  The dispatch of a system call from its trap
  frame, file systems, protocols and programs are listed in the manifest with the reason for each.
\<close>

end
